(* ===== verification/Prelude.thy ===== *)
theory Prelude
  imports Main
begin

text \<open>
  What the component theories share: the values JavaScript exceptions are modelled by, the type of
  an operation that may change its state and then throw, the combinators such operations are
  composed with, and generic lemmas on lists, maps and cardinalities that more than one component
  uses.

  An operation of the source that mutates an object and may throw is a function from the state to
  a pair: \<open>Inl e\<close> when it threw \<open>e\<close> and \<open>Inr v\<close> when it returned \<open>v\<close>, with the state it left
  behind in both cases. A throw does not undo the writes before it, exactly as in the source.
\<close>

section \<open>Exceptions and operations\<close>

text \<open>
  The exceptions the modelled code creates or passes on. \<open>Canceled\<close> is \<open>CanceledError\<close> of
  \<open>src/io/io-gate.ts\<close>; every other exception is its message.
\<close>

datatype js_exn = Canceled | Failure string

type_synonym ('s, 'a) op = "'s \<Rightarrow> (js_exn + 'a) \<times> 's"

definition op_return :: "'a \<Rightarrow> ('s, 'a) op" where
  "op_return v s = (Inr v, s)"

definition op_throw :: "js_exn \<Rightarrow> ('s, 'a) op" where
  "op_throw e s = (Inl e, s)"

definition op_bind :: "('s, 'a) op \<Rightarrow> ('a \<Rightarrow> ('s, 'b) op) \<Rightarrow> ('s, 'b) op" where
  "op_bind m f s = (case m s of (Inl e, t) \<Rightarrow> (Inl e, t) | (Inr v, t) \<Rightarrow> f v t)"

definition op_modify :: "('s \<Rightarrow> 's) \<Rightarrow> ('s, unit) op" where
  "op_modify f s = (Inr (), f s)"

text \<open>\<open>op_catch m h\<close> is \<open>try { m } catch (e) { h(e) }\<close>; \<open>op_finally m f\<close> is \<open>try { m } finally { f }\<close>,
  whose own exception wins over the one in flight.\<close>

definition op_catch :: "('s, 'a) op \<Rightarrow> (js_exn \<Rightarrow> ('s, 'a) op) \<Rightarrow> ('s, 'a) op" where
  "op_catch m h s = (case m s of (Inl e, t) \<Rightarrow> h e t | (Inr v, t) \<Rightarrow> (Inr v, t))"

definition op_finally :: "('s, 'a) op \<Rightarrow> ('s, unit) op \<Rightarrow> ('s, 'a) op" where
  "op_finally m f s =
     (case m s of (r, t) \<Rightarrow> (case f t of (Inl e, u) \<Rightarrow> (Inl e, u) | (Inr _, u) \<Rightarrow> (r, u)))"

named_theorems op_simps \<open>unfolding the operation combinators\<close>

lemmas [op_simps] = op_return_def op_throw_def op_bind_def op_modify_def op_catch_def
  op_finally_def

lemma op_bind_Inr: "m s = (Inr v, t) \<Longrightarrow> op_bind m f s = f v t"
  by (simp add: op_bind_def)

lemma op_bind_Inl: "m s = (Inl e, t) \<Longrightarrow> op_bind m f s = (Inl e, t)"
  by (simp add: op_bind_def)

lemma op_bind_eq_Inr:
  "op_bind m f s = (Inr v, u) \<longleftrightarrow> (\<exists>w t. m s = (Inr w, t) \<and> f w t = (Inr v, u))"
  by (auto simp: op_bind_def split: prod.splits sum.splits)

section \<open>Lists and finite sets\<close>

lemma set_remove1_distinct: "distinct xs \<Longrightarrow> set (remove1 x xs) = set xs - {x}"
  by simp

lemma remove1_hd: "remove1 x (x # xs) = xs"
  by simp

lemma card_insert_new:
  "finite A \<Longrightarrow> x \<notin> A \<Longrightarrow> card (insert x A) = Suc (card A)"
  by simp

lemma card_minus_member:
  "finite A \<Longrightarrow> x \<in> A \<Longrightarrow> card (A - {x}) = card A - 1"
  by (rule card_Diff_singleton)

lemma finite_below [simp, intro]: "finite {l. l < (n::nat) \<and> P l}"
  by (rule finite_subset [of _ "{..<n}"]) auto

end
