(* ===== verification/Input_Gate.thy ===== *)
theory Input_Gate
  imports Prelude
begin

text \<open>
  The input gate and its critical sections, \<open>src/src/io/io-gate.ts\<close>: the classes \<open>InputGate\<close>,
  \<open>Waiter\<close>, \<open>Lock\<close> and \<open>CriticalSection\<close>, and \<open>makeReentryCallback\<close>.

  The objects live on a heap: gates, locks and waiters are numbered in the order they are created
  and the maps of \<open>gate_sys\<close> give their fields. A \<open>CriticalSection\<close> is a gate whose \<open>sect\<close> is
  present (\<open>instanceof CriticalSection\<close>). A promise is the outcome its waiter has, \<open>Pending\<close> until
  it settles; the coroutine of a critical section's initial \<open>wait()\<close> is suspended on the waiter
  \<open>sec_await\<close> and is resumed by \<open>cs_resume\<close>. Hooks are called on the root gate only, a critical
  section having the default ones that do nothing; the calls are appended to \<open>hook_log\<close>.
\<close>

section \<open>State\<close>

datatype broken_state = NoBroken | Fulfiller | Exception js_exn

datatype cs_state = NOT_STARTED | INITIAL_WAIT | RUNNING | REPARENTED

datatype wait_outcome = Pending | Resolved nat | Rejected js_exn

datatype gate_hook = GateLocked | GateReleased | WaiterAdded | WaiterRemoved

record waiter =
  w_gate :: nat
  w_child :: bool
  w_linked :: bool
  w_outcome :: wait_outcome

record section_info =
  sec_state :: cs_state
  sec_parent :: nat
  sec_parent_lock :: "nat option"
  sec_await :: "nat option"

record gate =
  lock_count :: nat
  waiters :: "nat list"
  waiting_children :: "nat list"
  broken :: broken_state
  broken_promise :: "js_exn option"
  sect :: "section_info option"

record gate_sys =
  gates :: "nat \<Rightarrow> gate"
  n_gates :: nat
  locks :: "nat \<Rightarrow> nat option"
  n_locks :: nat
  wtrs :: "nat \<Rightarrow> waiter"
  n_wtrs :: nat
  hook_log :: "gate_hook list"

type_synonym 'a gop = "(gate_sys, 'a) op"

definition upd_gate :: "nat \<Rightarrow> (gate \<Rightarrow> gate) \<Rightarrow> gate_sys \<Rightarrow> gate_sys" where
  "upd_gate g f s = s\<lparr>gates := (gates s)(g := f (gates s g))\<rparr>"

definition upd_wtr :: "nat \<Rightarrow> (waiter \<Rightarrow> waiter) \<Rightarrow> gate_sys \<Rightarrow> gate_sys" where
  "upd_wtr w f s = s\<lparr>wtrs := (wtrs s)(w := f (wtrs s w))\<rparr>"

definition upd_sec :: "nat \<Rightarrow> (section_info \<Rightarrow> section_info) \<Rightarrow> gate_sys \<Rightarrow> gate_sys" where
  "upd_sec c f = upd_gate c (\<lambda>gt. gt\<lparr>sect := map_option f (sect gt)\<rparr>)"

definition new_gate :: "section_info option \<Rightarrow> gate" where
  "new_gate sec = \<lparr>lock_count = 0, waiters = [], waiting_children = [], broken = Fulfiller,
     broken_promise = None, sect = sec\<rparr>"

text \<open>An actor's gate, and nothing else yet: the root gate is number 0.\<close>

definition init_sys :: gate_sys where
  "init_sys = \<lparr>gates = (\<lambda>_. new_gate None), n_gates = 1, locks = (\<lambda>_. None), n_locks = 0,
     wtrs = (\<lambda>_. \<lparr>w_gate = 0, w_child = False, w_linked = False, w_outcome = Rejected Canceled\<rparr>),
     n_wtrs = 0, hook_log = []\<rparr>"

definition call_hook :: "nat \<Rightarrow> gate_hook \<Rightarrow> gate_sys \<Rightarrow> gate_sys" where
  "call_hook g h s =
     (if sect (gates s g) = None then s\<lparr>hook_log := hook_log s @ [h]\<rparr> else s)"

section \<open>The parent chain\<close>

definition reparented :: "gate_sys \<Rightarrow> nat \<Rightarrow> bool" where
  "reparented s g \<longleftrightarrow> (case sect (gates s g) of None \<Rightarrow> False | Some i \<Rightarrow> sec_state i = REPARENTED)"

text \<open>
  The loop of \<open>parentAsInputGate()\<close>, with a bound on its turns. A critical section is created after
  its parent, so the number of the gate falls at every turn and the section's own number is
  a bound that is never reached (\<open>walk_parent_not_reparented\<close>).
\<close>

fun walk_parent :: "nat \<Rightarrow> gate_sys \<Rightarrow> nat \<Rightarrow> nat" where
  "walk_parent 0 s parent = parent"
| "walk_parent (Suc n) s parent =
     (case sect (gates s parent) of
        None \<Rightarrow> parent
      | Some i \<Rightarrow> if sec_state i \<noteq> REPARENTED then parent else walk_parent n s (sec_parent i))"

definition parent_as_input_gate :: "gate_sys \<Rightarrow> nat \<Rightarrow> nat" where
  "parent_as_input_gate s c =
     (case sect (gates s c) of None \<Rightarrow> c | Some i \<Rightarrow> walk_parent c s (sec_parent i))"

section \<open>Waiters\<close>

definition new_waiter :: "nat \<Rightarrow> bool \<Rightarrow> gate_sys \<Rightarrow> nat \<times> gate_sys" where
  "new_waiter g child s =
     (let w = n_wtrs s;
          s1 = s\<lparr>wtrs := (wtrs s)(w := \<lparr>w_gate = g, w_child = child, w_linked = True,
                                        w_outcome = Pending\<rparr>), n_wtrs := Suc w\<rparr>;
          s2 = call_hook g WaiterAdded s1
      in (w, if child then upd_gate g (\<lambda>gt. gt\<lparr>waiting_children := waiting_children gt @ [w]\<rparr>) s2
             else upd_gate g (\<lambda>gt. gt\<lparr>waiters := waiters gt @ [w]\<rparr>) s2))"

definition waiter_unlink :: "nat \<Rightarrow> unit gop" where
  "waiter_unlink w s =
     (if \<not> w_linked (wtrs s w) then (Inr (), s)
      else
        (let s1 = upd_wtr w (\<lambda>x. x\<lparr>w_linked := False\<rparr>) s;
             g = w_gate (wtrs s w);
             child = w_child (wtrs s w);
             list = (if child then waiting_children (gates s g) else waiters (gates s g))
         in if w \<notin> set list
            then (Inl (Failure ''InputGate::Waiter is linked but absent from its gate's list''), s1)
            else (Inr (),
              if child then upd_gate g (\<lambda>gt. gt\<lparr>waiting_children := remove1 w list\<rparr>) s1
              else upd_gate g (\<lambda>gt. gt\<lparr>waiters := remove1 w list\<rparr>) s1)))"

text \<open>Settling a promise a second time does nothing.\<close>

definition settle :: "nat \<Rightarrow> wait_outcome \<Rightarrow> gate_sys \<Rightarrow> gate_sys" where
  "settle w r = upd_wtr w (\<lambda>x. if w_outcome x = Pending then x\<lparr>w_outcome := r\<rparr> else x)"

definition waiter_fulfill :: "nat \<Rightarrow> nat \<Rightarrow> unit gop" where
  "waiter_fulfill w l =
     op_bind (waiter_unlink w) (\<lambda>_ s.
       (Inr (), settle w (Resolved l) (call_hook (w_gate (wtrs s w)) WaiterRemoved s)))"

definition waiter_reject :: "nat \<Rightarrow> js_exn \<Rightarrow> unit gop" where
  "waiter_reject w e =
     op_bind (waiter_unlink w) (\<lambda>_ s.
       (Inr (), settle w (Rejected e) (call_hook (w_gate (wtrs s w)) WaiterRemoved s)))"

fun reject_all :: "nat list \<Rightarrow> js_exn \<Rightarrow> unit gop" where
  "reject_all [] e = op_return ()"
| "reject_all (w # ws) e = op_bind (waiter_reject w e) (\<lambda>_. reject_all ws e)"

text \<open>The abort listener of \<open>newWaiterPromise\<close>.\<close>

definition abort_waiter :: "nat \<Rightarrow> unit gop" where
  "abort_waiter w s =
     (if \<not> w_linked (wtrs s w) then (Inr (), s) else waiter_reject w Canceled s)"

section \<open>Locks\<close>

text \<open>\<open>new Lock(gate)\<close>.\<close>

definition mk_lock :: "nat \<Rightarrow> gate_sys \<Rightarrow> nat \<times> gate_sys" where
  "mk_lock g s =
     (let l = n_locks s;
          target = (if reparented s g then parent_as_input_gate s g else g);
          s1 = s\<lparr>locks := (locks s)(l \<mapsto> g), n_locks := Suc l\<rparr>;
          s2 = upd_gate target (\<lambda>gt. gt\<lparr>lock_count := Suc (lock_count gt)\<rparr>) s1
      in (l, if lock_count (gates s2 target) = 1 then call_hook target GateLocked s2 else s2))"

text \<open>\<open>releaseLock()\<close> of a gate that is not a reparented section.\<close>

definition release_held :: "nat \<Rightarrow> unit gop" where
  "release_held g s =
     (if lock_count (gates s g) = 0
      then (Inl (Failure ''InputGate::releaseLock() with no locks outstanding''), s)
      else
        (let s1 = upd_gate g (\<lambda>gt. gt\<lparr>lock_count := lock_count gt - 1\<rparr>) s
         in if lock_count (gates s1 g) = 0
            then
              (let s2 = call_hook g GateReleased s1
               in case waiting_children (gates s2 g) of
                    child # _ \<Rightarrow> (let (l, s3) = mk_lock g s2 in waiter_fulfill child l s3)
                  | [] \<Rightarrow>
                      (case waiters (gates s2 g) of
                         w # _ \<Rightarrow> (let (l, s3) = mk_lock g s2 in waiter_fulfill w l s3)
                       | [] \<Rightarrow> (Inr (), s2)))
            else (Inr (), s1)))"

text \<open>
  \<open>releaseLock()\<close>. The forwarded call lands on a gate that is not reparented, which is where the
  loop of \<open>parentAsInputGate()\<close> stops, so it takes the other branch.
\<close>

definition release_lock :: "nat \<Rightarrow> unit gop" where
  "release_lock g s =
     (if reparented s g
      then
        (if waiting_children (gates s g) \<noteq> [] \<or> waiters (gates s g) \<noteq> [] \<or> lock_count (gates s g) \<noteq> 0
         then (Inl (Failure ''releasing a lock on a reparented CriticalSection that still holds state''), s)
         else release_held (parent_as_input_gate s g) s)
      else release_held g s)"

text \<open>\<open>Lock.release()\<close>.\<close>

definition lock_release :: "nat \<Rightarrow> unit gop" where
  "lock_release l s =
     (case locks s l of
        None \<Rightarrow> (Inl (Failure ''InputGate::Lock was released twice''), s)
      | Some g \<Rightarrow> release_lock g (s\<lparr>locks := (locks s)(l := None)\<rparr>))"

definition require_gate :: "nat \<Rightarrow> nat gop" where
  "require_gate l s =
     (case locks s l of
        None \<Rightarrow> (Inl (Failure ''InputGate::Lock was used after release''), s)
      | Some g \<Rightarrow> (Inr g, s))"

definition add_ref :: "nat \<Rightarrow> nat gop" where
  "add_ref l = op_bind (require_gate l) (\<lambda>g s. let (l', s') = mk_lock g s in (Inr l', s'))"

text \<open>\<open>startCriticalSection()\<close>, with the constructor of \<open>CriticalSection\<close>.\<close>

definition start_critical_section :: "nat \<Rightarrow> nat gop" where
  "start_critical_section l =
     op_bind (require_gate l) (\<lambda>g s.
       (let c = n_gates s
        in (Inr c, s\<lparr>gates := (gates s)(c := new_gate (Some \<lparr>sec_state = NOT_STARTED, sec_parent = g,
                                     sec_parent_lock = None, sec_await = None\<rparr>)),
                     n_gates := Suc c\<rparr>)))"

definition get_critical_section :: "nat \<Rightarrow> nat option gop" where
  "get_critical_section l =
     op_bind (require_gate l) (\<lambda>g s.
       (Inr (if sect (gates s g) = None then None else Some g), s))"

fun to_root :: "nat \<Rightarrow> gate_sys \<Rightarrow> nat \<Rightarrow> nat" where
  "to_root 0 s g = g"
| "to_root (Suc n) s g =
     (if sect (gates s g) = None then g else to_root n s (parent_as_input_gate s g))"

definition is_for :: "nat \<Rightarrow> nat \<Rightarrow> bool gop" where
  "is_for l other s =
     (if sect (gates s other) \<noteq> None
      then (Inl (Failure ''InputGate::Lock::isFor() takes the root gate, not a CriticalSection''), s)
      else op_bind (require_gate l) (\<lambda>g t. (Inr (to_root (Suc g) t g = other), t)) s)"

definition lock_equals :: "nat \<Rightarrow> nat \<Rightarrow> bool gop" where
  "lock_equals l l' =
     op_bind (require_gate l) (\<lambda>g. op_bind (require_gate l') (\<lambda>g'. op_return (g = g')))"

section \<open>Breaking a gate\<close>

definition set_broken :: "nat \<Rightarrow> js_exn \<Rightarrow> unit gop" where
  "set_broken g e s =
     op_bind (reject_all (waiting_children (gates s g)) e) (\<lambda>_ s1.
       op_bind (reject_all (waiters (gates s1 g)) e) (\<lambda>_ s2.
         (Inr (), upd_gate g (\<lambda>gt. gt\<lparr>
            broken_promise := (if broken gt = Fulfiller then Some e else broken_promise gt),
            broken := Exception e\<rparr>) s2)) s1) s"

text \<open>\<open>onBroken()\<close>: what the promise it returns has settled with so far.\<close>

definition on_broken :: "nat \<Rightarrow> gate_sys \<Rightarrow> js_exn option" where
  "on_broken g s = (case broken (gates s g) of Exception e \<Rightarrow> Some e | _ \<Rightarrow> broken_promise (gates s g))"

definition is_broken :: "gate_sys \<Rightarrow> nat \<Rightarrow> bool" where
  "is_broken s g \<longleftrightarrow> (case broken (gates s g) of Exception _ \<Rightarrow> True | _ \<Rightarrow> False)"

text \<open>
  \<open>failed()\<close> calls itself on the parent while the parent is a critical section. The bound is the
  number of the section, which falls at every call.
\<close>

fun cs_failed_n :: "nat \<Rightarrow> nat \<Rightarrow> js_exn \<Rightarrow> unit gop" where
  "cs_failed_n n c e s =
     (if is_broken s c then (Inr (), s)
      else op_bind (set_broken c e) (\<lambda>_ s1.
        (case sect (gates s1 c) of
           None \<Rightarrow> (Inr (), s1)
         | Some i \<Rightarrow>
             (if sect (gates s1 (sec_parent i)) = None then set_broken (sec_parent i) e s1
              else (case n of 0 \<Rightarrow> (Inr (), s1) | Suc m \<Rightarrow> cs_failed_n m (sec_parent i) e s1)))) s)"

definition cs_failed :: "nat \<Rightarrow> js_exn \<Rightarrow> unit gop" where
  "cs_failed c = cs_failed_n c c"

section \<open>Waiting\<close>

text \<open>
  What the promise of a \<open>wait()\<close> is at the end of the caller's synchronous slice: already settled,
  the promise of a waiter, or (for a section's initial wait) a coroutine suspended on a waiter.
\<close>

datatype wait_result = Granted nat | Denied js_exn | Queued nat | Starting nat

definition input_gate_wait :: "nat \<Rightarrow> bool \<Rightarrow> gate_sys \<Rightarrow> wait_result \<times> gate_sys" where
  "input_gate_wait g aborted s =
     (if aborted then (Denied Canceled, s)
      else (case broken (gates s g) of
              Exception e \<Rightarrow> (Denied e, s)
            | _ \<Rightarrow> (if lock_count (gates s g) = 0
                    then (let (l, s1) = mk_lock g s in (Granted l, s1))
                    else (let (w, s1) = new_waiter g False s in (Queued w, s1)))))"

definition cs_run :: "nat \<Rightarrow> nat \<Rightarrow> gate_sys \<Rightarrow> gate_sys" where
  "cs_run c l = upd_sec c (\<lambda>i. i\<lparr>sec_state := RUNNING, sec_parent_lock := Some l, sec_await := None\<rparr>)"

text \<open>The \<open>NOT_STARTED\<close> arm of \<open>CriticalSection.wait()\<close> up to its first \<open>await\<close>.\<close>

definition cs_initial_wait :: "nat \<Rightarrow> gate_sys \<Rightarrow> wait_result \<times> gate_sys" where
  "cs_initial_wait c s =
     (let s1 = upd_sec c (\<lambda>i. i\<lparr>sec_state := INITIAL_WAIT\<rparr>) s;
          target = parent_as_input_gate s1 c
      in case broken (gates s1 target) of
           Exception e \<Rightarrow>
             (case set_broken c e s1 of (Inl e', s2) \<Rightarrow> (Denied e', s2) | (Inr _, s2) \<Rightarrow> (Denied e, s2))
         | _ \<Rightarrow>
             (if lock_count (gates s1 target) = 0
              then (let (l, s2) = mk_lock target s1 in input_gate_wait c False (cs_run c l s2))
              else (let (w, s2) = new_waiter target True s1
                    in (Starting w, upd_sec c (\<lambda>i. i\<lparr>sec_await := Some w\<rparr>) s2))))"

text \<open>
  The virtual \<open>wait()\<close>, on the root gate and on a critical section. A reparented section forwards to
  its parent, whose number is smaller; the bound is the section's own number.
\<close>

fun gate_wait_n :: "nat \<Rightarrow> nat \<Rightarrow> bool \<Rightarrow> gate_sys \<Rightarrow> wait_result \<times> gate_sys" where
  "gate_wait_n n g aborted s =
     (case sect (gates s g) of
        None \<Rightarrow> input_gate_wait g aborted s
      | Some i \<Rightarrow>
          (if aborted then (Denied Canceled, s)
           else (case sec_state i of
                   NOT_STARTED \<Rightarrow> cs_initial_wait g s
                 | INITIAL_WAIT \<Rightarrow>
                     (Denied (Failure ''CriticalSection::wait() should be called once initially''), s)
                 | RUNNING \<Rightarrow> input_gate_wait g aborted s
                 | REPARENTED \<Rightarrow>
                     (case n of
                        0 \<Rightarrow> (Denied (Failure ''out of turns''), s)
                      | Suc m \<Rightarrow> gate_wait_n m (sec_parent i) aborted s))))"

definition gate_wait :: "nat \<Rightarrow> bool \<Rightarrow> gate_sys \<Rightarrow> wait_result \<times> gate_sys" where
  "gate_wait g = gate_wait_n g g"

text \<open>
  The rest of a section's initial \<open>wait()\<close>, once the waiter it is suspended on has settled.
  \<open>aborted\<close> is the state of the caller's signal at that moment.
\<close>

definition cs_resume :: "nat \<Rightarrow> bool \<Rightarrow> gate_sys \<Rightarrow> wait_result \<times> gate_sys" where
  "cs_resume c aborted s =
     (case map_option (\<lambda>i. map_option (\<lambda>w. w_outcome (wtrs s w)) (sec_await i)) (sect (gates s c)) of
        Some (Some (Resolved l)) \<Rightarrow> input_gate_wait c aborted (cs_run c l s)
      | Some (Some (Rejected e)) \<Rightarrow>
          (let s1 = upd_sec c (\<lambda>i. i\<lparr>sec_await := None\<rparr>) s
           in if e = Canceled then (Denied e, s1)
              else (case set_broken c e (upd_sec c (\<lambda>i. i\<lparr>sec_state := RUNNING\<rparr>) s1) of
                      (Inl e', s2) \<Rightarrow> (Denied e', s2)
                    | (Inr _, s2) \<Rightarrow> (Denied e, s2)))
      | _ \<Rightarrow> (Denied (Failure ''not suspended on a settled waiter''), s))"

section \<open>Ending a critical section\<close>

definition cs_succeeded :: "nat \<Rightarrow> nat gop" where
  "cs_succeeded c s =
     (case sect (gates s c) of
        None \<Rightarrow> (Inl (Failure ''not a critical section''), s)
      | Some i \<Rightarrow>
          (if sec_state i \<noteq> RUNNING
           then (Inl (Failure ''CriticalSection::succeeded() requires a running critical section''), s)
           else
             (let p = parent_as_input_gate s c;
                  ch = waiting_children (gates s c);
                  ws = waiters (gates s c);
                  n = lock_count (gates s c);
                  s1 = s\<lparr>wtrs := (\<lambda>w. if w \<in> set ch \<or> w \<in> set ws then (wtrs s w)\<lparr>w_gate := p\<rparr>
                                      else wtrs s w)\<rparr>;
                  s2 = upd_gate p (\<lambda>gt. gt\<lparr>waiting_children := waiting_children gt @ ch,
                                         waiters := waiters gt @ ws,
                                         lock_count := lock_count gt + n\<rparr>) s1;
                  s3 = upd_gate c (\<lambda>gt. gt\<lparr>waiting_children := [], waiters := [], lock_count := 0\<rparr>) s2;
                  s4 = upd_sec c (\<lambda>i. i\<lparr>sec_state := REPARENTED\<rparr>) s3
              in case sec_parent_lock i of
                   None \<Rightarrow> (Inl (Failure ''CriticalSection::succeeded() with no parent lock''), s4)
                 | Some l \<Rightarrow> (Inr l, upd_sec c (\<lambda>i. i\<lparr>sec_parent_lock := None\<rparr>) s4))))"

definition deadlock_exn :: js_exn where
  "deadlock_exn = Failure
     ''jsg.Error: A critical section within this Durable Object awaited a Promise that apparently will never complete. This could happen in particular if a critical section awaits a task that was initiated outside of the critical section. Since a critical section blocks all other tasks from completing, this leads to deadlock.''"

definition cs_drop :: "nat \<Rightarrow> unit gop" where
  "cs_drop c s =
     (case sect (gates s c) of
        None \<Rightarrow> (Inl (Failure ''not a critical section''), s)
      | Some i \<Rightarrow>
          op_bind (if sec_state i = RUNNING then cs_failed c deadlock_exn else op_return ())
            (\<lambda>_ s1. (case sec_parent_lock i of
                       None \<Rightarrow> (Inr (), s1)
                     | Some l \<Rightarrow> lock_release l (upd_sec c (\<lambda>j. j\<lparr>sec_parent_lock := None\<rparr>) s1))) s)"

section \<open>Reentry callbacks\<close>

text \<open>
  The part of \<open>makeReentryCallback\<close>'s closure that follows its \<open>await\<close>: the callback's synchronous
  slice \<open>func\<close> under the lock, which is released whether it returns or throws.
\<close>

definition reentry_slice :: "(nat \<Rightarrow> 'a gop) \<Rightarrow> nat \<Rightarrow> 'a gop" where
  "reentry_slice func l = op_finally (func l) (lock_release l)"

definition reentry_wait :: "nat \<Rightarrow> nat option \<Rightarrow> gate_sys \<Rightarrow> wait_result \<times> gate_sys" where
  "reentry_wait g cs = (case cs of None \<Rightarrow> gate_wait g False | Some c \<Rightarrow> gate_wait c False)"

end
