(* ===== verification/Input_Gate_Inv.thy ===== *)
theory Input_Gate_Inv
  imports Input_Gate
begin

text \<open>
  The invariant of the gate heap and its preservation by every operation of \<open>Input_Gate\<close>.
\<close>

declare gate_wait_n.simps [simp del]

section \<open>The chain of parents\<close>

definition eff :: "gate_sys \<Rightarrow> nat \<Rightarrow> nat" where
  "eff s g = (if reparented s g then parent_as_input_gate s g else g)"

definition chain_wf :: "gate_sys \<Rightarrow> bool" where
  "chain_wf s \<longleftrightarrow> 0 < n_gates s \<and> sect (gates s 0) = None \<and>
     (\<forall>c. 0 < c \<and> c < n_gates s \<longrightarrow>
        (\<exists>i. sect (gates s c) = Some i \<and> sec_parent i < c))"

text \<open>Two heaps with the same parents and the same reparented sections.\<close>

definition link_of :: "gate \<Rightarrow> (bool \<times> nat) option" where
  "link_of gt = map_option (\<lambda>i. (sec_state i = REPARENTED, sec_parent i)) (sect gt)"

definition same_chain :: "gate_sys \<Rightarrow> gate_sys \<Rightarrow> bool" where
  "same_chain s t \<longleftrightarrow> n_gates s = n_gates t \<and> (\<forall>g. link_of (gates s g) = link_of (gates t g))"

lemma chain_parent:
  "chain_wf s \<Longrightarrow> c < n_gates s \<Longrightarrow> sect (gates s c) = Some i \<Longrightarrow> sec_parent i < c"
  by (cases "c = 0") (auto simp: chain_wf_def)

lemma chain_root: "chain_wf s \<Longrightarrow> g < n_gates s \<Longrightarrow> sect (gates s g) = None \<longleftrightarrow> g = 0"
  by (auto simp: chain_wf_def)

lemma walk_parent_le:
  assumes "chain_wf s" "p < n_gates s"
  shows "walk_parent n s p \<le> p"
  using assms(2)
proof (induction n arbitrary: p)
  case (Suc n)
  show ?case
  proof (cases "sect (gates s p)")
    case (Some i)
    with assms(1) Suc.prems have "sec_parent i < p" by (simp add: chain_parent)
    with Suc.IH [of "sec_parent i"] Suc.prems Some show ?thesis by simp
  qed simp
qed simp

lemma walk_parent_not_reparented:
  assumes "chain_wf s" "p < n_gates s" "p \<le> n"
  shows "\<not> reparented s (walk_parent n s p)"
  using assms(2,3)
proof (induction n arbitrary: p)
  case 0
  with assms(1) show ?case by (simp add: reparented_def chain_wf_def)
next
  case (Suc n)
  show ?case
  proof (cases "sect (gates s p)")
    case (Some i)
    with assms(1) Suc.prems have "sec_parent i < p" by (simp add: chain_parent)
    with Suc Some show ?thesis by (simp add: reparented_def)
  qed (simp add: reparented_def)
qed

text \<open>The bound does not matter once it is large enough, so the walk satisfies the loop's equation.\<close>

lemma walk_parent_fuel:
  assumes "chain_wf s" "p < n_gates s" "p \<le> n" "p \<le> m"
  shows "walk_parent n s p = walk_parent m s p"
  using assms(2-4)
proof (induction n arbitrary: p m)
  case 0
  then show ?case using assms(1) by (cases m) (auto simp: chain_wf_def)
next
  case (Suc n)
  show ?case
  proof (cases "sect (gates s p)")
    case None
    then show ?thesis by (cases m) auto
  next
    case (Some i)
    with assms(1) Suc.prems have lt: "sec_parent i < p" by (simp add: chain_parent)
    with Suc.prems obtain m' where m: "m = Suc m'" by (cases m) auto
    show ?thesis using Suc.IH [of "sec_parent i" m'] Suc.prems lt Some m by auto
  qed
qed

lemma parent_lt:
  assumes "chain_wf s" "c < n_gates s" "sect (gates s c) = Some i"
  shows "parent_as_input_gate s c < c"
proof -
  from assms have "sec_parent i < c" by (rule chain_parent)
  with walk_parent_le [OF assms(1), of "sec_parent i" c] assms show ?thesis
    by (simp add: parent_as_input_gate_def)
qed

lemma parent_not_reparented:
  assumes "chain_wf s" "c < n_gates s" "sect (gates s c) = Some i"
  shows "\<not> reparented s (parent_as_input_gate s c)"
proof -
  from assms have "sec_parent i < c" by (rule chain_parent)
  with walk_parent_not_reparented [OF assms(1), of "sec_parent i" c] assms show ?thesis
    by (simp add: parent_as_input_gate_def)
qed

lemma eff_not_reparented: "chain_wf s \<Longrightarrow> g < n_gates s \<Longrightarrow> \<not> reparented s (eff s g)"
  by (auto simp: eff_def reparented_def [of s g] dest: parent_not_reparented split: option.splits)

lemma eff_le: "chain_wf s \<Longrightarrow> g < n_gates s \<Longrightarrow> eff s g \<le> g"
  by (auto simp: eff_def reparented_def intro: less_imp_le parent_lt split: option.splits)

lemma eff_lt: "chain_wf s \<Longrightarrow> g < n_gates s \<Longrightarrow> eff s g < n_gates s"
  using eff_le [of s g] by simp

lemma eff_id: "\<not> reparented s g \<Longrightarrow> eff s g = g"
  by (simp add: eff_def)

lemma same_chainD:
  assumes "same_chain s t"
  shows "reparented s = reparented t" "walk_parent n s p = walk_parent n t p"
    "parent_as_input_gate s = parent_as_input_gate t" "eff s = eff t" "chain_wf s = chain_wf t"
proof -
  have link: "link_of (gates s g) = link_of (gates t g)" for g
    using assms by (simp add: same_chain_def)
  show r: "reparented s = reparented t"
  proof
    fix g show "reparented s g = reparented t g"
      using link [of g] by (auto simp: reparented_def link_of_def split: option.splits)
  qed
  show w: "walk_parent n s p = walk_parent n t p" for n p
  proof (induction n arbitrary: p)
    case (Suc n)
    show ?case using link [of p] Suc.IH by (auto simp: link_of_def split: option.splits)
  qed simp
  show pa: "parent_as_input_gate s = parent_as_input_gate t"
  proof
    fix c show "parent_as_input_gate s c = parent_as_input_gate t c"
      using link [of c] w by (auto simp: parent_as_input_gate_def link_of_def split: option.splits)
  qed
  show "eff s = eff t"
    by (rule ext) (simp add: eff_def r pa)
  have "(\<exists>i. sect (gates s c) = Some i \<and> sec_parent i < c) =
        (\<exists>i. sect (gates t c) = Some i \<and> sec_parent i < c)" for c
    using link [of c] by (cases "sect (gates s c)"; cases "sect (gates t c)") (auto simp: link_of_def)
  moreover have "sect (gates s 0) = None \<longleftrightarrow> sect (gates t 0) = None"
    using link [of 0] by (auto simp: link_of_def)
  ultimately show "chain_wf s = chain_wf t"
    using assms by (simp add: chain_wf_def same_chain_def)
qed

lemma same_chain_refl [simp]: "same_chain s s"
  by (simp add: same_chain_def)

lemma same_chain_trans: "same_chain s t \<Longrightarrow> same_chain t u \<Longrightarrow> same_chain s u"
  by (simp add: same_chain_def)

lemma same_chainI:
  "n_gates s = n_gates t \<Longrightarrow> (\<And>g. link_of (gates s g) = link_of (gates t g)) \<Longrightarrow> same_chain s t"
  by (simp add: same_chain_def)

section \<open>The invariant\<close>

definition held :: "gate_sys \<Rightarrow> nat \<Rightarrow> nat set" where
  "held s g = {l. l < n_locks s \<and> (\<exists>h. locks s l = Some h \<and> eff s h = g)}"

text \<open>The locks only the runtime holds: \<open>#parentLock\<close>, and the lock a suspended initial wait was given.\<close>

definition priv :: "gate_sys \<Rightarrow> nat \<Rightarrow> nat set" where
  "priv s c = (case sect (gates s c) of
      None \<Rightarrow> {}
    | Some i \<Rightarrow> set_option (sec_parent_lock i) \<union>
        {l. \<exists>w. sec_await i = Some w \<and> w_outcome (wtrs s w) = Resolved l})"

lemma priv_cong:
  assumes "sect (gates t c) = sect (gates s c)"
    and "\<And>i w. sect (gates s c) = Some i \<Longrightarrow> sec_await i = Some w \<Longrightarrow>
      w_outcome (wtrs t w) = w_outcome (wtrs s w)"
  shows "priv t c = priv s c"
  using assms by (cases "sect (gates s c)") (auto simp: priv_def)

definition locks_wf :: "gate_sys \<Rightarrow> bool" where
  "locks_wf s \<longleftrightarrow> (\<forall>l h. locks s l = Some h \<longrightarrow> l < n_locks s \<and> h < n_gates s)"

definition counts_wf :: "gate_sys \<Rightarrow> bool" where
  "counts_wf s \<longleftrightarrow> (\<forall>g < n_gates s. lock_count (gates s g) = card (held s g))"

definition waiters_wf :: "gate_sys \<Rightarrow> bool" where
  "waiters_wf s \<longleftrightarrow>
     (\<forall>w < n_wtrs s. w_gate (wtrs s w) < n_gates s \<and>
        (w_linked (wtrs s w) \<longleftrightarrow> w_outcome (wtrs s w) = Pending)) \<and>
     (\<forall>g < n_gates s. distinct (waiters (gates s g)) \<and> distinct (waiting_children (gates s g))) \<and>
     (\<forall>g < n_gates s. \<forall>w. w \<in> set (waiters (gates s g)) \<longleftrightarrow>
        w < n_wtrs s \<and> w_linked (wtrs s w) \<and> w_gate (wtrs s w) = g \<and> \<not> w_child (wtrs s w)) \<and>
     (\<forall>g < n_gates s. \<forall>w. w \<in> set (waiting_children (gates s g)) \<longleftrightarrow>
        w < n_wtrs s \<and> w_linked (wtrs s w) \<and> w_gate (wtrs s w) = g \<and> w_child (wtrs s w)) \<and>
     (\<forall>g < n_gates s. reparented s g \<longrightarrow> waiters (gates s g) = [] \<and> waiting_children (gates s g) = [])"

definition outcomes_wf :: "gate_sys \<Rightarrow> bool" where
  "outcomes_wf s \<longleftrightarrow>
     (\<forall>w l. w < n_wtrs s \<and> w_outcome (wtrs s w) = Resolved l \<longrightarrow> l < n_locks s) \<and>
     (\<forall>w w' l. w < n_wtrs s \<and> w' < n_wtrs s \<and> w_outcome (wtrs s w) = Resolved l \<and>
        w_outcome (wtrs s w') = Resolved l \<longrightarrow> w = w')"

definition await_wf :: "gate_sys \<Rightarrow> bool" where
  "await_wf s \<longleftrightarrow>
     (\<forall>c i w. c < n_gates s \<and> sect (gates s c) = Some i \<and> sec_await i = Some w \<longrightarrow>
        w < n_wtrs s \<and> w_child (wtrs s w) \<and>
        (w_linked (wtrs s w) \<longrightarrow> w_gate (wtrs s w) = parent_as_input_gate s c)) \<and>
     (\<forall>c c' i i' w. c < n_gates s \<and> c' < n_gates s \<and> sect (gates s c) = Some i \<and>
        sect (gates s c') = Some i' \<and> sec_await i = Some w \<and> sec_await i' = Some w \<longrightarrow> c = c')"

definition priv_wf :: "gate_sys \<Rightarrow> bool" where
  "priv_wf s \<longleftrightarrow>
     (\<forall>c < n_gates s. \<forall>l \<in> priv s c. \<exists>h. locks s l = Some h \<and> eff s h = parent_as_input_gate s c) \<and>
     (\<forall>c < n_gates s. \<forall>c' < n_gates s. c \<noteq> c' \<longrightarrow> priv s c \<inter> priv s c' = {})"

text \<open>No waiter of a gate waits for a lock nobody holds.\<close>

definition wake :: "gate_sys \<Rightarrow> bool" where
  "wake s \<longleftrightarrow> (\<forall>g < n_gates s. waiters (gates s g) \<noteq> [] \<or> waiting_children (gates s g) \<noteq> [] \<longrightarrow>
     0 < lock_count (gates s g))"

named_theorems gate_parts \<open>the parts of the gate invariant\<close>

lemmas [gate_parts] = locks_wf_def counts_wf_def waiters_wf_def outcomes_wf_def await_wf_def priv_wf_def

definition core :: "gate_sys \<Rightarrow> bool" where
  "core s \<longleftrightarrow> chain_wf s \<and> locks_wf s \<and> counts_wf s \<and> waiters_wf s \<and> outcomes_wf s \<and> await_wf s \<and>
     priv_wf s"

definition gate_inv :: "gate_sys \<Rightarrow> bool" where
  "gate_inv s \<longleftrightarrow> core s \<and> wake s"

lemma coreD:
  assumes "core s"
  shows "chain_wf s" "locks_wf s" "counts_wf s" "waiters_wf s" "outcomes_wf s" "await_wf s" "priv_wf s"
  using assms by (simp_all add: core_def)

lemma finite_held [simp]: "finite (held s g)"
  by (simp add: held_def)

lemma gate_inv_init: "gate_inv init_sys"
  by (auto simp: gate_inv_def core_def wake_def gate_parts chain_wf_def init_sys_def new_gate_def
      held_def priv_def reparented_def)


section \<open>Primitive updates\<close>

text \<open>What a waiter leaving its list and settling does, when it is linked.\<close>

definition detach :: "nat \<Rightarrow> wait_outcome \<Rightarrow> gate_sys \<Rightarrow> gate_sys" where
  "detach w r s =
     (let x = wtrs s w; g = w_gate x in
      s\<lparr>wtrs := (wtrs s)(w := x\<lparr>w_linked := False, w_outcome := r\<rparr>),
        gates := (gates s)(g := (if w_child x
          then (gates s g)\<lparr>waiting_children := remove1 w (waiting_children (gates s g))\<rparr>
          else (gates s g)\<lparr>waiters := remove1 w (waiters (gates s g))\<rparr>)),
        hook_log := (if sect (gates s g) = None then hook_log s @ [WaiterRemoved] else hook_log s)\<rparr>)"

lemma waiter_linked_member:
  assumes "waiters_wf s" "w < n_wtrs s" "w_linked (wtrs s w)"
  shows "w_gate (wtrs s w) < n_gates s" "w_outcome (wtrs s w) = Pending"
    "w \<in> set (if w_child (wtrs s w) then waiting_children (gates s (w_gate (wtrs s w)))
              else waiters (gates s (w_gate (wtrs s w))))"
  using assms by (auto simp: waiters_wf_def)

lemma settle_ops:
  assumes "waiters_wf s" "w < n_wtrs s" "w_linked (wtrs s w)"
  shows "waiter_reject w e s = (Inr (), detach w (Rejected e) s)"
    "waiter_fulfill w l s = (Inr (), detach w (Resolved l) s)"
  using waiter_linked_member [OF assms]
  by (cases "w_child (wtrs s w)";
      simp add: waiter_reject_def waiter_fulfill_def waiter_unlink_def op_simps assms Let_def
        upd_gate_def upd_wtr_def settle_def call_hook_def detach_def)+

lemma detach_simps [simp]:
  "n_gates (detach w r s) = n_gates s" "n_locks (detach w r s) = n_locks s"
  "n_wtrs (detach w r s) = n_wtrs s" "locks (detach w r s) = locks s"
  "sect (gates (detach w r s) g) = sect (gates s g)"
  "lock_count (gates (detach w r s) g) = lock_count (gates s g)"
  "broken (gates (detach w r s) g) = broken (gates s g)"
  "w_gate (wtrs (detach w r s) v) = w_gate (wtrs s v)"
  "w_child (wtrs (detach w r s) v) = w_child (wtrs s v)"
  "w_linked (wtrs (detach w r s) v) = (if v = w then False else w_linked (wtrs s v))"
  "w_outcome (wtrs (detach w r s) v) = (if v = w then r else w_outcome (wtrs s v))"
  by (simp_all add: detach_def Let_def)

lemma detach_lists:
  "waiters (gates (detach w r s) g) =
     (if g = w_gate (wtrs s w) \<and> \<not> w_child (wtrs s w) then remove1 w (waiters (gates s g))
      else waiters (gates s g))"
  "waiting_children (gates (detach w r s) g) =
     (if g = w_gate (wtrs s w) \<and> w_child (wtrs s w) then remove1 w (waiting_children (gates s g))
      else waiting_children (gates s g))"
  by (auto simp: detach_def Let_def)

lemma detach_chain [simp]: "same_chain s (detach w r s)"
  by (rule same_chainI) (simp_all add: link_of_def)

lemma detach_core:
  assumes "core s" "w < n_wtrs s" "w_linked (wtrs s w)"
    and r: "r \<noteq> Pending"
    and fresh: "\<And>l. r = Resolved l \<Longrightarrow>
      (\<exists>h. locks s l = Some h \<and> eff s h = w_gate (wtrs s w)) \<and>
      (\<forall>v. v < n_wtrs s \<longrightarrow> w_outcome (wtrs s v) \<noteq> Resolved l) \<and>
      (\<forall>c < n_gates s. l \<notin> priv s c)"
  shows "core (detach w r s)"
proof -
  note d = coreD [OF assms(1)]
  note ch = same_chainD [OF detach_chain [of s w r], symmetric]
  have "chain_wf (detach w r s)" using d by (simp add: ch)
  moreover have "locks_wf (detach w r s)" using d by (simp add: locks_wf_def)
  moreover have "counts_wf (detach w r s)" using d by (simp add: counts_wf_def held_def ch)
  moreover have "waiters_wf (detach w r s)"
    using d(4) assms(2,3) r by (auto simp: waiters_wf_def detach_lists ch split: if_splits)
  moreover have "outcomes_wf (detach w r s)"
    using d(2,5) assms(2) fresh unfolding outcomes_wf_def locks_wf_def
    by (simp split: if_splits) (metis wait_outcome.inject(1))
  moreover have "await_wf (detach w r s)" using d(6) unfolding await_wf_def by (simp add: ch)
  moreover have "priv_wf (detach w r s)"
  proof -
    have sub: "priv (detach w r s) c \<subseteq> priv s c \<union>
        {l. r = Resolved l \<and> (\<exists>i. sect (gates s c) = Some i \<and> sec_await i = Some w)}" for c
      by (auto simp: priv_def split: option.splits if_splits)
    show ?thesis
      unfolding priv_wf_def
    proof (intro conjI allI impI ballI)
      fix c l assume c: "c < n_gates (detach w r s)" and "l \<in> priv (detach w r s) c"
      then consider "l \<in> priv s c" |
        i where "r = Resolved l" "sect (gates s c) = Some i" "sec_await i = Some w"
        using sub by blast
      then show "\<exists>h. locks (detach w r s) l = Some h \<and>
          eff (detach w r s) h = parent_as_input_gate (detach w r s) c"
      proof cases
        case 1 then show ?thesis using d(7) c by (simp add: priv_wf_def ch)
      next
        case 2
        then have "w_gate (wtrs s w) = parent_as_input_gate s c"
          using d(6) c assms(3) by (auto simp: await_wf_def)
        with fresh [OF 2(1)] show ?thesis by (simp add: ch)
      qed
    next
      fix c c' assume c: "c < n_gates (detach w r s)" "c' < n_gates (detach w r s)" "c \<noteq> c'"
      have "priv s c \<inter> priv s c' = {}" using d(7) c by (simp add: priv_wf_def)
      moreover have "\<And>l. r = Resolved l \<Longrightarrow> l \<notin> priv s c \<and> l \<notin> priv s c'" using fresh c by simp
      moreover have "\<not> (\<exists>i i'. sect (gates s c) = Some i \<and> sec_await i = Some w \<and>
          sect (gates s c') = Some i' \<and> sec_await i' = Some w)"
        using d(6) c unfolding await_wf_def by (metis detach_simps(1))
      ultimately show "priv (detach w r s) c \<inter> priv (detach w r s) c' = {}"
        using sub [of c] sub [of c'] by blast
    qed
  qed
  ultimately show ?thesis by (simp add: core_def)
qed


lemma call_hook_simps [simp]:
  "gates (call_hook g h s) = gates s" "n_gates (call_hook g h s) = n_gates s"
  "locks (call_hook g h s) = locks s" "n_locks (call_hook g h s) = n_locks s"
  "wtrs (call_hook g h s) = wtrs s" "n_wtrs (call_hook g h s) = n_wtrs s"
  by (simp_all add: call_hook_def)

lemma mk_lock_simps [simp]:
  "fst (mk_lock g s) = n_locks s" "n_locks (snd (mk_lock g s)) = Suc (n_locks s)"
  "n_gates (snd (mk_lock g s)) = n_gates s" "locks (snd (mk_lock g s)) = (locks s)(n_locks s \<mapsto> g)"
  "wtrs (snd (mk_lock g s)) = wtrs s" "n_wtrs (snd (mk_lock g s)) = n_wtrs s"
  "gates (snd (mk_lock g s)) =
     (gates s)(eff s g := (gates s (eff s g))\<lparr>lock_count := Suc (lock_count (gates s (eff s g)))\<rparr>)"
  by (auto simp: mk_lock_def Let_def upd_gate_def eff_def)

lemma mk_lock_chain [simp]: "same_chain s (snd (mk_lock g s))"
  by (rule same_chainI) (simp_all add: link_of_def)

lemma mk_lock_core:
  assumes "core s" "g < n_gates s"
  shows "core (snd (mk_lock g s))"
proof -
  let ?t = "snd (mk_lock g s)"
  note d = coreD [OF assms(1)]
  note ch = same_chainD [OF mk_lock_chain [of s g], symmetric]
  have new: "locks s (n_locks s) = None"
    using d(2) unfolding locks_wf_def by (metis less_irrefl not_None_eq)
  have "chain_wf ?t" using d by (simp add: ch)
  moreover have "locks_wf ?t" using d(2) assms(2) by (auto simp: locks_wf_def intro: less_SucI)
  moreover have "counts_wf ?t"
    unfolding counts_wf_def
  proof (intro allI impI)
    fix k assume "k < n_gates ?t"
    have "held ?t k = (if k = eff s g then insert (n_locks s) (held s k) else held s k)"
      using new by (auto simp: held_def ch)
    moreover have "n_locks s \<notin> held s k" by (simp add: held_def)
    ultimately show "lock_count (gates ?t k) = card (held ?t k)"
      using d(3) \<open>k < n_gates ?t\<close> by (auto simp: counts_wf_def)
  qed
  moreover have "waiters_wf ?t" using d(4) by (auto simp: waiters_wf_def ch)
  moreover have "outcomes_wf ?t" using d(5) unfolding outcomes_wf_def by (auto intro: less_SucI)
  moreover have sect: "sect (gates ?t c) = sect (gates s c)" for c by simp
  then have "await_wf ?t" using d(6) unfolding await_wf_def by (simp add: ch)
  moreover have "priv_wf ?t"
  proof -
    have "priv ?t c = priv s c" for c by (rule priv_cong) simp_all
    moreover have "c < n_gates s \<Longrightarrow> l \<in> priv s c \<Longrightarrow> l \<noteq> n_locks s" for c l
      using d(7) new by (fastforce simp: priv_wf_def)
    ultimately show ?thesis using d(7) by (auto simp: priv_wf_def ch)
  qed
  ultimately show ?thesis by (simp add: core_def)
qed

lemma mk_lock_fresh:
  assumes "core s" "g < n_gates s"
  shows "\<forall>v. v < n_wtrs s \<longrightarrow> w_outcome (wtrs s v) \<noteq> Resolved (n_locks s)"
    "\<forall>c < n_gates s. n_locks s \<notin> priv s c"
proof -
  note d = coreD [OF assms(1)]
  show "\<forall>v. v < n_wtrs s \<longrightarrow> w_outcome (wtrs s v) \<noteq> Resolved (n_locks s)"
    using d(5) by (auto simp: outcomes_wf_def)
  show "\<forall>c < n_gates s. n_locks s \<notin> priv s c"
    using d(2,7) unfolding priv_wf_def locks_wf_def by (metis less_irrefl)
qed

lemma mk_lock_wake: "wake s \<Longrightarrow> wake (snd (mk_lock g s))"
  by (auto simp: wake_def)

lemma new_waiter_simps [simp]:
  "fst (new_waiter g ch s) = n_wtrs s" "n_wtrs (snd (new_waiter g ch s)) = Suc (n_wtrs s)"
  "n_gates (snd (new_waiter g ch s)) = n_gates s" "locks (snd (new_waiter g ch s)) = locks s"
  "n_locks (snd (new_waiter g ch s)) = n_locks s"
  "wtrs (snd (new_waiter g ch s)) = (wtrs s)(n_wtrs s :=
     \<lparr>w_gate = g, w_child = ch, w_linked = True, w_outcome = Pending\<rparr>)"
  "gates (snd (new_waiter g ch s)) = (gates s)(g := (if ch
     then (gates s g)\<lparr>waiting_children := waiting_children (gates s g) @ [n_wtrs s]\<rparr>
     else (gates s g)\<lparr>waiters := waiters (gates s g) @ [n_wtrs s]\<rparr>))"
  by (auto simp: new_waiter_def Let_def upd_gate_def)

lemma new_waiter_chain [simp]: "same_chain s (snd (new_waiter g ch s))"
  by (rule same_chainI) (simp_all add: link_of_def)

lemma new_waiter_core:
  assumes "core s" "g < n_gates s" "\<not> reparented s g"
  shows "core (snd (new_waiter g child s))"
proof -
  let ?t = "snd (new_waiter g child s)"
  note d = coreD [OF assms(1)]
  note ch = same_chainD [OF new_waiter_chain [of s g child], symmetric]
  have sect: "sect (gates ?t c) = sect (gates s c)" for c by simp
  have "chain_wf ?t" using d by (simp add: ch)
  moreover have "locks_wf ?t" using d by (simp add: locks_wf_def)
  moreover have "counts_wf ?t" using d by (simp add: counts_wf_def held_def ch)
  moreover have "waiters_wf ?t"
    using d(4) assms(2,3) unfolding waiters_wf_def ch by (auto simp: less_Suc_eq)
  moreover have "outcomes_wf ?t" using d(5) unfolding outcomes_wf_def by (auto simp: less_Suc_eq)
  moreover have "await_wf ?t"
    using d(6) unfolding await_wf_def sect ch by (fastforce simp: less_Suc_eq)
  moreover have "priv_wf ?t"
  proof -
    have "priv ?t c = priv s c" if "c < n_gates s" for c
    proof (rule priv_cong [OF sect])
      fix i w assume "sect (gates s c) = Some i" "sec_await i = Some w"
      with d(6) that have "w < n_wtrs s" unfolding await_wf_def by blast
      then show "w_outcome (wtrs ?t w) = w_outcome (wtrs s w)" by simp
    qed
    then show ?thesis using d(7) by (simp add: priv_wf_def ch)
  qed
  ultimately show ?thesis by (simp add: core_def)
qed


lemma new_waiter_wake:
  "wake s \<Longrightarrow> 0 < lock_count (gates s g) \<Longrightarrow> wake (snd (new_waiter g child s))"
  by (auto simp: wake_def)

lemma detach_wake: "wake s \<Longrightarrow> wake (detach w r s)"
  by (auto simp: wake_def detach_lists split: if_splits)

section \<open>Releasing a lock\<close>

text \<open>
  \<open>release_held\<close> on a heap that holds the invariant but for one lock of the gate, which has just been
  dropped: the count is one too high.
\<close>

lemma release_held_inv:
  assumes inv: "gate_inv s" and l: "locks s l = Some h" and np: "\<forall>c < n_gates s. l \<notin> priv s c"
  defines "t \<equiv> s\<lparr>locks := (locks s)(l := None)\<rparr>"
  shows "\<exists>u. release_held (eff s h) t = (Inr (), u) \<and> gate_inv u"
proof -
  let ?g = "eff s h"
  from inv have cs: "core s" and wk: "wake s" by (simp_all add: gate_inv_def)
  note d = coreD [OF cs]
  have h: "h < n_gates s" "l < n_locks s" using d(2) l by (auto simp: locks_wf_def)
  have g: "?g < n_gates s" "\<not> reparented s ?g" using d(1) h by (simp_all add: eff_lt eff_not_reparented)
  have mem: "l \<in> held s ?g" using h l by (simp add: held_def)
  have cnt: "lock_count (gates s ?g) = Suc (card (held s ?g - {l}))"
    using card.remove [OF finite_held mem] d(3) g by (simp only: counts_wf_def)
  define s1 where "s1 = upd_gate ?g (\<lambda>gt. gt\<lparr>lock_count := lock_count gt - 1\<rparr>) t"
  have s1: "n_gates s1 = n_gates s" "n_locks s1 = n_locks s" "locks s1 = (locks s)(l := None)"
    "wtrs s1 = wtrs s" "n_wtrs s1 = n_wtrs s"
    "gates s1 = (gates s)(?g := (gates s ?g)\<lparr>lock_count := lock_count (gates s ?g) - 1\<rparr>)"
    by (simp_all add: s1_def t_def upd_gate_def)
  have sc: "same_chain s s1" by (rule same_chainI) (simp_all add: s1 link_of_def)
  note ch = same_chainD [OF sc, symmetric]
  have sect: "sect (gates s1 c) = sect (gates s c)" for c by (simp add: s1)
  have pr: "priv s1 c = priv s c" for c by (rule priv_cong) (simp_all add: s1)
  have core1: "core s1"
    unfolding core_def
  proof (intro conjI)
    show "chain_wf s1" using d(1) by (simp add: ch)
    show "locks_wf s1" using d(2) by (simp add: locks_wf_def s1)
    show "counts_wf s1"
      unfolding counts_wf_def
    proof (intro allI impI)
      fix k assume k: "k < n_gates s1"
      have "held s1 k = held s k - {l}" by (auto simp: held_def s1 ch)
      moreover have "k \<noteq> ?g \<Longrightarrow> l \<notin> held s k" using l by (simp add: held_def)
      ultimately show "lock_count (gates s1 k) = card (held s1 k)"
        using d(3) k cnt by (auto simp: counts_wf_def s1)
    qed
    show "waiters_wf s1" using d(4) unfolding waiters_wf_def ch by (simp add: s1)
    show "outcomes_wf s1" using d(5) by (simp add: outcomes_wf_def s1)
    show "await_wf s1" using d(6) unfolding await_wf_def sect ch by (simp add: s1)
    show "priv_wf s1" using d(7) np unfolding priv_wf_def pr ch by (auto simp: s1)
  qed
  have nr1: "\<not> reparented s1 ?g" using g by (simp add: ch)
  have wk1: "wake s1" if "lock_count (gates s1 ?g) \<noteq> 0" using wk that by (auto simp: wake_def s1)
  define s2 where "s2 = call_hook ?g GateReleased s1"
  have sc2: "same_chain s1 s2" by (rule same_chainI) (simp_all add: s2_def)
  note ch2 = same_chainD [OF sc2, symmetric]
  have core2: "core s2"
  proof -
    have "priv s2 c = priv s1 c" for c by (rule priv_cong) (simp_all add: s2_def)
    then show ?thesis using core1
      unfolding core_def locks_wf_def counts_wf_def waiters_wf_def outcomes_wf_def await_wf_def
        priv_wf_def held_def ch2 by (simp add: s2_def)
  qed
  have grant: "\<exists>u. (let (l', s3) = mk_lock ?g s2 in waiter_fulfill w l' s3) = (Inr (), u) \<and> gate_inv u"
    if w: "w < n_wtrs s2" "w_linked (wtrs s2 w)" "w_gate (wtrs s2 w) = ?g" for w
  proof -
    define s3 where "s3 = snd (mk_lock ?g s2)"
    have gl: "?g < n_gates s2" using g by (simp add: s2_def s1)
    have core3: "core s3" unfolding s3_def by (rule mk_lock_core [OF core2 gl])
    have w3: "w < n_wtrs s3" "w_linked (wtrs s3 w)" "w_gate (wtrs s3 w) = ?g"
      using w by (simp_all add: s3_def)
    have eq: "(let (l', s3) = mk_lock ?g s2 in waiter_fulfill w l' s3) =
        (Inr (), detach w (Resolved (n_locks s2)) s3)"
      using settle_ops(2) [OF coreD(4) [OF core3] w3(1,2)]
      by (simp add: s3_def split_beta)
    have eff3: "eff s3 ?g = ?g"
      using nr1 same_chainD(1) [OF sc2] same_chainD(1) [OF mk_lock_chain, of s2 ?g]
      by (simp add: s3_def eff_id)
    have "core (detach w (Resolved (n_locks s2)) s3)"
    proof (rule detach_core [OF core3 w3(1,2)])
      fix l' assume "Resolved (n_locks s2) = Resolved l'"
      then have l': "l' = n_locks s2" by simp
      have "priv s3 c = priv s2 c" for c unfolding s3_def by (rule priv_cong) simp_all
      then show "(\<exists>h. locks s3 l' = Some h \<and> eff s3 h = w_gate (wtrs s3 w)) \<and>
          (\<forall>v. v < n_wtrs s3 \<longrightarrow> w_outcome (wtrs s3 v) \<noteq> Resolved l') \<and>
          (\<forall>c < n_gates s3. l' \<notin> priv s3 c)"
        using mk_lock_fresh [OF core2 gl] eff3 w3(3) by (simp add: l' s3_def)
    qed simp
    moreover have "wake (detach w (Resolved (n_locks s2)) s3)"
    proof (rule detach_wake)
      have "eff s2 ?g = ?g" using nr1 same_chainD(1) [OF sc2] by (simp add: eff_id)
      then show "wake s3" using wk by (auto simp: wake_def s3_def s2_def s1 split: if_splits)
    qed
    ultimately show ?thesis using eq by (simp add: gate_inv_def)
  qed
  have head: "w < n_wtrs s2 \<and> w_linked (wtrs s2 w) \<and> w_gate (wtrs s2 w) = ?g"
    if "w \<in> set (waiters (gates s2 ?g)) \<or> w \<in> set (waiting_children (gates s2 ?g))" for w
    using coreD(4) [OF core2] that g by (auto simp: waiters_wf_def s2_def s1)
  have t: "lock_count (gates t ?g) \<noteq> 0" using cnt by (simp add: t_def)
  show ?thesis
  proof (cases "lock_count (gates s1 ?g) = 0")
    case False
    then have "release_held ?g t = (Inr (), s1)"
      using t by (simp add: release_held_def s1_def Let_def)
    with core1 wk1 [OF False] show ?thesis by (simp add: gate_inv_def)
  next
    case True
    then have eq: "release_held ?g t = (case waiting_children (gates s2 ?g) of
          child # _ \<Rightarrow> (let (l, s3) = mk_lock ?g s2 in waiter_fulfill child l s3)
        | [] \<Rightarrow> (case waiters (gates s2 ?g) of
              w # _ \<Rightarrow> (let (l, s3) = mk_lock ?g s2 in waiter_fulfill w l s3)
            | [] \<Rightarrow> (Inr (), s2)))"
      using t True unfolding release_held_def Let_def s1_def [symmetric] s2_def [symmetric]
      by (simp only: if_False if_True)
    show ?thesis
    proof (cases "waiting_children (gates s2 ?g)")
      case (Cons w ws)
      with eq grant [of w] head [of w] show ?thesis by simp
    next
      case Nil
      show ?thesis
      proof (cases "waiters (gates s2 ?g)")
        case (Cons w ws)
        with eq Nil grant [of w] head [of w] show ?thesis by simp
      next
        case Nil2: Nil
        have "wake s2" using wk Nil Nil2 by (auto simp: wake_def s2_def s1 split: if_splits)
        with eq Nil Nil2 core2 show ?thesis by (simp add: gate_inv_def)
      qed
    qed
  qed
qed


lemma not_held_reparented:
  assumes "core s" "h < n_gates s" "reparented s h"
  shows "waiting_children (gates s h) = []" "waiters (gates s h) = []" "lock_count (gates s h) = 0"
proof -
  note d = coreD [OF assms(1)]
  show "waiting_children (gates s h) = []" "waiters (gates s h) = []"
    using d(4) assms by (simp_all add: waiters_wf_def)
  have "held s h = {}"
    using d(1,2) assms by (auto simp: held_def locks_wf_def dest: eff_not_reparented)
  then show "lock_count (gates s h) = 0" using d(3) assms by (simp add: counts_wf_def)
qed

lemma lock_release_inv:
  assumes inv: "gate_inv s" and l: "locks s l = Some h" and np: "\<forall>c < n_gates s. l \<notin> priv s c"
  shows "\<exists>u. lock_release l s = (Inr (), u) \<and> gate_inv u"
proof -
  let ?t = "s\<lparr>locks := (locks s)(l := None)\<rparr>"
  from inv have cs: "core s" by (simp add: gate_inv_def)
  have h: "h < n_gates s" using coreD(2) [OF cs] l by (auto simp: locks_wf_def)
  have sc: "same_chain s ?t" by (rule same_chainI) (simp_all add: link_of_def)
  note ch = same_chainD [OF sc, symmetric]
  have "release_lock h ?t = release_held (eff s h) ?t"
  proof (cases "reparented s h")
    case True
    with not_held_reparented [OF cs h True] show ?thesis by (simp add: release_lock_def ch eff_def)
  qed (simp add: release_lock_def ch eff_def)
  then show ?thesis using release_held_inv [OF inv l np] l by (simp add: lock_release_def)
qed

section \<open>Rejecting waiters, breaking gates\<close>

abbreviation rejecting :: "nat list \<Rightarrow> js_exn \<Rightarrow> gate_sys \<Rightarrow> gate_sys" where
  "rejecting ws e \<equiv> fold (\<lambda>w. detach w (Rejected e)) ws"

lemma detach_inv:
  "gate_inv s \<Longrightarrow> w < n_wtrs s \<Longrightarrow> w_linked (wtrs s w) \<Longrightarrow> gate_inv (detach w (Rejected e) s)"
  by (auto simp: gate_inv_def intro: detach_core detach_wake)

lemma reject_all_eq:
  assumes "gate_inv s" "distinct ws" "\<forall>w \<in> set ws. w < n_wtrs s \<and> w_linked (wtrs s w)"
  shows "reject_all ws e s = (Inr (), rejecting ws e s) \<and> gate_inv (rejecting ws e s)"
  using assms
proof (induction ws arbitrary: s)
  case Nil
  then show ?case by (simp add: op_simps)
next
  case (Cons w ws)
  let ?t = "detach w (Rejected e) s"
  from Cons.prems have "waiter_reject w e s = (Inr (), ?t)"
    by (auto simp: gate_inv_def core_def intro: settle_ops(1))
  moreover have "gate_inv ?t" using Cons.prems by (auto intro: detach_inv)
  moreover have "\<forall>v \<in> set ws. v < n_wtrs ?t \<and> w_linked (wtrs ?t v)" using Cons.prems by auto
  moreover have "distinct ws" using Cons.prems(2) by simp
  ultimately have "reject_all ws e ?t = (Inr (), rejecting ws e ?t) \<and> gate_inv (rejecting ws e ?t)"
    using Cons.IH [of ?t] by blast
  with \<open>waiter_reject w e s = (Inr (), ?t)\<close> show ?case by (simp add: op_bind_Inr)
qed

lemma rejecting_simps [simp]:
  "n_gates (rejecting ws e s) = n_gates s" "n_locks (rejecting ws e s) = n_locks s"
  "n_wtrs (rejecting ws e s) = n_wtrs s" "locks (rejecting ws e s) = locks s"
  "sect (gates (rejecting ws e s) g) = sect (gates s g)"
  "lock_count (gates (rejecting ws e s) g) = lock_count (gates s g)"
  "broken (gates (rejecting ws e s) g) = broken (gates s g)"
  "w_gate (wtrs (rejecting ws e s) v) = w_gate (wtrs s v)"
  "w_child (wtrs (rejecting ws e s) v) = w_child (wtrs s v)"
  by (induction ws arbitrary: s) simp_all

lemma rejecting_waiter:
  "w_linked (wtrs (rejecting ws e s) v) = (if v \<in> set ws then False else w_linked (wtrs s v))"
  "w_outcome (wtrs (rejecting ws e s) v) = (if v \<in> set ws then Rejected e else w_outcome (wtrs s v))"
  by (induction ws arbitrary: s) simp_all

lemma set_lists:
  assumes "waiters_wf s" "g < n_gates s"
  shows "set (waiters (gates s g)) = {w. w < n_wtrs s \<and> w_linked (wtrs s w) \<and> w_gate (wtrs s w) = g \<and>
      \<not> w_child (wtrs s w)}"
    "set (waiting_children (gates s g)) = {w. w < n_wtrs s \<and> w_linked (wtrs s w) \<and>
      w_gate (wtrs s w) = g \<and> w_child (wtrs s w)}"
    "distinct (waiters (gates s g))" "distinct (waiting_children (gates s g))"
  using assms by (auto simp: waiters_wf_def)

text \<open>The heap after \<open>setBroken\<close>.\<close>

definition broken_sys :: "nat \<Rightarrow> js_exn \<Rightarrow> gate_sys \<Rightarrow> gate_sys" where
  "broken_sys g e s = upd_gate g (\<lambda>gt. gt\<lparr>
       broken_promise := (if broken gt = Fulfiller then Some e else broken_promise gt),
       broken := Exception e\<rparr>)
     (rejecting (waiters (gates s g)) e (rejecting (waiting_children (gates s g)) e s))"

lemma upd_gate_simps [simp]:
  "n_gates (upd_gate g f s) = n_gates s" "n_locks (upd_gate g f s) = n_locks s"
  "n_wtrs (upd_gate g f s) = n_wtrs s" "locks (upd_gate g f s) = locks s"
  "wtrs (upd_gate g f s) = wtrs s" "hook_log (upd_gate g f s) = hook_log s"
  "gates (upd_gate g f s) k = (if k = g then f (gates s g) else gates s k)"
  by (simp_all add: upd_gate_def)

text \<open>Writing fields of a gate the invariant does not speak of keeps it.\<close>

lemma upd_gate_neutral:
  assumes "gate_inv s"
    and f: "\<And>gt. lock_count (f gt) = lock_count gt \<and> waiters (f gt) = waiters gt \<and>
      waiting_children (f gt) = waiting_children gt \<and> sect (f gt) = sect gt"
  shows "gate_inv (upd_gate g f s)"
proof -
  let ?t = "upd_gate g f s"
  have sc: "same_chain s ?t" by (rule same_chainI) (simp_all add: link_of_def f)
  note ch = same_chainD [OF sc, symmetric]
  have sect: "sect (gates ?t c) = sect (gates s c)" for c by (simp add: f)
  have same: "lock_count (gates ?t c) = lock_count (gates s c)" "waiters (gates ?t c) = waiters (gates s c)"
    "waiting_children (gates ?t c) = waiting_children (gates s c)" for c by (simp_all add: f)
  have pr: "priv ?t c = priv s c" for c by (rule priv_cong) (simp_all add: f)
  have he: "held ?t = held s" by (rule ext) (simp add: held_def ch)
  show ?thesis
    using assms(1)
    unfolding gate_inv_def core_def wake_def locks_wf_def counts_wf_def waiters_wf_def outcomes_wf_def
      await_wf_def priv_wf_def pr he ch sect same upd_gate_simps(1-5)
    by assumption
qed

lemma set_broken_inv:
  assumes inv: "gate_inv s" and g: "g < n_gates s"
  shows "set_broken g e s = (Inr (), broken_sys g e s) \<and> gate_inv (broken_sys g e s)"
proof -
  let ?c = "waiting_children (gates s g)"
  let ?s1 = "rejecting ?c e s"
  from inv have w: "waiters_wf s" by (simp add: gate_inv_def core_def)
  have r1: "reject_all ?c e s = (Inr (), ?s1) \<and> gate_inv ?s1"
    using set_lists [OF w g] by (intro reject_all_eq [OF inv]) auto
  then have w1: "waiters_wf ?s1" by (simp add: gate_inv_def core_def)
  have "set (waiters (gates ?s1 g)) = set (waiters (gates s g))"
    using set_lists(1) [OF w1, of g] set_lists(1,2) [OF w g] g by (auto simp: rejecting_waiter)
  have ws: "waiters (gates (rejecting vs e s) g) = waiters (gates s g)"
    if "\<forall>v \<in> set vs. w_child (wtrs s v)" for vs
    using that
  proof (induction vs rule: rev_induct)
    case (snoc v vs)
    then show ?case by (simp add: detach_lists)
  qed simp
  have eq: "waiters (gates ?s1 g) = waiters (gates s g)"
    using set_lists(2) [OF w g] by (intro ws) simp
  have r2: "reject_all (waiters (gates s g)) e ?s1 = (Inr (), rejecting (waiters (gates s g)) e ?s1) \<and>
      gate_inv (rejecting (waiters (gates s g)) e ?s1)"
    using set_lists [OF w1, of g] eq g r1 by (intro reject_all_eq) auto
  have "gate_inv (broken_sys g e s)"
    unfolding broken_sys_def by (rule upd_gate_neutral) (use r2 in simp_all)
  moreover have "set_broken g e s = (Inr (), broken_sys g e s)"
    using r1 r2 eq by (simp add: set_broken_def op_bind_def broken_sys_def)
  ultimately show ?thesis by simp
qed

lemma broken_sys_simps [simp]:
  "n_gates (broken_sys g e s) = n_gates s" "n_locks (broken_sys g e s) = n_locks s"
  "n_wtrs (broken_sys g e s) = n_wtrs s" "locks (broken_sys g e s) = locks s"
  "sect (gates (broken_sys g e s) k) = sect (gates s k)"
  "lock_count (gates (broken_sys g e s) k) = lock_count (gates s k)"
  "broken (gates (broken_sys g e s) k) = (if k = g then Exception e else broken (gates s k))"
  "w_gate (wtrs (broken_sys g e s) v) = w_gate (wtrs s v)"
  "w_child (wtrs (broken_sys g e s) v) = w_child (wtrs s v)"
  by (simp_all add: broken_sys_def)

lemma broken_sys_waiters:
  assumes "waiters_wf s" "g < n_gates s" "v < n_wtrs s"
  shows "w_linked (wtrs (broken_sys g e s) v) \<longleftrightarrow> w_linked (wtrs s v) \<and> w_gate (wtrs s v) \<noteq> g"
    "w_outcome (wtrs (broken_sys g e s) v) =
      (if w_linked (wtrs s v) \<and> w_gate (wtrs s v) = g then Rejected e else w_outcome (wtrs s v))"
  using set_lists [OF assms(1,2)] assms(3) by (auto simp: broken_sys_def rejecting_waiter)

lemma broken_sys_chain: "same_chain s (broken_sys g e s)"
  by (rule same_chainI) (simp_all add: link_of_def)


lemma broken_sys_chain2: "same_chain s (broken_sys k e (broken_sys c e s))"
  by (rule same_chain_trans [OF broken_sys_chain broken_sys_chain])

section \<open>Writing a section's fields\<close>

lemma upd_sec_simps [simp]:
  "n_gates (upd_sec c f s) = n_gates s" "n_locks (upd_sec c f s) = n_locks s"
  "n_wtrs (upd_sec c f s) = n_wtrs s" "locks (upd_sec c f s) = locks s"
  "wtrs (upd_sec c f s) = wtrs s"
  "lock_count (gates (upd_sec c f s) k) = lock_count (gates s k)"
  "waiters (gates (upd_sec c f s) k) = waiters (gates s k)"
  "waiting_children (gates (upd_sec c f s) k) = waiting_children (gates s k)"
  "broken (gates (upd_sec c f s) k) = broken (gates s k)"
  "sect (gates (upd_sec c f s) k) = (if k = c then map_option f (sect (gates s c)) else sect (gates s k))"
  by (simp_all add: upd_sec_def)

text \<open>
  A write that neither moves the section in the chain nor reparents it keeps the invariant when the
  waiter it awaits and the locks it then holds privately are its own.
\<close>

lemma upd_sec_chain:
  assumes "sect (gates s c) = Some i" "sec_parent (f i) = sec_parent i"
    "(sec_state (f i) = REPARENTED) = (sec_state i = REPARENTED)"
  shows "same_chain s (upd_sec c f s)"
  by (rule same_chainI) (use assms in \<open>simp_all add: link_of_def\<close>)

lemma upd_sec_inv:
  assumes inv: "gate_inv s" and c: "c < n_gates s" and i: "sect (gates s c) = Some i"
    and f: "sec_parent (f i) = sec_parent i"
      "(sec_state (f i) = REPARENTED) = (sec_state i = REPARENTED)"
    and aw: "\<And>w. sec_await (f i) = Some w \<Longrightarrow> w < n_wtrs s \<and> w_child (wtrs s w) \<and>
      (w_linked (wtrs s w) \<longrightarrow> w_gate (wtrs s w) = parent_as_input_gate s c) \<and>
      (\<forall>c' i'. c' \<noteq> c \<and> c' < n_gates s \<and> sect (gates s c') = Some i' \<longrightarrow> sec_await i' \<noteq> Some w)"
    and pr: "\<And>l. l \<in> priv (upd_sec c f s) c \<Longrightarrow>
      (\<exists>h. locks s l = Some h \<and> eff s h = parent_as_input_gate s c) \<and>
      (\<forall>c' < n_gates s. c' \<noteq> c \<longrightarrow> l \<notin> priv s c')"
  shows "gate_inv (upd_sec c f s)"
proof -
  let ?t = "upd_sec c f s"
  from inv have cs: "core s" and wk: "wake s" by (simp_all add: gate_inv_def)
  note d = coreD [OF cs]
  note ch = same_chainD [OF upd_sec_chain [where f = f, OF i f], symmetric]
  have he: "held ?t = held s" by (rule ext) (simp add: held_def ch)
  have pr': "k \<noteq> c \<Longrightarrow> priv ?t k = priv s k" for k by (rule priv_cong) simp_all
  have "chain_wf ?t" using d(1) by (simp add: ch)
  moreover have "locks_wf ?t" using d(2) by (simp add: locks_wf_def)
  moreover have "counts_wf ?t" using d(3) by (simp add: counts_wf_def he)
  moreover have "waiters_wf ?t" using d(4) unfolding waiters_wf_def ch by simp
  moreover have "outcomes_wf ?t" using d(5) by (simp add: outcomes_wf_def)
  moreover have "await_wf ?t"
    unfolding await_wf_def ch
  proof (intro conjI allI impI; (elim conjE)?)
    fix k j w assume k: "k < n_gates ?t" "sect (gates ?t k) = Some j" "sec_await j = Some w"
    show "w < n_wtrs ?t" "w_child (wtrs ?t w)"
      "w_linked (wtrs ?t w) \<Longrightarrow> w_gate (wtrs ?t w) = parent_as_input_gate s k"
      using k d(6) aw i unfolding await_wf_def by (auto split: if_splits)
  next
    fix k k' j j' w
    assume k: "k < n_gates ?t" "k' < n_gates ?t" and j: "sect (gates ?t k) = Some j"
      "sect (gates ?t k') = Some j'" and w: "sec_await j = Some w" "sec_await j' = Some w"
    from j i have js: "k = c \<Longrightarrow> j = f i" "k' = c \<Longrightarrow> j' = f i"
      "k \<noteq> c \<Longrightarrow> sect (gates s k) = Some j" "k' \<noteq> c \<Longrightarrow> sect (gates s k') = Some j'"
      by simp_all
    show "k = k'"
    proof (rule ccontr)
      assume ne: "k \<noteq> k'"
      then consider "k = c" "k' \<noteq> c" | "k \<noteq> c" "k' = c" | "k \<noteq> c" "k' \<noteq> c" by blast
      then show False
      proof cases
        case 1 with js w k aw [of w] show False by simp
      next
        case 2 with js w k aw [of w] show False by simp
      next
        case 3 with js w k ne d(6) show False unfolding await_wf_def by (metis upd_sec_simps(1))
      qed
    qed
  qed
  moreover have "priv_wf ?t"
    unfolding priv_wf_def ch
  proof (intro conjI allI impI ballI)
    fix k l assume "k < n_gates ?t" "l \<in> priv ?t k"
    then show "\<exists>h. locks ?t l = Some h \<and> eff s h = parent_as_input_gate s k"
      using pr [of l] pr' [of k] d(7) by (cases "k = c") (auto simp: priv_wf_def)
  next
    fix k k' assume "k < n_gates ?t" "k' < n_gates ?t" "k \<noteq> k'"
    then show "priv ?t k \<inter> priv ?t k' = {}"
      using pr pr' [of k] pr' [of k'] d(7) by (cases "k = c"; cases "k' = c") (auto simp: priv_wf_def)
  qed
  moreover have "wake ?t" using wk by (simp add: wake_def)
  ultimately show ?thesis by (simp add: gate_inv_def core_def)
qed

lemma upd_sec_shrink_inv:
  assumes inv: "gate_inv s" and c: "c < n_gates s" and i: "sect (gates s c) = Some i"
    and f: "sec_parent (f i) = sec_parent i"
      "(sec_state (f i) = REPARENTED) = (sec_state i = REPARENTED)"
    and aw: "sec_await (f i) = sec_await i \<or> sec_await (f i) = None"
    and pl: "sec_parent_lock (f i) = sec_parent_lock i \<or> sec_parent_lock (f i) = None"
  shows "gate_inv (upd_sec c f s)"
proof (rule upd_sec_inv [where f = f, OF inv c i f])
  from inv have d: "await_wf s" "priv_wf s" by (simp_all add: gate_inv_def core_def)
  fix w assume w: "sec_await (f i) = Some w"
  with aw have w': "sec_await i = Some w" by auto
  then have "sec_await i' \<noteq> Some w" if "c' \<noteq> c" "c' < n_gates s" "sect (gates s c') = Some i'" for c' i'
    using d(1) c i that unfolding await_wf_def by metis
  then show "w < n_wtrs s \<and> w_child (wtrs s w) \<and>
      (w_linked (wtrs s w) \<longrightarrow> w_gate (wtrs s w) = parent_as_input_gate s c) \<and>
      (\<forall>c' i'. c' \<noteq> c \<and> c' < n_gates s \<and> sect (gates s c') = Some i' \<longrightarrow> sec_await i' \<noteq> Some w)"
    using d(1) c i w' unfolding await_wf_def by auto
next
  from inv have d: "priv_wf s" by (simp add: gate_inv_def core_def)
  fix l assume "l \<in> priv (upd_sec c f s) c"
  then have "l \<in> priv s c" using aw pl i by (auto simp: priv_def split: if_splits)
  then show "(\<exists>h. locks s l = Some h \<and> eff s h = parent_as_input_gate s c) \<and>
      (\<forall>c' < n_gates s. c' \<noteq> c \<longrightarrow> l \<notin> priv s c')"
    using d c unfolding priv_wf_def by blast
qed

section \<open>The operations keep the invariant\<close>

lemma mk_lock_inv: "gate_inv s \<Longrightarrow> g < n_gates s \<Longrightarrow> gate_inv (snd (mk_lock g s))"
  by (simp add: gate_inv_def mk_lock_core mk_lock_wake)

lemma new_waiter_inv:
  "gate_inv s \<Longrightarrow> g < n_gates s \<Longrightarrow> \<not> reparented s g \<Longrightarrow> 0 < lock_count (gates s g) \<Longrightarrow>
   gate_inv (snd (new_waiter g child s))"
  by (simp add: gate_inv_def new_waiter_core new_waiter_wake)

lemma abort_waiter_inv:
  assumes "gate_inv s" "w < n_wtrs s"
  shows "\<exists>u. abort_waiter w s = (Inr (), u) \<and> gate_inv u"
proof (cases "w_linked (wtrs s w)")
  case True
  with assms have "abort_waiter w s = (Inr (), detach w (Rejected Canceled) s)"
    by (auto simp: abort_waiter_def gate_inv_def core_def intro: settle_ops(1))
  with detach_inv [OF assms True] show ?thesis by blast
qed (use assms in \<open>simp add: abort_waiter_def\<close>)

lemma add_ref_inv:
  assumes "gate_inv s" "locks s l = Some g"
  shows "\<exists>l' u. add_ref l s = (Inr l', u) \<and> gate_inv u"
proof -
  from assms have "g < n_gates s" by (auto simp: gate_inv_def core_def locks_wf_def)
  with assms show ?thesis
    using mk_lock_inv [of s g] by (auto simp: add_ref_def require_gate_def op_bind_def split_beta)
qed

lemma input_gate_wait_inv:
  assumes "gate_inv s" "g < n_gates s" "\<not> reparented s g"
  shows "gate_inv (snd (input_gate_wait g aborted s))"
  using assms mk_lock_inv [of s g] new_waiter_inv [of s g False]
  by (auto simp: input_gate_wait_def split_beta split: broken_state.splits)

lemma cs_failed_inv:
  assumes "gate_inv s" "c < n_gates s"
  shows "\<exists>u. cs_failed_n n c e s = (Inr (), u) \<and> gate_inv u \<and> same_chain s u \<and>
    locks u = locks s \<and> (\<forall>k. sect (gates u k) = sect (gates s k))"
  using assms
proof (induction n arbitrary: c s)
  case 0
  show ?case
  proof (cases "is_broken s c")
    case False
    let ?t = "broken_sys c e s"
    have t: "set_broken c e s = (Inr (), ?t)" "gate_inv ?t" using set_broken_inv [OF 0, of e] by auto
    show ?thesis
    proof (cases "sect (gates s c)")
      case None
      with False t show ?thesis by (simp add: op_bind_Inr broken_sys_chain)
    next
      case (Some i)
      with 0 have "sec_parent i < n_gates ?t"
        by (auto simp: gate_inv_def core_def dest!: chain_parent)
      then show ?thesis using False t Some set_broken_inv [OF t(2), of "sec_parent i" e]
        by (simp add: op_bind_Inr broken_sys_chain broken_sys_chain2)
    qed
  qed (use 0 in simp)
next
  case (Suc n)
  show ?case
  proof (cases "is_broken s c")
    case False
    let ?t = "broken_sys c e s"
    have t: "set_broken c e s = (Inr (), ?t)" "gate_inv ?t" using set_broken_inv [OF Suc.prems, of e] by auto
    show ?thesis
    proof (cases "sect (gates s c)")
      case None
      with False t show ?thesis by (simp add: op_bind_Inr broken_sys_chain)
    next
      case (Some i)
      with Suc.prems have p: "sec_parent i < n_gates ?t"
        by (auto simp: gate_inv_def core_def dest!: chain_parent)
      show ?thesis
      proof (cases "sect (gates s (sec_parent i))")
        case None
        with p show ?thesis using False t Some set_broken_inv [OF t(2), of "sec_parent i" e]
          by (simp add: op_bind_Inr broken_sys_chain broken_sys_chain2)
      next
        case (Some j)
        with Suc.IH [OF t(2) p] False t \<open>sect (gates s c) = Some i\<close> broken_sys_chain [of s c e]
        show ?thesis by (auto simp: op_bind_Inr intro: same_chain_trans)
      qed
    qed
  qed (use Suc.prems in simp)
qed


lemma cs_run_inv:
  assumes inv: "gate_inv s" and c: "c < n_gates s" and i: "sect (gates s c) = Some i"
    and nr: "sec_state i \<noteq> REPARENTED"
    and l: "locks s l = Some h" "eff s h = parent_as_input_gate s c"
      "\<forall>c' < n_gates s. c' \<noteq> c \<longrightarrow> l \<notin> priv s c'"
  shows "gate_inv (cs_run c l s) \<and> \<not> reparented (cs_run c l s) c"
proof -
  have "gate_inv (cs_run c l s)"
    unfolding cs_run_def by (rule upd_sec_inv [OF inv c i]) (use i nr l in \<open>simp_all add: priv_def\<close>)
  then show ?thesis using i by (simp add: cs_run_def reparented_def)
qed

lemma cs_initial_wait_inv:
  assumes inv: "gate_inv s" and c: "c < n_gates s" and i: "sect (gates s c) = Some i"
    and st: "sec_state i = NOT_STARTED"
  shows "gate_inv (snd (cs_initial_wait c s))"
proof -
  let ?f = "\<lambda>i. i\<lparr>sec_state := INITIAL_WAIT\<rparr>"
  define s1 where "s1 = upd_sec c ?f s"
  define p where "p = parent_as_input_gate s1 c"
  have inv1: "gate_inv s1" unfolding s1_def by (rule upd_sec_shrink_inv [OF inv c i]) (simp_all add: st)
  then have cs1: "core s1" by (simp add: gate_inv_def)
  note d1 = coreD [OF cs1]
  have i1: "sect (gates s1 c) = Some (?f i)" and c1: "c < n_gates s1" using c i by (simp_all add: s1_def)
  have p: "p < c" "\<not> reparented s1 p"
    using parent_lt [OF d1(1) c1 i1] parent_not_reparented [OF d1(1) c1 i1] by (simp_all add: p_def)
  show ?thesis
  proof (cases "is_broken s1 p")
    case True
    then obtain e where "broken (gates s1 p) = Exception e"
      by (auto simp: is_broken_def split: broken_state.splits)
    then show ?thesis using set_broken_inv [OF inv1 c1, of e]
      by (simp add: cs_initial_wait_def s1_def [symmetric] p_def [symmetric] Let_def)
  next
    case nb: False
    show ?thesis
    proof (cases "lock_count (gates s1 p) = 0")
      case True
      define s2 where "s2 = snd (mk_lock p s1)"
      have pl: "p < n_gates s1" using p c1 by simp
      note ch = same_chainD [OF mk_lock_chain [of s1 p], folded s2_def, symmetric]
      have sect2: "sect (gates s2 k) = sect (gates s1 k)" for k by (simp add: s2_def)
      have inv2: "gate_inv s2" unfolding s2_def by (rule mk_lock_inv [OF inv1 pl])
      have "gate_inv (cs_run c (n_locks s1) s2) \<and> \<not> reparented (cs_run c (n_locks s1) s2) c"
      proof (rule cs_run_inv [OF inv2])
        show "c < n_gates s2" using c1 by (simp add: s2_def)
        show "sect (gates s2 c) = Some (?f i)" by (simp add: sect2 i1)
        show "locks s2 (n_locks s1) = Some p" by (simp add: s2_def)
        show "eff s2 p = parent_as_input_gate s2 c" using p by (simp add: ch eff_id p_def)
        have "priv s2 k = priv s1 k" for k unfolding s2_def by (rule priv_cong) simp_all
        then show "\<forall>c' < n_gates s2. c' \<noteq> c \<longrightarrow> n_locks s1 \<notin> priv s2 c'"
          using mk_lock_fresh(2) [OF cs1 pl] by (simp add: s2_def)
      qed simp
      then show ?thesis
        using nb True input_gate_wait_inv [of "cs_run c (n_locks s1) s2" c False] c1
        by (simp add: cs_initial_wait_def s1_def [symmetric] p_def [symmetric] Let_def split_beta
            s2_def is_broken_def cs_run_def split: broken_state.splits)
    next
      case False
      define s2 where "s2 = snd (new_waiter p True s1)"
      have pl: "p < n_gates s1" using p c1 by simp
      note ch = same_chainD [OF new_waiter_chain [of s1 p True], folded s2_def, symmetric]
      have inv2: "gate_inv s2" unfolding s2_def using False by (intro new_waiter_inv [OF inv1 pl p(2)]) simp
      have "gate_inv (upd_sec c (\<lambda>i. i\<lparr>sec_await := Some (n_wtrs s1)\<rparr>) s2)"
      proof (rule upd_sec_inv [OF inv2])
        show "c < n_gates s2" "sect (gates s2 c) = Some (?f i)"
          using c1 i1 p by (simp_all add: s2_def)
        have "sec_await j \<noteq> Some (n_wtrs s1)" if "k < n_gates s1" "sect (gates s1 k) = Some j" for k j
          using d1(6) that unfolding await_wf_def by (metis less_irrefl)
        moreover have "parent_as_input_gate s2 c = p" by (simp add: ch p_def)
        moreover have "wtrs s2 (n_wtrs s1) = \<lparr>w_gate = p, w_child = True, w_linked = True,
            w_outcome = Pending\<rparr>" "n_wtrs s2 = Suc (n_wtrs s1)" "n_gates s2 = n_gates s1"
            "\<And>k. sect (gates s2 k) = sect (gates s1 k)" by (simp_all add: s2_def)
        ultimately show "w < n_wtrs s2 \<and> w_child (wtrs s2 w) \<and>
            (w_linked (wtrs s2 w) \<longrightarrow> w_gate (wtrs s2 w) = parent_as_input_gate s2 c) \<and>
            (\<forall>c' i'. c' \<noteq> c \<and> c' < n_gates s2 \<and> sect (gates s2 c') = Some i' \<longrightarrow> sec_await i' \<noteq> Some w)"
          if "sec_await ((?f i)\<lparr>sec_await := Some (n_wtrs s1)\<rparr>) = Some w" for w
          using that by auto
        have "priv (upd_sec c (\<lambda>i. i\<lparr>sec_await := Some (n_wtrs s1)\<rparr>) s2) c \<subseteq> priv s2 c"
          using i1 by (auto simp: priv_def s2_def)
        then show "(\<exists>h. locks s2 l = Some h \<and> eff s2 h = parent_as_input_gate s2 c) \<and>
            (\<forall>c' < n_gates s2. c' \<noteq> c \<longrightarrow> l \<notin> priv s2 c')"
          if "l \<in> priv (upd_sec c (\<lambda>i. i\<lparr>sec_await := Some (n_wtrs s1)\<rparr>) s2) c" for l
          using that inv2 c1 unfolding gate_inv_def core_def priv_wf_def
          by (metis IntI equals0D new_waiter_simps(3) s2_def subsetD)
      qed simp_all
      then show ?thesis
        using nb False by (simp add: cs_initial_wait_def s1_def [symmetric] p_def [symmetric] Let_def
            split_beta s2_def is_broken_def split: broken_state.splits)
    qed
  qed
qed

lemma gate_wait_n_inv:
  assumes "gate_inv s" "g < n_gates s"
  shows "gate_inv (snd (gate_wait_n n g aborted s))"
  using assms(2)
proof (induction n arbitrary: g)
  case 0
  then show ?case
    using assms(1) input_gate_wait_inv [OF assms(1), of g aborted] cs_initial_wait_inv [OF assms(1), of g]
    by (auto simp: gate_wait_n.simps [of 0] reparented_def split: option.split cs_state.split)
next
  case (Suc n)
  have "sec_parent i < n_gates s" if "sect (gates s g) = Some i" for i
    using assms(1) Suc.prems that by (auto simp: gate_inv_def core_def dest!: chain_parent)
  then show ?case
    using assms(1) Suc input_gate_wait_inv [OF assms(1), of g aborted] cs_initial_wait_inv [OF assms(1), of g]
    by (auto simp: gate_wait_n.simps [of "Suc n"] reparented_def split: option.split cs_state.split)
qed

lemma gate_wait_inv: "gate_inv s \<Longrightarrow> g < n_gates s \<Longrightarrow> gate_inv (snd (gate_wait g aborted s))"
  by (simp add: gate_wait_def gate_wait_n_inv)


lemma cs_resume_inv:
  assumes inv: "gate_inv s" and c: "c < n_gates s" and i: "sect (gates s c) = Some i"
    and st: "sec_state i = INITIAL_WAIT" and w: "sec_await i = Some w"
    and settled: "w_outcome (wtrs s w) \<noteq> Pending"
  shows "gate_inv (snd (cs_resume c aborted s))"
proof (cases "w_outcome (wtrs s w)")
  case (Resolved l)
  have "l \<in> priv s c" using i w Resolved by (simp add: priv_def)
  then obtain h where "locks s l = Some h" "eff s h = parent_as_input_gate s c"
      "\<forall>c' < n_gates s. c' \<noteq> c \<longrightarrow> l \<notin> priv s c'"
    using inv c unfolding gate_inv_def core_def priv_wf_def by blast
  then have "gate_inv (cs_run c l s) \<and> \<not> reparented (cs_run c l s) c"
    using st by (intro cs_run_inv [OF inv c i]) auto
  then show ?thesis using i w Resolved c input_gate_wait_inv [of "cs_run c l s" c aborted]
    by (simp add: cs_resume_def cs_run_def)
next
  case (Rejected e)
  let ?s1 = "upd_sec c (\<lambda>i. i\<lparr>sec_await := None\<rparr>) s"
  let ?s2 = "upd_sec c (\<lambda>i. i\<lparr>sec_state := RUNNING\<rparr>) ?s1"
  have inv1: "gate_inv ?s1" by (rule upd_sec_shrink_inv [OF inv c i]) simp_all
  have "gate_inv ?s2"
    by (rule upd_sec_shrink_inv [OF inv1, where i = "i\<lparr>sec_await := None\<rparr>"]) (use c i st in simp_all)
  then show ?thesis using set_broken_inv [of ?s2 c e] c i w Rejected inv1
    by (simp add: cs_resume_def Let_def)
qed (use settled in simp)

lemma start_section_inv:
  assumes inv: "gate_inv s" and l: "locks s l = Some g"
  shows "\<exists>u. start_critical_section l s = (Inr (n_gates s), u) \<and> gate_inv u"
proof -
  let ?c = "n_gates s"
  define i where "i = \<lparr>sec_state = NOT_STARTED, sec_parent = g, sec_parent_lock = None, sec_await = None\<rparr>"
  define t where "t = s\<lparr>gates := (gates s)(?c := new_gate (Some i)), n_gates := Suc ?c\<rparr>"
  from inv have cs: "core s" and wk: "wake s" by (simp_all add: gate_inv_def)
  note d = coreD [OF cs]
  have g: "g < ?c" using d(2) l by (simp add: locks_wf_def)
  have t: "n_gates t = Suc ?c" "locks t = locks s" "n_locks t = n_locks s" "wtrs t = wtrs s"
    "n_wtrs t = n_wtrs s" "gates t ?c = new_gate (Some i)" "\<And>k. k < ?c \<Longrightarrow> gates t k = gates s k"
    by (simp_all add: t_def)
  have walk: "walk_parent n t x = walk_parent n s x" if "x < ?c" for n x
    using that
  proof (induction n arbitrary: x)
    case (Suc n)
    have "sec_parent j < ?c" if "sect (gates s x) = Some j" for j
      using chain_parent [OF d(1) Suc.prems that] Suc.prems by simp
    then show ?case using Suc by (auto simp: t split: option.split)
  qed simp
  have rep: "reparented t k = reparented s k" if "k < ?c" for k using that by (simp add: reparented_def t)
  have par: "parent_as_input_gate t k = parent_as_input_gate s k" if "k < ?c" for k
  proof (cases "sect (gates s k)")
    case (Some j)
    then have "sec_parent j < ?c" using chain_parent [OF d(1) that Some] that by simp
    then show ?thesis using Some that by (simp add: parent_as_input_gate_def t walk)
  qed (use that in \<open>simp add: parent_as_input_gate_def t\<close>)
  have ef: "eff t k = eff s k" if "k < ?c" for k using that by (simp add: eff_def rep par)
  have nc: "\<not> reparented t ?c" by (simp add: reparented_def t new_gate_def i_def)
  have he: "held t k = held s k" if "k < ?c" for k
    using that d(2) ef by (auto simp: held_def t locks_wf_def)
  have hc: "held t ?c = {}"
  proof -
    have "eff t h \<noteq> ?c" if "locks s k = Some h" for k h
    proof -
      have "h < ?c" using d(2) that by (auto simp: locks_wf_def)
      then show ?thesis using ef eff_lt [OF d(1)] by (metis less_irrefl)
    qed
    then show ?thesis by (auto simp: held_def t)
  qed
  have pr: "priv t k = priv s k" if "k < ?c" for k by (rule priv_cong) (use that in \<open>simp_all add: t\<close>)
  have pc: "priv t ?c = {}" by (simp add: priv_def t new_gate_def i_def)
  have "chain_wf t" using d(1) g by (auto simp: chain_wf_def t less_Suc_eq new_gate_def i_def)
  moreover have "locks_wf t" using d(2) by (auto simp: locks_wf_def t intro: less_SucI)
  moreover have "counts_wf t" using d(3) he hc by (auto simp: counts_wf_def t less_Suc_eq new_gate_def)
  moreover have "waiters_wf t"
    using d(4) rep nc unfolding waiters_wf_def t less_Suc_eq by (auto simp: t new_gate_def)
  moreover have "outcomes_wf t" using d(5) by (simp add: outcomes_wf_def t)
  moreover have "await_wf t"
  proof -
    have none: "sec_await j = None" if "sect (gates t ?c) = Some j" for j
      using that by (auto simp: t new_gate_def i_def)
    have old: "k < ?c \<and> sect (gates s k) = Some j"
      if "k < n_gates t" "sect (gates t k) = Some j" "sec_await j = Some w" for k j w
      using that none [of j] by (cases "k = ?c") (auto simp: t less_Suc_eq)
    show ?thesis
      unfolding await_wf_def
    proof (intro conjI allI impI; (elim conjE)?)
      fix k j w assume k: "k < n_gates t" "sect (gates t k) = Some j" "sec_await j = Some w"
      with old [OF k] d(6) par
      show "w < n_wtrs t" "w_child (wtrs t w)"
        "w_linked (wtrs t w) \<Longrightarrow> w_gate (wtrs t w) = parent_as_input_gate t k"
        unfolding await_wf_def by (auto simp: t(4,5))
    next
      fix k k' j j' w
      assume "k < n_gates t" "k' < n_gates t" "sect (gates t k) = Some j" "sect (gates t k') = Some j'"
        "sec_await j = Some w" "sec_await j' = Some w"
      with old [of k j w] old [of k' j' w] d(6) show "k = k'" unfolding await_wf_def by blast
    qed
  qed
  moreover have "priv_wf t"
    using d(7) pc unfolding priv_wf_def t(1,2) less_Suc_eq
  proof (intro conjI allI impI ballI)
    fix k m assume k: "k < ?c \<or> k = ?c" and m: "m \<in> priv t k"
    with pc have k': "k < ?c" by auto
    with m pr d(7) obtain h where h: "locks s m = Some h" "eff s h = parent_as_input_gate s k"
      unfolding priv_wf_def by blast
    moreover have "h < ?c" using d(2) h by (auto simp: locks_wf_def)
    ultimately show "\<exists>h. locks s m = Some h \<and> eff t h = parent_as_input_gate t k"
      using k' ef par by auto
  next
    fix k k' assume "k < ?c \<or> k = ?c" "k' < ?c \<or> k' = ?c" "k \<noteq> k'"
    then show "priv t k \<inter> priv t k' = {}" using pc pr d(7) unfolding priv_wf_def by (metis Int_empty_left Int_empty_right)
  qed
  moreover have "wake t" using wk by (auto simp: wake_def t less_Suc_eq new_gate_def)
  ultimately have "gate_inv t" by (simp add: gate_inv_def core_def)
  moreover have "start_critical_section l s = (Inr ?c, t)"
    using l by (simp add: start_critical_section_def require_gate_def op_bind_def t_def i_def Let_def)
  ultimately show ?thesis by blast
qed


declare cs_failed_n.simps [simp del]

section \<open>Adopting the stragglers of a section that succeeded\<close>

text \<open>The heap after the writes of \<open>succeeded()\<close> up to \<open>this.state = "REPARENTED"\<close>.\<close>

definition adopted :: "nat \<Rightarrow> gate_sys \<Rightarrow> gate_sys" where
  "adopted c s =
     (let p = parent_as_input_gate s c; ch = waiting_children (gates s c); ws = waiters (gates s c);
          n = lock_count (gates s c);
          s1 = s\<lparr>wtrs := (\<lambda>w. if w \<in> set ch \<or> w \<in> set ws then (wtrs s w)\<lparr>w_gate := p\<rparr> else wtrs s w)\<rparr>;
          s2 = upd_gate p (\<lambda>gt. gt\<lparr>waiting_children := waiting_children gt @ ch,
                 waiters := waiters gt @ ws, lock_count := lock_count gt + n\<rparr>) s1;
          s3 = upd_gate c (\<lambda>gt. gt\<lparr>waiting_children := [], waiters := [], lock_count := 0\<rparr>) s2
      in upd_sec c (\<lambda>i. i\<lparr>sec_state := REPARENTED\<rparr>) s3)"

lemma cs_succeeded_eq:
  assumes "sect (gates s c) = Some i" "sec_state i = RUNNING"
  shows "cs_succeeded c s = (case sec_parent_lock i of
      None \<Rightarrow> (Inl (Failure ''CriticalSection::succeeded() with no parent lock''), adopted c s)
    | Some l \<Rightarrow> (Inr l, upd_sec c (\<lambda>i. i\<lparr>sec_parent_lock := None\<rparr>) (adopted c s)))"
  using assms by (simp add: cs_succeeded_def adopted_def Let_def split: option.split)

lemma adopt_parent:
  assumes cw: "chain_wf s" and c: "c < n_gates s" and i: "sect (gates s c) = Some i"
    and run: "sec_state i = RUNNING" and p: "p = parent_as_input_gate s c"
  shows "p < c" "\<not> reparented s p" "\<not> reparented s c"
  using parent_lt [OF cw c i] parent_not_reparented [OF cw c i] run i
  by (simp_all add: p reparented_def)

lemma adopted_simps:
  assumes cw: "chain_wf s" and c: "c < n_gates s" and i: "sect (gates s c) = Some i"
    and run: "sec_state i = RUNNING" and p: "p = parent_as_input_gate s c"
  shows "n_gates (adopted c s) = n_gates s" "n_locks (adopted c s) = n_locks s"
  "n_wtrs (adopted c s) = n_wtrs s" "locks (adopted c s) = locks s"
  "wtrs (adopted c s) = (\<lambda>w. if w \<in> set (waiting_children (gates s c)) \<or> w \<in> set (waiters (gates s c))
     then (wtrs s w)\<lparr>w_gate := p\<rparr> else wtrs s w)"
  "lock_count (gates (adopted c s) k) = (if k = c then 0
     else if k = p then lock_count (gates s p) + lock_count (gates s c) else lock_count (gates s k))"
  "waiters (gates (adopted c s) k) = (if k = c then []
     else if k = p then waiters (gates s p) @ waiters (gates s c) else waiters (gates s k))"
  "waiting_children (gates (adopted c s) k) = (if k = c then []
     else if k = p then waiting_children (gates s p) @ waiting_children (gates s c)
     else waiting_children (gates s k))"
  "broken (gates (adopted c s) k) = broken (gates s k)"
  "sect (gates (adopted c s) k) = (if k = c then Some (i\<lparr>sec_state := REPARENTED\<rparr>) else sect (gates s k))"
  using adopt_parent(1) [OF cw c i run p] i by (auto simp: adopted_def Let_def p)

lemma adopted_reparented:
  assumes cw: "chain_wf s" and c: "c < n_gates s" and i: "sect (gates s c) = Some i"
    and run: "sec_state i = RUNNING" and p: "p = parent_as_input_gate s c"
  shows "reparented (adopted c s) k \<longleftrightarrow> k = c \<or> reparented s k"
  by (simp add: reparented_def adopted_simps [OF cw c i run p])

lemma adopted_walk:
  assumes cw: "chain_wf s" and c: "c < n_gates s" and i: "sect (gates s c) = Some i"
    and run: "sec_state i = RUNNING" and p: "p = parent_as_input_gate s c"
  shows "x < n_gates s \<Longrightarrow> x \<le> n \<Longrightarrow>
   walk_parent n (adopted c s) x = (if walk_parent n s x = c then p else walk_parent n s x)"
proof (induction n arbitrary: x)
  case 0
  then show ?case using adopt_parent(1) [OF cw c i run p] by simp
next
  case (Suc n)
  show ?case
  proof (cases "sect (gates s x)")
    case None
    with i have "x \<noteq> c" by auto
    with None show ?thesis by (simp add: adopted_simps [OF cw c i run p])
  next
    case (Some j)
    have lt: "sec_parent j < x" using chain_parent [OF cw Suc.prems(1) Some] .
    show ?thesis
    proof (cases "x = c")
      case True
      with Some i have ji: "j = i" by simp
      have le: "walk_parent n s (sec_parent i) < c"
        using walk_parent_le [OF cw, of "sec_parent i" n] lt True ji Suc.prems(1) by simp
      have "walk_parent n s (sec_parent i) = p"
        using walk_parent_fuel [OF cw, of "sec_parent i" n c] lt True ji Suc.prems i
        by (simp add: p parent_as_input_gate_def)
      moreover have "walk_parent (Suc n) s x = c" using True i run by simp
      ultimately show ?thesis using Suc.IH [of "sec_parent i"] lt True ji Suc.prems le i
        by (simp add: adopted_simps [OF cw c i run p])
    next
      case False
      with Some Suc.IH [of "sec_parent j"] lt Suc.prems show ?thesis by (simp add: adopted_simps [OF cw c i run p])
    qed
  qed
qed

lemma adopted_pg:
  assumes cw: "chain_wf s" and c: "c < n_gates s" and i: "sect (gates s c) = Some i"
    and run: "sec_state i = RUNNING" and p: "p = parent_as_input_gate s c"
    and x: "x < n_gates s"
  shows "parent_as_input_gate (adopted c s) x =
    (if parent_as_input_gate s x = c then p else parent_as_input_gate s x)"
proof (cases "sect (gates s x)")
  case None
  with i have "x \<noteq> c" by auto
  with None show ?thesis by (simp add: parent_as_input_gate_def adopted_simps [OF cw c i run p])
next
  case (Some j)
  have "sec_parent j < x" using chain_parent [OF cw x Some] .
  then show ?thesis using adopted_walk [OF cw c i run p, of "sec_parent j" x] x Some i
    by (auto simp: parent_as_input_gate_def adopted_simps [OF cw c i run p])
qed

lemma adopted_eff:
  assumes cw: "chain_wf s" and c: "c < n_gates s" and i: "sect (gates s c) = Some i"
    and run: "sec_state i = RUNNING" and p: "p = parent_as_input_gate s c"
    and x: "x < n_gates s"
  shows "eff (adopted c s) x = (if eff s x = c then p else eff s x)"
  using adopted_pg [OF cw c i run p x] adopt_parent [OF cw c i run p] p by (auto simp: eff_def adopted_reparented [OF cw c i run p])

lemma adopted_inv:
  assumes inv: "gate_inv s" and c: "c < n_gates s" and i: "sect (gates s c) = Some i"
    and run: "sec_state i = RUNNING"
  shows "gate_inv (adopted c s)"
proof -
  let ?t = "adopted c s"
  define p where "p = parent_as_input_gate s c"
  from inv have cs: "core s" and wk: "wake s" by (simp_all add: gate_inv_def)
  note d = coreD [OF cs]
  note A = adopted_simps [OF d(1) c i run p_def]
  note pp = adopt_parent [OF d(1) c i run p_def]
  note E = adopted_eff [OF d(1) c i run p_def]
  note PG = adopted_pg [OF d(1) c i run p_def]
  note R = adopted_reparented [OF d(1) c i run p_def]
  have pl: "p < n_gates s" using pp c by simp
  have he: "held ?t k = (if k = c then {} else if k = p then held s p \<union> held s c else held s k)" for k
  proof -
    have "\<And>l h. locks s l = Some h \<Longrightarrow> eff ?t h = (if eff s h = c then p else eff s h)"
      using d(2) E by (auto simp: locks_wf_def)
    then have "held ?t k = {l. l < n_locks s \<and>
        (\<exists>h. locks s l = Some h \<and> (if eff s h = c then p else eff s h) = k)}"
      unfolding held_def A(2,4) by (intro Collect_cong conj_cong refl) metis
    then show ?thesis using pp by (auto simp: held_def)
  qed
  have disj: "held s p \<inter> held s c = {}" using pp by (auto simp: held_def)
  have "chain_wf ?t" using d(1) c i by (auto simp: chain_wf_def A)
  moreover have "locks_wf ?t" using d(2) by (simp add: locks_wf_def A)
  moreover have "counts_wf ?t"
    using d(3) pl c disj by (auto simp: counts_wf_def A he card_Un_disjoint)
  moreover have "waiters_wf ?t"
  proof -
    have "distinct (waiters (gates s p) @ waiters (gates s c))"
      "distinct (waiting_children (gates s p) @ waiting_children (gates s c))"
      using set_lists [OF d(4) pl] set_lists [OF d(4) c] pp by auto
    then show ?thesis using d(4) pl c pp unfolding waiters_wf_def A R by auto
  qed
  moreover have "outcomes_wf ?t" using d(5) unfolding outcomes_wf_def by (simp add: A)
  moreover have "await_wf ?t"
  proof -
    have old: "\<exists>j'. sect (gates s k) = Some j' \<and> sec_await j' = Some w"
      if "sect (gates ?t k) = Some j" "sec_await j = Some w" for k j w
      using that i by (auto simp: A split: if_splits)
    show ?thesis
      unfolding await_wf_def
    proof (intro conjI allI impI; (elim conjE)?)
      fix k j w assume k: "k < n_gates ?t" "sect (gates ?t k) = Some j" "sec_await j = Some w"
      from old [OF k(2,3)] k(1) obtain j' where "k < n_gates s" "sect (gates s k) = Some j'"
          "sec_await j' = Some w" by (auto simp: A(1))
      then have aw: "w < n_wtrs s" "w_child (wtrs s w)"
        "w_linked (wtrs s w) \<Longrightarrow> w_gate (wtrs s w) = parent_as_input_gate s k"
        using d(6) unfolding await_wf_def by auto
      then show "w < n_wtrs ?t" "w_child (wtrs ?t w)" by (simp_all add: A)
      assume "w_linked (wtrs ?t w)"
      then have "w_linked (wtrs s w)" by (simp add: A split: if_splits)
      with aw PG [of k] k(1) set_lists [OF d(4) c]
      show "w_gate (wtrs ?t w) = parent_as_input_gate ?t k" by (auto simp: A)
    next
      fix k k' j j' w
      assume "k < n_gates ?t" "k' < n_gates ?t" "sect (gates ?t k) = Some j" "sect (gates ?t k') = Some j'"
        "sec_await j = Some w" "sec_await j' = Some w"
      with old [of k j w] old [of k' j' w] d(6) show "k = k'" unfolding await_wf_def A(1) by blast
    qed
  qed
  moreover have "priv_wf ?t"
  proof -
    have pr: "priv ?t k = priv s k" for k
      using i by (cases "sect (gates s k)") (auto simp: priv_def A split: if_splits)
    show ?thesis
      unfolding priv_wf_def pr
    proof (intro conjI allI impI ballI)
      fix k l assume k: "k < n_gates ?t" "l \<in> priv s k"
      then obtain h where h: "locks s l = Some h" "eff s h = parent_as_input_gate s k"
        using d(7) unfolding priv_wf_def A(1) by blast
      moreover have "h < n_gates s" using d(2) h by (auto simp: locks_wf_def)
      ultimately show "\<exists>h. locks ?t l = Some h \<and> eff ?t h = parent_as_input_gate ?t k"
        using k PG E by (simp add: A)
    next
      fix k k' assume "k < n_gates ?t" "k' < n_gates ?t" "k \<noteq> k'"
      then show "priv s k \<inter> priv s k' = {}" using d(7) by (simp add: priv_wf_def A)
    qed
  qed
  moreover have "wake ?t" using wk pl c by (auto simp: wake_def A)
  ultimately show ?thesis by (simp add: gate_inv_def core_def)
qed

lemma cs_succeeded_inv:
  assumes inv: "gate_inv s" and c: "c < n_gates s" and i: "sect (gates s c) = Some i"
  shows "gate_inv (snd (cs_succeeded c s))"
proof (cases "sec_state i = RUNNING")
  case True
  have "gate_inv (adopted c s)" by (rule adopted_inv [OF inv c i True])
  moreover have "sect (gates (adopted c s) c) = Some (i\<lparr>sec_state := REPARENTED\<rparr>)"
    "n_gates (adopted c s) = n_gates s"
    using adopted_simps [OF _ c i True refl] inv by (simp_all add: gate_inv_def core_def)
  ultimately have "gate_inv (upd_sec c (\<lambda>i. i\<lparr>sec_parent_lock := None\<rparr>) (adopted c s))"
    using c by (intro upd_sec_shrink_inv) auto
  with \<open>gate_inv (adopted c s)\<close> show ?thesis
    by (simp add: cs_succeeded_eq [OF i True] split: option.split)
qed (use inv i in \<open>simp add: cs_succeeded_def\<close>)

section \<open>The fields of a section agree with its state\<close>

definition sec_ok :: "section_info \<Rightarrow> bool" where
  "sec_ok i \<longleftrightarrow> (sec_await i \<noteq> None \<longrightarrow> sec_state i = INITIAL_WAIT) \<and>
     (sec_parent_lock i \<noteq> None \<longrightarrow> sec_state i = RUNNING)"

definition sec_wf :: "gate_sys \<Rightarrow> bool" where
  "sec_wf s \<longleftrightarrow> (\<forall>c < n_gates s. \<forall>i. sect (gates s c) = Some i \<longrightarrow> sec_ok i)"

lemma sec_wf_frame:
  "sec_wf s \<Longrightarrow> n_gates t = n_gates s \<Longrightarrow> (\<And>k. sect (gates t k) = sect (gates s k)) \<Longrightarrow> sec_wf t"
  by (simp add: sec_wf_def)

lemma sec_wf_upd:
  "sec_wf s \<Longrightarrow> (\<And>i. sect (gates s c) = Some i \<Longrightarrow> c < n_gates s \<Longrightarrow> sec_ok (f i)) \<Longrightarrow>
   sec_wf (upd_sec c f s)"
  by (auto simp: sec_wf_def)

lemma sect_frames [simp]:
  "sect (gates (snd (mk_lock g s)) k) = sect (gates s k)"
  "sect (gates (snd (new_waiter g ch s)) k) = sect (gates s k)"
  "sect (gates (snd (waiter_unlink w s)) k) = sect (gates s k)"
  "sect (gates (settle w r s) k) = sect (gates s k)"
  by (auto simp: waiter_unlink_def Let_def upd_wtr_def settle_def)

lemma n_gates_frames [simp]:
  "n_gates (snd (waiter_unlink w s)) = n_gates s" "n_gates (settle w r s) = n_gates s"
  by (auto simp: waiter_unlink_def Let_def upd_wtr_def settle_def)

lemma unlink_frame:
  "waiter_unlink w s = (r, t) \<Longrightarrow> sect (gates t k) = sect (gates s k)"
  "waiter_unlink w s = (r, t) \<Longrightarrow> n_gates t = n_gates s"
  using sect_frames(3) [of w s k] n_gates_frames(1) [of w s] by simp_all

lemma fulfill_frame:
  "sect (gates (snd (waiter_fulfill w l s)) k) = sect (gates s k)"
  "n_gates (snd (waiter_fulfill w l s)) = n_gates s"
  "sect (gates (snd (waiter_reject w e s)) k) = sect (gates s k)"
  "n_gates (snd (waiter_reject w e s)) = n_gates s"
  by (auto simp: waiter_fulfill_def waiter_reject_def op_bind_def dest: unlink_frame
      split: prod.split sum.split)

lemma release_frame:
  "sect (gates (snd (release_lock g s)) k) = sect (gates s k)"
  "n_gates (snd (release_lock g s)) = n_gates s"
  by (auto simp: release_lock_def release_held_def Let_def split_beta fulfill_frame split: list.split)

lemma lock_release_frame:
  "sect (gates (snd (lock_release l s)) k) = sect (gates s k)"
  "n_gates (snd (lock_release l s)) = n_gates s"
  by (auto simp: lock_release_def release_frame split: option.split)

lemma input_gate_wait_frame:
  "sect (gates (snd (input_gate_wait g ab s)) k) = sect (gates s k)"
  "n_gates (snd (input_gate_wait g ab s)) = n_gates s"
  by (simp_all add: input_gate_wait_def split_beta split: broken_state.split
      del: mk_lock_simps(7) new_waiter_simps(7))

lemma cs_drop_inv:
  assumes inv: "gate_inv s" and sw: "sec_wf s" and c: "c < n_gates s" and i: "sect (gates s c) = Some i"
  shows "\<exists>u. cs_drop c s = (Inr (), u) \<and> gate_inv u"
proof -
  define m where "m = (if sec_state i = RUNNING then cs_failed c deadlock_exn else op_return ())"
  obtain s1 where s1: "m s = (Inr (), s1)" "gate_inv s1" "same_chain s s1" "locks s1 = locks s"
      "\<forall>k. sect (gates s1 k) = sect (gates s k)"
    using cs_failed_inv [OF inv c, of c deadlock_exn] inv
    by (cases "sec_state i = RUNNING") (auto simp: m_def cs_failed_def op_return_def)
  show ?thesis
  proof (cases "sec_parent_lock i")
    case None
    with s1 i show ?thesis by (simp add: cs_drop_def m_def [symmetric] op_bind_Inr)
  next
    case (Some l)
    define s2 where "s2 = upd_sec c (\<lambda>j. j\<lparr>sec_parent_lock := None\<rparr>) s1"
    have n: "n_gates s1 = n_gates s" using s1(3) by (simp add: same_chain_def)
    have i1: "sect (gates s1 c) = Some i" and c1: "c < n_gates s1" using s1 i c n by simp_all
    have inv2: "gate_inv s2" unfolding s2_def by (rule upd_sec_shrink_inv [OF s1(2) c1 i1]) simp_all
    have l1: "l \<in> priv s1 c" using Some i1 by (simp add: priv_def)
    then obtain h where h: "locks s1 l = Some h"
      using s1(2) c1 unfolding gate_inv_def core_def priv_wf_def by blast
    have "sec_ok i" using sw c i by (simp add: sec_wf_def)
    then have "sec_await i = None" using Some by (auto simp: sec_ok_def)
    then have "l \<notin> priv s2 c" using i1 by (auto simp: s2_def priv_def)
    moreover have "l \<notin> priv s2 k" if "k < n_gates s1" "k \<noteq> c" for k
    proof -
      have "priv s2 k = priv s1 k" unfolding s2_def by (rule priv_cong) (use that in simp_all)
      then show ?thesis using l1 s1(2) c1 that unfolding gate_inv_def core_def priv_wf_def by blast
    qed
    ultimately have "\<forall>k < n_gates s2. l \<notin> priv s2 k" by (metis s2_def upd_sec_simps(1))
    with lock_release_inv [OF inv2, of l h] h s1(1) Some i show ?thesis
      by (simp add: cs_drop_def m_def [symmetric] op_bind_Inr s2_def)
  qed
qed

end
