(* ===== verification/Input_Gate_Steps.thy ===== *)
theory Input_Gate_Steps
  imports Input_Gate_Inv
begin

text \<open>
  The gate as a state machine: one step per call the rest of the runtime can make (a \<open>wait()\<close> on any
  gate, an abort signal firing, a suspended initial wait resuming, a lock released, duplicated or
  used to start a section, a section succeeding, failing or being dropped), and what holds of every
  state the machine can reach. The locks a section keeps to itself (\<open>#parentLock\<close>, and the lock its
  suspended \<open>wait()\<close> has been given) are private fields, so no caller releases them.
\<close>

section \<open>Steps and reachable states\<close>

definition public :: "gate_sys \<Rightarrow> nat \<Rightarrow> bool" where
  "public s l \<longleftrightarrow> locks s l \<noteq> None \<and> (\<forall>c < n_gates s. l \<notin> priv s c)"

definition is_section :: "gate_sys \<Rightarrow> nat \<Rightarrow> bool" where
  "is_section s c \<longleftrightarrow> c < n_gates s \<and> sect (gates s c) \<noteq> None"

definition can_resume :: "gate_sys \<Rightarrow> nat \<Rightarrow> bool" where
  "can_resume s c \<longleftrightarrow> c < n_gates s \<and>
     (\<exists>i w. sect (gates s c) = Some i \<and> sec_state i = INITIAL_WAIT \<and> sec_await i = Some w \<and>
        w_outcome (wtrs s w) \<noteq> Pending)"

inductive gate_step :: "gate_sys \<Rightarrow> gate_sys \<Rightarrow> bool" where
  step_wait: "g < n_gates s \<Longrightarrow> gate_step s (snd (gate_wait g aborted s))"
| step_abort: "w < n_wtrs s \<Longrightarrow> gate_step s (snd (abort_waiter w s))"
| step_resume: "can_resume s c \<Longrightarrow> gate_step s (snd (cs_resume c aborted s))"
| step_release: "public s l \<Longrightarrow> gate_step s (snd (lock_release l s))"
| step_add_ref: "public s l \<Longrightarrow> gate_step s (snd (add_ref l s))"
| step_start: "public s l \<Longrightarrow> gate_step s (snd (start_critical_section l s))"
| step_succeeded: "is_section s c \<Longrightarrow> gate_step s (snd (cs_succeeded c s))"
| step_failed: "is_section s c \<Longrightarrow> gate_step s (snd (cs_failed c e s))"
| step_drop: "is_section s c \<Longrightarrow> gate_step s (snd (cs_drop c s))"

inductive gate_reach :: "gate_sys \<Rightarrow> bool" where
  reach_init: "gate_reach init_sys"
| reach_step: "gate_reach s \<Longrightarrow> gate_step s t \<Longrightarrow> gate_reach t"

lemma publicD:
  assumes "public s l"
  obtains h where "locks s l = Some h" "\<forall>c < n_gates s. l \<notin> priv s c"
  using assms by (auto simp: public_def)

lemma is_sectionD:
  assumes "is_section s c"
  obtains i where "c < n_gates s" "sect (gates s c) = Some i"
  using assms by (auto simp: is_section_def)

section \<open>The invariant along a run\<close>

lemma sec_wf_init: "sec_wf init_sys"
  by (simp add: sec_wf_def init_sys_def new_gate_def)

lemma cs_initial_wait_sec:
  assumes "sec_wf s" "c < n_gates s" "sect (gates s c) = Some i" "sec_state i = NOT_STARTED"
    "gate_inv s"
  shows "sec_wf (snd (cs_initial_wait c s))"
proof -
  have ok: "sec_ok i" using assms(1-3) by (simp add: sec_wf_def)
  let ?s1 = "upd_sec c (\<lambda>i. i\<lparr>sec_state := INITIAL_WAIT\<rparr>) s"
  let ?p = "parent_as_input_gate ?s1 c"
  have s1: "sec_wf ?s1"
    by (rule sec_wf_upd [OF assms(1)]) (use ok assms(3,4) in \<open>auto simp: sec_ok_def\<close>)
  have inv1: "gate_inv ?s1"
    by (rule upd_sec_shrink_inv [OF assms(5,2,3)]) (use assms(4) in simp_all)
  have br: "sec_wf (snd (set_broken c e ?s1))" for e
    using set_broken_inv [OF inv1, of c e] assms(2) by (auto intro: sec_wf_frame [OF s1])
  have ru: "sec_wf (cs_run c l (snd (mk_lock ?p ?s1)))" for l
    unfolding cs_run_def by (rule sec_wf_upd [OF sec_wf_frame [OF s1]]) (simp_all add: sec_ok_def
      del: mk_lock_simps(7))
  have fr: "sec_wf (snd (input_gate_wait c False (cs_run c l (snd (mk_lock ?p ?s1)))))" for l
    by (rule sec_wf_frame [OF ru [of l]]) (simp_all add: input_gate_wait_frame)
  have aw: "sec_wf (upd_sec c (\<lambda>i. i\<lparr>sec_await := Some w\<rparr>) (snd (new_waiter ?p True ?s1)))" for w
    by (rule sec_wf_upd [OF sec_wf_frame [OF s1]])
      (use ok assms(3,4) in \<open>auto simp: sec_ok_def simp del: new_waiter_simps(7)\<close>)
  show ?thesis using br fr aw
    by (simp add: cs_initial_wait_def Let_def split_beta split: broken_state.split sum.split
        del: mk_lock_simps(7) new_waiter_simps(7))
qed

lemma gate_wait_n_sec:
  assumes "sec_wf s" "g < n_gates s" "gate_inv s"
  shows "sec_wf (snd (gate_wait_n n g aborted s))"
  using assms(2)
proof (induction n arbitrary: g)
  case 0
  have "sec_wf (snd (input_gate_wait g aborted s))"
    by (rule sec_wf_frame [OF assms(1)]) (simp_all add: input_gate_wait_frame)
  then show ?case using assms 0 cs_initial_wait_sec [OF assms(1) 0]
    by (auto simp: gate_wait_n.simps [of 0] split: option.split cs_state.split)
next
  case (Suc n)
  have "sec_wf (snd (input_gate_wait g aborted s))"
    by (rule sec_wf_frame [OF assms(1)]) (simp_all add: input_gate_wait_frame)
  moreover have "sec_parent i < n_gates s" if "sect (gates s g) = Some i" for i
    using assms(3) Suc.prems that by (auto simp: gate_inv_def core_def dest!: chain_parent)
  ultimately show ?case using assms Suc cs_initial_wait_sec [OF assms(1) Suc.prems]
    by (auto simp: gate_wait_n.simps [of "Suc n"] split: option.split cs_state.split)
qed

lemma cs_resume_sec:
  assumes "sec_wf s" "c < n_gates s" "sect (gates s c) = Some i" "sec_state i = INITIAL_WAIT"
    "gate_inv s"
  shows "sec_wf (snd (cs_resume c aborted s))"
proof -
  have ok: "sec_ok i" using assms(1-3) by (simp add: sec_wf_def)
  have ru: "sec_wf (cs_run c l s)" for l
    unfolding cs_run_def by (rule sec_wf_upd [OF assms(1)]) (simp add: sec_ok_def)
  have fr: "sec_wf (snd (input_gate_wait c ab (cs_run c l s)))" for l ab
    by (rule sec_wf_frame [OF ru [of l]]) (simp_all add: input_gate_wait_frame)
  let ?s1 = "upd_sec c (\<lambda>i. i\<lparr>sec_await := None\<rparr>) s"
  let ?s2 = "upd_sec c (\<lambda>i. i\<lparr>sec_state := RUNNING\<rparr>) ?s1"
  have s1: "sec_wf ?s1" by (rule sec_wf_upd [OF assms(1)]) (use ok assms(3) in \<open>simp add: sec_ok_def\<close>)
  have s2: "sec_wf ?s2" by (rule sec_wf_upd [OF s1]) (use assms(3) in \<open>auto simp: sec_ok_def\<close>)
  have inv1: "gate_inv ?s1" by (rule upd_sec_shrink_inv [OF assms(5,2,3)]) simp_all
  have "gate_inv ?s2"
    by (rule upd_sec_shrink_inv [OF inv1, where i = "i\<lparr>sec_await := None\<rparr>"]) (use assms in simp_all)
  then have br: "sec_wf (snd (set_broken c e ?s2))" for e
    using set_broken_inv [of ?s2 c e] assms(2) by (auto intro: sec_wf_frame [OF s2])
  show ?thesis using fr s1 br assms(1)
    by (auto simp: cs_resume_def Let_def split_beta split: option.split wait_outcome.split sum.split)
qed

lemma gate_step_inv:
  assumes "gate_step s t" "gate_inv s \<and> sec_wf s"
  shows "gate_inv t \<and> sec_wf t"
  using assms
proof cases
  case (step_wait g aborted)
  then show ?thesis using assms(2) gate_wait_inv gate_wait_n_sec by (auto simp: gate_wait_def)
next
  case (step_abort w)
  have "sec_wf (snd (abort_waiter w s))"
    by (rule sec_wf_frame [of s]) (use assms(2) in \<open>auto simp: abort_waiter_def fulfill_frame\<close>)
  with step_abort show ?thesis using assms(2) abort_waiter_inv [of s w] by auto
next
  case (step_resume c aborted)
  then show ?thesis using assms(2) cs_resume_inv cs_resume_sec by (auto simp: can_resume_def)
next
  case (step_release l)
  have "sec_wf (snd (lock_release l s))"
    by (rule sec_wf_frame [of s]) (use assms(2) in \<open>auto simp: lock_release_frame\<close>)
  with step_release show ?thesis using assms(2) lock_release_inv [of s l] by (auto elim!: publicD)
next
  case (step_add_ref l)
  then obtain h where h: "locks s l = Some h" by (auto elim: publicD)
  have "sec_wf (snd (mk_lock h s))" by (rule sec_wf_frame [of s]) (use assms(2) in auto)
  with step_add_ref h show ?thesis using assms(2) add_ref_inv [of s l h]
    by (auto simp: add_ref_def require_gate_def op_bind_def split_beta)
next
  case (step_start l)
  then obtain h where h: "locks s l = Some h" by (auto elim: publicD)
  have "sec_wf (snd (start_critical_section l s))"
    using h assms(2) by (auto simp: start_critical_section_def require_gate_def op_bind_def Let_def
        sec_wf_def sec_ok_def new_gate_def less_Suc_eq)
  with step_start h show ?thesis using assms(2) start_section_inv [of s l h] by auto
next
  case (step_succeeded c)
  then obtain i where c: "c < n_gates s" and i: "sect (gates s c) = Some i" by (auto elim: is_sectionD)
  have "sec_wf (snd (cs_succeeded c s))"
  proof (cases "sec_state i = RUNNING")
    case True
    have ok: "sec_ok i" using assms(2) c i by (simp add: sec_wf_def)
    note A = adopted_simps [OF _ c i True refl]
    have A': "n_gates (adopted c s) = n_gates s"
      "sect (gates (adopted c s) k) = (if k = c then Some (i\<lparr>sec_state := REPARENTED\<rparr>) else sect (gates s k))" for k
      using A(1,10) assms(2) by (auto simp: gate_inv_def core_def)
    have aw: "sec_await i = None" using ok True by (auto simp: sec_ok_def)
    have old: "sec_ok j" if "k < n_gates s" "sect (gates s k) = Some j" for k j
      using assms(2) that by (simp add: sec_wf_def)
    show ?thesis
    proof (cases "sec_parent_lock i")
      case None
      have "sec_ok (i\<lparr>sec_state := REPARENTED\<rparr>)" using None aw by (simp add: sec_ok_def)
      then have "sec_wf (adopted c s)" using old by (simp add: sec_wf_def A')
      with None show ?thesis by (simp add: cs_succeeded_eq [OF i True])
    next
      case (Some l)
      have "sec_ok (i\<lparr>sec_state := REPARENTED, sec_parent_lock := None\<rparr>)" using aw by (simp add: sec_ok_def)
      then have "sec_wf (upd_sec c (\<lambda>i. i\<lparr>sec_parent_lock := None\<rparr>) (adopted c s))"
        using old by (simp add: sec_wf_def A')
      with Some show ?thesis by (simp add: cs_succeeded_eq [OF i True])
    qed
  qed (use assms(2) i in \<open>simp add: cs_succeeded_def\<close>)
  with step_succeeded show ?thesis using assms(2) cs_succeeded_inv [of s c] c i by auto
next
  case (step_failed c e)
  then obtain i where c: "c < n_gates s" by (auto elim: is_sectionD)
  obtain u where u: "cs_failed c e s = (Inr (), u)" "gate_inv u" "same_chain s u"
      "\<forall>k. sect (gates u k) = sect (gates s k)"
    using cs_failed_inv [of s c c e] assms(2) c unfolding cs_failed_def by blast
  have "sec_wf u" by (rule sec_wf_frame [of s]) (use assms(2) u in \<open>simp_all add: same_chain_def\<close>)
  with u step_failed show ?thesis by simp
next
  case (step_drop c)
  then obtain i where c: "c < n_gates s" and i: "sect (gates s c) = Some i" by (auto elim: is_sectionD)
  have "sec_wf (snd (cs_drop c s))"
  proof -
    define m where "m = (if sec_state i = RUNNING then cs_failed c deadlock_exn else op_return ())"
    obtain s1 where s1: "m s = (Inr (), s1)" "same_chain s s1" "\<forall>k. sect (gates s1 k) = sect (gates s k)"
      using cs_failed_inv [of s c c deadlock_exn] assms(2) c
      by (cases "sec_state i = RUNNING") (auto simp: m_def cs_failed_def op_return_def)
    have w1: "sec_wf s1" by (rule sec_wf_frame [of s]) (use assms(2) s1 in \<open>simp_all add: same_chain_def\<close>)
    have "sec_wf (upd_sec c (\<lambda>j. j\<lparr>sec_parent_lock := None\<rparr>) s1)"
    proof (rule sec_wf_upd [OF w1])
      fix j assume "sect (gates s1 c) = Some j" "c < n_gates s1"
      with w1 have "sec_ok j" by (simp add: sec_wf_def)
      then show "sec_ok (j\<lparr>sec_parent_lock := None\<rparr>)" by (simp add: sec_ok_def)
    qed
    then have "sec_wf (snd (lock_release l (upd_sec c (\<lambda>j. j\<lparr>sec_parent_lock := None\<rparr>) s1)))" for l
      by (rule sec_wf_frame) (simp_all add: lock_release_frame)
    with w1 s1(1) i show ?thesis
      by (simp add: cs_drop_def m_def [symmetric] op_bind_Inr split: option.split)
  qed
  with step_drop show ?thesis using assms(2) cs_drop_inv [of s c] c i by auto
qed

lemma gate_reach_inv: "gate_reach s \<Longrightarrow> gate_inv s \<and> sec_wf s"
  by (induction rule: gate_reach.induct) (auto simp: gate_inv_init sec_wf_init dest: gate_step_inv)


section \<open>A broken gate means a broken root\<close>

definition brk :: "gate_sys \<Rightarrow> bool" where
  "brk s \<longleftrightarrow> (\<forall>g < n_gates s. is_broken s g \<longrightarrow> is_broken s 0) \<and>
     (\<forall>w < n_wtrs s. \<forall>e. w_outcome (wtrs s w) = Rejected e \<and> e \<noteq> Canceled \<longrightarrow> is_broken s 0)"

text \<open>A step that breaks nothing and rejects no waiter with anything but a cancellation.\<close>

definition quiet :: "gate_sys \<Rightarrow> gate_sys \<Rightarrow> bool" where
  "quiet s t \<longleftrightarrow> (\<forall>g < n_gates t. is_broken t g \<longrightarrow> g < n_gates s \<and> is_broken s g) \<and>
     (is_broken s 0 \<longrightarrow> is_broken t 0) \<and>
     (\<forall>w < n_wtrs t. \<forall>e. w_outcome (wtrs t w) = Rejected e \<and> e \<noteq> Canceled \<longrightarrow>
        w < n_wtrs s \<and> w_outcome (wtrs s w) = Rejected e)"

lemma quiet_brk: "quiet s t \<Longrightarrow> brk s \<Longrightarrow> brk t"
  unfolding quiet_def brk_def by blast

lemma quiet_trans: "quiet s t \<Longrightarrow> quiet t u \<Longrightarrow> quiet s u"
  unfolding quiet_def by blast

lemma quietI:
  assumes "n_gates t = n_gates s" "n_wtrs t = n_wtrs s"
    and "\<And>g. broken (gates t g) = broken (gates s g)"
    and "\<And>w e. w_outcome (wtrs t w) = Rejected e \<Longrightarrow> e \<noteq> Canceled \<Longrightarrow> w_outcome (wtrs s w) = Rejected e"
  shows "quiet s t"
  using assms by (auto simp: quiet_def is_broken_def)

lemma quiet_refl [simp]: "quiet s s"
  by (rule quietI) simp_all

lemma brk_root: "is_broken s 0 \<Longrightarrow> brk s"
  by (simp add: brk_def)

lemma mk_lock_quiet [simp]: "quiet s (snd (mk_lock g s))"
  by (rule quietI) simp_all

lemma new_waiter_quiet [simp]: "quiet s (snd (new_waiter g ch s))"
  by (auto simp: quiet_def is_broken_def split: if_splits)

lemma upd_sec_quiet [simp]: "quiet s (upd_sec c f s)"
  by (rule quietI) simp_all

lemma call_hook_quiet [simp]: "quiet s (call_hook g h s)"
  by (rule quietI) simp_all

lemma waiter_unlink_quiet: "waiter_unlink w s = (r, t) \<Longrightarrow> quiet s t"
  by (rule quietI) (auto simp: waiter_unlink_def Let_def upd_wtr_def split: if_splits)

lemma waiter_fulfill_quiet: "quiet s (snd (waiter_fulfill w l s))"
proof -
  obtain r t where u: "waiter_unlink w s = (r, t)" by (cases "waiter_unlink w s")
  have "quiet t (settle w (Resolved l) (call_hook (w_gate (wtrs t w)) WaiterRemoved t))"
    by (rule quietI) (auto simp: settle_def upd_wtr_def split: if_splits)
  with waiter_unlink_quiet [OF u] show ?thesis
    by (cases r) (auto simp: waiter_fulfill_def op_bind_def u intro: quiet_trans)
qed

lemma abort_quiet: "quiet s (snd (abort_waiter w s))"
proof -
  obtain r t where u: "waiter_unlink w s = (r, t)" by (cases "waiter_unlink w s")
  have "quiet t (settle w (Rejected Canceled) (call_hook (w_gate (wtrs t w)) WaiterRemoved t))"
    by (rule quietI) (auto simp: settle_def upd_wtr_def split: if_splits)
  with waiter_unlink_quiet [OF u] show ?thesis
    by (cases r) (auto simp: abort_waiter_def waiter_reject_def op_bind_def u intro: quiet_trans)
qed

lemma release_held_quiet: "quiet s (snd (release_held g s))"
proof -
  define s1 where "s1 = upd_gate g (\<lambda>gt. gt\<lparr>lock_count := lock_count gt - 1\<rparr>) s"
  define s2 where "s2 = call_hook g GateReleased s1"
  have q1: "quiet s s1" unfolding s1_def by (rule quietI) simp_all
  have q2: "quiet s s2" unfolding s2_def by (rule quiet_trans [OF q1]) simp
  have q3: "quiet s (snd (waiter_fulfill w l (snd (mk_lock g s2))))" for w l
    by (rule quiet_trans [OF quiet_trans [OF q2 mk_lock_quiet] waiter_fulfill_quiet])
  show ?thesis using q1 q2 q3
    unfolding release_held_def Let_def s1_def [symmetric] s2_def [symmetric]
    by (simp add: split_beta split: list.split)
qed

lemma lock_release_quiet: "quiet s (snd (lock_release l s))"
proof (cases "locks s l")
  case (Some g)
  let ?t = "s\<lparr>locks := (locks s)(l := None)\<rparr>"
  have "quiet s ?t" by (rule quietI) simp_all
  then have "quiet s (snd (release_held k ?t))" for k by (rule quiet_trans) (rule release_held_quiet)
  with Some \<open>quiet s ?t\<close> show ?thesis by (simp add: lock_release_def release_lock_def)
qed (simp add: lock_release_def)

lemma input_gate_wait_quiet: "quiet s (snd (input_gate_wait g ab s))"
  by (simp add: input_gate_wait_def split_beta split: broken_state.split)

lemma cs_run_quiet: "quiet s (cs_run c l s)"
  by (simp add: cs_run_def)

lemma set_broken_root:
  assumes "gate_inv s" "c < n_gates s" "is_broken s 0"
  shows "is_broken (snd (set_broken c e s)) 0"
  using set_broken_inv [OF assms(1,2), of e] assms(3) by (auto simp: is_broken_def)

lemma cs_failed_root:
  assumes "gate_inv s" "c < n_gates s" "c \<le> n" "sect (gates s c) \<noteq> None"
    "\<forall>g < n_gates s. g \<le> c \<longrightarrow> is_broken s g \<longrightarrow> is_broken s 0"
  shows "is_broken (snd (cs_failed_n n c e s)) 0"
  using assms
proof (induction n arbitrary: c s)
  case 0
  then have "c = 0" "sect (gates s 0) = None" by (auto simp: gate_inv_def core_def chain_wf_def)
  with 0 show ?case by simp
next
  case (Suc n)
  show ?case
  proof (cases "is_broken s c")
    case True
    with Suc.prems show ?thesis by (simp add: cs_failed_n.simps [of "Suc n"])
  next
    case False
    let ?t = "broken_sys c e s"
    have t: "set_broken c e s = (Inr (), ?t)" "gate_inv ?t" using set_broken_inv [OF Suc.prems(1,2), of e] by auto
    obtain i where i: "sect (gates s c) = Some i" using Suc.prems(4) by auto
    then have p: "sec_parent i < c" using chain_parent [of s c i] Suc.prems by (simp add: gate_inv_def core_def)
    have pt: "sec_parent i < n_gates ?t" using p Suc.prems(2) by simp
    show ?thesis
    proof (cases "sect (gates s (sec_parent i))")
      case None
      then have "sec_parent i = 0" using chain_root [of s "sec_parent i"] p Suc.prems(1,2)
        by (simp add: gate_inv_def core_def)
      then show ?thesis using False t i None set_broken_inv [OF t(2) pt, of e]
        by (simp add: cs_failed_n.simps [of "Suc n"] op_bind_Inr is_broken_def)
    next
      case (Some j)
      have "is_broken (snd (cs_failed_n n (sec_parent i) e ?t)) 0"
        by (rule Suc.IH [OF t(2) pt]) (use p Suc.prems(3,5) Some in \<open>auto simp: is_broken_def\<close>)
      then show ?thesis using False t i Some
        by (simp add: cs_failed_n.simps [of "Suc n"] op_bind_Inr)
    qed
  qed
qed

end
