(* ===== verification/Input_Gate_Props.thy ===== *)
theory Input_Gate_Props
  imports Input_Gate_Steps
begin

text \<open>
  The properties of the input gate: what every reachable heap guarantees the rest of the runtime,
  and one way its hooks do not balance.
\<close>

section \<open>Broken gates along a run\<close>

lemma cs_initial_wait_brk:
  assumes "brk s" "gate_inv s" "c < n_gates s" "sect (gates s c) = Some i" "sec_state i = NOT_STARTED"
  shows "brk (snd (cs_initial_wait c s))"
proof -
  let ?s1 = "upd_sec c (\<lambda>i. i\<lparr>sec_state := INITIAL_WAIT\<rparr>) s"
  let ?p = "parent_as_input_gate ?s1 c"
  have inv1: "gate_inv ?s1"
    by (rule upd_sec_shrink_inv [OF assms(2,3,4)]) (use assms(5) in simp_all)
  have b1: "brk ?s1" by (rule quiet_brk [OF upd_sec_quiet assms(1)])
  have c1: "c < n_gates ?s1" using assms(3) by simp
  have "?p < n_gates ?s1"
    using parent_lt [of ?s1 c] c1 inv1 assms(4) by (auto simp: gate_inv_def core_def)
  then have br: "brk (snd (set_broken c e ?s1))" if "broken (gates ?s1 ?p) = Exception e" for e
    using that b1 set_broken_root [OF inv1 c1] by (intro brk_root) (auto simp: brk_def is_broken_def)
  have g: "brk (snd (input_gate_wait c False (cs_run c l (snd (mk_lock ?p ?s1)))))" for l
    by (rule quiet_brk [OF quiet_trans [OF quiet_trans [OF mk_lock_quiet cs_run_quiet]
      input_gate_wait_quiet] b1])
  have w: "brk (upd_sec c (\<lambda>i. i\<lparr>sec_await := Some v\<rparr>) (snd (new_waiter ?p True ?s1)))" for v
    by (rule quiet_brk [OF quiet_trans [OF new_waiter_quiet upd_sec_quiet] b1])
  show ?thesis using br g w unfolding cs_initial_wait_def Let_def
    by (simp add: split_beta split: broken_state.split sum.split
        del: mk_lock_simps(7) new_waiter_simps(7) upd_sec_simps(9))
qed

lemma gate_wait_n_brk:
  assumes "brk s" "gate_inv s" "g < n_gates s"
  shows "brk (snd (gate_wait_n n g ab s))"
  using assms(3)
proof (induction n arbitrary: g)
  case 0
  then show ?case
    using assms(1,2) cs_initial_wait_brk [OF assms(1,2)] quiet_brk [OF input_gate_wait_quiet assms(1)]
    by (auto simp: gate_wait_n.simps [of 0] split: option.split cs_state.split)
next
  case (Suc n)
  have "sec_parent i < n_gates s" if "sect (gates s g) = Some i" for i
    using assms(2) Suc.prems that by (auto simp: gate_inv_def core_def dest!: chain_parent)
  with Suc show ?case
    using assms(1,2) cs_initial_wait_brk [OF assms(1,2)] quiet_brk [OF input_gate_wait_quiet assms(1)]
    by (auto simp: gate_wait_n.simps [of "Suc n"] split: option.split cs_state.split)
qed

lemma cs_resume_brk:
  assumes "brk s" "gate_inv s" "c < n_gates s" "sect (gates s c) = Some i" "sec_state i = INITIAL_WAIT"
  shows "brk (snd (cs_resume c ab s))"
proof -
  have r: "brk (snd (input_gate_wait c ab (cs_run c l s)))" for l
    by (rule quiet_brk [OF quiet_trans [OF cs_run_quiet input_gate_wait_quiet] assms(1)])
  let ?s1 = "upd_sec c (\<lambda>i. i\<lparr>sec_await := None\<rparr>) s"
  let ?s2 = "upd_sec c (\<lambda>i. i\<lparr>sec_state := RUNNING\<rparr>) ?s1"
  have inv1: "gate_inv ?s1" by (rule upd_sec_shrink_inv [OF assms(2,3,4)]) simp_all
  have inv2: "gate_inv ?s2"
    by (rule upd_sec_shrink_inv [OF inv1, where i = "i\<lparr>sec_await := None\<rparr>"]) (use assms in simp_all)
  have b1: "brk ?s1" by (rule quiet_brk [OF upd_sec_quiet assms(1)])
  have "brk (snd (set_broken c e ?s2))"
    if "sec_await i = Some w" "w_outcome (wtrs s w) = Rejected e" "e \<noteq> Canceled" for e w
  proof (rule brk_root, rule set_broken_root [OF inv2])
    have "w < n_wtrs s" using that(1) assms(2-4) unfolding gate_inv_def core_def await_wf_def by blast
    then have "is_broken s 0" using that assms(1) unfolding brk_def by blast
    then show "is_broken ?s2 0" by (simp add: is_broken_def)
  qed (use assms(3) in simp)
  then show ?thesis using r b1 assms(1,4)
    by (auto simp: cs_resume_def Let_def split_beta split: option.split wait_outcome.split sum.split)
qed

lemma gate_step_brk:
  assumes "gate_step s t" "gate_inv s" "sec_wf s" "brk s"
  shows "brk t"
  using assms(1)
proof cases
  case (step_wait g ab)
  then show ?thesis using assms gate_wait_n_brk by (auto simp: gate_wait_def)
next
  case (step_abort w)
  then show ?thesis using quiet_brk [OF abort_quiet assms(4)] by simp
next
  case (step_resume c ab)
  then show ?thesis using cs_resume_brk [OF assms(4,2)] by (auto simp: can_resume_def)
next
  case (step_release l)
  then show ?thesis using quiet_brk [OF lock_release_quiet assms(4)] by simp
next
  case (step_add_ref l)
  then show ?thesis using quiet_brk [OF mk_lock_quiet assms(4)]
    by (auto simp: add_ref_def require_gate_def op_bind_def split_beta elim!: publicD)
next
  case (step_start l)
  then obtain h where h: "locks s l = Some h" by (auto elim: publicD)
  have "0 < n_gates s" using assms(2) by (simp add: gate_inv_def core_def chain_wf_def)
  then have "quiet s t" using step_start h
    by (auto simp: start_critical_section_def require_gate_def op_bind_def Let_def quiet_def
        is_broken_def new_gate_def)
  then show ?thesis using assms(4) by (rule quiet_brk)
next
  case (step_succeeded c)
  then obtain i where c: "c < n_gates s" and i: "sect (gates s c) = Some i" by (auto elim: is_sectionD)
  show ?thesis
  proof (cases "sec_state i = RUNNING")
    case True
    have cw: "chain_wf s" using assms(2) by (simp add: gate_inv_def core_def)
    note A = adopted_simps [OF cw c i True refl]
    have q: "quiet s (adopted c s)" by (rule quietI) (auto simp: A split: if_splits)
    show ?thesis using step_succeeded quiet_brk [OF q assms(4)]
        quiet_brk [OF quiet_trans [OF q upd_sec_quiet] assms(4)]
      by (simp add: cs_succeeded_eq [OF i True] split: option.split)
  qed (use step_succeeded assms(4) i in \<open>simp add: cs_succeeded_def\<close>)
next
  case (step_failed c e)
  then have c: "c < n_gates s" "sect (gates s c) \<noteq> None" by (auto simp: is_section_def)
  have "is_broken t 0" unfolding step_failed(1) cs_failed_def
    by (rule cs_failed_root [OF assms(2) c(1) _ c(2)]) (use assms(4) in \<open>auto simp: brk_def\<close>)
  then show ?thesis by (rule brk_root)
next
  case (step_drop c)
  then obtain i where c: "c < n_gates s" and i: "sect (gates s c) = Some i" by (auto elim: is_sectionD)
  define m where "m = (if sec_state i = RUNNING then cs_failed c deadlock_exn else op_return ())"
  have m: "brk (snd (m s))"
  proof (cases "sec_state i = RUNNING")
    case True
    have "is_broken (snd (m s)) 0" unfolding m_def cs_failed_def
      using cs_failed_root [OF assms(2) c, of c deadlock_exn] assms(4) i True by (auto simp: brk_def)
    then show ?thesis by (rule brk_root)
  qed (use assms(4) in \<open>simp add: m_def op_return_def\<close>)
  then have "brk (snd (lock_release l (upd_sec c f (snd (m s)))))" for l f
    by (rule quiet_brk [OF quiet_trans [OF upd_sec_quiet lock_release_quiet]])
  with m show ?thesis unfolding step_drop(1)
    by (simp add: cs_drop_def i m_def [symmetric] op_bind_def split_beta split: option.split sum.split prod.split)
qed

lemma brk_init: "brk init_sys"
  by (simp add: brk_def init_sys_def new_gate_def is_broken_def)

lemma gate_reach_all: "gate_reach s \<Longrightarrow> gate_inv s \<and> sec_wf s \<and> brk s"
proof (induction rule: gate_reach.induct)
  case reach_init
  show ?case using gate_inv_init sec_wf_init brk_init by simp
next
  case (reach_step s t)
  then show ?case using gate_step_inv [of s t] gate_step_brk [of s t] by blast
qed


section \<open>Shared lemmas\<close>

lemma reach_core: "gate_reach s \<Longrightarrow> core s"
  using gate_reach_all by (simp add: gate_inv_def)

lemma held_pos:
  assumes "core s" "g < n_gates s" "locks s l = Some h" "eff s h = g"
  shows "0 < lock_count (gates s g)"
proof -
  have "l \<in> held s g" using coreD(2) [OF assms(1)] assms(3,4) by (auto simp: held_def locks_wf_def)
  then show ?thesis using coreD(3) [OF assms(1)] assms(2) by (auto simp: counts_wf_def card_gt_0_iff)
qed



section \<open>Properties\<close>


text \<open>
  C1. No lost wakeups. In every reachable heap a waiter that is still pending sits in exactly one
  gate's list, that gate is not a reparented section, and some lock on it is still held, whose
  release will serve the list.
\<close>

theorem gate_no_lost_wakeup:
  assumes "gate_reach s" "w < n_wtrs s" "w_outcome (wtrs s w) = Pending"
  shows "\<exists>g. g = w_gate (wtrs s w) \<and> \<not> reparented s g \<and> 0 < lock_count (gates s g) \<and>
    w \<in> set (if w_child (wtrs s w) then waiting_children (gates s g) else waiters (gates s g)) \<and>
    (\<exists>l h. locks s l = Some h \<and> eff s h = g)"
proof -
  from gate_reach_all [OF assms(1)] have inv: "core s" "wake s" by (simp_all add: gate_inv_def)
  note d = coreD [OF inv(1)]
  let ?g = "w_gate (wtrs s w)"
  have lk: "w_linked (wtrs s w)" using d(4) assms(2,3) by (auto simp: waiters_wf_def)
  note m = waiter_linked_member [OF d(4) assms(2) lk]
  have nr: "\<not> reparented s ?g" using d(4) m by (auto simp: waiters_wf_def split: if_splits)
  have pos: "0 < lock_count (gates s ?g)" using inv(2) m by (auto simp: wake_def split: if_splits)
  then have "held s ?g \<noteq> {}" using d(3) m(1) by (auto simp: counts_wf_def)
  then have "\<exists>l h. locks s l = Some h \<and> eff s h = ?g" by (auto simp: held_def)
  with nr pos m show ?thesis by blast
qed


text \<open>
  C5. A failed critical section permanently breaks the input gate. In every reachable heap, after
  \<open>failed()\<close> on any section, however deeply nested, the root gate is broken, and a \<open>wait()\<close> on it
  is rejected.
\<close>

theorem failed_section_breaks_root:
  assumes "gate_reach s" "is_section s c"
  shows "is_broken (snd (cs_failed c e s)) 0 \<and>
    (\<exists>e'. fst (gate_wait 0 False (snd (cs_failed c e s))) = Denied e')"
proof -
  from gate_reach_all [OF assms(1)] have inv: "gate_inv s" "brk s" by simp_all
  have c: "c < n_gates s" "sect (gates s c) \<noteq> None" using assms(2) by (auto simp: is_section_def)
  have b: "is_broken (snd (cs_failed c e s)) 0" unfolding cs_failed_def
    by (rule cs_failed_root [OF inv(1) c(1) _ c(2)]) (use inv(2) in \<open>auto simp: brk_def\<close>)
  have "sect (gates s 0) = None" using inv(1) by (simp add: gate_inv_def core_def chain_wf_def)
  then have "sect (gates (snd (cs_failed c e s)) 0) = None"
    using cs_failed_inv [OF inv(1) c(1), of c e] unfolding cs_failed_def by force
  with b have "\<exists>e'. fst (gate_wait 0 False (snd (cs_failed c e s))) = Denied e'"
    by (auto simp: gate_wait_def gate_wait_n.simps [of 0] input_gate_wait_def is_broken_def
        split: broken_state.splits)
  with b show ?thesis by blast
qed

text \<open>
  Brokenness reaches the root. In every reachable heap a broken gate anywhere, root or section, means
  that the root gate is broken too.
\<close>

theorem broken_gate_breaks_root:
  assumes "gate_reach s" "g < n_gates s" "is_broken s g"
  shows "is_broken s 0"
  using gate_reach_all [OF assms(1)] assms(2,3) by (auto simp: brk_def)


lemma lock_release_held:
  assumes "core s" "locks s l = Some h"
  shows "lock_release l s = release_held (eff s h) (s\<lparr>locks := (locks s)(l := None)\<rparr>)"
proof -
  let ?t = "s\<lparr>locks := (locks s)(l := None)\<rparr>"
  have h: "h < n_gates s" using coreD(2) [OF assms(1)] assms(2) by (auto simp: locks_wf_def)
  have "same_chain s ?t" by (rule same_chainI) (simp_all add: link_of_def)
  note ch = same_chainD [OF this, symmetric]
  show ?thesis
  proof (cases "reparented s h")
    case True
    with not_held_reparented [OF assms(1) h True] assms(2) show ?thesis
      by (simp add: lock_release_def release_lock_def ch eff_def)
  qed (simp add: lock_release_def release_lock_def ch eff_def assms(2))
qed

lemma fulfill_head:
  assumes "w_linked (wtrs s w)" "w_gate (wtrs s w) = g" "w_outcome (wtrs s w) = Pending"
    "w_child (wtrs s w) = child"
    "(if child then waiting_children (gates s g) else waiters (gates s g)) = w # ws"
  shows "\<exists>t. waiter_fulfill w l s = (Inr (), t) \<and> w_outcome (wtrs t w) = Resolved l \<and>
    locks t = locks s \<and> lock_count (gates t g) = lock_count (gates s g) \<and>
    waiting_children (gates t g) = (if child then ws else waiting_children (gates s g)) \<and>
    waiters (gates t g) = (if child then waiters (gates s g) else ws)"
  using assms by (auto simp: waiter_fulfill_def waiter_unlink_def op_bind_def Let_def upd_wtr_def settle_def)

text \<open>What the release of the last lock of a gate leaves, in terms of the lists before it.\<close>

definition handed_over :: "gate_sys \<Rightarrow> nat \<Rightarrow> gate_sys \<Rightarrow> bool" where
  "handed_over s g t \<longleftrightarrow>
     (case (waiting_children (gates s g), waiters (gates s g)) of
        (w # ws, vs) \<Rightarrow> w_outcome (wtrs t w) = Resolved (n_locks s) \<and> locks t (n_locks s) = Some g \<and>
          lock_count (gates t g) = 1 \<and> waiting_children (gates t g) = ws \<and> waiters (gates t g) = vs
      | ([], v # vs) \<Rightarrow> w_outcome (wtrs t v) = Resolved (n_locks s) \<and> locks t (n_locks s) = Some g \<and>
          lock_count (gates t g) = 1 \<and> waiting_children (gates t g) = [] \<and> waiters (gates t g) = vs
      | ([], []) \<Rightarrow> lock_count (gates t g) = 0 \<and> waiting_children (gates t g) = [] \<and>
          waiters (gates t g) = [])"

text \<open>
  C3. Fair hand-over. In every reachable heap, releasing the last lock of a gate gives a fresh lock on
  that gate to the critical section that has waited longest to start, or if there is none to the
  waiter that has waited longest, and to nobody else: the gate then has exactly one lock, the lists
  lose exactly their head, and a gate nobody waits for is left unlocked. Releasing a lock that is not
  the last serves nobody.
\<close>

theorem release_hands_over:
  assumes "gate_reach s" "public s l" "locks s l = Some h"
  shows "(lock_count (gates s (eff s h)) = 1 \<longrightarrow> handed_over s (eff s h) (snd (lock_release l s))) \<and>
    (lock_count (gates s (eff s h)) \<noteq> 1 \<longrightarrow>
       lock_count (gates (snd (lock_release l s)) (eff s h)) = lock_count (gates s (eff s h)) - 1 \<and>
       waiting_children (gates (snd (lock_release l s)) (eff s h)) = waiting_children (gates s (eff s h)) \<and>
       waiters (gates (snd (lock_release l s)) (eff s h)) = waiters (gates s (eff s h)))"
proof -
  let ?g = "eff s h" and ?t = "s\<lparr>locks := (locks s)(l := None)\<rparr>"
  have cs: "core s" using assms(1) by (rule reach_core)
  have h: "h < n_gates s" using coreD(2) [OF cs] assms(3) by (auto simp: locks_wf_def)
  have g: "?g < n_gates s" "\<not> reparented s ?g"
    using coreD(1) [OF cs] h by (simp_all add: eff_lt eff_not_reparented)
  have pos: "0 < lock_count (gates s ?g)" by (rule held_pos [OF cs g(1) assms(3) refl])
  have rel: "lock_release l s = release_held ?g ?t" by (rule lock_release_held [OF cs assms(3)])
  define s2 where "s2 = call_hook ?g GateReleased (upd_gate ?g (\<lambda>gt. gt\<lparr>lock_count := lock_count gt - 1\<rparr>) ?t)"
  have nr: "eff s2 ?g = ?g"
    using g(2) by (simp add: s2_def eff_def reparented_def)
  define s3 where "s3 = snd (mk_lock ?g s2)"
  have s3: "wtrs s3 = wtrs s" "locks s3 (n_locks s) = Some ?g"
    "waiting_children (gates s3 ?g) = waiting_children (gates s ?g)"
    "waiters (gates s3 ?g) = waiters (gates s ?g)"
    "lock_count (gates s3 ?g) = Suc (lock_count (gates s ?g) - 1)"
    using nr by (simp_all add: s3_def s2_def)
  have fs: "fst (mk_lock ?g s2) = n_locks s" by (simp add: s2_def)
  have mem: "w_linked (wtrs s w) \<and> w_gate (wtrs s w) = ?g \<and> w_outcome (wtrs s w) = Pending \<and>
      (w_child (wtrs s w) \<longleftrightarrow> w \<in> set (waiting_children (gates s ?g)))"
    if "w \<in> set (waiting_children (gates s ?g)) \<or> w \<in> set (waiters (gates s ?g))" for w
    using coreD(4) [OF cs] g(1) that by (auto simp: waiters_wf_def)
  have "handed_over s ?g (snd (release_held ?g ?t))" if one: "lock_count (gates s ?g) = 1"
  proof -
    have eq: "release_held ?g ?t = (case waiting_children (gates s ?g) of
          child # _ \<Rightarrow> waiter_fulfill child (n_locks s) s3
        | [] \<Rightarrow> (case waiters (gates s ?g) of
              w # _ \<Rightarrow> waiter_fulfill w (n_locks s) s3
            | [] \<Rightarrow> (Inr (), s2)))"
      using one by (simp add: release_held_def s2_def s3_def Let_def split_beta fs [unfolded s2_def]
          split: list.split)
    show ?thesis
    proof (cases "waiting_children (gates s ?g)")
      case (Cons w ws)
      then obtain u where "waiter_fulfill w (n_locks s) s3 = (Inr (), u)"
        "w_outcome (wtrs u w) = Resolved (n_locks s)" "locks u = locks s3"
        "lock_count (gates u ?g) = lock_count (gates s3 ?g)" "waiting_children (gates u ?g) = ws"
        "waiters (gates u ?g) = waiters (gates s3 ?g)"
        using fulfill_head [of s3 w ?g True ws "n_locks s"] mem [of w] by (auto simp: s3)
      with Cons one show ?thesis by (simp add: eq handed_over_def s3)
    next
      case Nil
      show ?thesis
      proof (cases "waiters (gates s ?g)")
        case (Cons w ws)
        then obtain u where "waiter_fulfill w (n_locks s) s3 = (Inr (), u)"
          "w_outcome (wtrs u w) = Resolved (n_locks s)" "locks u = locks s3"
          "lock_count (gates u ?g) = lock_count (gates s3 ?g)"
          "waiting_children (gates u ?g) = []" "waiters (gates u ?g) = ws"
          using fulfill_head [of s3 w ?g False ws "n_locks s"] mem [of w] Nil by (auto simp: s3)
        with Cons Nil one show ?thesis by (simp add: eq handed_over_def s3)
      next
        case Nil2: Nil
        with Nil one show ?thesis by (simp add: eq handed_over_def s2_def)
      qed
    qed
  qed
  then show ?thesis using pos by (auto simp: rel release_held_def)
qed

section \<open>A concrete run\<close>

text \<open>
  A caller takes the actor's lock and starts a section; a second caller queues on the gate, the
  section asks to start and is suspended behind the first lock, whose release starts it.
\<close>

definition run1 :: gate_sys where "run1 = snd (gate_wait 0 False init_sys)"
definition run2 :: gate_sys where "run2 = snd (start_critical_section 0 run1)"
definition run3 :: gate_sys where "run3 = snd (gate_wait 0 False run2)"
definition run4 :: gate_sys where "run4 = snd (gate_wait 1 False run3)"
definition run5 :: gate_sys where "run5 = snd (lock_release 0 run4)"
definition run6 :: gate_sys where "run6 = snd (cs_resume 1 False run5)"
definition run7 :: gate_sys where "run7 = snd (cs_failed 1 (Failure ''boom'') run6)"

lemmas run_defs = run1_def run2_def run3_def run4_def run5_def run6_def run7_def

lemmas gate_eval = init_sys_def new_gate_def gate_wait_def gate_wait_n.simps [of 0] gate_wait_n.simps [of "Suc n" for n]
  input_gate_wait_def mk_lock_def start_critical_section_def require_gate_def op_bind_def Let_def
  new_waiter_def cs_initial_wait_def lock_release_def release_lock_def release_held_def
  waiter_fulfill_def waiter_unlink_def settle_def cs_resume_def cs_run_def upd_gate_def upd_wtr_def
  upd_sec_def call_hook_def reparented_def parent_as_input_gate_def priv_def public_def
  is_section_def can_resume_def

lemma run4_value:
  "run4 = \<lparr>gates = (\<lambda>_. new_gate None)
      (0 := \<lparr>lock_count = 1, waiters = [0], waiting_children = [1], broken = Fulfiller,
             broken_promise = None, sect = None\<rparr>,
       1 := \<lparr>lock_count = 0, waiters = [], waiting_children = [], broken = Fulfiller,
             broken_promise = None, sect = Some \<lparr>sec_state = INITIAL_WAIT, sec_parent = 0,
               sec_parent_lock = None, sec_await = Some 1\<rparr>\<rparr>), n_gates = 2,
     locks = [0 \<mapsto> 0], n_locks = 1,
     wtrs = (\<lambda>_. \<lparr>w_gate = 0, w_child = False, w_linked = False, w_outcome = Rejected Canceled\<rparr>)
      (0 := \<lparr>w_gate = 0, w_child = False, w_linked = True, w_outcome = Pending\<rparr>,
       1 := \<lparr>w_gate = 0, w_child = True, w_linked = True, w_outcome = Pending\<rparr>), n_wtrs = 2,
     hook_log = [GateLocked, WaiterAdded, WaiterAdded]\<rparr>"
  unfolding run_defs by (simp add: gate_eval fun_upd_twist eval_nat_numeral)

lemma reach4: "gate_reach run4"
proof -
  have 1: "gate_reach run1" unfolding run1_def
    by (rule reach_step [OF reach_init step_wait]) (simp add: init_sys_def)
  have 2: "gate_reach run2" unfolding run2_def
    by (rule reach_step [OF 1 step_start]) (simp add: run1_def gate_eval)
  have 3: "gate_reach run3" unfolding run3_def
    by (rule reach_step [OF 2 step_wait]) (simp add: run1_def run2_def gate_eval)
  show ?thesis unfolding run4_def
    by (rule reach_step [OF 3 step_wait]) (simp add: run1_def run2_def run3_def gate_eval)
qed

lemma public4: "public run4 0"
  by (simp add: run4_value public_def priv_def new_gate_def)

lemma run5_value:
  "run5 = run4\<lparr>gates := (gates run4)(0 := (gates run4 0)\<lparr>waiting_children := []\<rparr>),
     locks := [1 \<mapsto> 0], n_locks := 2,
     wtrs := (wtrs run4)(1 := \<lparr>w_gate = 0, w_child = True, w_linked = False, w_outcome = Resolved 1\<rparr>),
     hook_log := hook_log run4 @ [GateReleased, GateLocked, WaiterRemoved]\<rparr>"
  unfolding run5_def run4_value by (simp add: gate_eval fun_upd_twist)

lemma reach5: "gate_reach run5"
  unfolding run5_def by (rule reach_step [OF reach4 step_release [OF public4]])

lemma run6_value:
  "run6 = run5\<lparr>gates := (gates run5)(1 := (gates run5 1)\<lparr>lock_count := 1,
       sect := Some \<lparr>sec_state = RUNNING, sec_parent = 0, sec_parent_lock = Some 1, sec_await = None\<rparr>\<rparr>),
     locks := [1 \<mapsto> 0, 2 \<mapsto> 1], n_locks := 3\<rparr>"
  unfolding run6_def run5_value run4_value by (simp add: gate_eval fun_upd_twist numeral_2_eq_2)

lemma reach6: "gate_reach run6"
  unfolding run6_def
  by (rule reach_step [OF reach5 step_resume])
    (simp add: can_resume_def run5_value run4_value)

lemma section6: "is_section run6 1"
  by (simp add: is_section_def run6_value run5_value run4_value)

lemma reach7: "gate_reach run7"
  unfolding run7_def by (rule reach_step [OF reach6 step_failed [OF section6]])

section \<open>Witnesses\<close>


lemma gate_no_lost_wakeup_witness:
  "0 < lock_count (gates run4 0) \<and> (\<exists>l h. locks run4 l = Some h \<and> eff run4 h = 0)"
  using gate_no_lost_wakeup [OF reach4, of 0] by (simp add: run4_value)


lemma failed_section_breaks_root_witness: "is_broken run7 0"
  using failed_section_breaks_root [OF reach6 section6] unfolding run7_def by blast

lemma broken_gate_breaks_root_witness: "is_broken run7 1 \<and> is_broken run7 0"
proof -
  have "is_broken run7 1" "n_gates run7 = 2" by code_simp+
  with broken_gate_breaks_root [OF reach7, of 1] show ?thesis by simp
qed

lemma release_hands_over_witness: "handed_over run4 0 (snd (lock_release 0 run4))"
  using release_hands_over [OF reach4 public4, of 0]
  by (simp add: run4_value eff_def reparented_def)

section \<open>Unbalanced waiter hooks\<close>

definition run8 :: gate_sys where "run8 = snd (gate_wait 1 False run6)"
definition run9 :: gate_sys where "run9 = snd (cs_succeeded 1 run8)"
definition run11 :: gate_sys where "run11 = snd (abort_waiter 0 (snd (abort_waiter 2 run9)))"

text \<open>
  C6. Waiter hooks do not balance. A waiter added to a section's list is not reported to the root's hooks (a section has the default
  ones), but once \<open>succeeded()\<close> has moved it to the root its removal is: the root can report more
  waiters removed than added.
\<close>

theorem waiter_hooks_unbalanced:
  "\<exists>s. gate_reach s \<and>
    length (filter (\<lambda>h. h = WaiterAdded) (hook_log s)) < length (filter (\<lambda>h. h = WaiterRemoved) (hook_log s))"
proof -
  have n: "1 < n_gates run6" "n_gates run8 = 2" "(case sect (gates run8 1) of None \<Rightarrow> False | _ \<Rightarrow> True)"
    "2 < n_wtrs run9" "0 < n_wtrs (snd (abort_waiter 2 run9))"
    by code_simp+
  have 8: "gate_reach run8" unfolding run8_def by (rule reach_step [OF reach6 step_wait [OF n(1)]])
  have 9: "gate_reach run9" unfolding run9_def
    by (rule reach_step [OF 8 step_succeeded]) (use n in \<open>auto simp: is_section_def split: option.splits\<close>)
  have 11: "gate_reach run11" unfolding run11_def
    by (rule reach_step [OF reach_step [OF 9 step_abort [OF n(4)]] step_abort [OF n(5)]])
  have "hook_log run11 = [GateLocked, WaiterAdded, WaiterAdded, GateReleased, GateLocked,
      WaiterRemoved, WaiterRemoved, WaiterRemoved]" by code_simp
  with 11 show ?thesis by (intro exI [of _ run11]) simp
qed

end
