(* ===== verification/Js_Text.thy ===== *)
theory Js_Text
  imports Prelude "HOL-Library.Word"
begin

text \<open>
  The text encodings of the JavaScript standard library that the sources call: a string is its list
  of UTF-16 code units, \<open>TextEncoder.encode\<close> turns it into UTF-8 (a lone surrogate becomes U+FFFD)
  and \<open>TextDecoder.decode\<close> is the decoder of the WHATWG Encoding Standard with the replacement
  error mode, which also drops a leading byte order mark. A \<open>Uint8Array\<close> is its list of bytes.
\<close>

type_synonym js_string = "16 word list"
type_synonym bytes = "8 word list"

definition of_chars :: "string \<Rightarrow> js_string" where "of_chars = map (of_nat \<circ> of_char)"

text \<open>\<open>Uint8Array.set(xs, off)\<close>, for an \<open>xs\<close> that fits.\<close>

definition ta_set :: "nat \<Rightarrow> bytes \<Rightarrow> bytes \<Rightarrow> bytes" where
  "ta_set off xs buf = take off buf @ xs @ drop (off + length xs) buf"

lemma ta_set_length [simp]: "off + length xs \<le> length buf \<Longrightarrow> length (ta_set off xs buf) = length buf"
  by (simp add: ta_set_def)

section \<open>UTF-16 and scalar values\<close>

definition is_high :: "nat \<Rightarrow> bool" where "is_high u \<longleftrightarrow> 0xD800 \<le> u \<and> u < 0xDC00"
definition is_low :: "nat \<Rightarrow> bool" where "is_low u \<longleftrightarrow> 0xDC00 \<le> u \<and> u < 0xE000"

text \<open>A Unicode scalar value: a code point that is not a surrogate.\<close>

definition scalar :: "nat \<Rightarrow> bool" where "scalar c \<longleftrightarrow> c < 0x110000 \<and> \<not> is_high c \<and> \<not> is_low c"

fun to_scalars :: "nat list \<Rightarrow> nat list" where
  "to_scalars [] = []"
| "to_scalars [u] = [if is_high u \<or> is_low u then 0xFFFD else u]"
| "to_scalars (u # v # us) =
     (if is_high u \<and> is_low v then (0x10000 + (u - 0xD800) * 0x400 + (v - 0xDC00)) # to_scalars us
      else (if is_high u \<or> is_low u then 0xFFFD else u) # to_scalars (v # us))"

definition of_scalar :: "nat \<Rightarrow> nat list" where
  "of_scalar c = (if c < 0x10000 then [c]
     else [0xD800 + (c - 0x10000) div 0x400, 0xDC00 + (c - 0x10000) mod 0x400])"

section \<open>UTF-8\<close>

definition encode_scalar :: "nat \<Rightarrow> nat list" where
  "encode_scalar c =
     (if c < 0x80 then [c]
      else if c < 0x800 then [0xC0 + c div 0x40, 0x80 + c mod 0x40]
      else if c < 0x10000 then [0xE0 + c div 0x1000, 0x80 + c div 0x40 mod 0x40, 0x80 + c mod 0x40]
      else [0xF0 + c div 0x40000, 0x80 + c div 0x1000 mod 0x40, 0x80 + c div 0x40 mod 0x40,
            0x80 + c mod 0x40])"

definition utf8_encode :: "js_string \<Rightarrow> bytes" where
  "utf8_encode s = map of_nat (concat (map encode_scalar (to_scalars (map unat s))))"

text \<open>
  The decoder's state: how many continuation bytes are still needed, the code point so far and the
  range the next byte must be in. A byte out of range ends the sequence and is read again.
\<close>

function utf8_run :: "nat \<Rightarrow> nat \<Rightarrow> nat \<Rightarrow> nat \<Rightarrow> nat list \<Rightarrow> nat list" where
  "utf8_run needed cp lo hi [] = (if needed = 0 then [] else [0xFFFD])"
| "utf8_run needed cp lo hi (b # bs) =
     (if needed = 0 then
        (if b < 0x80 then b # utf8_run 0 0 0x80 0xBF bs
         else if 0xC2 \<le> b \<and> b \<le> 0xDF then utf8_run 1 (b - 0xC0) 0x80 0xBF bs
         else if 0xE0 \<le> b \<and> b \<le> 0xEF then
           utf8_run 2 (b - 0xE0) (if b = 0xE0 then 0xA0 else 0x80) (if b = 0xED then 0x9F else 0xBF) bs
         else if 0xF0 \<le> b \<and> b \<le> 0xF4 then
           utf8_run 3 (b - 0xF0) (if b = 0xF0 then 0x90 else 0x80) (if b = 0xF4 then 0x8F else 0xBF) bs
         else 0xFFFD # utf8_run 0 0 0x80 0xBF bs)
      else if b < lo \<or> hi < b then 0xFFFD # utf8_run 0 0 0x80 0xBF (b # bs)
      else if needed = 1 then (cp * 0x40 + (b - 0x80)) # utf8_run 0 0 0x80 0xBF bs
      else utf8_run (needed - 1) (cp * 0x40 + (b - 0x80)) 0x80 0xBF bs)"
  by pat_completeness auto
termination
  by (relation "measure (\<lambda>(needed, _, _, _, bs). 2 * length bs + (if needed = 0 then 0 else 1))") auto

declare utf8_run.simps [simp del]

definition drop_bom :: "nat list \<Rightarrow> nat list" where
  "drop_bom bs = (if take 3 bs = [0xEF, 0xBB, 0xBF] then drop 3 bs else bs)"

definition utf8_decode :: "bytes \<Rightarrow> js_string" where
  "utf8_decode bs = map of_nat (concat (map of_scalar (utf8_run 0 0 0x80 0xBF (drop_bom (map unat bs)))))"

section \<open>Decoding what was encoded\<close>

lemma split64:
  "c div 0x1000 * 64 + c div 0x40 mod 0x40 = (c::nat) div 0x40"
  "c div 0x40000 * 64 + c div 0x1000 mod 0x40 = c div 0x1000"
  "c div 0x40 * 64 + c mod 0x40 = c"
  using div_mult_mod_eq [of "c div 64" 64] div_mult_mod_eq [of "c div 4096" 64]
  by (simp_all add: div_mult2_eq [symmetric])

lemma utf8_run_encode:
  assumes "scalar c"
  shows "utf8_run 0 0 0x80 0xBF (encode_scalar c @ bs) = c # utf8_run 0 0 0x80 0xBF bs"
proof -
  consider "c < 0x80" | "0x80 \<le> c" "c < 0x800" | "0x800 \<le> c" "c < 0x10000" | "0x10000 \<le> c" "c < 0x110000"
    using assms by (fastforce simp: scalar_def)
  then show ?thesis
  proof cases
    case 1
    then show ?thesis by (simp add: encode_scalar_def utf8_run.simps)
  next
    case 2
    define x y where "x = c div 0x40" and "y = c mod 0x40"
    have c: "c = x * 64 + y" and y: "y < 64" unfolding x_def y_def by simp_all
    have "x < 32" "2 \<le> x" using c y 2 by auto
    with 2 y show ?thesis
      by (simp add: encode_scalar_def x_def [symmetric] y_def [symmetric] utf8_run.simps c [symmetric])
  next
    case 3
    define x y z where "x = c div 0x1000" and "y = c div 0x40 mod 0x40" and "z = c mod 0x40"
    have c: "c = (x * 64 + y) * 64 + z" and yz: "y < 64" "z < 64"
      unfolding x_def y_def z_def by (simp_all add: split64)
    have "x < 16" "x = 0 \<Longrightarrow> 32 \<le> y" "x = 13 \<Longrightarrow> y < 32"
      using c yz 3 assms by (auto simp: scalar_def is_high_def is_low_def)
    with 3 yz show ?thesis
      by (simp add: encode_scalar_def x_def [symmetric] y_def [symmetric] z_def [symmetric]
          utf8_run.simps) (use c in auto)
  next
    case 4
    define x y z w where "x = c div 0x40000" and "y = c div 0x1000 mod 0x40"
      and "z = c div 0x40 mod 0x40" and "w = c mod 0x40"
    have c: "c = ((x * 64 + y) * 64 + z) * 64 + w" and yz: "y < 64" "z < 64" "w < 64"
      unfolding x_def y_def z_def w_def by (simp_all add: split64)
    have "x < 5" "x = 0 \<Longrightarrow> 16 \<le> y" "x = 4 \<Longrightarrow> y < 16"
      using c yz 4 by auto
    with 4 yz show ?thesis
      by (simp add: encode_scalar_def x_def [symmetric] y_def [symmetric] z_def [symmetric]
          w_def [symmetric] utf8_run.simps) (use c in auto)
  qed
qed

lemma utf8_run_encodes:
  "list_all scalar cs \<Longrightarrow> utf8_run 0 0 0x80 0xBF (concat (map encode_scalar cs)) = cs"
  by (induction cs) (simp_all add: utf8_run_encode utf8_run.simps(1))

lemma to_scalars_scalar: "\<forall>u \<in> set us. u < 0x10000 \<Longrightarrow> list_all scalar (to_scalars us)"
  by (induction us rule: to_scalars.induct) (auto simp: scalar_def is_high_def is_low_def)

lemma to_scalars_of_scalar:
  assumes "scalar c"
  shows "to_scalars (of_scalar c @ us) = c # to_scalars us"
proof (cases "c < 0x10000")
  case True
  with assms show ?thesis by (cases us) (simp_all add: of_scalar_def scalar_def)
next
  case False
  define d where "d = c - 0x10000"
  have d: "c = 0x10000 + d" "d < 0x100000" using False assms unfolding d_def scalar_def by linarith+
  have "d div 0x400 < 0x400" using d(2) by (simp add: div_less_iff_less_mult)
  moreover have "0x10000 + d div 0x400 * 0x400 + d mod 0x400 = c" using d(1) by simp
  ultimately show ?thesis using False
    by (simp add: of_scalar_def d_def [symmetric] is_high_def is_low_def)
qed

lemma to_scalars_of_scalars: "list_all scalar cs \<Longrightarrow> to_scalars (concat (map of_scalar cs)) = cs"
  by (induction cs) (simp_all add: to_scalars_of_scalar)

lemma encode_scalar_bytes: "scalar c \<Longrightarrow> b \<in> set (encode_scalar c) \<Longrightarrow> b < 256"
  by (auto simp: encode_scalar_def scalar_def split: if_splits)

lemma of_scalar_units: "scalar c \<Longrightarrow> u \<in> set (of_scalar c) \<Longrightarrow> u < 0x10000"
  by (auto simp: of_scalar_def scalar_def split: if_splits)

lemma unat_of_nat_map:
  "\<forall>x \<in> set xs. x < 2 ^ LENGTH('a) \<Longrightarrow> map unat (map of_nat xs :: 'a::len word list) = xs"
  by (induction xs) (simp_all add: unat_of_nat take_bit_nat_eq_self)

lemma unats_lt: "u \<in> set (map unat (s :: 'a::len word list)) \<Longrightarrow> u < 2 ^ LENGTH('a)"
  by auto

definition encoded_scalars :: "js_string \<Rightarrow> nat list" where
  "encoded_scalars s = to_scalars (map unat s)"

lemma encoded_scalars_ok: "list_all scalar (encoded_scalars s)"
  unfolding encoded_scalars_def by (rule to_scalars_scalar) (use unats_lt [where ?'a = 16] in auto)

lemma unat_utf8_encode: "map unat (utf8_encode s) = concat (map encode_scalar (encoded_scalars s))"
  unfolding utf8_encode_def encoded_scalars_def [symmetric]
  by (rule unat_of_nat_map) (use encoded_scalars_ok [of s] in \<open>auto simp: list_all_iff dest: encode_scalar_bytes\<close>)

text \<open>A leading U+FEFF is the one thing the decoder takes away from what the encoder wrote.\<close>

lemma drop_bom_encoded:
  assumes "encoded_scalars s = [] \<or> hd (encoded_scalars s) \<noteq> 0xFEFF"
  shows "drop_bom (map unat (utf8_encode s)) = map unat (utf8_encode s)"
proof (cases "encoded_scalars s")
  case Nil
  then show ?thesis by (simp add: unat_utf8_encode drop_bom_def)
next
  case (Cons c cs)
  have c: "scalar c" "c \<noteq> 0xFEFF" using assms encoded_scalars_ok [of s] Cons by simp_all
  have "take 3 (encode_scalar c @ bs) \<noteq> [0xEF, 0xBB, 0xBF]" for bs
  proof
    assume e: "take 3 (encode_scalar c @ bs) = [0xEF, 0xBB, 0xBF]"
    have "\<not> c < 0x80" using e by (auto simp: encode_scalar_def)
    moreover have "\<not> c < 0x800" using e by (auto simp: encode_scalar_def split: if_splits)
    moreover have "c < 0x10000" using e c(1) by (auto simp: encode_scalar_def scalar_def split: if_splits)
    ultimately have "c div 0x1000 = 15" "c div 0x40 mod 0x40 = 0x3B" "c mod 0x40 = 0x3F"
      using e by (simp_all add: encode_scalar_def)
    moreover have "c div 0x40 = c div 0x1000 * 0x40 + c div 0x40 mod 0x40"
      using div_mult2_eq [of c "0x40" "0x40"] by simp
    moreover have "c = c div 0x40 * 0x40 + c mod 0x40" by simp
    ultimately have "c = 0xFEFF" by linarith
    with c(2) show False ..
  qed
  then show ?thesis by (simp add: unat_utf8_encode Cons drop_bom_def)
qed

lemma decode_encode_scalars:
  assumes "encoded_scalars s = [] \<or> hd (encoded_scalars s) \<noteq> 0xFEFF"
  shows "map unat (utf8_decode (utf8_encode s)) = concat (map of_scalar (encoded_scalars s))"
  unfolding utf8_decode_def drop_bom_encoded [OF assms]
  unfolding unat_utf8_encode utf8_run_encodes [OF encoded_scalars_ok]
  by (rule unat_of_nat_map)
    (use encoded_scalars_ok [of s] in \<open>auto simp: list_all_iff dest: of_scalar_units\<close>)

lemma encode_decode_encode:
  assumes "encoded_scalars s = [] \<or> hd (encoded_scalars s) \<noteq> 0xFEFF"
  shows "utf8_encode (utf8_decode (utf8_encode s)) = utf8_encode s"
proof -
  have "encoded_scalars (utf8_decode (utf8_encode s)) = encoded_scalars s"
    unfolding encoded_scalars_def [of "utf8_decode _"] decode_encode_scalars [OF assms]
    by (rule to_scalars_of_scalars [OF encoded_scalars_ok])
  then show ?thesis by (simp add: utf8_encode_def encoded_scalars_def)
qed

section \<open>Numbers in a text\<close>

fun js_decimal :: "nat \<Rightarrow> js_string" where
  "js_decimal n = (if n < 10 then [of_nat (48 + n)] else js_decimal (n div 10) @ [of_nat (48 + n mod 10)])"

declare js_decimal.simps [simp del]

end
