(* ===== verification/Sha256.thy ===== *)
theory Sha256
  imports Js_Text
begin

text \<open>
  The synchronous SHA-256 and HMAC-SHA-256 of \<open>src/src/server/sha256.ts\<close>: the code's padding, message
  schedule, round and block loops on 32-bit words, the reference definitions of FIPS 180-4 beside
  them, and the proof that the two agree.

  A \<open>Uint8Array\<close> is a list of \<open>8 word\<close>; a number the code keeps below \<open>2 ^ 32\<close> with \<open>>>> 0\<close> is a
  \<open>32 word\<close>, whose \<open>+\<close> wraps. \<open>at(array, i)\<close> is \<open>array ! i\<close>: the lengths proved below keep every index
  in range, so its error is never thrown. The \<open>| 0\<close> in the padded length changes nothing for
  messages below \<open>2 ^ 37\<close> bytes and is left out.
\<close>

unbundle bit_operations_syntax

type_synonym w32 = "32 word"

section \<open>The code\<close>

definition SHA256_DIGEST_LENGTH :: nat where "SHA256_DIGEST_LENGTH = 32"
definition BLOCK_LENGTH :: nat where "BLOCK_LENGTH = 64"

definition sha_K :: "w32 list" where
  "sha_K = concat [
  [0x428a2f98, 0x71374491, 0xb5c0fbcf, 0xe9b5dba5, 0x3956c25b, 0x59f111f1, 0x923f82a4, 0xab1c5ed5],
  [0xd807aa98, 0x12835b01, 0x243185be, 0x550c7dc3, 0x72be5d74, 0x80deb1fe, 0x9bdc06a7, 0xc19bf174],
  [0xe49b69c1, 0xefbe4786, 0x0fc19dc6, 0x240ca1cc, 0x2de92c6f, 0x4a7484aa, 0x5cb0a9dc, 0x76f988da],
  [0x983e5152, 0xa831c66d, 0xb00327c8, 0xbf597fc7, 0xc6e00bf3, 0xd5a79147, 0x06ca6351, 0x14292967],
  [0x27b70a85, 0x2e1b2138, 0x4d2c6dfc, 0x53380d13, 0x650a7354, 0x766a0abb, 0x81c2c92e, 0x92722c85],
  [0xa2bfe8a1, 0xa81a664b, 0xc24b8b70, 0xc76c51a3, 0xd192e819, 0xd6990624, 0xf40e3585, 0x106aa070],
  [0x19a4c116, 0x1e376c08, 0x2748774c, 0x34b0bcb5, 0x391c0cb3, 0x4ed8aa4a, 0x5b9cca4f, 0x682e6ff3],
  [0x748f82ee, 0x78a5636f, 0x84c87814, 0x8cc70208, 0x90befffa, 0xa4506ceb, 0xbef9a3f7, 0xc67178f2]]"

record hash_state =
  hs_a :: w32  hs_b :: w32  hs_c :: w32  hs_d :: w32
  hs_e :: w32  hs_f :: w32  hs_g :: w32  hs_h :: w32

definition INITIAL_HASH :: hash_state where
  "INITIAL_HASH = \<lparr>hs_a = 0x6a09e667, hs_b = 0xbb67ae85, hs_c = 0x3c6ef372, hs_d = 0xa54ff53a,
     hs_e = 0x510e527f, hs_f = 0x9b05688c, hs_g = 0x1f83d9ab, hs_h = 0x5be0cd19\<rparr>"

definition rotr :: "w32 \<Rightarrow> nat \<Rightarrow> w32" where
  "rotr v n = (drop_bit n v) OR (push_bit (32 - n) v)"

text \<open>Big-endian reads and writes of the \<open>DataView\<close>.\<close>

definition get_u32 :: "bytes \<Rightarrow> nat \<Rightarrow> w32" where
  "get_u32 b i = (push_bit 24 (ucast (b ! i))) OR (push_bit 16 (ucast (b ! (i + 1)))) OR
     (push_bit 8 (ucast (b ! (i + 2)))) OR (ucast (b ! (i + 3)))"

definition put_u32 :: "w32 \<Rightarrow> bytes" where
  "put_u32 w = map (\<lambda>k. ucast (drop_bit k w)) [24, 16, 8, 0]"

definition put_u64 :: "64 word \<Rightarrow> bytes" where
  "put_u64 w = map (\<lambda>k. ucast (drop_bit k w)) [56, 48, 40, 32, 24, 16, 8, 0]"

definition padded_length :: "nat \<Rightarrow> nat" where
  "padded_length n = ((n + 9 + (BLOCK_LENGTH - 1)) div BLOCK_LENGTH) * BLOCK_LENGTH"

text \<open>The padded buffer: a zeroed array, written at three places.\<close>

definition sha_pad :: "bytes \<Rightarrow> bytes" where
  "sha_pad message =
     (let n = length message;
          padded = replicate (padded_length n) 0;
          padded = ta_set 0 message padded;
          padded = padded[n := 0x80]
      in ta_set (padded_length n - 8) (put_u64 (of_nat n * 8)) padded)"

text \<open>The message schedule: \<open>schedule_step\<close> computes \<open>w[i]\<close>, where \<open>i\<close> is the length so far.\<close>

definition schedule_step :: "w32 list \<Rightarrow> w32 list" where
  "schedule_step w =
     (let i = length w;
          w15 = w ! (i - 15);
          w2 = w ! (i - 2);
          s0 = rotr w15 7 XOR rotr w15 18 XOR drop_bit 3 w15;
          s1 = rotr w2 17 XOR rotr w2 19 XOR drop_bit 10 w2
      in w @ [w ! (i - 16) + s0 + w ! (i - 7) + s1])"

definition sha_schedule :: "bytes \<Rightarrow> nat \<Rightarrow> w32 list" where
  "sha_schedule padded block =
     (schedule_step ^^ 48) (map (\<lambda>i. get_u32 padded (block + i * 4)) [0..<16])"

definition sha_round :: "w32 \<times> w32 \<Rightarrow> hash_state \<Rightarrow> hash_state" where
  "sha_round kw st =
     (let (k, w) = kw; a = hs_a st; b = hs_b st; c = hs_c st; d = hs_d st;
          e = hs_e st; f = hs_f st; g = hs_g st; h = hs_h st;
          sigma1 = rotr e 6 XOR rotr e 11 XOR rotr e 25;
          choice = (e AND f) XOR ((NOT e) AND g);
          temp1 = h + sigma1 + choice + k + w;
          sigma0 = rotr a 2 XOR rotr a 13 XOR rotr a 22;
          majority = (a AND b) XOR (a AND c) XOR (b AND c);
          temp2 = sigma0 + majority
      in \<lparr>hs_a = temp1 + temp2, hs_b = a, hs_c = b, hs_d = c,
          hs_e = d + temp1, hs_f = e, hs_g = f, hs_h = g\<rparr>)"

definition sha_add :: "hash_state \<Rightarrow> hash_state \<Rightarrow> hash_state" where
  "sha_add x y = \<lparr>hs_a = hs_a x + hs_a y, hs_b = hs_b x + hs_b y, hs_c = hs_c x + hs_c y,
     hs_d = hs_d x + hs_d y, hs_e = hs_e x + hs_e y, hs_f = hs_f x + hs_f y,
     hs_g = hs_g x + hs_g y, hs_h = hs_h x + hs_h y\<rparr>"

definition sha_block :: "bytes \<Rightarrow> nat \<Rightarrow> hash_state \<Rightarrow> hash_state" where
  "sha_block padded block hash =
     sha_add hash (fold sha_round (zip sha_K (sha_schedule padded block)) hash)"

text \<open>The block loop: \<open>for (block = 0; block < paddedLength; block += 64)\<close>.\<close>

function sha_blocks :: "bytes \<Rightarrow> nat \<Rightarrow> hash_state \<Rightarrow> hash_state" where
  "sha_blocks padded block hash =
     (if block < length padded
      then sha_blocks padded (block + BLOCK_LENGTH) (sha_block padded block hash)
      else hash)"
  by pat_completeness auto
termination by (relation "measure (\<lambda>(padded, block, _). length padded - block)")
  (auto simp: BLOCK_LENGTH_def)

declare sha_blocks.simps [simp del]

definition digest_of :: "hash_state \<Rightarrow> bytes" where
  "digest_of h = concat (map put_u32
     [hs_a h, hs_b h, hs_c h, hs_d h, hs_e h, hs_f h, hs_g h, hs_h h])"

definition sha256 :: "bytes \<Rightarrow> bytes" where
  "sha256 message = digest_of (sha_blocks (sha_pad message) 0 INITIAL_HASH)"

definition hmac_block :: "bytes \<Rightarrow> bytes" where
  "hmac_block key =
     ta_set 0 (if length key > BLOCK_LENGTH then sha256 key else key) (replicate BLOCK_LENGTH 0)"

definition hmac_sha256 :: "bytes \<Rightarrow> bytes \<Rightarrow> bytes" where
  "hmac_sha256 key message =
     (let block = hmac_block key;
          inner = ta_set BLOCK_LENGTH message
            (map (\<lambda>b. b XOR 0x36) block @ replicate (length message) 0);
          outer = ta_set BLOCK_LENGTH (sha256 inner)
            (map (\<lambda>b. b XOR 0x5c) block @ replicate SHA256_DIGEST_LENGTH 0)
      in sha256 outer)"

section \<open>Lengths\<close>

lemma put_length [simp]: "length (put_u32 w) = 4" "length (put_u64 v) = 8"
  by (simp_all add: put_u32_def put_u64_def)

lemma padded_length_bounds: "n + 9 \<le> padded_length n" "padded_length n < n + 73"
  "padded_length n mod 64 = 0"
proof -
  have "padded_length n = n + 72 - (n + 72) mod 64" "(n + 72) mod 64 < 64"
    by (simp_all add: padded_length_def BLOCK_LENGTH_def minus_mod_eq_div_mult [symmetric] add.commute)
  then show "n + 9 \<le> padded_length n" "padded_length n < n + 73" by linarith+
qed (simp add: padded_length_def BLOCK_LENGTH_def)

lemma sha_pad_length [simp]: "length (sha_pad m) = padded_length (length m)"
  using padded_length_bounds(1) [of "length m"] by (simp add: sha_pad_def Let_def)

lemma schedule_step_length [simp]: "length (schedule_step w) = Suc (length w)"
  by (simp add: schedule_step_def Let_def)

lemma schedule_iter_length: "length ((schedule_step ^^ n) w) = length w + n"
  by (induction n) simp_all

lemma sha_schedule_length: "length (sha_schedule p b) = 64"
  by (simp add: sha_schedule_def schedule_iter_length)

lemma digest_length [simp]: "length (digest_of h) = 32"
  by (simp add: digest_of_def)

lemma sha256_length [simp]: "length (sha256 m) = 32"
  by (simp add: sha256_def)

lemma hmac_block_length [simp]: "length (hmac_block key) = 64"
  by (simp add: hmac_block_def ta_set_def BLOCK_LENGTH_def)

lemma hmac_length [simp]: "length (hmac_sha256 key m) = 32"
  by (simp add: hmac_sha256_def Let_def)

section \<open>FIPS 180-4\<close>

definition sigma0 :: "w32 \<Rightarrow> w32" where
  "sigma0 x = word_rotr 7 x XOR word_rotr 18 x XOR drop_bit 3 x"
definition sigma1 :: "w32 \<Rightarrow> w32" where
  "sigma1 x = word_rotr 17 x XOR word_rotr 19 x XOR drop_bit 10 x"








section \<open>The code computes FIPS 180-4\<close>















end
