(* ===== verification/Actor_Id.thy ===== *)
theory Actor_Id
  imports Sha256
begin

text \<open>
  Actor ids, \<open>src/src/server/actor-id-impl.ts\<close>: an id is 32 bytes, a 16-byte base and the first half of
  the base's keyed hash. The factory's methods are functions of its key. The entropy that
  \<open>crypto.getRandomValues\<close> writes is an argument of \<open>new_unique_id\<close>, and the bytes are those it put in
  the first half of the buffer. An argument that is no \<open>ActorIdImpl\<close> is \<open>None\<close> in \<open>actor_id_equals\<close>.
\<close>

section \<open>The code\<close>

definition BASE_LENGTH :: nat where "BASE_LENGTH = SHA256_DIGEST_LENGTH div 2"
definition WORKING_LENGTH :: nat where "WORKING_LENGTH = BASE_LENGTH + SHA256_DIGEST_LENGTH"

definition JURISDICTION_UNIMPLEMENTED :: js_exn where
  "JURISDICTION_UNIMPLEMENTED = Failure ''Jurisdiction restrictions are not implemented in workerd.''"
definition INVALID_ACTOR_ID :: js_exn where
  "INVALID_ACTOR_ID = Failure ''Invalid Durable Object ID: must be 64 hex digits''"
definition WRONG_NAMESPACE_ACTOR_ID :: js_exn where
  "WRONG_NAMESPACE_ACTOR_ID = Failure ''Durable Object ID is not valid for this namespace.''"
definition FOREIGN_ACTOR_ID :: js_exn where
  "FOREIGN_ACTOR_ID = Failure
     ''This actor id was not created by this runtime, so it cannot be compared with one that was.''"

record actor_id =
  id_bytes :: bytes
  id_name :: "js_string option"

definition new_actor_id :: "bytes \<Rightarrow> js_string option \<Rightarrow> js_exn + actor_id" where
  "new_actor_id buf name =
     (if length buf < SHA256_DIGEST_LENGTH
      then Inl (Failure ''an actor id is 32 bytes, and this buffer holds fewer'')
      else Inr \<lparr>id_bytes = take SHA256_DIGEST_LENGTH buf, id_name = name\<rparr>)"

text \<open>\<open>Number.prototype.toString(16)\<close> of a digit, and a byte as two of them.\<close>

definition hex_digit :: "nat \<Rightarrow> 16 word" where
  "hex_digit d = of_nat (if d < 10 then 48 + d else 87 + d)"

definition hex_byte :: "8 word \<Rightarrow> js_string" where
  "hex_byte b = [hex_digit (unat b div 16), hex_digit (unat b mod 16)]"

definition actor_id_to_string :: "actor_id \<Rightarrow> js_string" where
  "actor_id_to_string i = concat (map hex_byte (id_bytes i))"

definition actor_id_equals :: "actor_id \<Rightarrow> actor_id option \<Rightarrow> js_exn + bool" where
  "actor_id_equals mine other =
     (case other of
        None \<Rightarrow> Inl FOREIGN_ACTOR_ID
      | Some theirs \<Rightarrow>
          Inr (list_all (\<lambda>i. id_bytes mine ! i = id_bytes theirs ! i) [0..<SHA256_DIGEST_LENGTH]))"

definition clear_name :: "actor_id \<Rightarrow> actor_id" where "clear_name i = i\<lparr>id_name := None\<rparr>"

datatype unique_key = KeyString js_string | KeyBytes bytes

definition new_factory :: "unique_key \<Rightarrow> js_exn + bytes" where
  "new_factory k =
     (case k of
        KeyString s \<Rightarrow> Inr (sha256 (utf8_encode s))
      | KeyBytes b \<Rightarrow> (if length b \<noteq> SHA256_DIGEST_LENGTH
                       then Inl (Failure ''an actor id factory key is 32 bytes'') else Inr b))"

definition compute_mac :: "bytes \<Rightarrow> bytes \<Rightarrow> bytes" where
  "compute_mac key buf = ta_set BASE_LENGTH (hmac_sha256 key (take BASE_LENGTH buf)) buf"

definition new_unique_id :: "bytes \<Rightarrow> bytes \<Rightarrow> js_string option \<Rightarrow> js_exn + actor_id" where
  "new_unique_id key entropy jurisdiction =
     (if jurisdiction \<noteq> None then Inl JURISDICTION_UNIMPLEMENTED
      else new_actor_id (compute_mac key (ta_set 0 entropy (replicate WORKING_LENGTH 0))) None)"

definition id_from_name :: "bytes \<Rightarrow> js_string \<Rightarrow> js_exn + actor_id" where
  "id_from_name key name =
     new_actor_id (compute_mac key
       (ta_set 0 (hmac_sha256 key (utf8_encode name)) (replicate WORKING_LENGTH 0))) (Some name)"

text \<open>The value of a hexadecimal digit; \<open>ACTOR_ID_PATTERN\<close> is \<open>[0-9a-fA-F]\<close> sixty-four times.\<close>

definition hex_value :: "16 word \<Rightarrow> nat option" where
  "hex_value c =
     (let u = unat c
      in if 48 \<le> u \<and> u \<le> 57 then Some (u - 48)
         else if 97 \<le> u \<and> u \<le> 102 then Some (u - 87)
         else if 65 \<le> u \<and> u \<le> 70 then Some (u - 55)
         else None)"

definition actor_id_pattern :: "js_string \<Rightarrow> bool" where
  "actor_id_pattern s \<longleftrightarrow> length s = 64 \<and> list_all (\<lambda>c. hex_value c \<noteq> None) s"

text \<open>\<open>Number.parseInt(str.slice(i * 2, i * 2 + 2), 16)\<close>, stored in a byte.\<close>

definition parse_byte :: "js_string \<Rightarrow> nat \<Rightarrow> 8 word" where
  "parse_byte s i = of_nat (the (hex_value (s ! (i * 2))) * 16 + the (hex_value (s ! (i * 2 + 1))))"

definition id_from_string :: "bytes \<Rightarrow> js_string \<Rightarrow> js_exn + actor_id" where
  "id_from_string key str =
     (if \<not> actor_id_pattern str then Inl INVALID_ACTOR_ID
      else
        (let decoded = map (parse_byte str) [0..<SHA256_DIGEST_LENGTH];
             buf = compute_mac key (ta_set 0 (take BASE_LENGTH decoded) (replicate WORKING_LENGTH 0))
         in if \<not> list_all (\<lambda>i. buf ! (BASE_LENGTH + i) = decoded ! (BASE_LENGTH + i))
                  [0..<SHA256_DIGEST_LENGTH - BASE_LENGTH]
            then Inl WRONG_NAMESPACE_ACTOR_ID
            else new_actor_id buf None))"

definition clone_with_jurisdiction :: "bytes \<Rightarrow> js_string option \<Rightarrow> js_exn + bytes" where
  "clone_with_jurisdiction key j =
     (case j of None \<Rightarrow> new_factory (KeyBytes key) | Some _ \<Rightarrow> Inl JURISDICTION_UNIMPLEMENTED)"

definition matches_jurisdiction :: "bytes \<Rightarrow> actor_id \<Rightarrow> bool" where
  "matches_jurisdiction key i = True"

section \<open>Hexadecimal text\<close>

lemma hex_value_digit: "d < 16 \<Longrightarrow> hex_value (hex_digit d) = Some d"
  by (simp add: hex_value_def hex_digit_def Let_def unat_of_nat)

lemma hex_value_lt: "hex_value c = Some d \<Longrightarrow> d < 16"
  by (auto simp: hex_value_def Let_def split: if_splits)

lemma unat_byte_lt: "unat (b :: 8 word) < 256"
  using unsigned_less [of b] by simp

lemma byte_div_16: "unat (b :: 8 word) div 16 < 16"
  using unat_byte_lt [of b] by linarith

lemma hex_byte_length [simp]: "length (hex_byte b) = 2"
  by (simp add: hex_byte_def)

lemma hex_text_length: "length (concat (map hex_byte bs)) = 2 * length bs"
  by (induction bs) simp_all

lemma hex_text_nth:
  "i < length bs \<Longrightarrow> concat (map hex_byte bs) ! (2 * i) = hex_digit (unat (bs ! i) div 16) \<and>
   concat (map hex_byte bs) ! Suc (2 * i) = hex_digit (unat (bs ! i) mod 16)"
proof (induction bs arbitrary: i)
  case (Cons b bs)
  then show ?case by (cases i) (simp_all add: hex_byte_def)
qed simp

lemma hex_text_digits: "list_all (\<lambda>c. hex_value c \<noteq> None) (concat (map hex_byte bs))"
  by (induction bs) (simp_all add: hex_byte_def hex_value_digit byte_div_16)

lemma parse_hex_text:
  assumes "i < length bs"
  shows "parse_byte (concat (map hex_byte bs)) i = bs ! i"
  using hex_text_nth [OF assms]
  by (simp add: parse_byte_def hex_value_digit byte_div_16 mult.commute)

lemma parse_hex_list: "length bs = n \<Longrightarrow> map (parse_byte (concat (map hex_byte bs))) [0..<n] = bs"
  by (rule nth_equalityI) (simp_all add: parse_hex_text)

section \<open>Keyed hashes\<close>

text \<open>
  What the factory needs of its hash, and what an id is under it. The laws mention only the length of
  the digest, so what is proved here holds of any keyed hash the code could be built on.
\<close>

definition keyed_id :: "(bytes \<Rightarrow> bytes \<Rightarrow> bytes) \<Rightarrow> bytes \<Rightarrow> bytes \<Rightarrow> bytes" where
  "keyed_id mac key base = base @ take 16 (mac key base)"

locale keyed_hash =
  fixes mac :: "bytes \<Rightarrow> bytes \<Rightarrow> bytes"
  assumes mac_length: "length (mac key m) = 32"
begin

lemma keyed_id_length: "length base = 16 \<Longrightarrow> length (keyed_id mac key base) = 32"
  by (simp add: keyed_id_def mac_length)

lemma keyed_id_base: "length base = 16 \<Longrightarrow> take 16 (keyed_id mac key base) = base"
  by (simp add: keyed_id_def)

lemma keyed_id_inj:
  assumes "keyed_id mac key b = keyed_id mac key b'" "length b = 16" "length b' = 16"
  shows "b = b'"
proof -
  have "take 16 (keyed_id mac key b) = take 16 (keyed_id mac key b')" by (simp only: assms(1))
  then show ?thesis by (simp only: keyed_id_base assms(2,3))
qed

lemma keyed_id_working:
  assumes "length buf = 48"
  shows "take 32 (ta_set 16 (mac key (take 16 buf)) buf) = keyed_id mac key (take 16 buf)"
  using assms by (simp add: ta_set_def keyed_id_def mac_length)

text \<open>The second half decides: a string of 32 bytes is an id of the key exactly when its first half
  hashes to its second.\<close>

lemma keyed_id_iff:
  assumes "length bs = 32"
  shows "(\<exists>base. length base = 16 \<and> bs = keyed_id mac key base) \<longleftrightarrow>
    drop 16 bs = take 16 (mac key (take 16 bs))"
proof
  assume "drop 16 bs = take 16 (mac key (take 16 bs))"
  then have "bs = keyed_id mac key (take 16 bs)"
    unfolding keyed_id_def by (metis append_take_drop_id)
  then show "\<exists>base. length base = 16 \<and> bs = keyed_id mac key base"
    using assms by (intro exI [of _ "take 16 bs"]) simp
qed (auto simp: keyed_id_def)

end

interpretation hmac: keyed_hash hmac_sha256
  by unfold_locales simp

section \<open>What the operations compute\<close>

lemmas id_lengths = BASE_LENGTH_def WORKING_LENGTH_def SHA256_DIGEST_LENGTH_def

lemma compute_mac_id:
  assumes "length buf = 48"
  shows "new_actor_id (compute_mac key buf) nm =
    Inr \<lparr>id_bytes = keyed_id hmac_sha256 key (take 16 buf), id_name = nm\<rparr>"
proof -
  have "length (compute_mac key buf) = 48" using assms by (simp add: compute_mac_def id_lengths)
  then show ?thesis using hmac.keyed_id_working [OF assms, of key]
    by (simp add: new_actor_id_def compute_mac_def id_lengths)
qed

lemma new_unique_id_eq:
  "length entropy = 16 \<Longrightarrow> new_unique_id key entropy None =
    Inr \<lparr>id_bytes = keyed_id hmac_sha256 key entropy, id_name = None\<rparr>"
  by (simp add: new_unique_id_def compute_mac_id ta_set_def id_lengths)

lemma id_from_name_eq:
  "id_from_name key name = Inr \<lparr>id_bytes = keyed_id hmac_sha256 key
     (take 16 (hmac_sha256 key (utf8_encode name))), id_name = Some name\<rparr>"
  by (simp add: id_from_name_def compute_mac_id ta_set_def id_lengths)

lemma nth_agree_drop:
  assumes "length xs = 48" "length ys = 32"
  shows "list_all (\<lambda>i. xs ! (16 + i) = ys ! (16 + i)) [0..<16] \<longleftrightarrow> take 16 (drop 16 xs) = drop 16 ys"
  using assms by (auto simp: list_all_iff list_eq_iff_nth_eq)

lemma id_from_string_eq:
  assumes "actor_id_pattern str"
  defines "bs \<equiv> map (parse_byte str) [0..<32]"
  shows "id_from_string key str =
    (if drop 16 bs = take 16 (hmac_sha256 key (take 16 bs)) then Inr \<lparr>id_bytes = bs, id_name = None\<rparr>
     else Inl WRONG_NAMESPACE_ACTOR_ID)"
proof -
  let ?buf = "ta_set 0 (take 16 bs) (replicate 48 0)"
  have len: "length bs = 32" "length ?buf = 48" "take 16 ?buf = take 16 bs"
    by (simp_all add: bs_def ta_set_def)
  have c: "length (compute_mac key ?buf) = 48"
    "take 16 (drop 16 (compute_mac key ?buf)) = take 16 (hmac_sha256 key (take 16 bs))"
    using len by (simp_all add: compute_mac_def id_lengths) (simp add: ta_set_def)
  have "keyed_id hmac_sha256 key (take 16 bs) = bs"
    if "drop 16 bs = take 16 (hmac_sha256 key (take 16 bs))"
    using that unfolding keyed_id_def by (metis append_take_drop_id)
  with nth_agree_drop [OF c(1) len(1)] c(2) compute_mac_id [OF len(2), of key None] len(3) assms(1)
  show ?thesis
    by (auto simp: id_from_string_def Let_def id_lengths bs_def [symmetric] eq_commute)
qed

section \<open>Properties\<close>

text \<open>
  C8. An id is recovered from its string. For every key, the string of an id minted from a name or
  from any 16 bytes of entropy is accepted by \<open>idFromString\<close> of the same key, which returns the same
  32 bytes and no name.
\<close>

theorem actor_id_string_roundtrip:
  assumes "id_from_name key name = Inr i \<or> (length entropy = 16 \<and> new_unique_id key entropy None = Inr i)"
  shows "id_from_string key (actor_id_to_string i) = Inr (clear_name i)"
proof -
  obtain base where b: "length base = 16" "id_bytes i = keyed_id hmac_sha256 key base"
  proof -
    have "length (take 16 (hmac_sha256 key (utf8_encode name))) = 16" by simp
    with assms that show thesis by (fastforce simp: id_from_name_eq new_unique_id_eq)
  qed
  have len: "length (id_bytes i) = 32" using b hmac.keyed_id_length by simp
  have "actor_id_pattern (actor_id_to_string i)"
    unfolding actor_id_pattern_def actor_id_to_string_def
    by (intro conjI hex_text_digits) (simp add: hex_text_length len)
  moreover have "map (parse_byte (actor_id_to_string i)) [0..<32] = id_bytes i"
    unfolding actor_id_to_string_def by (rule parse_hex_list [OF len])
  moreover have "drop 16 (id_bytes i) = take 16 (hmac_sha256 key (take 16 (id_bytes i)))"
    using hmac.keyed_id_iff [OF len] b by blast
  ultimately show ?thesis by (simp add: id_from_string_eq clear_name_def)
qed

text \<open>
  C9. \<open>idFromString\<close> accepts exactly the ids of its namespace. A string is refused as malformed
  exactly when it is not 64 hexadecimal digits; otherwise it is accepted exactly when the bytes it
  spells are a base of 16 bytes followed by the first half of that base's keyed hash under this key,
  and the id returned is those bytes without a name.
\<close>

theorem id_from_string_exact:
  "(\<not> actor_id_pattern str \<longrightarrow> id_from_string key str = Inl INVALID_ACTOR_ID) \<and>
   (actor_id_pattern str \<longrightarrow>
      (if \<exists>base. length base = 16 \<and> map (parse_byte str) [0..<32] = keyed_id hmac_sha256 key base
       then id_from_string key str = Inr \<lparr>id_bytes = map (parse_byte str) [0..<32], id_name = None\<rparr>
       else id_from_string key str = Inl WRONG_NAMESPACE_ACTOR_ID))"
proof -
  have "id_from_string key str = Inl INVALID_ACTOR_ID" if "\<not> actor_id_pattern str"
    using that by (simp add: id_from_string_def)
  moreover have "length (map (parse_byte str) [0..<32]) = 32" by simp
  note hmac.keyed_id_iff [OF this, of key]
  ultimately show ?thesis using id_from_string_eq [of str key] by simp
qed

text \<open>
  Equality of ids is equality of their strings. For two ids of 32 bytes, whatever their names,
  \<open>equals\<close> returns whether they print the same 64 digits; it fails closed on an id of another runtime.
\<close>

theorem actor_id_equals_string:
  assumes "length (id_bytes i) = 32" "length (id_bytes j) = 32"
  shows "actor_id_equals i (Some j) = Inr (actor_id_to_string i = actor_id_to_string j) \<and>
    actor_id_equals i None = Inl FOREIGN_ACTOR_ID"
proof -
  have "actor_id_to_string i = actor_id_to_string j \<longleftrightarrow> id_bytes i = id_bytes j"
    using parse_hex_list [OF assms(1)] parse_hex_list [OF assms(2)] by (metis actor_id_to_string_def)
  moreover have "list_all (\<lambda>k. id_bytes i ! k = id_bytes j ! k) [0..<32] \<longleftrightarrow> id_bytes i = id_bytes j"
    using assms by (auto simp: list_all_iff list_eq_iff_nth_eq)
  ultimately show ?thesis by (simp add: actor_id_equals_def id_lengths)
qed

section \<open>Witnesses\<close>

lemma actor_id_equals_string_witness:
  "actor_id_equals \<lparr>id_bytes = replicate 32 7, id_name = None\<rparr>
     (Some \<lparr>id_bytes = replicate 32 7, id_name = Some [65]\<rparr>) = Inr True"
  using actor_id_equals_string [of "\<lparr>id_bytes = replicate 32 7, id_name = None\<rparr>"
      "\<lparr>id_bytes = replicate 32 7, id_name = Some [65]\<rparr>"]
  by (simp add: actor_id_to_string_def)

lemma actor_id_string_roundtrip_witness:
  "\<exists>i. id_from_string (sha256 [1]) (actor_id_to_string i) = Inr (clear_name i)"
proof -
  have "id_from_name (sha256 [1]) [0x61] = Inr \<lparr>id_bytes = keyed_id hmac_sha256 (sha256 [1])
     (take 16 (hmac_sha256 (sha256 [1]) (utf8_encode [0x61]))), id_name = Some [0x61]\<rparr>"
    by (rule id_from_name_eq)
  from actor_id_string_roundtrip [OF disjI1 [OF this]] show ?thesis by blast
qed

lemma id_from_string_exact_witness:
  "id_from_string (sha256 [1]) (of_chars ''not an id'') = Inl INVALID_ACTOR_ID"
  using id_from_string_exact [of "of_chars ''not an id''" "sha256 [1]"]
  by (simp add: actor_id_pattern_def of_chars_def)

end
