(* ===== verification/Facet_Tree_Index.thy ===== *)
theory Facet_Tree_Index
  imports Js_Text "HOL-Library.List_Lexorder"
begin

text \<open>
  The facet tree index, \<open>src/src/server/facet-tree-index.ts\<close>: the append-only file that gives every
  (parent, name) pair of an actor's facet tree a small id that never changes. \<open>IndexFile\<close> is the
  bytes of the file and the bytes that have been synced. A name is identified by its UTF-8 bytes; the
  key \<open>parent:nameKey\<close> of the code's map is the pair, the digits of the parent holding no colon.
\<close>

section \<open>The file\<close>

record index_file =
  f_bytes :: bytes
  f_synced :: bytes

definition file_write :: "nat \<Rightarrow> bytes \<Rightarrow> index_file \<Rightarrow> index_file" where
  "file_write off data f =
     (let old = f_bytes f @ replicate (off - length (f_bytes f)) 0
      in f\<lparr>f_bytes := take off old @ data @ drop (off + length data) old\<rparr>)"

definition file_truncate :: "nat \<Rightarrow> index_file \<Rightarrow> index_file" where
  "file_truncate n f = f\<lparr>f_bytes := take n (f_bytes f)\<rparr>"

definition file_datasync :: "index_file \<Rightarrow> index_file" where
  "file_datasync f = f\<lparr>f_synced := f_bytes f\<rparr>"

text \<open>Little-endian reads and writes of the \<open>DataView\<close>.\<close>

definition put_le :: "nat \<Rightarrow> nat \<Rightarrow> bytes" where
  "put_le k n = map (\<lambda>i. of_nat (n div 256 ^ i)) [0..<k]"

definition get_le :: "nat \<Rightarrow> bytes \<Rightarrow> nat \<Rightarrow> nat" where
  "get_le k bs off = foldr (\<lambda>b acc. unat b + 256 * acc) (take k (drop off bs)) 0"

section \<open>The index\<close>

definition MAGIC_NUMBER :: nat where "MAGIC_NUMBER = 0xc4cdce5bc5b0ef57"
definition MAGIC_LENGTH :: nat where "MAGIC_LENGTH = 8"
definition MAX_ID :: nat where "MAX_ID = 0xffff"
definition ENTRY_HEADER_LENGTH :: nat where "ENTRY_HEADER_LENGTH = 4"

record facet_entry =
  e_parent :: nat
  e_name :: js_string
  e_key :: bytes

record facet_index =
  fi_file :: index_file
  fi_offset :: nat
  fi_entries :: "facet_entry list"
  fi_by_key :: "nat \<times> bytes \<Rightarrow> nat option"

definition next_id :: "facet_index \<Rightarrow> nat" where
  "next_id st = length (fi_entries st) + 1"

definition append_entry :: "facet_entry \<Rightarrow> facet_index \<Rightarrow> nat \<times> facet_index" where
  "append_entry e st =
     (let i = length (fi_entries st)
      in (i, st\<lparr>fi_entries := fi_entries st @ [e],
                fi_by_key := (fi_by_key st)((e_parent e, e_key e) \<mapsto> i)\<rparr>))"

text \<open>The \<open>while\<close> loop of the constructor; each \<open>break\<close> is a branch that returns the state as it is.\<close>

function load_entries :: "bytes \<Rightarrow> facet_index \<Rightarrow> js_exn + facet_index" where
  "load_entries bs st =
     (if fi_offset st + ENTRY_HEADER_LENGTH \<le> length bs then
        (if next_id st > MAX_ID then Inl (Failure ''Maximum number of facets exceeded'')
         else
           (let parent_id = get_le 2 bs (fi_offset st);
                name_length = get_le 2 bs (fi_offset st + 2)
            in if name_length = 0 then Inr st
               else if fi_offset st + ENTRY_HEADER_LENGTH + name_length > length bs then Inr st
               else if parent_id \<ge> next_id st then Inr st
               else
                 (let name_bytes = take name_length (drop (fi_offset st + ENTRY_HEADER_LENGTH) bs)
                  in if fi_by_key st (parent_id, name_bytes) \<noteq> None then Inr st
                     else load_entries bs
                       ((snd (append_entry \<lparr>e_parent = parent_id, e_name = utf8_decode name_bytes,
                                             e_key = name_bytes\<rparr> st))
                          \<lparr>fi_offset := fi_offset st + (ENTRY_HEADER_LENGTH + name_length)\<rparr>))))
      else Inr st)"
  by pat_completeness auto
termination
  by (relation "measure (\<lambda>(bs, st). length bs - fi_offset st)")
    (auto simp: append_entry_def Let_def ENTRY_HEADER_LENGTH_def)

declare load_entries.simps [simp del]

text \<open>The constructor.\<close>

definition load_index :: "index_file \<Rightarrow> js_exn + facet_index" where
  "load_index f =
     (let bs = f_bytes f;
          st = \<lparr>fi_file = f, fi_offset = 0, fi_entries = [], fi_by_key = (\<lambda>_. None)\<rparr>
      in if length bs \<le> MAGIC_LENGTH
         then Inr (st\<lparr>fi_file := file_datasync (file_write 0 (put_le MAGIC_LENGTH MAGIC_NUMBER) f),
                      fi_offset := MAGIC_LENGTH\<rparr>)
         else if get_le MAGIC_LENGTH bs 0 \<noteq> MAGIC_NUMBER
         then Inl (Failure ''unknown magic number on facet tree index'')
         else (case load_entries bs (st\<lparr>fi_offset := MAGIC_LENGTH\<rparr>) of
                 Inl e \<Rightarrow> Inl e
               | Inr st1 \<Rightarrow>
                   Inr (if fi_offset st1 < length bs
                        then st1\<lparr>fi_file := file_truncate (fi_offset st1) (fi_file st1)\<rparr> else st1)))"

definition get_id :: "nat \<Rightarrow> js_string \<Rightarrow> (facet_index, nat) op" where
  "get_id parent name st =
     (let name_bytes = utf8_encode name
      in if name_bytes = [] then (Inl (Failure ''Facet name cannot be empty''), st)
         else if length name_bytes > MAX_ID then (Inl (Failure ''Facet name too long''), st)
         else if parent > length (fi_entries st) then (Inl (Failure ''Invalid parent ID''), st)
         else (case fi_by_key st (parent, name_bytes) of
                 Some found \<Rightarrow> (Inr (found + 1), st)
               | None \<Rightarrow>
                   (if next_id st > MAX_ID
                    then (Inl (Failure ''Maximum number of facets exceeded''), st)
                    else
                      (let entry_size = ENTRY_HEADER_LENGTH + length name_bytes;
                           entry_data = put_le 2 parent @ put_le 2 (length name_bytes) @ name_bytes;
                           st1 = st\<lparr>fi_file := file_datasync (file_write (fi_offset st) entry_data (fi_file st)),
                                    fi_offset := fi_offset st + entry_size\<rparr>;
                           (i, st2) = append_entry \<lparr>e_parent = parent,
                             e_name = utf8_decode name_bytes, e_key = name_bytes\<rparr> st1
                       in (Inr (i + 1), st2)))))"

text \<open>The calls \<open>forEachChild\<close> makes, in order: the id and the name of each child.\<close>

definition for_each_child :: "nat \<Rightarrow> facet_index \<Rightarrow> (nat \<times> js_string) list" where
  "for_each_child parent_id st =
     (let children = filter (\<lambda>(i, e). e_parent e = parent_id)
            (map (\<lambda>k. (k + 1, fi_entries st ! k)) [0..<length (fi_entries st)])
      in map (\<lambda>(i, e). (i, e_name e)) (sort_key (\<lambda>(i, e). e_key e) children))"

section \<open>The format\<close>

definition enc_entry :: "nat \<times> bytes \<Rightarrow> bytes" where
  "enc_entry x = put_le 2 (fst x) @ put_le 2 (length (snd x)) @ snd x"

definition index_bytes :: "(nat \<times> bytes) list \<Rightarrow> bytes" where
  "index_bytes es = put_le MAGIC_LENGTH MAGIC_NUMBER @ concat (map enc_entry es)"

definition entry_keys :: "facet_index \<Rightarrow> (nat \<times> bytes) list" where
  "entry_keys st = map (\<lambda>e. (e_parent e, e_key e)) (fi_entries st)"

definition entries_ok :: "(nat \<times> bytes) list \<Rightarrow> bool" where
  "entries_ok es \<longleftrightarrow> distinct es \<and> length es \<le> MAX_ID \<and>
     (\<forall>k < length es. fst (es ! k) \<le> k \<and> snd (es ! k) \<noteq> [] \<and> length (snd (es ! k)) \<le> MAX_ID)"

text \<open>The in-memory tables, without the file.\<close>

definition tables_ok :: "facet_index \<Rightarrow> bool" where
  "tables_ok st \<longleftrightarrow> entries_ok (entry_keys st) \<and>
     (\<forall>x i. fi_by_key st x = Some i \<longleftrightarrow> i < length (entry_keys st) \<and> entry_keys st ! i = x) \<and>
     (\<forall>e \<in> set (fi_entries st). e_name e = utf8_decode (e_key e))"

definition index_ok :: "facet_index \<Rightarrow> bool" where
  "index_ok st \<longleftrightarrow> tables_ok st \<and> f_bytes (fi_file st) = index_bytes (entry_keys st) \<and>
     fi_offset st = length (index_bytes (entry_keys st))"

lemma put_le_length [simp]: "length (put_le k n) = k"
  by (simp add: put_le_def)

lemma enc_entry_length [simp]: "length (enc_entry x) = 4 + length (snd x)"
  by (simp add: enc_entry_def)

lemma get_put_le: "n < 256 ^ k \<Longrightarrow> foldr (\<lambda>b acc. unat b + 256 * acc) (put_le k n) 0 = n"
proof (induction k arbitrary: n)
  case 0
  then show ?case by (simp add: put_le_def)
next
  case (Suc k)
  have "put_le (Suc k) n = of_nat n # put_le k (n div 256)"
    by (simp add: put_le_def upt_conv_Cons map_Suc_upt [symmetric] div_mult2_eq del: upt_Suc)
  moreover have "n div 256 < 256 ^ k" using Suc.prems by (simp add: div_less_iff_less_mult mult.commute)
  ultimately show ?case using Suc.IH [of "n div 256"] by (simp add: unat_of_nat)
qed

lemma get_le_at:
  assumes "n < 256 ^ k" "off = length xs"
  shows "get_le k (xs @ put_le k n @ ys) off = n"
  using get_put_le [OF assms(1)] assms(2) by (simp add: get_le_def)

lemma put_get_le: "length bs = k \<Longrightarrow> put_le k (foldr (\<lambda>b acc. unat b + 256 * acc) bs 0) = bs"
proof (induction bs arbitrary: k)
  case Nil
  then show ?case by (simp add: put_le_def)
next
  case (Cons b bs)
  then obtain j where k: "k = Suc j" "length bs = j" by auto
  define m where "m = foldr (\<lambda>b acc. unat b + 256 * acc) bs 0"
  have lt: "unat b < 256" using unsigned_less [of b] by simp
  then have d: "(unat b + 256 * m) div 256 = m" by simp
  have b: "(of_nat (unat b + 256 * m) :: 8 word) = b"
  proof -
    have "(of_nat (256 * m) :: 8 word) = 0" by (subst word_of_nat_eq_0_iff) simp
    then show ?thesis by (simp only: of_nat_add) (simp del: of_nat_mult)
  qed
  have "put_le (Suc j) (unat b + 256 * m) = of_nat (unat b + 256 * m) # put_le j m"
    by (simp add: put_le_def upt_conv_Cons map_Suc_upt [symmetric] div_mult2_eq d del: upt_Suc)
  with Cons.IH [OF k(2)] b show ?case by (simp add: k m_def)
qed

lemma get_le_lt: "get_le k bs off < 256 ^ k"
proof -
  have "foldr (\<lambda>b acc. unat b + 256 * acc) (xs :: bytes) 0 < 256 ^ length xs" for xs
  proof (induction xs)
    case (Cons b xs)
    have "unat b < 256" using unsigned_less [of b] by simp
    with Cons show ?case by simp
  qed simp
  moreover have "(256::nat) ^ length (take k (drop off bs)) \<le> 256 ^ k" by (rule power_increasing) simp_all
  ultimately show ?thesis unfolding get_le_def by (rule less_le_trans)
qed

lemma put_le_get_le: "off + k \<le> length bs \<Longrightarrow> put_le k (get_le k bs off) = take k (drop off bs)"
  unfolding get_le_def by (rule put_get_le) simp

section \<open>The tables\<close>

definition add_entry :: "nat \<times> bytes \<Rightarrow> facet_index \<Rightarrow> facet_index" where
  "add_entry x st = (snd (append_entry
     \<lparr>e_parent = fst x, e_name = utf8_decode (snd x), e_key = snd x\<rparr> st))
     \<lparr>fi_offset := fi_offset st + length (enc_entry x)\<rparr>"

lemma add_entry_simps [simp]:
  "fi_file (add_entry x st) = fi_file st"
  "fi_offset (add_entry x st) = fi_offset st + length (enc_entry x)"
  "entry_keys (add_entry x st) = entry_keys st @ [x]"
  by (simp_all add: add_entry_def append_entry_def Let_def entry_keys_def)

lemma entry_keys_length: "length (entry_keys st) = length (fi_entries st)"
  by (simp add: entry_keys_def)

lemma index_bytes_append:
  "index_bytes (es @ [x]) = index_bytes es @ enc_entry x"
  "index_bytes (es @ x # xs) = index_bytes es @ enc_entry x @ concat (map enc_entry xs)"
  by (simp_all add: index_bytes_def)

lemma entries_ok_snoc:
  "entries_ok (es @ [x]) \<longleftrightarrow> entries_ok es \<and> x \<notin> set es \<and> length es < MAX_ID \<and>
     fst x \<le> length es \<and> snd x \<noteq> [] \<and> length (snd x) \<le> MAX_ID"
  unfolding entries_ok_def by (auto simp: nth_append less_Suc_eq all_conj_distrib Suc_le_eq)

lemma entries_ok_prefix: "entries_ok (es @ xs) \<Longrightarrow> entries_ok es"
  unfolding entries_ok_def by (auto simp: nth_append split: if_splits)

lemma by_key_None: "tables_ok st \<Longrightarrow> fi_by_key st x = None \<longleftrightarrow> x \<notin> set (entry_keys st)"
  unfolding tables_ok_def in_set_conv_nth by (metis not_Some_eq)

lemma tables_ok_add:
  assumes "tables_ok st" "entries_ok (entry_keys st @ [x])"
  shows "tables_ok (add_entry x st)"
proof -
  have n: "x \<notin> set (entry_keys st)" using assms(2) by (simp add: entries_ok_snoc)
  have bk: "fi_by_key (add_entry x st) = (fi_by_key st)(x \<mapsto> length (entry_keys st))"
    by (simp add: add_entry_def append_entry_def Let_def entry_keys_length)
  have "fi_by_key (add_entry x st) y = Some i \<longleftrightarrow>
      i < length (entry_keys st @ [x]) \<and> (entry_keys st @ [x]) ! i = y" for y i
  proof -
    have st: "fi_by_key st z = Some j \<longleftrightarrow> j < length (entry_keys st) \<and> entry_keys st ! j = z" for z j
      using assms(1) unfolding tables_ok_def by blast
    show ?thesis using n by (auto simp: bk st nth_append less_Suc_eq)
  qed
  moreover have "\<forall>e \<in> set (fi_entries (add_entry x st)). e_name e = utf8_decode (e_key e)"
    using assms(1) by (auto simp: tables_ok_def add_entry_def append_entry_def Let_def)
  ultimately show ?thesis using assms(2) by (simp add: tables_ok_def)
qed

text \<open>The tables are a function of the list of keys.\<close>

lemma tables_unique:
  assumes "tables_ok a" "tables_ok b" "entry_keys a = entry_keys b"
  shows "fi_entries a = fi_entries b" "fi_by_key a = fi_by_key b"
proof -
  have e: "fi_entries c = map (\<lambda>(p, k). \<lparr>e_parent = p, e_name = utf8_decode k, e_key = k\<rparr>) (entry_keys c)"
    if "tables_ok c" for c
    using that unfolding tables_ok_def entry_keys_def by (auto intro!: map_idI [symmetric])
  show "fi_entries a = fi_entries b" using e [OF assms(1)] e [OF assms(2)] assms(3) by simp
  show "fi_by_key a = fi_by_key b"
  proof
    fix x
    have "fi_by_key a x = Some i \<longleftrightarrow> fi_by_key b x = Some i" for i
      using assms unfolding tables_ok_def by metis
    then show "fi_by_key a x = fi_by_key b x" by (metis not_Some_eq)
  qed
qed

section \<open>Loading\<close>

lemma load_entries_step:
  assumes "bs = pre @ enc_entry x @ rest" "fi_offset st = length pre" "next_id st \<le> MAX_ID"
    "snd x \<noteq> []" "length (snd x) \<le> MAX_ID" "fst x < next_id st" "fi_by_key st x = None"
  shows "load_entries bs st = load_entries bs (add_entry x st)"
proof -
  have "fst x < 256 ^ 2" "length (snd x) < 256 ^ 2" using assms(3,5,6) by (simp_all add: MAX_ID_def)
  then have g: "get_le 2 bs (fi_offset st) = fst x" "get_le 2 bs (fi_offset st + 2) = length (snd x)"
    using get_le_at [of "fst x" 2 "length pre" pre "put_le 2 (length (snd x)) @ snd x @ rest"]
      get_le_at [of "length (snd x)" 2 "length pre + 2" "pre @ put_le 2 (fst x)" "snd x @ rest"]
    by (simp_all add: assms(1,2) enc_entry_def)
  have n: "take (length (snd x)) (drop (fi_offset st + 4) bs) = snd x"
    by (simp add: assms(1,2) enc_entry_def)
  have x: "(fst x, snd x) = x" by simp
  have "fi_offset st + 4 + length (snd x) \<le> length bs" by (simp add: assms(1,2))
  then show ?thesis
    using assms(3-7) by (subst load_entries.simps)
      (simp add: g n x ENTRY_HEADER_LENGTH_def Let_def add_entry_def add.assoc
          del: add_2_eq_Suc add_2_eq_Suc')
qed

lemma load_entries_all:
  "tables_ok st \<Longrightarrow> entries_ok (entry_keys st @ es) \<Longrightarrow>
   bs = index_bytes (entry_keys st @ es) @ tail \<Longrightarrow> fi_offset st = length (index_bytes (entry_keys st)) \<Longrightarrow>
   \<exists>st'. load_entries bs st = load_entries bs st' \<and> tables_ok st' \<and> fi_file st' = fi_file st \<and>
     entry_keys st' = entry_keys st @ es \<and> fi_offset st' = length (index_bytes (entry_keys st'))"
proof (induction es arbitrary: st)
  case Nil
  then show ?case by (intro exI [of _ st]) simp
next
  case (Cons x es)
  have ok: "entries_ok (entry_keys st @ [x])"
    by (rule entries_ok_prefix [of _ es]) (use Cons.prems(2) in simp)
  have nx: "fi_by_key st x = None"
    using by_key_None [OF Cons.prems(1)] ok by (simp add: entries_ok_snoc)
  have st: "load_entries bs st = load_entries bs (add_entry x st)"
  proof (rule load_entries_step [OF _ Cons.prems(4) _ _ _ _ nx])
    show "bs = index_bytes (entry_keys st) @ enc_entry x @ concat (map enc_entry es) @ tail"
      using Cons.prems(3) by (simp add: index_bytes_append)
  qed (use ok in \<open>auto simp: entries_ok_snoc next_id_def entry_keys_length\<close>)
  have "\<exists>st'. load_entries bs (add_entry x st) = load_entries bs st' \<and> tables_ok st' \<and>
      fi_file st' = fi_file (add_entry x st) \<and> entry_keys st' = entry_keys (add_entry x st) @ es \<and>
      fi_offset st' = length (index_bytes (entry_keys st'))"
    by (rule Cons.IH) (use Cons.prems tables_ok_add [OF Cons.prems(1) ok] in \<open>simp_all add: index_bytes_append\<close>)
  with st show ?case by simp
qed

lemma load_entries_torn:
  assumes "tables_ok st" "fi_offset st = length pre" "bs = pre @ take k (enc_entry x)"
    "k < length (enc_entry x)" "k = 0 \<or> (next_id st \<le> MAX_ID \<and> length (snd x) \<le> MAX_ID)"
  shows "load_entries bs st = Inr st"
proof (cases "fi_offset st + 4 \<le> length bs")
  case True
  then have k: "4 \<le> k" "length bs = length pre + k" using assms(2-4) by (simp_all add: min_def split: if_splits)
  then have lim: "next_id st \<le> MAX_ID" "length (snd x) \<le> MAX_ID" using assms(5) by auto
  have "take k (enc_entry x) = put_le 2 (fst x) @ put_le 2 (length (snd x)) @ take (k - 4) (snd x)"
    using k(1) by (simp add: enc_entry_def)
  then have "bs = (pre @ put_le 2 (fst x)) @ put_le 2 (length (snd x)) @ take (k - 4) (snd x)"
    using assms(3) by simp
  then have g: "get_le 2 bs (fi_offset st + 2) = length (snd x)"
    using get_le_at [of "length (snd x)" 2 "fi_offset st + 2" "pre @ put_le 2 (fst x)" "take (k - 4) (snd x)"]
      lim(2) assms(2) by (simp add: MAX_ID_def)
  have "length bs < fi_offset st + 4 + length (snd x)" using k assms(2,4) by simp
  then show ?thesis using lim(1) by (subst load_entries.simps)
    (simp add: g Let_def ENTRY_HEADER_LENGTH_def del: add_2_eq_Suc add_2_eq_Suc')
qed (subst load_entries.simps, simp add: ENTRY_HEADER_LENGTH_def)

lemma load_entries_ok:
  "load_entries bs st = Inr st' \<Longrightarrow> tables_ok st \<Longrightarrow> take (fi_offset st) bs = index_bytes (entry_keys st) \<Longrightarrow>
   fi_offset st \<le> length bs \<Longrightarrow>
   tables_ok st' \<and> take (fi_offset st') bs = index_bytes (entry_keys st') \<and> fi_offset st' \<le> length bs \<and>
   fi_file st' = fi_file st"
proof (induction bs st arbitrary: st' rule: load_entries.induct)
  case (1 bs st)
  let ?p = "get_le 2 bs (fi_offset st)" and ?n = "get_le 2 bs (fi_offset st + 2)"
  let ?nm = "take ?n (drop (fi_offset st + 4) bs)"
  show ?case
  proof (cases "fi_offset st + 4 \<le> length bs \<and> next_id st \<le> MAX_ID \<and> ?n \<noteq> 0 \<and>
      fi_offset st + 4 + ?n \<le> length bs \<and> ?p < next_id st \<and> fi_by_key st (?p, ?nm) = None")
    case False
    then have "load_entries bs st = Inr st \<or> (\<exists>e. load_entries bs st = Inl e)"
      by (subst (1 2) load_entries.simps) (auto simp: Let_def ENTRY_HEADER_LENGTH_def not_le not_less simp del: add_2_eq_Suc add_2_eq_Suc')
    with 1(2-5) show ?thesis by auto
  next
    case True
    let ?x = "(?p, ?nm)"
    have len: "length ?nm = ?n" using True by (auto simp: min_def)
    have ok: "entries_ok (entry_keys st @ [?x])"
      using True 1(3) by_key_None [OF 1(3), of ?x] get_le_lt [of 2 bs "fi_offset st + 2"]
      unfolding entries_ok_snoc by (auto simp: tables_ok_def next_id_def entry_keys_length MAX_ID_def)
    have eq: "enc_entry ?x = take (4 + ?n) (drop (fi_offset st) bs)"
    proof -
      have "put_le 2 ?p = take 2 (drop (fi_offset st) bs)" "put_le 2 ?n = take 2 (drop (fi_offset st + 2) bs)"
        by (rule put_le_get_le, use True in simp)+
      moreover have "take (2 + (2 + ?n)) (drop (fi_offset st) bs) = take 2 (drop (fi_offset st) bs) @
          take 2 (drop (fi_offset st + 2) bs) @ ?nm"
        unfolding take_add drop_drop by (simp add: add.commute del: add_2_eq_Suc add_2_eq_Suc')
      ultimately show ?thesis unfolding enc_entry_def using len
        by (simp del: add_2_eq_Suc add_2_eq_Suc')
    qed
    have "take (fi_offset (add_entry ?x st)) bs = index_bytes (entry_keys (add_entry ?x st))"
      unfolding add_entry_simps index_bytes_append(1) enc_entry_length snd_conv len
      unfolding eq 1(4) [symmetric] by (rule take_add)
    moreover have "load_entries bs st = load_entries bs (add_entry ?x st)"
      using True len by (subst load_entries.simps)
        (simp add: Let_def ENTRY_HEADER_LENGTH_def add_entry_def del: add_2_eq_Suc add_2_eq_Suc')
    moreover have fl: "fi_file (snd (append_entry e st)) = fi_file st" for e
      by (simp add: append_entry_def Let_def)
    ultimately show ?thesis
      using 1(1) [of ?p ?n ?nm st'] True 1(2) tables_ok_add [OF 1(3) ok] len
      by (simp add: ENTRY_HEADER_LENGTH_def add_entry_def del: add_2_eq_Suc add_2_eq_Suc')
  qed
qed

lemma magic_ok: "get_le 8 (index_bytes es @ r) 0 = MAGIC_NUMBER"
  unfolding index_bytes_def MAGIC_LENGTH_def append_assoc
  using get_le_at [of MAGIC_NUMBER 8 0 "[]"] by (simp add: MAGIC_NUMBER_def)

lemma tables_ok_empty: "tables_ok \<lparr>fi_file = f, fi_offset = n, fi_entries = [], fi_by_key = (\<lambda>_. None)\<rparr>"
  by (simp add: tables_ok_def entries_ok_def entry_keys_def)

lemma index_bytes_Nil: "index_bytes [] = put_le 8 MAGIC_NUMBER"
  by (simp add: index_bytes_def MAGIC_LENGTH_def)

text \<open>The state a load of the file of \<open>es\<close> produces, and the file it leaves.\<close>

lemma load_index_torn:
  assumes ok: "index_ok st" and f: "f_bytes f = f_bytes (fi_file st) @ take k (enc_entry x)"
    and k: "k < length (enc_entry x)" "k = 0 \<or> (next_id st \<le> MAX_ID \<and> length (snd x) \<le> MAX_ID)"
    and ne: "k = 0 \<or> fi_entries st \<noteq> [] \<or> f_bytes f \<noteq> []"
  shows "\<exists>st'. load_index f = Inr st' \<and> fi_entries st' = fi_entries st \<and> fi_by_key st' = fi_by_key st \<and>
    fi_offset st' = fi_offset st \<and> f_bytes (fi_file st') = f_bytes (fi_file st)"
proof -
  let ?es = "entry_keys st"
  let ?s0 = "\<lparr>fi_file = f, fi_offset = 8, fi_entries = [], fi_by_key = (\<lambda>_. None)\<rparr>"
  have st: "tables_ok st" "f_bytes (fi_file st) = index_bytes ?es" "fi_offset st = length (index_bytes ?es)"
    using ok by (simp_all add: index_ok_def)
  have bs: "f_bytes f = index_bytes ?es @ take k (enc_entry x)" using f st(2) by simp
  show ?thesis
  proof (cases "length (f_bytes f) \<le> 8")
    case True
    then have "?es = []" and k0: "take k (enc_entry x) = []"
      using bs k(1) by (cases ?es; cases k; simp add: index_bytes_def MAGIC_LENGTH_def)+
    with bs st True show ?thesis
      by (simp add: load_index_def Let_def MAGIC_LENGTH_def file_write_def file_datasync_def
          index_bytes_Nil entry_keys_def) (use by_key_None [OF st(1)] in \<open>auto simp: entry_keys_def\<close>)
  next
    case False
    obtain s1 where s1: "load_entries (f_bytes f) ?s0 = load_entries (f_bytes f) s1" "tables_ok s1"
      "fi_file s1 = f" "entry_keys s1 = ?es" "fi_offset s1 = length (index_bytes ?es)"
      using load_entries_all [OF tables_ok_empty, of f 8 ?es "f_bytes f" "take k (enc_entry x)"] st(1) bs
      by (auto simp: tables_ok_def entry_keys_def index_bytes_Nil)
    have "next_id s1 = next_id st"
      using arg_cong [OF s1(4), of length] by (simp add: next_id_def entry_keys_length)
    then have "load_entries (f_bytes f) ?s0 = Inr s1"
      unfolding s1(1) using k s1 by (intro load_entries_torn [OF s1(2,5) bs k(1)]) auto
    moreover have "fi_entries s1 = fi_entries st" "fi_by_key s1 = fi_by_key st"
      using tables_unique [OF s1(2) st(1) s1(4)] by simp_all
    ultimately show ?thesis using False magic_ok [of ?es "take k (enc_entry x)"] s1(2-) st bs
      by (simp add: load_index_def Let_def MAGIC_LENGTH_def file_truncate_def)
  qed
qed

lemma load_index_ok:
  assumes "load_index f = Inr st"
  shows "index_ok st"
proof (cases "length (f_bytes f) \<le> 8")
  case True
  then have "st = \<lparr>fi_file = file_datasync (file_write 0 (put_le 8 MAGIC_NUMBER) f), fi_offset = 8,
      fi_entries = [], fi_by_key = (\<lambda>_. None)\<rparr>"
    using assms by (simp add: load_index_def Let_def MAGIC_LENGTH_def)
  then show ?thesis using True tables_ok_empty
    by (simp add: index_ok_def file_write_def file_datasync_def index_bytes_Nil entry_keys_def)
next
  case False
  let ?s0 = "\<lparr>fi_file = f, fi_offset = 8, fi_entries = [], fi_by_key = (\<lambda>_. None)\<rparr>"
  obtain s1 where s1: "load_entries (f_bytes f) ?s0 = Inr s1" "get_le 8 (f_bytes f) 0 = MAGIC_NUMBER"
    "st = (if fi_offset s1 < length (f_bytes f)
           then s1\<lparr>fi_file := file_truncate (fi_offset s1) (fi_file s1)\<rparr> else s1)"
    using assms False by (auto simp: load_index_def Let_def MAGIC_LENGTH_def split: if_splits sum.splits)
  have "take 8 (f_bytes f) = index_bytes []"
    using put_le_get_le [of 0 8 "f_bytes f"] False by (simp add: s1(2) index_bytes_Nil)
  with load_entries_ok [OF s1(1) tables_ok_empty] False have
    ok: "tables_ok s1" "take (fi_offset s1) (f_bytes f) = index_bytes (entry_keys s1)"
      "fi_offset s1 \<le> length (f_bytes f)" "fi_file s1 = f"
    by (simp_all add: entry_keys_def)
  have len: "fi_offset s1 = length (index_bytes (entry_keys s1))"
    using arg_cong [OF ok(2), of length] ok(3) by simp
  show ?thesis
  proof (cases "fi_offset s1 < length (f_bytes f)")
    case True
    with s1(3) ok len show ?thesis
      by (simp add: index_ok_def tables_ok_def entry_keys_def file_truncate_def)
  next
    case F: False
    with ok(3) have "take (fi_offset s1) (f_bytes f) = f_bytes f" by simp
    with F s1(3) ok len show ?thesis by (simp add: index_ok_def)
  qed
qed

text \<open>The cases of \<open>getId\<close> on a well-formed index.\<close>

lemma get_id_cases:
  assumes "index_ok st"
  obtains
    (error) e where "get_id p nm st = (Inl e, st)"
  | (found) i where "get_id p nm st = (Inr (i + 1), st)" "i < length (entry_keys st)"
      "entry_keys st ! i = (p, utf8_encode nm)"
  | (new) st' where "get_id p nm st = (Inr (length (entry_keys st) + 1), st')" "index_ok st'"
      "entry_keys st' = entry_keys st @ [(p, utf8_encode nm)]" "p \<le> length (entry_keys st)"
      "f_bytes (fi_file st') = f_bytes (fi_file st) @ enc_entry (p, utf8_encode nm)"
      "f_synced (fi_file st') = f_bytes (fi_file st')"
      "next_id st \<le> MAX_ID" "length (utf8_encode nm) \<le> MAX_ID"
proof -
  let ?b = "utf8_encode nm"
  have st: "tables_ok st" "f_bytes (fi_file st) = index_bytes (entry_keys st)"
    "fi_offset st = length (index_bytes (entry_keys st))" using assms by (simp_all add: index_ok_def)
  have bk: "fi_by_key st x = Some i \<longleftrightarrow> i < length (entry_keys st) \<and> entry_keys st ! i = x" for x i
    using st(1) unfolding tables_ok_def by blast
  show thesis
  proof (cases "?b \<noteq> [] \<and> length ?b \<le> MAX_ID \<and> p \<le> length (fi_entries st)")
    case False
    then have "\<exists>e. get_id p nm st = (Inl e, st)" by (auto simp: get_id_def Let_def)
    then show thesis using error by blast
  next
    case True
    show thesis
    proof (cases "fi_by_key st (p, ?b)")
      case (Some i)
      then have "get_id p nm st = (Inr (i + 1), st)" using True by (auto simp: get_id_def Let_def)
      then show thesis using bk Some by (intro found [of i]) auto
    next
      case None
      show thesis
      proof (cases "next_id st \<le> MAX_ID")
        case False
        with None True have "\<exists>e. get_id p nm st = (Inl e, st)" by (auto simp: get_id_def Let_def)
        then show thesis using error by blast
      next
        case nx: True
        let ?f = "file_datasync (file_write (fi_offset st) (enc_entry (p, ?b)) (fi_file st))"
        let ?s = "(add_entry (p, ?b) st)\<lparr>fi_file := ?f\<rparr>"
        have g: "get_id p nm st = (Inr (length (entry_keys st) + 1), ?s)"
          using None True nx by (simp add: get_id_def Let_def append_entry_def add_entry_def
              entry_keys_length enc_entry_def ENTRY_HEADER_LENGTH_def)
        have ok: "entries_ok (entry_keys st @ [(p, ?b)])"
          using st(1) True nx None by_key_None [OF st(1), of "(p, ?b)"]
          by (auto simp: entries_ok_snoc tables_ok_def next_id_def entry_keys_length)
        have fb: "f_bytes ?f = f_bytes (fi_file st) @ enc_entry (p, ?b)"
          by (simp add: file_write_def file_datasync_def st)
        have "tables_ok ?s" using tables_ok_add [OF st(1) ok] by (simp add: tables_ok_def entry_keys_def)
        moreover have ek: "entry_keys ?s = entry_keys st @ [(p, ?b)]"
          using add_entry_simps(3) [of "(p, ?b)" st] by (simp add: entry_keys_def)
        ultimately have "index_ok ?s" using fb st by (simp add: index_ok_def index_bytes_append)
        then show thesis
          by (rule new [OF g]) (use ek fb nx True in \<open>simp_all add: file_datasync_def entry_keys_length\<close>)
      qed
    qed
  qed
qed

lemma get_id_index_ok: "index_ok st \<Longrightarrow> index_ok (snd (get_id p nm st))"
  by (rule get_id_cases [of st p nm]) simp_all

section \<open>Runs\<close>

text \<open>An index opened on any file, and used; \<open>index_steps\<close> is the use from a given state.\<close>

inductive index_steps :: "facet_index \<Rightarrow> facet_index \<Rightarrow> bool" where
  steps_refl: "index_steps st st"
| steps_get: "index_steps st st1 \<Longrightarrow> index_steps st (snd (get_id p nm st1))"

definition index_reach :: "facet_index \<Rightarrow> bool" where
  "index_reach st \<longleftrightarrow> (\<exists>f st0. load_index f = Inr st0 \<and> index_steps st0 st)"

lemma steps_ok: "index_steps st st1 \<Longrightarrow> index_ok st \<Longrightarrow> index_ok st1"
  by (induction rule: index_steps.induct) (auto intro: get_id_index_ok)

lemma reach_ok: "index_reach st \<Longrightarrow> index_ok st"
  by (auto simp: index_reach_def intro: steps_ok load_index_ok)

lemma steps_prefix:
  "index_steps st st1 \<Longrightarrow> index_ok st \<Longrightarrow> \<exists>xs. entry_keys st1 = entry_keys st @ xs"
proof (induction rule: index_steps.induct)
  case (steps_get st st1 p nm)
  then have "index_ok st1" by (auto intro: steps_ok)
  then show ?case by (rule get_id_cases [of st1 p nm]) (use steps_get in auto)
qed simp

section \<open>Properties\<close>

text \<open>
  C10. An index survives a crash at any byte. Take any run of the index on any file, a further
  \<open>getId\<close> and any prefix of the bytes it appends: loading the file with only that prefix gives back
  the index from before the call, with the same entries, ids and offset and a file cut back to it, and
  loading the file with all of them gives the index from after the call.
\<close>

theorem facet_index_crash_safe:
  assumes "index_reach st" "get_id p nm st = (Inr i, st')"
    "f_bytes f = f_bytes (fi_file st) @ take k (drop (length (f_bytes (fi_file st))) (f_bytes (fi_file st')))"
  shows "\<exists>r. load_index f = Inr r \<and>
    (let s = if length (f_bytes (fi_file st)) + k < length (f_bytes (fi_file st')) then st else st'
     in fi_entries r = fi_entries s \<and> fi_by_key r = fi_by_key s \<and> fi_offset r = fi_offset s \<and>
        f_bytes (fi_file r) = f_bytes (fi_file s))"
proof -
  have ok: "index_ok st" using assms(1) by (rule reach_ok)
  have same: "\<exists>r. load_index f = Inr r \<and> fi_entries r = fi_entries s \<and> fi_by_key r = fi_by_key s \<and>
      fi_offset r = fi_offset s \<and> f_bytes (fi_file r) = f_bytes (fi_file s)"
    if "index_ok s" "f_bytes f = f_bytes (fi_file s)" for s
    using load_index_torn [OF that(1), of f 0 "(0, [])"] that(2) by simp
  show ?thesis
    using ok
  proof (rule get_id_cases [of st p nm])
    fix e assume "get_id p nm st = (Inl e, st)"
    with assms(2) show ?thesis by simp
  next
    fix j assume "get_id p nm st = (Inr (j + 1), st)"
    with assms(2,3) same [OF ok] show ?thesis by simp
  next
    fix t assume t: "get_id p nm st = (Inr (length (entry_keys st) + 1), t)" "index_ok t"
      "f_bytes (fi_file t) = f_bytes (fi_file st) @ enc_entry (p, utf8_encode nm)"
      "next_id st \<le> MAX_ID" "length (utf8_encode nm) \<le> MAX_ID"
    then have st': "st' = t" using assms(2) by simp
    show ?thesis
    proof (cases "k < length (enc_entry (p, utf8_encode nm))")
      case True
      have nz: "f_bytes (fi_file st) \<noteq> []" using ok by (simp add: index_ok_def index_bytes_def put_le_def MAGIC_LENGTH_def)
      with load_index_torn [OF ok _ True, of f] assms(3) t st' True show ?thesis by simp
    next
      case False
      with assms(3) t st' same [OF t(2)] show ?thesis by simp
    qed
  qed
qed

text \<open>
  C11. Facet ids are stable and unique. In any run, once \<open>getId\<close> has given a (parent, name) pair an id,
  every later call for a pair returns that same id exactly when the parent is the same and the names
  have the same UTF-8 bytes, whatever other facets were added in between.
\<close>

theorem facet_ids_stable:
  assumes "index_reach st" "get_id p nm st = (Inr i, st1)" "index_steps st1 st2"
    "get_id q nm' st2 = (Inr j, st3)"
  shows "i = j \<longleftrightarrow> p = q \<and> utf8_encode nm = utf8_encode nm'"
proof -
  have key: "1 \<le> k \<and> k \<le> length (entry_keys t) \<and> entry_keys t ! (k - 1) = (r, utf8_encode n)"
    if "index_ok s" "get_id r n s = (Inr k, t)" for s r n k t
    by (rule get_id_cases [OF that(1), of r n]) (use that(2) in auto)
  have ok: "index_ok st" using assms(1) by (rule reach_ok)
  have ok1: "index_ok st1" using get_id_index_ok [OF ok, of p nm] assms(2) by simp
  have ok2: "index_ok st2" using assms(3) ok1 by (rule steps_ok)
  have ok3: "index_ok st3" using get_id_index_ok [OF ok2, of q nm'] assms(4) by simp
  have "index_steps st1 (snd (get_id q nm' st2))" by (rule steps_get [OF assms(3)])
  then have "\<exists>xs. entry_keys st3 = entry_keys st1 @ xs" using steps_prefix [OF _ ok1] assms(4) by simp
  then have i: "1 \<le> i \<and> i \<le> length (entry_keys st3) \<and> entry_keys st3 ! (i - 1) = (p, utf8_encode nm)"
    using key [OF ok assms(2)] by (auto simp: nth_append)
  have j: "1 \<le> j \<and> j \<le> length (entry_keys st3) \<and> entry_keys st3 ! (j - 1) = (q, utf8_encode nm')"
    by (rule key [OF ok2 assms(4)])
  have "distinct (entry_keys st3)" using ok3 by (simp add: index_ok_def tables_ok_def entries_ok_def)
  then have "entry_keys st3 ! (i - 1) = entry_keys st3 ! (j - 1) \<longleftrightarrow> i - 1 = j - 1"
    using i j by (intro nth_eq_iff_index_eq) auto
  then show ?thesis using i j by auto
qed

text \<open>
  C12. \<open>forEachChild\<close> reports exactly the children. In any reachable index, on the sixteen-bit ids it
  has handed out, the calls made for a parent are one per entry with that parent, each with its own id
  (larger than the parent's) and decoded name, in strictly increasing order of the names' bytes.
\<close>

theorem for_each_child_exact:
  assumes "index_reach st"
  shows "set (for_each_child p st) =
      {(i, e_name e) | i e. 1 \<le> i \<and> i \<le> length (fi_entries st) \<and> fi_entries st ! (i - 1) = e \<and> e_parent e = p} \<and>
    (\<forall>(i, n) \<in> set (for_each_child p st). p < i \<and> i \<le> 65535) \<and>
    sorted_wrt (<) (map (\<lambda>(i, n). e_key (fi_entries st ! (i - 1))) (for_each_child p st))"
proof -
  let ?n = "length (fi_entries st)"
  let ?all = "map (\<lambda>k. (k + 1, fi_entries st ! k)) [0..<?n]"
  let ?ch = "filter (\<lambda>(i, e). e_parent e = p) ?all"
  let ?so = "sort_key (\<lambda>(i, e). e_key e) ?ch"
  have ok: "entries_ok (entry_keys st)" using reach_ok [OF assms] by (simp add: index_ok_def tables_ok_def)
  have mem: "(i, e) \<in> set ?ch \<longleftrightarrow> 1 \<le> i \<and> i \<le> ?n \<and> fi_entries st ! (i - 1) = e \<and> e_parent e = p" for i e
  proof -
    have "(i, e) \<in> set ?all \<longleftrightarrow> 1 \<le> i \<and> i \<le> ?n \<and> fi_entries st ! (i - 1) = e"
      by (cases i) auto
    then show ?thesis by simp
  qed
  have fec: "for_each_child p st = map (\<lambda>(i, e). (i, e_name e)) ?so"
    by (simp add: for_each_child_def Let_def)
  have 1: "set (for_each_child p st) = (\<lambda>(i, e). (i, e_name e)) ` set ?ch" by (simp add: fec)
  have key: "entry_keys st ! (i - 1) = (p, e_key e)" "p < i" "i \<le> 65535" if "(i, e) \<in> set ?ch" for i e
  proof -
    have b: "1 \<le> i" "i \<le> ?n" "fi_entries st ! (i - 1) = e" "e_parent e = p" using that mem by auto
    show k: "entry_keys st ! (i - 1) = (p, e_key e)"
      using b(1,2) arg_cong [OF b(3), of e_parent] arg_cong [OF b(3), of e_key] b(4) by (simp add: entry_keys_def)
    have "fst (entry_keys st ! (i - 1)) \<le> i - 1" "?n \<le> MAX_ID"
      using ok b by (auto simp: entries_ok_def entry_keys_length)
    with k b show "p < i" "i \<le> 65535" by (auto simp: MAX_ID_def)
  qed
  have "inj_on (\<lambda>(i, e). e_key e) (set ?ch)"
  proof (rule inj_onI, clarify)
    fix i e j e'
    assume a: "(i, e) \<in> set ?ch" "(j, e') \<in> set ?ch" "e_key e = e_key e'"
    have k: "entry_keys st ! (i - 1) = entry_keys st ! (j - 1)"
      using key(1) [OF a(1)] key(1) [OF a(2)] a(3) by simp
    have m: "1 \<le> i" "i \<le> ?n" "fi_entries st ! (i - 1) = e" "1 \<le> j" "j \<le> ?n" "fi_entries st ! (j - 1) = e'"
      using a(1,2) unfolding mem by blast+
    have "distinct (entry_keys st)" using ok by (simp add: entries_ok_def)
    then have "i - 1 = j - 1"
      using nth_eq_iff_index_eq [of "entry_keys st" "i - 1" "j - 1"] k m(1,2,4,5)
      by (simp add: entry_keys_length)
    then show "i = j \<and> e = e'" using m by auto
  qed
  moreover have "distinct ?ch" by (rule distinct_filter) (simp add: distinct_map inj_on_def)
  ultimately have "distinct (map (\<lambda>(i, e). e_key e) ?so)" by (simp add: distinct_map)
  moreover have "sorted (map (\<lambda>(i, e). e_key e) ?so)" by (rule sorted_sort_key)
  ultimately have "sorted_wrt (<) (map (\<lambda>(i, e). e_key e) ?so)" by (simp add: strict_sorted_iff)
  moreover have "map (\<lambda>(i, n). e_key (fi_entries st ! (i - 1))) (for_each_child p st) =
      map (\<lambda>(i, e). e_key e) ?so"
    unfolding fec map_map by (rule map_cong [OF refl]) (use mem in auto)
  ultimately have 3: "sorted_wrt (<) (map (\<lambda>(i, n). e_key (fi_entries st ! (i - 1))) (for_each_child p st))"
    by simp
  have 2: "\<forall>(i, n) \<in> set (for_each_child p st). p < i \<and> i \<le> 65535"
    unfolding 1 using key(2,3) by fast
  have "(\<lambda>(i, e). (i, e_name e)) ` S = {(i, e_name e) | i e. (i, e) \<in> S}" for S by auto
  then have "set (for_each_child p st) = {(i, e_name e) | i e. (i, e) \<in> set ?ch}" unfolding 1 .
  then have "set (for_each_child p st) =
      {(i, e_name e) | i e. 1 \<le> i \<and> i \<le> ?n \<and> fi_entries st ! (i - 1) = e \<and> e_parent e = p}"
    unfolding mem .
  with 2 3 show ?thesis by blast
qed

section \<open>Witnesses\<close>

definition new_index :: facet_index where
  "new_index = \<lparr>fi_file = \<lparr>f_bytes = put_le 8 MAGIC_NUMBER, f_synced = put_le 8 MAGIC_NUMBER\<rparr>,
     fi_offset = 8, fi_entries = [], fi_by_key = (\<lambda>_. None)\<rparr>"

lemma new_index_load: "load_index \<lparr>f_bytes = [], f_synced = []\<rparr> = Inr new_index"
  by (simp add: load_index_def new_index_def MAGIC_LENGTH_def file_write_def file_datasync_def)

lemma new_index_reach: "index_reach new_index"
  unfolding index_reach_def using new_index_load steps_refl by blast

definition one_facet :: facet_index where "one_facet = snd (get_id 0 [0x61] new_index)"

lemma one_facet: "get_id 0 [0x61] new_index = (Inr 1, one_facet)"
  unfolding one_facet_def
  by (simp add: get_id_def new_index_def next_id_def append_entry_def utf8_encode_def encode_scalar_def
      is_high_def is_low_def Let_def MAX_ID_def)

lemma one_facet_reach: "index_reach one_facet"
  unfolding index_reach_def one_facet_def
  using new_index_load steps_get [OF steps_refl] by blast

lemma facet_index_crash_safe_witness:
  "\<exists>r. load_index \<lparr>f_bytes = f_bytes (fi_file new_index) @
     take 3 (drop (length (f_bytes (fi_file new_index))) (f_bytes (fi_file one_facet))), f_synced = []\<rparr> = Inr r"
  using facet_index_crash_safe [OF new_index_reach one_facet, of
      "\<lparr>f_bytes = f_bytes (fi_file new_index) @ take 3 (drop (length (f_bytes (fi_file new_index)))
        (f_bytes (fi_file one_facet))), f_synced = []\<rparr>" 3] by auto

lemma facet_ids_stable_witness: "\<exists>j st. get_id 1 [0x61] one_facet = (Inr j, st) \<and> (1::nat) \<noteq> j"
proof -
  have "\<exists>j st. get_id 1 [0x61] one_facet = (Inr j, st)"
    by (simp add: one_facet_def get_id_def new_index_def next_id_def append_entry_def utf8_encode_def
        encode_scalar_def is_high_def is_low_def Let_def MAX_ID_def)
  then obtain j st where g: "get_id 1 [0x61] one_facet = (Inr j, st)" by blast
  from facet_ids_stable [OF new_index_reach one_facet steps_refl g] have "1 \<noteq> j" by simp
  with g show ?thesis by blast
qed

lemma for_each_child_exact_witness: "(1, [0x61]) \<in> set (for_each_child 0 one_facet)"
proof -
  have "utf8_decode [0x61] = [0x61]"
    by (simp add: utf8_decode_def drop_bom_def utf8_run.simps of_scalar_def)
  then have "map e_parent (fi_entries one_facet) = [0]" "map e_name (fi_entries one_facet) = [[0x61]]"
    by (simp_all add: one_facet_def get_id_def new_index_def next_id_def append_entry_def utf8_encode_def
        encode_scalar_def is_high_def is_low_def Let_def MAX_ID_def)
  then obtain e where "fi_entries one_facet = [e]" "e_parent e = 0" "e_name e = [0x61]" by auto
  then have "(1, [0x61]) \<in> {(i, e_name e) | i e. 1 \<le> i \<and> i \<le> length (fi_entries one_facet) \<and>
      fi_entries one_facet ! (i - 1) = e \<and> e_parent e = 0}" by auto
  then show ?thesis unfolding for_each_child_exact [OF one_facet_reach, THEN conjunct1] .
qed

end
