(* ===== verification/Facet_Deletion.thy ===== *)
theory Facet_Deletion
  imports Prelude
begin

text \<open>
  Deleting facets, \<open>src/src/server/facet-deletion.ts\<close>: the durable receipts, the controller that
  carries them out, the queue that serializes physical deletions and the epochs that make old
  references stale.

  The receipts table is a map from \<open>facet_id\<close> to \<open>generation\<close>, both SQL integers, and each statement
  of the store is its effect on it. A promise of the controller is a task: its coroutine waits for
  its predecessor and for the caller's barrier, runs the host's \<open>deleteSubtree\<close>, which is a step of
  its own that may succeed or fail, and clears its receipt. The callback that forgets a settled task
  runs in a later microtask and so is a step of its own too.
\<close>

section \<open>Receipts\<close>

definition MAX_SAFE_INTEGER :: int where "MAX_SAFE_INTEGER = 9007199254740991"

definition positive_safe :: "int \<Rightarrow> bool" where
  "positive_safe n \<longleftrightarrow> 0 < n \<and> n \<le> MAX_SAFE_INTEGER"

type_synonym receipts = "int \<Rightarrow> int option"

record receipt =
  r_id :: int
  r_generation :: int

definition require_facet_id :: "int \<Rightarrow> (receipts, unit) op" where
  "require_facet_id i t =
     (if positive_safe i then (Inr (), t)
      else (Inl (Failure ''a facet deletion receipt names a facet, and this is not one''), t))"

definition require_generation :: "int \<Rightarrow> js_exn + int" where
  "require_generation g =
     (if positive_safe g then Inr g
      else Inl (Failure ''facet deletion receipt has an invalid generation''))"

text \<open>\<open>INSERT ... VALUES (?, 1) ON CONFLICT DO UPDATE SET generation = generation + 1 RETURNING generation\<close>.\<close>

definition upsert_generation :: "int \<Rightarrow> receipts \<Rightarrow> int \<times> receipts" where
  "upsert_generation i t =
     (let g = (case t i of None \<Rightarrow> 1 | Some g \<Rightarrow> g + 1) in (g, t(i \<mapsto> g)))"

definition record_receipt :: "int \<Rightarrow> (receipts, receipt) op" where
  "record_receipt i = op_bind (require_facet_id i) (\<lambda>_ t.
     (case upsert_generation i t of (g, t') \<Rightarrow>
        if positive_safe g then (Inr \<lparr>r_id = i, r_generation = g\<rparr>, t')
        else (Inl (Failure ''recording a facet deletion receipt produced no generation''), t')))"

definition read_receipt :: "int \<Rightarrow> (receipts, receipt option) op" where
  "read_receipt i = op_bind (require_facet_id i) (\<lambda>_ t.
     (case t i of
        None \<Rightarrow> (Inr None, t)
      | Some g \<Rightarrow> (case require_generation g of
                    Inl e \<Rightarrow> (Inl e, t)
                  | Inr g' \<Rightarrow> (Inr (Some \<lparr>r_id = i, r_generation = g'\<rparr>), t))))"

text \<open>\<open>list()\<close>, for a table whose rows in the order of \<open>facet_id\<close> are \<open>rows\<close>.\<close>

fun list_receipts :: "(int \<times> int) list \<Rightarrow> js_exn + receipt list" where
  "list_receipts [] = Inr []"
| "list_receipts ((i, g) # rows) =
     (if \<not> positive_safe i then Inl (Failure ''facet deletion receipt has an invalid facet id'')
      else (case require_generation g of
              Inl e \<Rightarrow> Inl e
            | Inr g' \<Rightarrow> (case list_receipts rows of
                          Inl e \<Rightarrow> Inl e
                        | Inr rs \<Rightarrow> Inr (\<lparr>r_id = i, r_generation = g'\<rparr> # rs))))"

text \<open>\<open>DELETE ... WHERE facet_id = ? AND generation = ?\<close>, and whether it wrote a row.\<close>

definition clear_receipt :: "receipt \<Rightarrow> receipts \<Rightarrow> bool \<times> receipts" where
  "clear_receipt r t =
     (if t (r_id r) = Some (r_generation r) then (True, t(r_id r := None)) else (False, t))"

section \<open>The controller\<close>

datatype task_state = TWaiting | TDeleting | TDone | TFailed

record task =
  t_receipt :: receipt
  t_previous :: "nat option"
  t_state :: task_state

record controller =
  c_rows :: receipts
  c_tasks :: "task list"
  c_active :: "int \<Rightarrow> nat option"

definition settled :: "task \<Rightarrow> bool" where
  "settled t \<longleftrightarrow> t_state t = TDone \<or> t_state t = TFailed"

text \<open>\<open>#run\<close>: the task whose promise it returns.\<close>

definition controller_run :: "receipt \<Rightarrow> controller \<Rightarrow> nat \<times> controller" where
  "controller_run r c =
     (let fresh = (\<lambda>prev. (length (c_tasks c),
            c\<lparr>c_tasks := c_tasks c @ [\<lparr>t_receipt = r, t_previous = prev, t_state = TWaiting\<rparr>],
              c_active := (c_active c)(r_id r \<mapsto> length (c_tasks c))\<rparr>))
      in case c_active c (r_id r) of
           None \<Rightarrow> fresh None
         | Some a \<Rightarrow>
             (if r_generation (t_receipt (c_tasks c ! a)) \<ge> r_generation r then (a, c)
              else fresh (Some a)))"

definition controller_delete :: "int \<Rightarrow> (controller, nat) op" where
  "controller_delete i c =
     (case record_receipt i (c_rows c) of
        (Inl e, t) \<Rightarrow> (Inl e, c\<lparr>c_rows := t\<rparr>)
      | (Inr r, t) \<Rightarrow> (let (n, c') = controller_run r (c\<lparr>c_rows := t\<rparr>) in (Inr n, c')))"

text \<open>One turn of \<open>flush\<close>: the task it awaits, or \<open>None\<close> when nothing is recorded any more.\<close>

definition controller_flush :: "int \<Rightarrow> (controller, nat option) op" where
  "controller_flush i c =
     (case read_receipt i (c_rows c) of
        (Inl e, _) \<Rightarrow> (Inl e, c)
      | (Inr None, _) \<Rightarrow> (Inr None, c)
      | (Inr (Some r), _) \<Rightarrow> (let (n, c') = controller_run r c in (Inr (Some n), c')))"

text \<open>The synchronous part of \<open>recoverAll\<close>: the first turn of a \<open>flush\<close> for every receipt listed.\<close>

fun controller_recover :: "receipt list \<Rightarrow> (controller, nat option list) op" where
  "controller_recover [] = op_return []"
| "controller_recover (r # rs) =
     op_bind (controller_flush (r_id r)) (\<lambda>n. op_bind (controller_recover rs) (\<lambda>ns. op_return (n # ns)))"

definition set_task :: "nat \<Rightarrow> task_state \<Rightarrow> controller \<Rightarrow> controller" where
  "set_task n x c = c\<lparr>c_tasks := (c_tasks c)[n := (c_tasks c ! n)\<lparr>t_state := x\<rparr>]\<rparr>"

text \<open>\<open>ready\<close> resolves: the predecessor has settled, either way, and the caller's barrier has.\<close>

definition can_start :: "controller \<Rightarrow> nat \<Rightarrow> bool" where
  "can_start c n \<longleftrightarrow> n < length (c_tasks c) \<and> t_state (c_tasks c ! n) = TWaiting \<and>
     (case t_previous (c_tasks c ! n) of None \<Rightarrow> True | Some p \<Rightarrow> settled (c_tasks c ! p))"

definition task_start :: "nat \<Rightarrow> controller \<Rightarrow> controller" where
  "task_start n = set_task n TDeleting"

definition task_finish :: "nat \<Rightarrow> controller \<Rightarrow> controller" where
  "task_finish n c =
     (let (_, t) = clear_receipt (t_receipt (c_tasks c ! n)) (c_rows c)
      in set_task n TDone (c\<lparr>c_rows := t\<rparr>))"

definition task_fail :: "nat \<Rightarrow> controller \<Rightarrow> controller" where
  "task_fail n = set_task n TFailed"

definition clear_active :: "nat \<Rightarrow> controller \<Rightarrow> controller" where
  "clear_active n c =
     (let i = r_id (t_receipt (c_tasks c ! n))
      in if c_active c i = Some n then c\<lparr>c_active := (c_active c)(i := None)\<rparr> else c)"

section \<open>The queue of physical deletions\<close>

text \<open>
  The operations in the order \<open>run\<close> was called, each with the ids it covers; an operation's promise
  is the one before it, then its own operation. \<open>q_pending\<close> are the keys of the pending map.
\<close>

datatype op_state = OQueued | ORunning | OSettled bool

record deletion_queue =
  q_ops :: "(int list \<times> op_state) list"
  q_pending :: "nat list"

definition queue_run :: "int list \<Rightarrow> deletion_queue \<Rightarrow> nat \<times> deletion_queue" where
  "queue_run ids q = (length (q_ops q),
     q\<lparr>q_ops := q_ops q @ [(ids, OQueued)], q_pending := q_pending q @ [length (q_ops q)]\<rparr>)"

definition op_settled :: "deletion_queue \<Rightarrow> nat \<Rightarrow> bool" where
  "op_settled q n \<longleftrightarrow> (case snd (q_ops q ! n) of OSettled _ \<Rightarrow> True | _ \<Rightarrow> False)"

text \<open>The tail has settled: the operation before this one, which swallowed its failure.\<close>

definition queue_can_start :: "deletion_queue \<Rightarrow> nat \<Rightarrow> bool" where
  "queue_can_start q n \<longleftrightarrow> n < length (q_ops q) \<and> snd (q_ops q ! n) = OQueued \<and>
     (n = 0 \<or> op_settled q (n - 1))"

definition queue_set :: "nat \<Rightarrow> op_state \<Rightarrow> deletion_queue \<Rightarrow> deletion_queue" where
  "queue_set n x q = q\<lparr>q_ops := (q_ops q)[n := (fst (q_ops q ! n), x)]\<rparr>"

definition queue_forget :: "nat \<Rightarrow> deletion_queue \<Rightarrow> deletion_queue" where
  "queue_forget n q = q\<lparr>q_pending := removeAll n (q_pending q)\<rparr>"

text \<open>The promises \<open>waitFor\<close> awaits.\<close>

definition queue_wait_for :: "int \<Rightarrow> deletion_queue \<Rightarrow> nat list" where
  "queue_wait_for i q = filter (\<lambda>n. i \<in> set (fst (q_ops q ! n))) (q_pending q)"

section \<open>Epochs\<close>

type_synonym epochs = "int \<Rightarrow> nat option"

definition epoch_of :: "epochs \<Rightarrow> int \<Rightarrow> nat" where
  "epoch_of m i = (case m i of None \<Rightarrow> 0 | Some e \<Rightarrow> e)"

definition epoch_capture :: "int \<Rightarrow> epochs \<Rightarrow> nat \<times> epochs" where
  "epoch_capture i m = (epoch_of m i, m(i \<mapsto> epoch_of m i))"

definition epoch_invalidate :: "int \<Rightarrow> int list \<Rightarrow> epochs \<Rightarrow> epochs" where
  "epoch_invalidate root subtree m =
     fold (\<lambda>i m. m(i \<mapsto> epoch_of m i + 1)) (remdups (root # subtree)) m"

definition epoch_is_current :: "int \<Rightarrow> nat \<Rightarrow> epochs \<Rightarrow> bool" where
  "epoch_is_current i e m \<longleftrightarrow> epoch_of m i = e"

section \<open>The contract of the receipts\<close>

text \<open>
  What the controller relies on: recording leaves a positive generation above the one it replaces,
  and clearing takes the row away exactly when it still carries the receipt's generation.
\<close>

locale receipt_store =
  fixes rows :: "'s \<Rightarrow> int \<Rightarrow> int option"
    and rec :: "int \<Rightarrow> 's \<Rightarrow> (js_exn + receipt) \<times> 's"
    and clr :: "receipt \<Rightarrow> 's \<Rightarrow> bool \<times> 's"
  assumes rec_row: "rec i s = (Inr r, t) \<Longrightarrow> rows t = (rows s)(i \<mapsto> r_generation r) \<and> r_id r = i"
    and rec_newer: "rec i s = (Inr r, t) \<Longrightarrow> rows s i = Some g \<Longrightarrow> g < r_generation r"
    and clr_row: "clr r s = (b, t) \<Longrightarrow> b = (rows s (r_id r) = Some (r_generation r)) \<and>
      rows t = (if b then (rows s)(r_id r := None) else rows s)"
begin

text \<open>The fence: a request made again while the first is carried out outlives its completion.\<close>

lemma superseded:
  assumes "rec i s = (Inr r, t)" "rec i t = (Inr r', u)" "clr r u = (b, v)"
  shows "\<not> b \<and> rows v i = Some (r_generation r')"
  using rec_row [OF assms(1)] rec_row [OF assms(2)] rec_newer [OF assms(2), of "r_generation r"]
    clr_row [OF assms(3)] by auto

lemma clear_own:
  assumes "rec i s = (Inr r, t)" "clr r t = (b, u)"
  shows "b \<and> rows u i = None"
  using rec_row [OF assms(1)] clr_row [OF assms(2)] by auto

lemma clear_other: "clr r s = (b, t) \<Longrightarrow> j \<noteq> r_id r \<Longrightarrow> rows t j = rows s j"
  using clr_row [of r s b t] by auto

end

interpretation receipts: receipt_store "\<lambda>t. t" record_receipt clear_receipt
proof
  fix i :: int and s t :: receipts and r :: receipt
  assume "record_receipt i s = (Inr r, t)"
  then show "t = s(i \<mapsto> r_generation r) \<and> r_id r = i"
    by (auto simp: record_receipt_def require_facet_id_def op_bind_def upsert_generation_def Let_def
        split: if_splits)
next
  fix i g :: int and s t :: receipts and r :: receipt
  assume "record_receipt i s = (Inr r, t)" "s i = Some g"
  then show "g < r_generation r"
    by (auto simp: record_receipt_def require_facet_id_def op_bind_def upsert_generation_def Let_def
        split: if_splits)
next
  fix r :: receipt and s t :: receipts and b :: bool
  assume "clear_receipt r s = (b, t)"
  then show "b = (s (r_id r) = Some (r_generation r)) \<and> t = (if b then s(r_id r := None) else s)"
    by (auto simp: clear_receipt_def split: if_splits)
qed

section \<open>Runs of the controller\<close>

inductive controller_step :: "controller \<Rightarrow> controller \<Rightarrow> bool" where
  cs_delete: "controller_step c (snd (controller_delete i c))"
| cs_flush: "controller_step c (snd (controller_flush i c))"
| cs_start: "can_start c n \<Longrightarrow> controller_step c (task_start n c)"
| cs_finish: "n < length (c_tasks c) \<Longrightarrow> t_state (c_tasks c ! n) = TDeleting \<Longrightarrow>
    controller_step c (task_finish n c)"
| cs_fail: "n < length (c_tasks c) \<Longrightarrow> t_state (c_tasks c ! n) = TDeleting \<Longrightarrow>
    controller_step c (task_fail n c)"
| cs_forget: "n < length (c_tasks c) \<Longrightarrow> settled (c_tasks c ! n) \<Longrightarrow>
    controller_step c (clear_active n c)"

inductive controller_reach :: "controller \<Rightarrow> bool" where
  cr_init: "controller_reach \<lparr>c_rows = t, c_tasks = [], c_active = (\<lambda>_. None)\<rparr>"
| cr_step: "controller_reach c \<Longrightarrow> controller_step c d \<Longrightarrow> controller_reach d"

abbreviation task_id :: "controller \<Rightarrow> nat \<Rightarrow> int" where
  "task_id c n \<equiv> r_id (t_receipt (c_tasks c ! n))"
abbreviation task_gen :: "controller \<Rightarrow> nat \<Rightarrow> int" where
  "task_gen c n \<equiv> r_generation (t_receipt (c_tasks c ! n))"

definition earlier_settled :: "controller \<Rightarrow> nat \<Rightarrow> bool" where
  "earlier_settled c n \<longleftrightarrow> (\<forall>k < n. task_id c k = task_id c n \<longrightarrow> settled (c_tasks c ! k))"

definition active_wf :: "controller \<Rightarrow> bool" where
  "active_wf c \<longleftrightarrow> (\<forall>i. case c_active c i of
       None \<Rightarrow> (\<forall>k < length (c_tasks c). task_id c k = i \<longrightarrow> settled (c_tasks c ! k))
     | Some n \<Rightarrow> n < length (c_tasks c) \<and> task_id c n = i \<and>
         (\<forall>k < length (c_tasks c). task_id c k = i \<longrightarrow> k \<le> n))"

definition order_wf :: "controller \<Rightarrow> bool" where
  "order_wf c \<longleftrightarrow> (\<forall>n < length (c_tasks c). 
     (t_state (c_tasks c ! n) \<noteq> TWaiting \<longrightarrow> earlier_settled c n) \<and>
     (case t_previous (c_tasks c ! n) of
        None \<Rightarrow> earlier_settled c n
      | Some p \<Rightarrow> p < n \<and> task_id c p = task_id c n \<and> (\<forall>k < n. task_id c k = task_id c n \<longrightarrow> k \<le> p)))"

definition gens_wf :: "controller \<Rightarrow> bool" where
  "gens_wf c \<longleftrightarrow> (\<forall>n < length (c_tasks c). \<not> settled (c_tasks c ! n) \<longrightarrow>
     (\<exists>g. c_rows c (task_id c n) = Some g \<and> task_gen c n \<le> g) \<and>
     (\<forall>m < length (c_tasks c). n < m \<longrightarrow> task_id c m = task_id c n \<longrightarrow> task_gen c n < task_gen c m))"

definition controller_inv :: "controller \<Rightarrow> bool" where
  "controller_inv c \<longleftrightarrow> active_wf c \<and> order_wf c \<and> gens_wf c"

section \<open>The invariant\<close>

lemma set_task_simps [simp]:
  "length (c_tasks (set_task n x c)) = length (c_tasks c)"
  "c_rows (set_task n x c) = c_rows c" "c_active (set_task n x c) = c_active c"
  "k < length (c_tasks c) \<Longrightarrow> t_receipt (c_tasks (set_task n x c) ! k) = t_receipt (c_tasks c ! k)"
  "k < length (c_tasks c) \<Longrightarrow> t_previous (c_tasks (set_task n x c) ! k) = t_previous (c_tasks c ! k)"
  "k < length (c_tasks c) \<Longrightarrow>
     t_state (c_tasks (set_task n x c) ! k) = (if k = n then x else t_state (c_tasks c ! k))"
  by (simp_all add: set_task_def) (cases "k = n"; simp)+

lemma set_task_settled:
  "k < length (c_tasks c) \<Longrightarrow> settled (c_tasks (set_task n x c) ! k) =
     (if k = n then x = TDone \<or> x = TFailed else settled (c_tasks c ! k))"
  by (simp add: settled_def)

lemma set_task_earlier:
  assumes "n < length (c_tasks c)" "k < length (c_tasks c)" "\<not> settled (c_tasks c ! n) "
    "earlier_settled c k"
  shows "earlier_settled (set_task n x c) k"
  using assms by (auto simp: earlier_settled_def set_task_settled)

lemma set_task_inv:
  assumes inv: "controller_inv c" and n: "n < length (c_tasks c)" "\<not> settled (c_tasks c ! n)"
    and e: "earlier_settled c n"
  shows "controller_inv (set_task n x c)"
proof -
  have "active_wf (set_task n x c)"
    unfolding active_wf_def
  proof
    fix i
    show "case c_active (set_task n x c) i of
        None \<Rightarrow> \<forall>k < length (c_tasks (set_task n x c)). task_id (set_task n x c) k = i \<longrightarrow>
          settled (c_tasks (set_task n x c) ! k)
      | Some m \<Rightarrow> m < length (c_tasks (set_task n x c)) \<and> task_id (set_task n x c) m = i \<and>
         (\<forall>k < length (c_tasks (set_task n x c)). task_id (set_task n x c) k = i \<longrightarrow> k \<le> m)"
      using inv n spec [of _ i, OF inv [unfolded controller_inv_def active_wf_def, THEN conjunct1]]
      by (auto simp: set_task_settled split: option.splits)
  qed
  moreover have "order_wf (set_task n x c)"
    unfolding order_wf_def
  proof (intro allI impI)
    fix k assume k: "k < length (c_tasks (set_task n x c))"
    then have ek: "earlier_settled c k \<Longrightarrow> earlier_settled (set_task n x c) k"
      using n by (auto intro: set_task_earlier)
    have "(t_state (c_tasks c ! k) \<noteq> TWaiting \<longrightarrow> earlier_settled c k) \<and>
        (case t_previous (c_tasks c ! k) of None \<Rightarrow> earlier_settled c k
         | Some p \<Rightarrow> p < k \<and> task_id c p = task_id c k \<and> (\<forall>j < k. task_id c j = task_id c k \<longrightarrow> j \<le> p))"
      using inv k by (simp add: controller_inv_def order_wf_def)
    then show "(t_state (c_tasks (set_task n x c) ! k) \<noteq> TWaiting \<longrightarrow> earlier_settled (set_task n x c) k) \<and>
        (case t_previous (c_tasks (set_task n x c) ! k) of None \<Rightarrow> earlier_settled (set_task n x c) k
         | Some p \<Rightarrow> p < k \<and> task_id (set_task n x c) p = task_id (set_task n x c) k \<and>
             (\<forall>j < k. task_id (set_task n x c) j = task_id (set_task n x c) k \<longrightarrow> j \<le> p))"
      using ek e k by (auto split: option.splits if_splits)
  qed
  moreover have "gens_wf (set_task n x c)"
    using inv n by (auto simp: controller_inv_def gens_wf_def set_task_settled)
  ultimately show ?thesis by (simp add: controller_inv_def)
qed

text \<open>A task that may start, or has started, has only settled tasks of its id before it.\<close>

lemma startable_earlier:
  assumes "controller_inv c" "can_start c n"
  shows "earlier_settled c n"
proof -
  have o: "case t_previous (c_tasks c ! n) of None \<Rightarrow> earlier_settled c n
      | Some p \<Rightarrow> p < n \<and> task_id c p = task_id c n \<and> (\<forall>k < n. task_id c k = task_id c n \<longrightarrow> k \<le> p)"
    using assms by (simp add: controller_inv_def order_wf_def can_start_def)
  show ?thesis
  proof (cases "t_previous (c_tasks c ! n)")
    case (Some p)
    with o have p: "p < n" "task_id c p = task_id c n" "\<And>k. k < n \<Longrightarrow> task_id c k = task_id c n \<Longrightarrow> k \<le> p"
      by auto
    have s: "settled (c_tasks c ! p)" using assms(2) Some by (simp add: can_start_def)
    then have "earlier_settled c p"
      using assms p(1) by (auto simp: controller_inv_def order_wf_def can_start_def settled_def)
    with p s show ?thesis unfolding earlier_settled_def by (metis le_neq_implies_less)
  qed (use o in simp)
qed

lemma deleting_earlier:
  "controller_inv c \<Longrightarrow> n < length (c_tasks c) \<Longrightarrow> t_state (c_tasks c ! n) \<noteq> TWaiting \<Longrightarrow>
   earlier_settled c n"
  by (simp add: controller_inv_def order_wf_def)

text \<open>Rows may change as long as every unsettled task keeps a row at its generation or above.\<close>

lemma rows_inv:
  assumes "controller_inv c"
    "\<And>n. n < length (c_tasks c) \<Longrightarrow> \<not> settled (c_tasks c ! n) \<Longrightarrow>
       \<exists>g. t (task_id c n) = Some g \<and> task_gen c n \<le> g"
  shows "controller_inv (c\<lparr>c_rows := t\<rparr>)"
  using assms by (simp add: controller_inv_def active_wf_def order_wf_def gens_wf_def
      earlier_settled_def cong: option.case_cong)

lemma finish_inv:
  assumes inv: "controller_inv c" and n: "n < length (c_tasks c)" "t_state (c_tasks c ! n) = TDeleting"
  shows "controller_inv (task_finish n c)"
proof -
  obtain b t where cl: "clear_receipt (t_receipt (c_tasks c ! n)) (c_rows c) = (b, t)"
    by (cases "clear_receipt (t_receipt (c_tasks c ! n)) (c_rows c)")
  have ns: "\<not> settled (c_tasks c ! n)" using n by (simp add: settled_def)
  have e: "earlier_settled c n" using inv n by (intro deleting_earlier) simp_all
  let ?d = "set_task n TDone c"
  have d: "controller_inv ?d" by (rule set_task_inv [OF inv n(1) ns e])
  have "controller_inv (?d\<lparr>c_rows := t\<rparr>)"
  proof (rule rows_inv [OF d])
    fix k assume k: "k < length (c_tasks ?d)" "\<not> settled (c_tasks ?d ! k)"
    then have kn: "k \<noteq> n" "\<not> settled (c_tasks c ! k)" "k < length (c_tasks c)"
      by (auto simp: set_task_settled split: if_splits)
    obtain g where g: "c_rows c (task_id c k) = Some g" "task_gen c k \<le> g"
      using inv kn by (auto simp: controller_inv_def gens_wf_def)
    have "t (task_id c k) = c_rows c (task_id c k)"
    proof (cases "task_id c k = task_id c n")
      case True
      with e kn have "n < k" by (auto simp: earlier_settled_def) (metis linorder_neqE_nat)
      then have "task_gen c n < task_gen c k"
        using inv n(1) ns kn(3) True by (auto simp: controller_inv_def gens_wf_def)
      then show ?thesis using receipts.clr_row [OF cl] g True by auto
    next
      case False
      then show ?thesis by (rule receipts.clear_other [OF cl])
    qed
    with g show "\<exists>g. t (task_id ?d k) = Some g \<and> task_gen ?d k \<le> g" using kn(3) by simp
  qed
  moreover have "task_finish n c = ?d\<lparr>c_rows := t\<rparr>"
    by (simp add: task_finish_def cl set_task_def)
  ultimately show ?thesis by simp
qed

lemma clear_active_inv:
  assumes inv: "controller_inv c" and n: "n < length (c_tasks c)" "settled (c_tasks c ! n)"
  shows "controller_inv (clear_active n c)"
proof (cases "c_active c (task_id c n) = Some n")
  case True
  let ?d = "c\<lparr>c_active := (c_active c)(task_id c n := None)\<rparr>"
  have e: "earlier_settled c n" using inv n by (intro deleting_earlier) (auto simp: settled_def)
  have "\<forall>k < length (c_tasks c). task_id c k = task_id c n \<longrightarrow> k \<le> n"
    using inv True by (auto simp: controller_inv_def active_wf_def dest: spec [of _ "task_id c n"])
  then have "\<forall>k < length (c_tasks c). task_id c k = task_id c n \<longrightarrow> settled (c_tasks c ! k)"
    using e n(2) unfolding earlier_settled_def by (metis le_neq_implies_less)
  then have "active_wf ?d"
    using inv by (auto simp: controller_inv_def active_wf_def cong: option.case_cong)
  then show ?thesis using inv True
    by (simp add: controller_inv_def order_wf_def gens_wf_def earlier_settled_def clear_active_def
        cong: option.case_cong)
qed (use inv in \<open>simp add: clear_active_def\<close>)

text \<open>A new task, for a receipt whose row is at its generation.\<close>

definition push_task :: "receipt \<Rightarrow> nat option \<Rightarrow> controller \<Rightarrow> controller" where
  "push_task r prev c =
     c\<lparr>c_tasks := c_tasks c @ [\<lparr>t_receipt = r, t_previous = prev, t_state = TWaiting\<rparr>],
       c_active := (c_active c)(r_id r \<mapsto> length (c_tasks c))\<rparr>"

lemma push_task_simps [simp]:
  "length (c_tasks (push_task r p c)) = Suc (length (c_tasks c))"
  "c_rows (push_task r p c) = c_rows c"
  "c_active (push_task r p c) = (c_active c)(r_id r \<mapsto> length (c_tasks c))"
  "k < length (c_tasks c) \<Longrightarrow> c_tasks (push_task r p c) ! k = c_tasks c ! k"
  "c_tasks (push_task r p c) ! length (c_tasks c) =
     \<lparr>t_receipt = r, t_previous = p, t_state = TWaiting\<rparr>"
  by (simp_all add: push_task_def nth_append)

lemma controller_run_eq:
  "controller_run r c = (case c_active c (r_id r) of
     None \<Rightarrow> (length (c_tasks c), push_task r None c)
   | Some a \<Rightarrow> (if task_gen c a \<ge> r_generation r then (a, c)
               else (length (c_tasks c), push_task r (Some a) c)))"
  by (simp add: controller_run_def push_task_def Let_def split: option.split)

lemma push_task_inv:
  assumes inv: "controller_inv c" and row: "c_rows c (r_id r) = Some (r_generation r)"
    and act: "case c_active c (r_id r) of None \<Rightarrow> p = None | Some a \<Rightarrow> p = Some a \<and> task_gen c a < r_generation r"
  shows "controller_inv (push_task r p c)"
proof -
  let ?n = "length (c_tasks c)" and ?d = "push_task r p c"
  have aw: "active_wf c" and ow: "order_wf c" and gw: "gens_wf c" using inv by (simp_all add: controller_inv_def)
  have es: "earlier_settled ?d k = earlier_settled c k" if "k < ?n" for k
    using that by (auto simp: earlier_settled_def)
  have act_none: "settled (c_tasks c ! k)" if "c_active c i = None" "k < ?n" "task_id c k = i" for i k
    using aw that by (auto simp: active_wf_def dest: spec [of _ i])
  have act_some: "a < ?n \<and> task_id c a = i \<and> (k < ?n \<longrightarrow> task_id c k = i \<longrightarrow> k \<le> a)"
    if "c_active c i = Some a" for i a k
    using aw that by (auto simp: active_wf_def dest!: spec [of _ i])
  have "active_wf ?d"
    unfolding active_wf_def
  proof
    fix i
    show "case c_active ?d i of
        None \<Rightarrow> \<forall>k < length (c_tasks ?d). task_id ?d k = i \<longrightarrow> settled (c_tasks ?d ! k)
      | Some m \<Rightarrow> m < length (c_tasks ?d) \<and> task_id ?d m = i \<and>
          (\<forall>k < length (c_tasks ?d). task_id ?d k = i \<longrightarrow> k \<le> m)"
      using act_none [of i] act_some [of i] by (auto simp: less_Suc_eq split: option.split)
  qed
  moreover have "order_wf ?d"
    unfolding order_wf_def
  proof (intro allI impI)
    fix k assume "k < length (c_tasks ?d)"
    then consider "k < ?n" | "k = ?n" by fastforce
    then show "(t_state (c_tasks ?d ! k) \<noteq> TWaiting \<longrightarrow> earlier_settled ?d k) \<and>
        (case t_previous (c_tasks ?d ! k) of None \<Rightarrow> earlier_settled ?d k
         | Some q \<Rightarrow> q < k \<and> task_id ?d q = task_id ?d k \<and>
             (\<forall>j < k. task_id ?d j = task_id ?d k \<longrightarrow> j \<le> q))"
    proof cases
      case 1
      then show ?thesis using ow es by (auto simp: order_wf_def split: option.splits)
    next
      case 2
      show ?thesis
      proof (cases "c_active c (r_id r)")
        case None
        then show ?thesis using act act_none 2 by (auto simp: earlier_settled_def)
      next
        case (Some a)
        then show ?thesis using act act_some [OF Some] 2 by auto
      qed
    qed
  qed
  moreover have "gens_wf ?d"
    unfolding gens_wf_def
  proof (intro allI impI)
    fix k assume k: "k < length (c_tasks ?d)" "\<not> settled (c_tasks ?d ! k)"
    have new: "task_gen c k < r_generation r" if "k < ?n" "\<not> settled (c_tasks c ! k)" "task_id c k = r_id r"
    proof (cases "c_active c (r_id r)")
      case None
      with act_none that show ?thesis by blast
    next
      case (Some a)
      have ga: "task_gen c a < r_generation r" using act Some by simp
      show ?thesis
      proof (cases "k = a")
        case False
        with act_some [OF Some] that have "k < a" "a < ?n" "task_id c a = task_id c k"
          by (auto intro: le_neq_implies_less)
        then have "task_gen c k < task_gen c a" using gw that by (auto simp: gens_wf_def)
        with ga show ?thesis by simp
      qed (use ga in simp)
    qed
    from k consider "k < ?n" | "k = ?n" by fastforce
    then show "(\<exists>g. c_rows ?d (task_id ?d k) = Some g \<and> task_gen ?d k \<le> g) \<and>
        (\<forall>m < length (c_tasks ?d). k < m \<longrightarrow> task_id ?d m = task_id ?d k \<longrightarrow> task_gen ?d k < task_gen ?d m)"
    proof cases
      case 1
      with k gw new show ?thesis by (auto simp: gens_wf_def less_Suc_eq)
    next
      case 2
      with row show ?thesis by simp
    qed
  qed
  ultimately show ?thesis by (simp add: controller_inv_def)
qed

lemma controller_run_inv:
  assumes "controller_inv c" "c_rows c (r_id r) = Some (r_generation r)"
  shows "controller_inv (snd (controller_run r c))"
  using assms push_task_inv [OF assms]
  by (auto simp: controller_run_eq split: option.split)

lemma record_rows_inv:
  assumes "controller_inv c" "record_receipt i (c_rows c) = (x, t)"
  shows "controller_inv (c\<lparr>c_rows := t\<rparr>)"
proof (rule rows_inv [OF assms(1)])
  fix n assume "n < length (c_tasks c)" "\<not> settled (c_tasks c ! n)"
  then obtain g where "c_rows c (task_id c n) = Some g" "task_gen c n \<le> g"
    using assms(1) by (auto simp: controller_inv_def gens_wf_def)
  with assms(2) show "\<exists>g. t (task_id c n) = Some g \<and> task_gen c n \<le> g"
    by (auto simp: record_receipt_def require_facet_id_def op_bind_def upsert_generation_def Let_def
        split: if_splits)
qed

lemma controller_step_inv:
  assumes "controller_step c d" "controller_inv c"
  shows "controller_inv d"
  using assms(1)
proof cases
  case (cs_delete i)
  obtain x t where r: "record_receipt i (c_rows c) = (x, t)" by (cases "record_receipt i (c_rows c)")
  note inv = record_rows_inv [OF assms(2) r]
  show ?thesis
  proof (cases x)
    case (Inr rc)
    have "c_rows (c\<lparr>c_rows := t\<rparr>) (r_id rc) = Some (r_generation rc)"
      using receipts.rec_row [OF r [unfolded Inr]] by auto
    from controller_run_inv [OF inv this] show ?thesis
      using cs_delete r Inr by (simp add: controller_delete_def split_beta)
  qed (use cs_delete r inv in \<open>simp add: controller_delete_def\<close>)
next
  case (cs_flush i)
  show ?thesis
  proof (cases "positive_safe i \<and> (\<exists>g. c_rows c i = Some g \<and> positive_safe g)")
    case True
    then obtain g where g: "positive_safe i" "c_rows c i = Some g" "positive_safe g" by blast
    then have "controller_inv (snd (controller_run \<lparr>r_id = i, r_generation = g\<rparr> c))"
      by (intro controller_run_inv [OF assms(2)]) simp
    with g cs_flush show ?thesis
      by (simp add: controller_flush_def read_receipt_def require_facet_id_def op_bind_def
          require_generation_def split_beta)
  next
    case False
    then have "d = c" using cs_flush
      by (auto simp: controller_flush_def read_receipt_def require_facet_id_def op_bind_def
          require_generation_def split: option.split)
    with assms(2) show ?thesis by simp
  qed
next
  case (cs_start n)
  then show ?thesis using set_task_inv [OF assms(2) _ _ startable_earlier [OF assms(2), of n]]
    by (auto simp: task_start_def can_start_def settled_def)
next
  case (cs_finish n)
  then show ?thesis using finish_inv [OF assms(2)] by simp
next
  case (cs_fail n)
  then show ?thesis using set_task_inv [OF assms(2) _ _ deleting_earlier [OF assms(2), of n]]
    by (auto simp: task_fail_def settled_def)
next
  case (cs_forget n)
  then show ?thesis using clear_active_inv [OF assms(2)] by simp
qed

lemma controller_reach_inv: "controller_reach c \<Longrightarrow> controller_inv c"
proof (induction rule: controller_reach.induct)
  case (cr_init t)
  show ?case by (simp add: controller_inv_def active_wf_def order_wf_def gens_wf_def)
qed (rule controller_step_inv)

section \<open>Properties\<close>

text \<open>
  C13. No two deletions of one facet overlap. In every run of the controller, two tasks whose
  \<open>deleteSubtree\<close> is running at the same time are for different facets.
\<close>

theorem facet_deletions_serialized:
  assumes "controller_reach c" "m < length (c_tasks c)" "n < length (c_tasks c)"
    "t_state (c_tasks c ! m) = TDeleting" "t_state (c_tasks c ! n) = TDeleting" "m \<noteq> n"
  shows "task_id c m \<noteq> task_id c n"
proof -
  have inv: "controller_inv c" using assms(1) by (rule controller_reach_inv)
  have "earlier_settled c m" "earlier_settled c n"
    by (rule deleting_earlier [OF inv], use assms in simp_all)+
  with assms show ?thesis unfolding earlier_settled_def settled_def
    by (metis linorder_neqE_nat task_state.distinct(7,9))
qed

text \<open>
  C14. A deletion in flight never erases a newer request. In every run, while any task of a facet is
  unsettled its receipt row is present at that task's generation or a later one, and when a task
  completes, the row survives exactly if it carries another generation than the task's.
\<close>

theorem facet_receipt_fence:
  assumes "controller_reach c" "n < length (c_tasks c)" "t_state (c_tasks c ! n) = TDeleting"
  shows "(\<exists>g. c_rows c (task_id c n) = Some g \<and> task_gen c n \<le> g \<and>
      c_rows (task_finish n c) (task_id c n) = (if g = task_gen c n then None else Some g)) \<and>
    (\<forall>m < length (c_tasks c). m \<noteq> n \<longrightarrow> \<not> settled (c_tasks c ! m) \<longrightarrow>
      c_rows (task_finish n c) (task_id c m) = c_rows c (task_id c m))"
proof -
  have inv: "controller_inv c" using assms(1) by (rule controller_reach_inv)
  have ns: "\<not> settled (c_tasks c ! n)" using assms(3) by (simp add: settled_def)
  obtain g where g: "c_rows c (task_id c n) = Some g" "task_gen c n \<le> g"
    using inv assms(2) ns by (auto simp: controller_inv_def gens_wf_def)
  have fin: "c_rows (task_finish n c) = (if g = task_gen c n then (c_rows c)(task_id c n := None) else c_rows c)"
    using g by (simp add: task_finish_def clear_receipt_def)
  have "c_rows (task_finish n c) (task_id c m) = c_rows c (task_id c m)"
    if m: "m < length (c_tasks c)" "m \<noteq> n" "\<not> settled (c_tasks c ! m)" for m
  proof (cases "task_id c m = task_id c n")
    case True
    have "earlier_settled c n" using inv assms(2,3) by (intro deleting_earlier) simp_all
    with m True have "n < m" by (auto simp: earlier_settled_def) (metis linorder_neqE_nat)
    then have "task_gen c n < task_gen c m"
      using inv assms(2) ns m(1) True by (auto simp: controller_inv_def gens_wf_def)
    moreover have "\<exists>h. c_rows c (task_id c m) = Some h \<and> task_gen c m \<le> h"
      using inv m by (auto simp: controller_inv_def gens_wf_def)
    ultimately show ?thesis using fin g True by auto
  qed (use fin in simp)
  with g fin show ?thesis by auto
qed

text \<open>
  A deletion asked for while none of the facet's is settling is carried out. In every run, if the
  task the controller remembers for the facet is unsettled or there is none, \<open>delete\<close> returns the
  promise of a fresh task, not started yet, whose receipt is the row just recorded.
\<close>

theorem facet_delete_fresh_task:
  assumes "controller_reach c" "controller_delete i c = (Inr n, d)"
    "case c_active c i of None \<Rightarrow> True | Some a \<Rightarrow> \<not> settled (c_tasks c ! a)"
  shows "n = length (c_tasks c) \<and> length (c_tasks d) = Suc n \<and> t_state (c_tasks d ! n) = TWaiting \<and>
    task_id d n = i \<and> c_rows d i = Some (task_gen d n)"
proof -
  have inv: "controller_inv c" using assms(1) by (rule controller_reach_inv)
  obtain r t where r: "record_receipt i (c_rows c) = (Inr r, t)" and
    run: "controller_run r (c\<lparr>c_rows := t\<rparr>) = (n, d)"
    using assms(2) by (auto simp: controller_delete_def split: prod.splits sum.splits)
  have rr: "t = (c_rows c)(i \<mapsto> r_generation r)" "r_id r = i" using receipts.rec_row [OF r] by auto
  have "task_gen c a < r_generation r" if a: "c_active c i = Some a" for a
  proof -
    have "a < length (c_tasks c)" "task_id c a = i"
      using inv a by (auto simp: controller_inv_def active_wf_def dest!: spec [of _ i])
    moreover have "\<not> settled (c_tasks c ! a)" using assms(3) a by simp
    ultimately obtain g where "c_rows c i = Some g" "task_gen c a \<le> g"
      using inv by (auto simp: controller_inv_def gens_wf_def)
    with receipts.rec_newer [OF r] show ?thesis by fastforce
  qed
  then have "n = length (c_tasks c) \<and> (\<exists>p. d = push_task r p (c\<lparr>c_rows := t\<rparr>))"
    using run rr(2) by (auto simp: controller_run_eq split: option.splits if_splits)
  then show ?thesis using rr push_task_simps(5) [of r _ "c\<lparr>c_rows := t\<rparr>"] by fastforce
qed


section \<open>Runs of the queue\<close>

inductive queue_reach :: "deletion_queue \<Rightarrow> bool" where
  qr_init: "queue_reach \<lparr>q_ops = [], q_pending = []\<rparr>"
| qr_run: "queue_reach q \<Longrightarrow> queue_reach (snd (queue_run ids q))"
| qr_start: "queue_reach q \<Longrightarrow> queue_can_start q n \<Longrightarrow> queue_reach (queue_set n ORunning q)"
| qr_settle: "queue_reach q \<Longrightarrow> n < length (q_ops q) \<Longrightarrow> snd (q_ops q ! n) = ORunning \<Longrightarrow>
    queue_reach (queue_set n (OSettled ok) q)"
| qr_forget: "queue_reach q \<Longrightarrow> n < length (q_ops q) \<Longrightarrow> op_settled q n \<Longrightarrow>
    queue_reach (queue_forget n q)"

definition queue_inv :: "deletion_queue \<Rightarrow> bool" where
  "queue_inv q \<longleftrightarrow>
     (\<forall>n < length (q_ops q). snd (q_ops q ! n) \<noteq> OQueued \<longrightarrow> (\<forall>k < n. op_settled q k)) \<and>
     (\<forall>n < length (q_ops q). \<not> op_settled q n \<longrightarrow> n \<in> set (q_pending q)) \<and>
     (\<forall>n \<in> set (q_pending q). n < length (q_ops q))"

lemma queue_set_simps [simp]:
  "length (q_ops (queue_set n x q)) = length (q_ops q)" "q_pending (queue_set n x q) = q_pending q"
  "k < length (q_ops q) \<Longrightarrow> q_ops (queue_set n x q) ! k = (if k = n then (fst (q_ops q ! n), x) else q_ops q ! k)"
  by (simp_all add: queue_set_def)

lemma queue_run_simps [simp]:
  "length (q_ops (snd (queue_run ids q))) = Suc (length (q_ops q))"
  "q_pending (snd (queue_run ids q)) = q_pending q @ [length (q_ops q)]"
  "k < length (q_ops q) \<Longrightarrow> q_ops (snd (queue_run ids q)) ! k = q_ops q ! k"
  "q_ops (snd (queue_run ids q)) ! length (q_ops q) = (ids, OQueued)"
  by (simp_all add: queue_run_def nth_append)

lemma queue_invD:
  assumes "queue_inv q"
  shows "\<And>n k. n < length (q_ops q) \<Longrightarrow> snd (q_ops q ! n) \<noteq> OQueued \<Longrightarrow> k < n \<Longrightarrow> op_settled q k"
    "\<And>n. n < length (q_ops q) \<Longrightarrow> \<not> op_settled q n \<Longrightarrow> n \<in> set (q_pending q)"
    "\<And>n. n \<in> set (q_pending q) \<Longrightarrow> n < length (q_ops q)"
  using assms unfolding queue_inv_def by blast+

text \<open>Setting the state of an operation that has not settled and whose predecessors have.\<close>

lemma queue_set_inv:
  assumes inv: "queue_inv q" and n: "n < length (q_ops q)" and ns: "\<not> op_settled q n"
    and e: "\<And>k. k < n \<Longrightarrow> op_settled q k"
  shows "queue_inv (queue_set n x q)"
proof -
  note d = queue_invD [OF inv]
  have s: "op_settled q k \<Longrightarrow> op_settled (queue_set n x q) k" if "k < length (q_ops q)" for k
    using that ns by (cases "k = n") (auto simp: op_settled_def)
  have "op_settled (queue_set n x q) k"
    if "m < length (q_ops q)" "snd (q_ops (queue_set n x q) ! m) \<noteq> OQueued" "k < m" for m k
    using that d(1) [of m k] e [of k] s [of k] by (cases "m = n") auto
  moreover have "m \<in> set (q_pending q)"
    if "m < length (q_ops q)" "\<not> op_settled (queue_set n x q) m" for m
    using that d(2) [of m] s [of m] by blast
  ultimately show ?thesis unfolding queue_inv_def queue_set_simps(1,2) using d(3) by blast
qed

lemma queue_reach_inv: "queue_reach q \<Longrightarrow> queue_inv q"
proof (induction rule: queue_reach.induct)
  case qr_init
  show ?case by (simp add: queue_inv_def)
next
  case (qr_run q ids)
  let ?r = "snd (queue_run ids q)"
  note d = queue_invD [OF qr_run(2)]
  have s: "op_settled ?r k = op_settled q k" if "k < length (q_ops q)" for k
    using that by (simp add: op_settled_def)
  have "op_settled ?r k" if "n < Suc (length (q_ops q))" "snd (q_ops ?r ! n) \<noteq> OQueued" "k < n" for n k
  proof -
    have "n < length (q_ops q)" using that by (cases "n = length (q_ops q)") auto
    then show ?thesis using d(1) [of n k] that s [of k] by simp
  qed
  moreover have "n \<in> set (q_pending ?r)" if "n < Suc (length (q_ops q))" "\<not> op_settled ?r n" for n
    using d(2) [of n] that s [of n] by (cases "n = length (q_ops q)") auto
  moreover have "n < Suc (length (q_ops q))" if "n \<in> set (q_pending ?r)" for n
    using d(3) [of n] that by auto
  ultimately show ?case unfolding queue_inv_def queue_run_simps(1) by blast
next
  case (qr_start q n)
  have "\<forall>k < n. op_settled q k"
  proof (cases n)
    case (Suc m)
    then have m: "op_settled q m" "m < length (q_ops q)"
      using qr_start.hyps by (auto simp: queue_can_start_def)
    then have "snd (q_ops q ! m) \<noteq> OQueued" by (auto simp: op_settled_def)
    with queue_invD(1) [OF qr_start.IH m(2)] m(1) Suc show ?thesis by (auto simp: less_Suc_eq)
  qed simp
  moreover have "op_settled (queue_set n ORunning q) k = op_settled q k" if "k < length (q_ops q)" for k
    using that qr_start.hyps by (auto simp: op_settled_def queue_can_start_def)
  ultimately show ?case
    using queue_set_inv [OF qr_start.IH, of n ORunning] qr_start.hyps
    by (auto simp: queue_can_start_def op_settled_def)
next
  case (qr_settle q n ok)
  show ?case
    by (rule queue_set_inv [OF qr_settle.IH qr_settle.hyps(2)])
      (use queue_invD(1) [OF qr_settle.IH qr_settle.hyps(2)] qr_settle.hyps(3) in \<open>auto simp: op_settled_def\<close>)
next
  case (qr_forget q n)
  note d = queue_invD [OF qr_forget.IH]
  have s: "op_settled (queue_forget n q) k = op_settled q k"
    "length (q_ops (queue_forget n q)) = length (q_ops q)" "q_ops (queue_forget n q) = q_ops q"
    "set (q_pending (queue_forget n q)) = set (q_pending q) - {n}" for k
    by (simp_all add: op_settled_def queue_forget_def)
  show ?case unfolding queue_inv_def s using d qr_forget.hyps(3) by blast
qed

text \<open>
  C16. Physical deletions run one at a time, in order, and a user of a facet waits for them. In every
  run of the queue, while an operation is running every earlier one has settled and no other is
  running, and the promises \<open>waitFor\<close> awaits include every operation not yet settled that covers the
  facet.
\<close>

theorem deletion_queue_serial:
  assumes "queue_reach q"
  shows "(\<forall>n < length (q_ops q). snd (q_ops q ! n) = ORunning \<longrightarrow>
      (\<forall>k < n. op_settled q k) \<and> (\<forall>k < length (q_ops q). snd (q_ops q ! k) = ORunning \<longrightarrow> k = n)) \<and>
    (\<forall>n < length (q_ops q). \<not> op_settled q n \<longrightarrow> i \<in> set (fst (q_ops q ! n)) \<longrightarrow>
      n \<in> set (queue_wait_for i q))"
proof -
  have inv: "queue_inv q" using assms by (rule queue_reach_inv)
  have run: "\<forall>k < n. op_settled q k" if "n < length (q_ops q)" "snd (q_ops q ! n) = ORunning" for n
    using queue_invD(1) [OF inv that(1)] that(2) by simp
  moreover have "k = n" if "n < length (q_ops q)" "snd (q_ops q ! n) = ORunning"
      "k < length (q_ops q)" "snd (q_ops q ! k) = ORunning" for n k
  proof (rule ccontr)
    assume "k \<noteq> n"
    then consider "k < n" | "n < k" by linarith
    then show False
      using run [OF that(1,2)] run [OF that(3,4)] that(2,4) by cases (auto simp: op_settled_def)
  qed
  moreover have "n \<in> set (queue_wait_for i q)"
    if "n < length (q_ops q)" "\<not> op_settled q n" "i \<in> set (fst (q_ops q ! n))" for n
    using queue_invD(2) [OF inv that(1,2)] that(3) by (simp add: queue_wait_for_def)
  ultimately show ?thesis by blast
qed

section \<open>Epochs in use\<close>

datatype epoch_op = Capture int | Invalidate int "int list"

fun run_epochs :: "epoch_op list \<Rightarrow> epochs \<Rightarrow> epochs" where
  "run_epochs [] m = m"
| "run_epochs (Capture i # ops) m = run_epochs ops (snd (epoch_capture i m))"
| "run_epochs (Invalidate r sub # ops) m = run_epochs ops (epoch_invalidate r sub m)"

lemma epoch_fold:
  "distinct is \<Longrightarrow> epoch_of (fold (\<lambda>i m. m(i \<mapsto> epoch_of m i + 1)) is m) j =
     epoch_of m j + (if j \<in> set is then 1 else 0)"
  by (induction "is" arbitrary: m) (auto simp: epoch_of_def)

lemma epoch_invalidate_of:
  "epoch_of (epoch_invalidate r sub m) j = epoch_of m j + (if j \<in> set (r # sub) then 1 else 0)"
  unfolding epoch_invalidate_def by (subst epoch_fold) auto

lemma epoch_capture_of: "epoch_of (snd (epoch_capture i m)) j = epoch_of m j"
  by (simp add: epoch_capture_def epoch_of_def split: option.split)

lemma run_epochs_of:
  "epoch_of (run_epochs ops m) i =
     epoch_of m i + length (filter (\<lambda>x. case x of Invalidate r sub \<Rightarrow> i \<in> set (r # sub) | _ \<Rightarrow> False) ops)"
  by (induction ops m rule: run_epochs.induct) (auto simp: epoch_capture_of epoch_invalidate_of)

text \<open>
  A reference is current exactly until its facet is invalidated. After any captures and
  invalidations that follow a capture, \<open>isCurrent\<close> on the captured epoch is true exactly when none of
  the invalidations names the facet as its root or in its subtree.
\<close>

theorem epoch_current_iff:
  assumes "epoch_capture i m = (e, m1)"
  shows "epoch_is_current i e (run_epochs ops m1) \<longleftrightarrow>
    \<not> (\<exists>r sub. Invalidate r sub \<in> set ops \<and> i \<in> set (r # sub))"
proof -
  have "epoch_of m1 i = e" using assms by (auto simp: epoch_capture_def epoch_of_def split: option.splits)
  then have "epoch_is_current i e (run_epochs ops m1) \<longleftrightarrow>
      filter (\<lambda>x. case x of Invalidate r sub \<Rightarrow> i \<in> set (r # sub) | _ \<Rightarrow> False) ops = []"
    by (simp add: epoch_is_current_def run_epochs_of)
  also have "\<dots> \<longleftrightarrow> \<not> (\<exists>r sub. Invalidate r sub \<in> set ops \<and> i \<in> set (r # sub))"
    by (auto simp: filter_empty_conv split: epoch_op.splits)
  finally show ?thesis .
qed

section \<open>Witnesses\<close>

definition del1 :: controller where
  "del1 = \<lparr>c_rows = [7 \<mapsto> 1], c_tasks = [\<lparr>t_receipt = \<lparr>r_id = 7, r_generation = 1\<rparr>, t_previous = None, t_state = TWaiting\<rparr>],
      c_active = [7 \<mapsto> 0]\<rparr>"
definition del2 :: controller where "del2 = task_start 0 del1"

lemma del1_eq: "controller_delete 7 \<lparr>c_rows = (\<lambda>_. None), c_tasks = [], c_active = (\<lambda>_. None)\<rparr> = (Inr 0, del1)"
  by (simp add: del1_def controller_delete_def record_receipt_def require_facet_id_def op_bind_def
      upsert_generation_def positive_safe_def MAX_SAFE_INTEGER_def controller_run_def)

lemma del_reach: "controller_reach del1" "controller_reach del2"
proof -
  show 1: "controller_reach del1" using cr_step [OF cr_init cs_delete] del1_eq by (metis snd_conv)
  show "controller_reach del2" unfolding del2_def
    by (rule cr_step [OF 1 cs_start]) (simp add: del1_def can_start_def)
qed

definition del3 :: controller where "del3 = task_start 1 (snd (controller_delete 8 del2))"

lemma del3_value: "del3 = \<lparr>c_rows = [7 \<mapsto> 1, 8 \<mapsto> 1], c_tasks = [\<lparr>t_receipt = \<lparr>r_id = 7, r_generation = 1\<rparr>, t_previous = None, t_state = TDeleting\<rparr>,
                \<lparr>t_receipt = \<lparr>r_id = 8, r_generation = 1\<rparr>, t_previous = None, t_state = TDeleting\<rparr>],
      c_active = [7 \<mapsto> 0, 8 \<mapsto> 1]\<rparr>"
  unfolding del3_def del2_def del1_def
  by (simp add: task_start_def set_task_def controller_delete_def record_receipt_def require_facet_id_def
      op_bind_def upsert_generation_def positive_safe_def MAX_SAFE_INTEGER_def controller_run_def)

lemma del3_reach: "controller_reach del3"
proof -
  have "controller_reach (snd (controller_delete 8 del2))"
    by (rule cr_step [OF del_reach(2) cs_delete])
  then show ?thesis unfolding del3_def
    by (rule cr_step [OF _ cs_start]) (simp add: can_start_def del2_def del1_def task_start_def
      set_task_def controller_delete_def record_receipt_def require_facet_id_def op_bind_def
      upsert_generation_def positive_safe_def MAX_SAFE_INTEGER_def controller_run_def)
qed

lemma facet_deletions_serialized_witness: "task_id del3 0 \<noteq> task_id del3 1"
  by (rule facet_deletions_serialized [OF del3_reach]) (simp_all add: del3_value)

lemma facet_receipt_fence_witness: "c_rows (task_finish 0 del3) 8 = Some 1"
  using facet_receipt_fence [OF del3_reach, of 0] by (auto simp: del3_value settled_def)

lemma facet_delete_fresh_task_witness: "length (c_tasks del1) = 1"
  using facet_delete_fresh_task [OF cr_init del1_eq] by simp

lemma deletion_queue_serial_witness:
  "0 \<in> set (queue_wait_for 3 (snd (queue_run [3, 4] \<lparr>q_ops = [], q_pending = []\<rparr>)))"
  using deletion_queue_serial [OF qr_run [OF qr_init], of "[3, 4]" 3]
  by (simp add: queue_run_def op_settled_def)

lemma epoch_current_iff_witness:
  "\<not> epoch_is_current 5 0 (run_epochs [Capture 4, Invalidate 4 [5]] (snd (epoch_capture 5 (\<lambda>_. None))))"
  using epoch_current_iff [of 5 "\<lambda>_. None" 0 "snd (epoch_capture 5 (\<lambda>_. None))"
      "[Capture 4, Invalidate 4 [5]]"]
  by (simp add: epoch_capture_def epoch_of_def)

end
