(* ===== verification/Alarm_Scheduler.thy ===== *)
theory Alarm_Scheduler
  imports Prelude "HOL-Library.AList"
begin

text \<open>
  Alarm delivery and its retry ladder, \<open>src/src/server/alarm-scheduler.ts\<close>.

  The \<open>_cf_ALARM\<close> table is a map from actor ids to rows, and each statement of \<open>STMT\<close> is a function on
  it. Entries (\<open>ScheduledAlarm\<close>) and the runs of \<open>makeAlarmTask\<close> are numbered objects, since the code
  compares entries by identity; the \<open>alarms\<close> map is an association list in insertion order. A run is
  cut at its awaits: it sleeps in \<open>checkTimestamp\<close>, is ready, waits for the delivery, or waits for
  the abandonment. Times are integers of milliseconds.

  What the host decides is a script: which writes of the database succeed, what \<open>random\<close> draws (the
  numerator of a multiple of \<open>2 ^ -53\<close>) and which calls of \<open>projectWake\<close> return, each a function of
  the number of the call. \<open>sc_delivered\<close> and \<open>sc_projected\<close> record the calls the scheduler makes.
\<close>

section \<open>The retry ladder\<close>

definition ALARM_RETRY_START_SECONDS :: int where "ALARM_RETRY_START_SECONDS = 2"
definition ALARM_RETRY_MAX_TRIES :: int where "ALARM_RETRY_MAX_TRIES = 6"
definition RETRY_BACKOFF_MAX :: int where "RETRY_BACKOFF_MAX = 9"

definition alarm_retry_delay_ms :: "int \<Rightarrow> js_exn + int" where
  "alarm_retry_delay_ms backoff =
     (if backoff < 0 \<or> RETRY_BACKOFF_MAX < backoff
      then Inl (Failure ''Alarm retry backoff is outside [0, 9].'')
      else Inr (push_bit (nat backoff) ALARM_RETRY_START_SECONDS * 1000))"

definition jitter_ms_for_delay :: "int \<Rightarrow> nat \<Rightarrow> int" where
  "jitter_ms_for_delay delay draw =
     (let m = delay div 4 in min m (int draw * (m + 1) div 2 ^ 53))"

section \<open>State\<close>

record alarm_row =
  row_time :: int
  row_retry :: "int option"
  row_backoff :: int
  row_counted :: int
  row_previous :: int
  row_running :: int

type_synonym alarm_table = "string \<Rightarrow> alarm_row option"

datatype event_outcome = OutOk | OutCanceled | OutScriptNotFound | OutException | OutAborted
  | OutExceededCpu | OutUnknown

record alarm_result =
  res_retry :: bool
  res_counts :: bool
  res_outcome :: event_outcome

datatype alarm_status = WAITING | STARTED | FINISHED

record scheduled_alarm =
  ae_actor :: string
  ae_time :: int
  ae_wake :: "int option"
  ae_task :: "nat option"
  ae_aborted :: bool
  ae_queued :: "int option"
  ae_status :: alarm_status
  ae_previous :: bool
  ae_backoff :: int
  ae_counted :: int

record persisted_alarm =
  pa_retry :: "int option"
  pa_backoff :: int
  pa_counted :: int
  pa_previous :: bool
  pa_running :: bool

datatype task_phase = Sleeping | Ready | Delivering | Abandoning alarm_result | Ended

record alarm_task =
  at_entry :: nat
  at_remaining :: int
  at_time :: int
  at_completed :: "alarm_result option"
  at_bookkeeping :: int
  at_phase :: task_phase

record sched =
  sc_rows :: alarm_table
  sc_alarms :: "(string \<times> nat) list"
  sc_entries :: "nat \<Rightarrow> scheduled_alarm"
  sc_n_entries :: nat
  sc_tasks :: "nat \<Rightarrow> alarm_task"
  sc_n_tasks :: nat
  sc_active :: "nat list"
  sc_now :: int
  sc_failure :: "js_exn option"
  sc_db :: "nat \<Rightarrow> bool"
  sc_db_n :: nat
  sc_random :: "nat \<Rightarrow> nat"
  sc_random_n :: nat
  sc_project :: "(nat \<Rightarrow> bool) option"
  sc_projected :: "(int option \<times> nat) list"
  sc_delivered :: "(string \<times> int \<times> int \<times> int) list"

type_synonym 'a sop = "(sched, 'a) op"

abbreviation alarm_of :: "sched \<Rightarrow> string \<Rightarrow> nat option" where
  "alarm_of s a \<equiv> map_of (sc_alarms s) a"

definition upd_entry :: "nat \<Rightarrow> (scheduled_alarm \<Rightarrow> scheduled_alarm) \<Rightarrow> sched \<Rightarrow> sched" where
  "upd_entry e f s = s\<lparr>sc_entries := (sc_entries s)(e := f (sc_entries s e))\<rparr>"

definition upd_task :: "nat \<Rightarrow> (alarm_task \<Rightarrow> alarm_task) \<Rightarrow> sched \<Rightarrow> sched" where
  "upd_task n f s = s\<lparr>sc_tasks := (sc_tasks s)(n := f (sc_tasks s n))\<rparr>"

definition set_phase :: "nat \<Rightarrow> task_phase \<Rightarrow> sched \<Rightarrow> sched" where
  "set_phase n p = upd_task n (\<lambda>t. t\<lparr>at_phase := p\<rparr>)"

section \<open>The statements\<close>

definition stmt_set_alarm :: "string \<Rightarrow> int \<Rightarrow> alarm_table \<Rightarrow> alarm_table" where
  "stmt_set_alarm a t rows = rows(a \<mapsto>
     (case rows a of
        None \<Rightarrow> \<lparr>row_time = t, row_retry = None, row_backoff = 0, row_counted = 0, row_previous = 0,
                 row_running = 0\<rparr>
      | Some r \<Rightarrow> r\<lparr>row_time := t, row_retry := None, row_backoff := 0, row_counted := 0,
                    row_previous := 0\<rparr>))"

definition update_row :: "string \<Rightarrow> (alarm_row \<Rightarrow> alarm_row) \<Rightarrow> alarm_table \<Rightarrow> alarm_table" where
  "update_row a f rows = rows(a := map_option f (rows a))"

definition stmt_mark_running :: "string \<Rightarrow> alarm_table \<Rightarrow> alarm_table" where
  "stmt_mark_running a = update_row a (\<lambda>r. r\<lparr>row_running := 1\<rparr>)"

definition stmt_save_retry ::
  "int \<Rightarrow> int \<Rightarrow> int \<Rightarrow> int \<Rightarrow> string \<Rightarrow> alarm_table \<Rightarrow> alarm_table" where
  "stmt_save_retry retry backoff counted previous a = update_row a (\<lambda>r. r\<lparr>row_retry := Some retry,
     row_backoff := backoff, row_counted := counted, row_previous := previous, row_running := 0\<rparr>)"

definition stmt_clear_running :: "string \<Rightarrow> alarm_table \<Rightarrow> alarm_table" where
  "stmt_clear_running a = update_row a (\<lambda>r. r\<lparr>row_running := 0\<rparr>)"

definition stmt_delete_alarm :: "string \<Rightarrow> alarm_table \<Rightarrow> alarm_table" where
  "stmt_delete_alarm a rows = rows(a := None)"

definition stmt_delete_all :: "alarm_table \<Rightarrow> alarm_table" where
  "stmt_delete_all rows = (\<lambda>_. None)"

text \<open>\<open>db.run\<close>: the statement takes effect, or is refused and leaves the table as it was.\<close>

definition db_run :: "(alarm_table \<Rightarrow> alarm_table) \<Rightarrow> unit sop" where
  "db_run f s =
     (let s1 = s\<lparr>sc_db_n := Suc (sc_db_n s)\<rparr>
      in if sc_db s (sc_db_n s) then (Inr (), s1\<lparr>sc_rows := f (sc_rows s)\<rparr>)
         else (Inl (Failure ''database''), s1))"

definition draw_jitter :: "int \<Rightarrow> int sop" where
  "draw_jitter delay s = (Inr (jitter_ms_for_delay delay (sc_random s (sc_random_n s))),
     s\<lparr>sc_random_n := Suc (sc_random_n s)\<rparr>)"

definition task_failed :: "js_exn \<Rightarrow> sched \<Rightarrow> sched" where
  "task_failed e s = (case sc_failure s of None \<Rightarrow> s\<lparr>sc_failure := Some e\<rparr> | Some _ \<Rightarrow> s)"

section \<open>The projected wake\<close>

definition earlier :: "int option \<Rightarrow> int option \<Rightarrow> int option" where
  "earlier earliest wake =
     (case (wake, earliest) of
        (None, _) \<Rightarrow> earliest
      | (Some w, None) \<Rightarrow> Some w
      | (Some w, Some e) \<Rightarrow> Some (if w < e then w else e))"

definition entry_wake :: "scheduled_alarm \<Rightarrow> int option" where
  "entry_wake e =
     (if ae_status e = STARTED then ae_queued e
      else (case ae_wake e of Some w \<Rightarrow> Some w | None \<Rightarrow> Some (ae_time e)))"

definition earliest_wake :: "sched \<Rightarrow> int option" where
  "earliest_wake s =
     fold (\<lambda>(_, e) acc. earlier acc (entry_wake (sc_entries s e))) (sc_alarms s)
       (fold (\<lambda>e acc. earlier acc (Some (ae_time (sc_entries s e)))) (sc_active s) None)"

definition project_next_wake :: "unit sop" where
  "project_next_wake s =
     (case sc_project s of
        None \<Rightarrow> (Inr (), s)
      | Some ok \<Rightarrow>
          (let k = length (sc_projected s);
               s1 = s\<lparr>sc_projected := sc_projected s @ [(earliest_wake s, length (sc_active s))]\<rparr>
           in if ok k then (Inr (), s1) else (Inl (Failure ''projectWake''), s1)))"

section \<open>Scheduling\<close>

text \<open>A call of \<open>makeAlarmTask\<close>, up to the first sleep.\<close>

definition make_alarm_task ::
  "int \<Rightarrow> nat \<Rightarrow> int \<Rightarrow> alarm_result option \<Rightarrow> int \<Rightarrow> sched \<Rightarrow> nat \<times> sched" where
  "make_alarm_task delay e time completed bookkeeping s =
     (sc_n_tasks s, s\<lparr>sc_tasks := (sc_tasks s)(sc_n_tasks s := \<lparr>at_entry = e, at_remaining = delay,
        at_time = time, at_completed = completed, at_bookkeeping = bookkeeping, at_phase = Sleeping\<rparr>),
        sc_n_tasks := Suc (sc_n_tasks s)\<rparr>)"

definition arm_task :: "int \<Rightarrow> nat \<Rightarrow> alarm_result option \<Rightarrow> int \<Rightarrow> sched \<Rightarrow> sched" where
  "arm_task delay e completed bookkeeping s =
     (let (n, s1) = make_alarm_task delay e (ae_time (sc_entries s e)) completed bookkeeping s
      in upd_entry e (\<lambda>x. x\<lparr>ae_task := Some n\<rparr>) s1)"

definition schedule_alarm ::
  "int \<Rightarrow> string \<Rightarrow> int \<Rightarrow> persisted_alarm option \<Rightarrow> sched \<Rightarrow> nat \<times> sched" where
  "schedule_alarm now a time resumed s =
     (let e = sc_n_entries s;
          wake = (case resumed of
                    None \<Rightarrow> time
                  | Some p \<Rightarrow> max time (case pa_retry p of None \<Rightarrow> time | Some r \<Rightarrow> r));
          entry = \<lparr>ae_actor = a, ae_time = time, ae_wake = Some wake, ae_task = None, ae_aborted = False,
            ae_queued = None, ae_status = WAITING,
            ae_previous = (case resumed of None \<Rightarrow> False | Some p \<Rightarrow> pa_previous p),
            ae_backoff = (case resumed of None \<Rightarrow> 0 | Some p \<Rightarrow> pa_backoff p),
            ae_counted = (case resumed of None \<Rightarrow> 0 | Some p \<Rightarrow> pa_counted p)\<rparr>;
          s1 = s\<lparr>sc_entries := (sc_entries s)(e := entry), sc_n_entries := Suc e\<rparr>
      in (e, arm_task (wake - now) e None 0 s1))"

definition set_entry :: "nat \<Rightarrow> sched \<Rightarrow> sched" where
  "set_entry e s = s\<lparr>sc_alarms := AList.update (ae_actor (sc_entries s e)) e (sc_alarms s)\<rparr>"

text \<open>\<open>this.#alarms.set(actorId, this.#scheduleAlarm(...))\<close> and \<open>this.#replace(entry, this.#scheduleAlarm(...))\<close>.\<close>

definition insert_alarm :: "string \<Rightarrow> int \<Rightarrow> persisted_alarm option \<Rightarrow> sched \<Rightarrow> sched" where
  "insert_alarm a time resumed s = (let (e, s1) = schedule_alarm (sc_now s) a time resumed s in set_entry e s1)"

definition replace_alarm :: "nat \<Rightarrow> string \<Rightarrow> int \<Rightarrow> sched \<Rightarrow> sched" where
  "replace_alarm previous a time s =
     (let (e, s1) = schedule_alarm (sc_now s) a time None s
      in set_entry e (upd_entry previous (\<lambda>x. x\<lparr>ae_aborted := True\<rparr>) s1))"

definition get_alarm :: "string \<Rightarrow> sched \<Rightarrow> int option" where
  "get_alarm a s =
     (case alarm_of s a of
        None \<Rightarrow> None
      | Some e \<Rightarrow> (let x = sc_entries s e
                   in if ae_status x = STARTED then ae_queued x else Some (ae_time x)))"

definition set_alarm :: "string \<Rightarrow> int \<Rightarrow> bool sop" where
  "set_alarm a time = op_bind (db_run (stmt_set_alarm a time)) (\<lambda>_. op_bind (op_modify (\<lambda>s.
     (case alarm_of s a of
        None \<Rightarrow> insert_alarm a time None s
      | Some e \<Rightarrow>
          (if ae_status (sc_entries s e) \<noteq> WAITING
           then upd_entry e (\<lambda>x. x\<lparr>ae_queued := Some time\<rparr>) s
           else replace_alarm e a time s))))
     (\<lambda>_. op_bind project_next_wake (\<lambda>_. op_return True)))"

definition delete_all :: "unit sop" where
  "delete_all = op_bind (db_run stmt_delete_all) (\<lambda>_. op_bind (op_modify (\<lambda>s.
     (fold (\<lambda>(_, e). upd_entry e (\<lambda>x. x\<lparr>ae_aborted := True\<rparr>)) (sc_alarms s) s)\<lparr>sc_alarms := []\<rparr>))
     (\<lambda>_. project_next_wake))"

definition delete_entry :: "string \<Rightarrow> sched \<Rightarrow> sched" where
  "delete_entry a s =
     (case alarm_of s a of
        None \<Rightarrow> s
      | Some e \<Rightarrow>
          (let x = sc_entries s e
           in case ae_queued x of
                Some q \<Rightarrow>
                  (if ae_status x = STARTED then upd_entry e (\<lambda>x. x\<lparr>ae_queued := None\<rparr>) s
                   else replace_alarm e a q s)
              | None \<Rightarrow>
                  (if ae_status x \<noteq> STARTED
                   then (upd_entry e (\<lambda>x. x\<lparr>ae_aborted := True\<rparr>) s)
                          \<lparr>sc_alarms := AList.delete a (sc_alarms s)\<rparr>
                   else s)))"

definition delete_alarm :: "string \<Rightarrow> bool sop" where
  "delete_alarm a s0 = op_bind (db_run (stmt_delete_alarm a)) (\<lambda>_. op_bind (op_modify (delete_entry a))
     (\<lambda>_. op_bind project_next_wake (\<lambda>_. op_return (sc_rows s0 a \<noteq> None)))) s0"

text \<open>\<open>hooks(actorId)\<close>: \<open>scheduleRun\<close> and \<open>reconcile\<close>.\<close>

definition schedule_run :: "string \<Rightarrow> int option \<Rightarrow> unit sop" where
  "schedule_run a t = op_bind (case t of Some time \<Rightarrow> set_alarm a time | None \<Rightarrow> delete_alarm a)
     (\<lambda>_. op_return ())"

definition reconcile_alarm :: "string \<Rightarrow> int \<Rightarrow> unit sop" where
  "reconcile_alarm a stored s =
     (case alarm_of s a of
        Some e \<Rightarrow>
          (if (case ae_queued (sc_entries s e) of Some q \<Rightarrow> q | None \<Rightarrow> ae_time (sc_entries s e)) \<le> stored
           then (Inr (), s) else op_bind (set_alarm a stored) (\<lambda>_. op_return ()) s)
      | None \<Rightarrow> op_bind (set_alarm a stored) (\<lambda>_. op_return ()) s)"

section \<open>Loading\<close>

definition require_range :: "int \<Rightarrow> int \<Rightarrow> js_exn + int" where
  "require_range v m =
     (if v < 0 \<or> m < v then Inl (Failure ''_cf_ALARM holds a state this scheduler cannot have written.'')
      else Inr v)"

definition read_persisted_alarm :: "alarm_row \<Rightarrow> js_exn + persisted_alarm" where
  "read_persisted_alarm r =
     (case require_range (row_backoff r) (RETRY_BACKOFF_MAX + 1) of Inl e \<Rightarrow> Inl e | Inr backoff \<Rightarrow>
     (case require_range (row_counted r) ALARM_RETRY_MAX_TRIES of Inl e \<Rightarrow> Inl e | Inr counted \<Rightarrow>
     (case require_range (row_previous r) 1 of Inl e \<Rightarrow> Inl e | Inr previous \<Rightarrow>
     (case require_range (row_running r) 1 of Inl e \<Rightarrow> Inl e | Inr running \<Rightarrow>
        Inr \<lparr>pa_retry = row_retry r, pa_backoff = backoff, pa_counted = counted,
             pa_previous = (previous = 1), pa_running = (running = 1)\<rparr>))))"

text \<open>A delay that may be refused, with its jitter.\<close>

definition retry_delay :: "int \<Rightarrow> int sop" where
  "retry_delay backoff s =
     (case alarm_retry_delay_ms backoff of
        Inl e \<Rightarrow> (Inl e, s)
      | Inr d \<Rightarrow> op_bind (draw_jitter d) (\<lambda>j. op_return (d + j)) s)"

definition recover_interrupted_delivery :: "string \<Rightarrow> persisted_alarm \<Rightarrow> persisted_alarm sop" where
  "recover_interrupted_delivery a p =
     (let backoff = min RETRY_BACKOFF_MAX (pa_backoff p)
      in op_bind (retry_delay backoff) (\<lambda>delay s.
           (let resumed = \<lparr>pa_retry = Some (sc_now s + delay), pa_backoff = backoff + 1,
                  pa_counted = pa_counted p, pa_previous = False, pa_running = False\<rparr>
            in op_bind (db_run (stmt_save_retry (sc_now s + delay) (backoff + 1) (pa_counted p) 0 a))
                 (\<lambda>_. op_return resumed) s)))"

fun load_alarms :: "(string \<times> alarm_row) list \<Rightarrow> unit sop" where
  "load_alarms [] = op_return ()"
| "load_alarms ((a, r) # raw) =
     (case read_persisted_alarm r of
        Inl e \<Rightarrow> op_throw e
      | Inr p \<Rightarrow> op_bind (if pa_running p then recover_interrupted_delivery a p else op_return p)
          (\<lambda>resumed. op_bind (op_modify (insert_alarm a (row_time r) (Some resumed)))
            (\<lambda>_. load_alarms raw)))"

text \<open>The constructor, on the rows of the table and the host's scripts.\<close>

definition new_sched :: "(string \<times> alarm_row) list \<Rightarrow> int \<Rightarrow> (nat \<Rightarrow> bool) \<Rightarrow> (nat \<Rightarrow> nat) \<Rightarrow>
    (nat \<Rightarrow> bool) option \<Rightarrow> (js_exn + unit) \<times> sched" where
  "new_sched raw now db random project =
     op_bind (load_alarms raw) (\<lambda>_. project_next_wake)
       \<lparr>sc_rows = map_of raw, sc_alarms = [],
        sc_entries = (\<lambda>_. \<lparr>ae_actor = [], ae_time = 0, ae_wake = None, ae_task = None, ae_aborted = True,
          ae_queued = None, ae_status = FINISHED, ae_previous = False, ae_backoff = 0, ae_counted = 0\<rparr>),
        sc_n_entries = 0,
        sc_tasks = (\<lambda>_. \<lparr>at_entry = 0, at_remaining = 0, at_time = 0, at_completed = None,
          at_bookkeeping = 0, at_phase = Ended\<rparr>),
        sc_n_tasks = 0, sc_active = [], sc_now = now, sc_failure = None, sc_db = db, sc_db_n = 0,
        sc_random = random, sc_random_n = 0, sc_project = project, sc_projected = [], sc_delivered = []\<rparr>"

section \<open>A run of makeAlarmTask\<close>

text \<open>The timer fires: one turn of \<open>checkTimestamp\<close>.\<close>

definition task_wake :: "nat \<Rightarrow> sched \<Rightarrow> sched" where
  "task_wake n s =
     (let t = sc_tasks s n
      in if ae_aborted (sc_entries s (at_entry t)) \<or> at_time t \<le> sc_now s then set_phase n Ready s
         else upd_task n (\<lambda>t. t\<lparr>at_remaining := at_time t - sc_now s\<rparr>) s)"

text \<open>
  The end of a slice. \<open>delivery_catch\<close> is the \<open>catch\<close> block, \<open>delivery_finally\<close> the \<open>finally\<close> block, and
  \<open>delivery_end\<close> runs the rest of the \<open>try\<close> block, which returns whether it is suspended on an
  abandonment. The run counts as ended from the moment it resumes until it is suspended again.
\<close>

definition delivery_catch :: "nat \<Rightarrow> alarm_result option \<Rightarrow> js_exn \<Rightarrow> sched \<Rightarrow> sched" where
  "delivery_catch n info x s =
     (let s1 = task_failed x s; t = sc_tasks s n; e = at_entry t
      in if alarm_of s1 (ae_actor (sc_entries s1 e)) \<noteq> Some e then s1
         else
           (let s2 = upd_entry e (\<lambda>y. y\<lparr>ae_status := (if info = None then WAITING else FINISHED)\<rparr>) s1;
                backoff = min RETRY_BACKOFF_MAX (at_bookkeeping t)
            in case retry_delay backoff s2 of
                 (Inl _, s3) \<Rightarrow> s3
               | (Inr delay, s3) \<Rightarrow> arm_task delay e info (backoff + 1) s3))"

definition delivery_finally :: "nat \<Rightarrow> sched \<Rightarrow> sched" where
  "delivery_finally n s =
     (let s1 = s\<lparr>sc_active := removeAll (at_entry (sc_tasks s n)) (sc_active s)\<rparr>
      in case project_next_wake s1 of (Inr _, s2) \<Rightarrow> s2 | (Inl x, s2) \<Rightarrow> task_failed x s2)"

definition delivery_end :: "nat \<Rightarrow> alarm_result \<Rightarrow> bool sop \<Rightarrow> sched \<Rightarrow> sched" where
  "delivery_end n info body s =
     (case body (set_phase n Ended s) of
        (Inr True, s1) \<Rightarrow> set_phase n (Abandoning info) s1
      | (Inr False, s1) \<Rightarrow> delivery_finally n s1
      | (Inl x, s1) \<Rightarrow> delivery_finally n (delivery_catch n (Some info) x s1))"

text \<open>The \<open>try\<close> block after the result is known, up to its \<open>await\<close> of \<open>#abandon\<close>.\<close>

definition retry_body :: "nat \<Rightarrow> alarm_result \<Rightarrow> bool sop" where
  "retry_body e info s =
     (let x = sc_entries s e;
          counted = ae_counted x + (if res_counts info then 1 else 0);
          backoff0 = (if res_counts info \<and> \<not> ae_previous x then 0 else ae_backoff x);
          backoff1 = min RETRY_BACKOFF_MAX backoff0
      in op_bind (retry_delay backoff1) (\<lambda>delay s1.
           (let retry = sc_now s1 + delay
            in op_bind (db_run (stmt_save_retry retry (backoff1 + 1) counted
                          (if res_counts info then 1 else 0) (ae_actor x)))
                 (\<lambda>_ s2. (Inr False, arm_task delay e None 0 (upd_entry e (\<lambda>x. x\<lparr>ae_backoff := backoff1 + 1,
                    ae_counted := counted, ae_previous := res_counts info, ae_wake := Some retry\<rparr>) s2))) s1)) s)"

definition delivery_body :: "nat \<Rightarrow> alarm_result \<Rightarrow> bool sop" where
  "delivery_body n info s =
     (let e = at_entry (sc_tasks s n); a = ae_actor (sc_entries s e)
      in if alarm_of s a \<noteq> Some e then (Inr False, s)
         else (case ae_task (sc_entries s e) of
             None \<Rightarrow> (Inl (Failure ''An alarm task ran before it was recorded.''), s)
           | Some _ \<Rightarrow>
               (let s1 = upd_entry e (\<lambda>x. x\<lparr>ae_task := None\<rparr>) s
                in case ae_queued (sc_entries s e) of
                     Some q \<Rightarrow> op_bind (db_run (stmt_clear_running a))
                       (\<lambda>_. op_bind (op_modify (replace_alarm e a q)) (\<lambda>_. op_return False)) s1
                   | None \<Rightarrow>
                       (let s2 = upd_entry e (\<lambda>x. x\<lparr>ae_status := FINISHED\<rparr>) s1
                        in if res_retry info
                           then (if ae_counted (sc_entries s2 e) \<ge> ALARM_RETRY_MAX_TRIES
                                 then (Inr True, s2) else retry_body e info s2)
                           else if res_outcome info = OutAborted then (Inr True, s2)
                           else op_bind (delete_alarm a) (\<lambda>_. op_return False) s2))))"

text \<open>The task is ready: the \<open>try\<close> block up to the delivery, or the bookkeeping of a completed one.\<close>

definition add_active :: "nat \<Rightarrow> sched \<Rightarrow> sched" where
  "add_active e s = s\<lparr>sc_active := (if e \<in> set (sc_active s) then sc_active s else sc_active s @ [e])\<rparr>"

definition task_begin :: "nat \<Rightarrow> sched \<Rightarrow> sched" where
  "task_begin n s =
     (let t = sc_tasks s n; e = at_entry t; a = ae_actor (sc_entries s e)
      in if alarm_of s a \<noteq> Some e then set_phase n Ended s
         else (case at_completed t of
             Some info \<Rightarrow>
               delivery_end n info (op_bind (op_modify (add_active e)) (\<lambda>_.
                 op_bind project_next_wake (\<lambda>_. delivery_body n info))) s
           | None \<Rightarrow>
               (case op_bind (db_run (stmt_mark_running a)) (\<lambda>_. op_bind (op_modify (\<lambda>s.
                       add_active e (upd_entry e (\<lambda>x. x\<lparr>ae_status := STARTED, ae_wake := None\<rparr>) s)))
                       (\<lambda>_. project_next_wake)) (set_phase n Ended s) of
                  (Inr _, s1) \<Rightarrow> set_phase n Delivering (s1\<lparr>sc_delivered := sc_delivered s1 @
                     [(a, at_time t, ae_counted (sc_entries s1 e), sc_now s1)]\<rparr>)
                | (Inl x, s1) \<Rightarrow> delivery_finally n (delivery_catch n None x s1))))"

text \<open>The delivery settles: \<open>runAlarmGuarded\<close>, then the rest.\<close>

definition guarded_result :: "js_exn + alarm_result \<Rightarrow> alarm_result" where
  "guarded_result r =
     (case r of
        Inr x \<Rightarrow> x\<lparr>res_retry := (res_outcome x \<noteq> OutOk \<and> res_retry x)\<rparr>
      | Inl _ \<Rightarrow> \<lparr>res_retry = True, res_counts = False, res_outcome = OutException\<rparr>)"

definition task_deliver :: "nat \<Rightarrow> js_exn + alarm_result \<Rightarrow> sched \<Rightarrow> sched" where
  "task_deliver n r s =
     delivery_end n (guarded_result r) (delivery_body n (guarded_result r))
       (case r of Inl x \<Rightarrow> task_failed x s | Inr _ \<Rightarrow> s)"

text \<open>\<open>abandonAlarm\<close> settles: the rest of \<open>#abandon\<close>.\<close>

definition abandon_rest :: "nat \<Rightarrow> int option \<Rightarrow> bool sop" where
  "abandon_rest n newer s =
     (let e = at_entry (sc_tasks s n); a = ae_actor (sc_entries s e)
      in if alarm_of s a \<noteq> Some e then (Inr False, s)
         else op_bind
           (case newer of
              Some t \<Rightarrow> (if ae_queued (sc_entries s e) = None
                         then op_bind (set_alarm a t) (\<lambda>_. op_return ()) else op_return ())
            | None \<Rightarrow> op_return ())
           (\<lambda>_ s1. (case ae_queued (sc_entries s1 e) of
                      Some q \<Rightarrow> op_bind (db_run (stmt_clear_running a))
                        (\<lambda>_. op_bind (op_modify (replace_alarm e a q)) (\<lambda>_. op_return False)) s1
                    | None \<Rightarrow> op_bind (delete_alarm a) (\<lambda>_. op_return False) s1)) s)"

definition task_abandoned :: "nat \<Rightarrow> js_exn + int option \<Rightarrow> sched \<Rightarrow> sched" where
  "task_abandoned n r s =
     (case at_phase (sc_tasks s n) of
        Abandoning info \<Rightarrow>
          delivery_end n info (case r of Inl x \<Rightarrow> op_throw x | Inr newer \<Rightarrow> abandon_rest n newer) s
      | _ \<Rightarrow> s)"

end
