(* ===== verification/Alarm_Scheduler_Inv.thy ===== *)
theory Alarm_Scheduler_Inv
  imports Alarm_Scheduler
begin

text \<open>
  The invariant of the alarm scheduler and its preservation by every operation and by every slice of
  a task. \<open>owned X\<close> says that each live entry is owned by exactly one unfinished task, in the phase its
  status calls for; the entries in \<open>X\<close> are those whose task is being run and has none for the moment.
  \<open>rows_sched A\<close> says that each durable row outside \<open>A\<close> is scheduled in memory for its time.
\<close>

section \<open>The invariant\<close>

definition owner :: "sched \<Rightarrow> nat \<Rightarrow> nat \<Rightarrow> bool" where
  "owner s e n \<longleftrightarrow> n < sc_n_tasks s \<and> at_entry (sc_tasks s n) = e \<and> at_phase (sc_tasks s n) \<noteq> Ended"

definition matched :: "sched \<Rightarrow> nat \<Rightarrow> nat \<Rightarrow> bool" where
  "matched s e n \<longleftrightarrow>
     (case at_phase (sc_tasks s n) of
        Sleeping \<Rightarrow> ae_task (sc_entries s e) = Some n \<and> ae_status (sc_entries s e) \<noteq> STARTED
      | Ready \<Rightarrow> ae_task (sc_entries s e) = Some n \<and> ae_status (sc_entries s e) \<noteq> STARTED
      | Delivering \<Rightarrow> ae_task (sc_entries s e) = Some n \<and> ae_status (sc_entries s e) = STARTED
      | Abandoning _ \<Rightarrow> ae_status (sc_entries s e) = FINISHED
      | Ended \<Rightarrow> False)"

definition sole_owner :: "sched \<Rightarrow> nat \<Rightarrow> nat \<Rightarrow> bool" where
  "sole_owner s e n \<longleftrightarrow> owner s e n \<and> matched s e n \<and> (\<forall>m. owner s e m \<longrightarrow> m = n)"

definition owned :: "nat set \<Rightarrow> sched \<Rightarrow> bool" where
  "owned X s \<longleftrightarrow> (\<forall>a e. alarm_of s a = Some e \<longrightarrow>
     (if e \<in> X then \<forall>n. \<not> owner s e n
      else \<exists>n. sole_owner s e n))"

definition ids :: "sched \<Rightarrow> bool" where
  "ids s \<longleftrightarrow>
     (\<forall>a e. alarm_of s a = Some e \<longrightarrow> e < sc_n_entries s \<and> ae_actor (sc_entries s e) = a \<and>
        \<not> ae_aborted (sc_entries s e)) \<and>
     (\<forall>n < sc_n_tasks s. at_entry (sc_tasks s n) < sc_n_entries s \<and>
        at_time (sc_tasks s n) = ae_time (sc_entries s (at_entry (sc_tasks s n))))"

definition on_time :: "sched \<Rightarrow> bool" where
  "on_time s \<longleftrightarrow>
     (\<forall>n < sc_n_tasks s. at_phase (sc_tasks s n) = Ready \<longrightarrow>
        ae_aborted (sc_entries s (at_entry (sc_tasks s n))) \<or> at_time (sc_tasks s n) \<le> sc_now s) \<and>
     (\<forall>(a, t, k, now) \<in> set (sc_delivered s). t \<le> now)"

definition row_ok :: "alarm_row \<Rightarrow> bool" where
  "row_ok r \<longleftrightarrow> 0 \<le> row_backoff r \<and> row_backoff r \<le> 10 \<and> 0 \<le> row_counted r \<and> row_counted r \<le> 6 \<and>
     0 \<le> row_previous r \<and> row_previous r \<le> 1 \<and> 0 \<le> row_running r \<and> row_running r \<le> 1"

definition entry_ok :: "scheduled_alarm \<Rightarrow> bool" where
  "entry_ok x \<longleftrightarrow> 0 \<le> ae_backoff x \<and> ae_backoff x \<le> 10 \<and> 0 \<le> ae_counted x \<and> ae_counted x \<le> 6"

definition ranges :: "sched \<Rightarrow> bool" where
  "ranges s \<longleftrightarrow> (\<forall>e < sc_n_entries s. entry_ok (sc_entries s e)) \<and>
     (\<forall>n < sc_n_tasks s. 0 \<le> at_bookkeeping (sc_tasks s n)) \<and>
     (\<forall>a r. sc_rows s a = Some r \<longrightarrow> row_ok r)"

definition due :: "scheduled_alarm \<Rightarrow> int" where
  "due x = (case ae_queued x of Some q \<Rightarrow> q | None \<Rightarrow> ae_time x)"

definition rows_sched :: "string set \<Rightarrow> sched \<Rightarrow> bool" where
  "rows_sched A s \<longleftrightarrow> (\<forall>a r. sc_rows s a = Some r \<longrightarrow> a \<notin> A \<longrightarrow>
     (\<exists>e. alarm_of s a = Some e \<and> row_time r = due (sc_entries s e)))"

definition J :: "string set \<Rightarrow> nat set \<Rightarrow> sched \<Rightarrow> bool" where
  "J A X s \<longleftrightarrow> ids s \<and> on_time s \<and> owned X s \<and> ranges s \<and> rows_sched A s"

lemma JD:
  assumes "J A X s"
  shows "ids s" "on_time s" "owned X s" "ranges s" "rows_sched A s"
  using assms by (simp_all add: J_def)

section \<open>Changes the invariant does not see\<close>

text \<open>The parts of the state the invariant is about.\<close>

definition view :: "sched \<Rightarrow> _" where
  "view s = (sc_rows s, sc_alarms s, sc_entries s, sc_n_entries s, sc_tasks s, sc_n_tasks s, sc_now s,
     sc_delivered s)"

lemma viewD:
  assumes "view s = view t"
  shows "sc_rows s = sc_rows t" "sc_alarms s = sc_alarms t" "sc_entries s = sc_entries t"
    "sc_n_entries s = sc_n_entries t" "sc_tasks s = sc_tasks t" "sc_n_tasks s = sc_n_tasks t"
    "sc_now s = sc_now t" "sc_delivered s = sc_delivered t"
  using assms by (simp_all add: view_def)

text \<open>Each part of the invariant reads some of the fields.\<close>

lemma owner_cong: "sc_tasks s = sc_tasks t \<Longrightarrow> sc_n_tasks s = sc_n_tasks t \<Longrightarrow> owner s = owner t"
  by (intro ext) (simp add: owner_def)

lemma matched_cong: "sc_tasks s = sc_tasks t \<Longrightarrow> sc_entries s = sc_entries t \<Longrightarrow> matched s = matched t"
  by (intro ext) (simp add: matched_def cong: task_phase.case_cong)

lemma owned_cong:
  assumes "sc_tasks s = sc_tasks t" "sc_n_tasks s = sc_n_tasks t" "sc_entries s = sc_entries t"
    "sc_alarms s = sc_alarms t"
  shows "owned X s = owned X t"
proof -
  have "owner s = owner t" "matched s = matched t"
    using assms by (auto intro: owner_cong matched_cong)
  moreover from this have "sole_owner s = sole_owner t" by (intro ext) (simp add: sole_owner_def)
  ultimately show ?thesis using assms(3,4) by (simp add: owned_def)
qed

lemma ids_cong: "sc_tasks s = sc_tasks t \<Longrightarrow> sc_n_tasks s = sc_n_tasks t \<Longrightarrow> sc_entries s = sc_entries t \<Longrightarrow>
   sc_n_entries s = sc_n_entries t \<Longrightarrow> sc_alarms s = sc_alarms t \<Longrightarrow> ids s = ids t"
  by (simp add: ids_def)

lemma on_time_cong: "sc_tasks s = sc_tasks t \<Longrightarrow> sc_n_tasks s = sc_n_tasks t \<Longrightarrow> sc_entries s = sc_entries t \<Longrightarrow>
   sc_now s = sc_now t \<Longrightarrow> sc_delivered s = sc_delivered t \<Longrightarrow> on_time s = on_time t"
  by (simp add: on_time_def)

lemma J_view: "view s = view t \<Longrightarrow> J A X s = J A X t"
  using viewD [of s t] owned_cong [of s t] ids_cong [of s t] on_time_cong [of s t]
  by (simp add: J_def ranges_def rows_sched_def)

lemma J_mono: "J A X s \<Longrightarrow> A \<subseteq> B \<Longrightarrow> J B X s"
  unfolding J_def rows_sched_def by blast

lemma task_failed_view [simp]: "view (task_failed x s) = view s"
  by (simp add: task_failed_def view_def split: option.split)

lemma project_view: "project_next_wake s = (r, t) \<Longrightarrow> view t = view s"
  by (auto simp: project_next_wake_def view_def Let_def split: option.splits if_splits)

lemma active_view [simp]: "view (add_active e s) = view s" "view (s\<lparr>sc_active := xs\<rparr>) = view s"
  by (simp_all add: add_active_def view_def)

lemma retry_delay_view: "retry_delay b s = (r, t) \<Longrightarrow> view t = view s"
  by (auto simp: retry_delay_def draw_jitter_def op_bind_def op_return_def view_def split: sum.splits)

lemma retry_delay_ok:
  assumes "0 \<le> b" "b \<le> 9"
  shows "\<exists>d t. retry_delay b s = (Inr d, t)"
  using assms by (simp add: retry_delay_def alarm_retry_delay_ms_def RETRY_BACKOFF_MAX_def
      draw_jitter_def op_bind_def op_return_def)

text \<open>A statement is refused, or changes the rows and nothing else.\<close>

lemma db_run_cases:
  obtains (refused) t where "db_run f s = (Inl (Failure ''database''), t)" "view t = view s"
    | (applied) t where "db_run f s = (Inr (), t)" "view t = view (s\<lparr>sc_rows := f (sc_rows s)\<rparr>)"
  by (cases "sc_db s (sc_db_n s)") (auto simp: db_run_def view_def Let_def)

lemma J_rows:
  assumes "J A X s" "\<And>a r. f a = Some r \<Longrightarrow> row_ok r"
    "\<And>a r. f a = Some r \<Longrightarrow> a \<notin> B \<Longrightarrow> a \<notin> A \<and> (\<exists>r'. sc_rows s a = Some r' \<and> row_time r = row_time r')"
  shows "J B X (s\<lparr>sc_rows := f\<rparr>)"
proof -
  have "rows_sched B (s\<lparr>sc_rows := f\<rparr>)"
    unfolding rows_sched_def
  proof (intro allI impI)
    fix a r assume "sc_rows (s\<lparr>sc_rows := f\<rparr>) a = Some r" "a \<notin> B"
    then obtain r' where "a \<notin> A" "sc_rows s a = Some r'" "row_time r = row_time r'"
      using assms(3) by auto
    then show "\<exists>e. alarm_of (s\<lparr>sc_rows := f\<rparr>) a = Some e \<and> row_time r = due (sc_entries (s\<lparr>sc_rows := f\<rparr>) e)"
      using assms(1) by (auto simp: J_def rows_sched_def)
  qed
  then show ?thesis
    using assms(1,2) owned_cong [of s "s\<lparr>sc_rows := f\<rparr>"] ids_cong [of s "s\<lparr>sc_rows := f\<rparr>"]
      on_time_cong [of s "s\<lparr>sc_rows := f\<rparr>"]
    by (simp add: J_def ranges_def)
qed

text \<open>The statements that keep every row's time.\<close>

lemma J_update_row:
  assumes "J A X s" "\<And>r. row_ok r \<Longrightarrow> row_ok (f r) \<and> row_time (f r) = row_time r"
  shows "J A X (s\<lparr>sc_rows := update_row a f (sc_rows s)\<rparr>)"
proof (rule J_rows [OF assms(1)])
  have ok: "\<And>b r. sc_rows s b = Some r \<Longrightarrow> row_ok r" using assms(1) by (simp add: J_def ranges_def)
  fix b r
  assume b: "update_row a f (sc_rows s) b = Some r"
  with ok assms(2) show "row_ok r" by (auto simp: update_row_def split: if_splits)
  show "b \<notin> A \<Longrightarrow> b \<notin> A \<and> (\<exists>r'. sc_rows s b = Some r' \<and> row_time r = row_time r')"
    using b ok assms(2) by (auto simp: update_row_def split: if_splits)
qed

lemma J_clear_running: "J A X s \<Longrightarrow> J A X (s\<lparr>sc_rows := stmt_clear_running a (sc_rows s)\<rparr>)"
  unfolding stmt_clear_running_def by (rule J_update_row) (simp_all add: row_ok_def)

lemma J_mark_running: "J A X s \<Longrightarrow> J A X (s\<lparr>sc_rows := stmt_mark_running a (sc_rows s)\<rparr>)"
  unfolding stmt_mark_running_def by (rule J_update_row) (simp_all add: row_ok_def)

lemma J_save_retry:
  "J A X s \<Longrightarrow> 0 \<le> b \<Longrightarrow> b \<le> 10 \<Longrightarrow> 0 \<le> c \<Longrightarrow> c \<le> 6 \<Longrightarrow> 0 \<le> p \<Longrightarrow> p \<le> 1 \<Longrightarrow>
   J A X (s\<lparr>sc_rows := stmt_save_retry t b c p a (sc_rows s)\<rparr>)"
  unfolding stmt_save_retry_def by (rule J_update_row) (simp_all add: row_ok_def)

lemma J_set_row:
  assumes "J A X s"
  shows "J (insert a A) X (s\<lparr>sc_rows := stmt_set_alarm a t (sc_rows s)\<rparr>)"
proof (rule J_rows [OF assms])
  fix b r assume b: "stmt_set_alarm a t (sc_rows s) b = Some r"
  have ok: "\<And>b r. sc_rows s b = Some r \<Longrightarrow> row_ok r" using assms by (simp add: J_def ranges_def)
  with b show "row_ok r" by (auto simp: stmt_set_alarm_def row_ok_def split: if_splits option.splits)
  show "b \<notin> insert a A \<Longrightarrow> b \<notin> A \<and> (\<exists>r'. sc_rows s b = Some r' \<and> row_time r = row_time r')"
    using b by (auto simp: stmt_set_alarm_def)
qed

lemma stmt_set_alarm_time: "stmt_set_alarm a t rows a = Some r \<Longrightarrow> row_time r = t"
  by (auto simp: stmt_set_alarm_def split: option.splits)

lemma J_delete_row: "J A X s \<Longrightarrow> J A X (s\<lparr>sc_rows := stmt_delete_alarm a (sc_rows s)\<rparr>)"
  by (rule J_rows) (auto simp: stmt_delete_alarm_def J_def ranges_def split: if_splits)

section \<open>Entries and tasks\<close>

lemma upd_simps [simp]:
  "sc_entries (upd_entry e f s) k = (if k = e then f (sc_entries s e) else sc_entries s k)"
  "sc_tasks (upd_entry e f s) = sc_tasks s" "sc_n_tasks (upd_entry e f s) = sc_n_tasks s"
  "sc_n_entries (upd_entry e f s) = sc_n_entries s" "sc_alarms (upd_entry e f s) = sc_alarms s"
  "sc_rows (upd_entry e f s) = sc_rows s" "sc_now (upd_entry e f s) = sc_now s"
  "sc_delivered (upd_entry e f s) = sc_delivered s"
  "at_entry (sc_tasks (set_phase n p s) k) = at_entry (sc_tasks s k)"
  "at_time (sc_tasks (set_phase n p s) k) = at_time (sc_tasks s k)"
  "at_completed (sc_tasks (set_phase n p s) k) = at_completed (sc_tasks s k)"
  "at_bookkeeping (sc_tasks (set_phase n p s) k) = at_bookkeeping (sc_tasks s k)"
  "at_phase (sc_tasks (set_phase n p s) k) = (if k = n then p else at_phase (sc_tasks s k))"
  "sc_entries (set_phase n p s) = sc_entries s" "sc_n_tasks (set_phase n p s) = sc_n_tasks s"
  "sc_n_entries (set_phase n p s) = sc_n_entries s" "sc_alarms (set_phase n p s) = sc_alarms s"
  "sc_rows (set_phase n p s) = sc_rows s" "sc_now (set_phase n p s) = sc_now s"
  "sc_delivered (set_phase n p s) = sc_delivered s"
  by (simp_all add: upd_entry_def set_phase_def upd_task_def)

lemma live_unique: "ids s \<Longrightarrow> alarm_of s a = Some e \<Longrightarrow> alarm_of s b = Some e \<Longrightarrow> a = b"
  unfolding ids_def by metis

lemma liveD:
  assumes "ids s" "alarm_of s a = Some e"
  shows "e < sc_n_entries s" "ae_actor (sc_entries s e) = a" "\<not> ae_aborted (sc_entries s e)"
    "\<And>b. alarm_of s b = Some e \<Longrightarrow> b = a"
  using assms live_unique [OF assms(1)] unfolding ids_def by blast+

text \<open>
  Changing an entry whose fields the tasks are matched against stay, or that is not live or has no
  task at the moment.
\<close>

lemma J_upd_entry:
  assumes J: "J A X s" and f: "ae_actor (f x) = ae_actor x" "ae_time (f x) = ae_time x"
      "entry_ok x \<Longrightarrow> entry_ok (f x)" "ae_aborted x \<Longrightarrow> ae_aborted (f x)"
    and x: "x = sc_entries s e"
    and live: "\<And>a. alarm_of s a = Some e \<Longrightarrow>
      ae_aborted (f x) = ae_aborted x \<and>
      (e \<in> X \<or> ae_status (f x) = ae_status x \<and> ae_task (f x) = ae_task x) \<and>
      (a \<in> A \<or> sc_rows s a = None \<or> due (f x) = due x)"
  shows "J A X (upd_entry e f s)"
proof -
  let ?t = "upd_entry e f s"
  have ow: "owner ?t = owner s" by (rule owner_cong) simp_all
  have ids: "ids ?t" using JD(1) [OF J] live f(1,2) x by (auto simp: ids_def)
  moreover have "on_time ?t" using JD(2) [OF J] f(4) x by (auto simp: on_time_def)
  moreover have "owned X ?t"
    unfolding owned_def
  proof (intro allI impI)
    fix a k assume a: "alarm_of ?t a = Some k"
    then have a': "alarm_of s a = Some k" by simp
    have o: "if k \<in> X then \<forall>n. \<not> owner s k n
        else \<exists>n. sole_owner s k n"
      using JD(3) [OF J] a' by (simp add: owned_def)
    show "if k \<in> X then \<forall>n. \<not> owner ?t k n
        else \<exists>n. sole_owner ?t k n"
    proof (cases "k \<in> X")
      case True
      with o live [of a] a' x show ?thesis by (auto simp: ow)
    next
      case False
      then obtain n where n: "sole_owner s k n" using o by auto
      have "matched ?t k n = matched s k n"
        using False live [of a] a' x by (auto simp: matched_def split: task_phase.split)
      with n False show ?thesis unfolding sole_owner_def ow by auto
    qed
  qed
  moreover have "ranges ?t" using JD(4) [OF J] f(3) x by (auto simp: ranges_def)
  moreover have "rows_sched A ?t"
    unfolding rows_sched_def
  proof (intro allI impI)
    fix a r assume r: "sc_rows ?t a = Some r" "a \<notin> A"
    then obtain k where k: "alarm_of s a = Some k" "row_time r = due (sc_entries s k)"
      using JD(5) [OF J] by (auto simp: rows_sched_def)
    then have "row_time r = due (sc_entries ?t k)" using live [of a] r x by auto
    with k show "\<exists>e. alarm_of ?t a = Some e \<and> row_time r = due (sc_entries ?t e)" by auto
  qed
  ultimately show ?thesis by (simp add: J_def)
qed

lemma arm_task_simps [simp]:
  "sc_alarms (arm_task d e c b s) = sc_alarms s" "sc_n_entries (arm_task d e c b s) = sc_n_entries s"
  "sc_rows (arm_task d e c b s) = sc_rows s" "sc_now (arm_task d e c b s) = sc_now s"
  "sc_delivered (arm_task d e c b s) = sc_delivered s"
  "sc_n_tasks (arm_task d e c b s) = Suc (sc_n_tasks s)"
  "sc_entries (arm_task d e c b s) k =
     (if k = e then (sc_entries s e)\<lparr>ae_task := Some (sc_n_tasks s)\<rparr> else sc_entries s k)"
  "sc_tasks (arm_task d e c b s) k = (if k = sc_n_tasks s
     then \<lparr>at_entry = e, at_remaining = d, at_time = ae_time (sc_entries s e), at_completed = c,
           at_bookkeeping = b, at_phase = Sleeping\<rparr> else sc_tasks s k)"
  by (simp_all add: arm_task_def make_alarm_task_def upd_entry_def)

text \<open>Arming the task of an entry that has none at the moment.\<close>

lemma J_arm_task:
  assumes J: "J A (insert e X) s" and e: "e < sc_n_entries s" "ae_status (sc_entries s e) \<noteq> STARTED"
    and b: "0 \<le> b" and eX: "e \<notin> X"
  shows "J A X (arm_task d e c b s)"
proof -
  let ?t = "arm_task d e c b s" and ?n = "sc_n_tasks s"
  have idn: "\<And>n. n < ?n \<Longrightarrow> at_entry (sc_tasks s n) < sc_n_entries s \<and>
      at_time (sc_tasks s n) = ae_time (sc_entries s (at_entry (sc_tasks s n)))"
    using JD(1) [OF J] by (auto simp: ids_def)
  have "ids ?t" using JD(1) [OF J] e by (auto simp: ids_def less_Suc_eq)
  moreover have "on_time ?t" using JD(2) [OF J] by (auto simp: on_time_def less_Suc_eq)
  moreover have "owned X ?t"
    unfolding owned_def
  proof (intro allI impI)
    fix a k assume "alarm_of ?t a = Some k"
    then have a: "alarm_of s a = Some k" by simp
    have o: "if k \<in> insert e X then \<forall>n. \<not> owner s k n
        else \<exists>n. sole_owner s k n"
      using JD(3) [OF J] a by (simp add: owned_def)
    show "if k \<in> X then \<forall>n. \<not> owner ?t k n
        else \<exists>n. sole_owner ?t k n"
    proof (cases "k = e")
      case True
      with o have none: "\<And>n. \<not> owner s e n" by simp
      have "sole_owner ?t e ?n"
        unfolding sole_owner_def
      proof (intro conjI allI impI)
        fix m assume "owner ?t e m"
        with none [of m] show "m = ?n" by (auto simp: owner_def split: if_splits)
      qed (use e in \<open>simp_all add: owner_def matched_def\<close>)
      with True eX show ?thesis by auto
    next
      case False
      have ow: "owner ?t k m = owner s k m" for m using False by (auto simp: owner_def)
      show ?thesis
      proof (cases "k \<in> X")
        case True
        with o ow False show ?thesis by auto
      next
        case kX: False
        then obtain n where n: "sole_owner s k n" using o False by auto
        then have "n < ?n" by (simp add: sole_owner_def owner_def)
        then have "matched ?t k n = matched s k n" using False by (simp add: matched_def cong: task_phase.case_cong)
        with n kX show ?thesis unfolding sole_owner_def ow by auto
      qed
    qed
  qed
  moreover have "ranges ?t" using JD(4) [OF J] b by (auto simp: ranges_def entry_ok_def less_Suc_eq)
  moreover have "rows_sched A ?t" 
  proof -
    have "due (sc_entries ?t k) = due (sc_entries s k)" for k
      by (cases "k = e") (simp_all add: due_def cong: option.case_cong)
    then show ?thesis using JD(5) [OF J] unfolding rows_sched_def by simp
  qed
  ultimately show ?thesis by (simp add: J_def)
qed

text \<open>An entry that is not live may be counted among those being run, or not.\<close>

lemma J_dead:
  assumes "\<And>a. alarm_of s a \<noteq> Some e"
  shows "J A (insert e X) s = J A X s"
proof -
  have "owned (insert e X) s = owned X s"
    unfolding owned_def using assms by (metis insert_iff)
  then show ?thesis by (simp add: J_def)
qed

section \<open>Installing an entry\<close>

definition persisted_ok :: "persisted_alarm option \<Rightarrow> bool" where
  "persisted_ok p \<longleftrightarrow> (case p of None \<Rightarrow> True
     | Some p \<Rightarrow> 0 \<le> pa_backoff p \<and> pa_backoff p \<le> 10 \<and> 0 \<le> pa_counted p \<and> pa_counted p \<le> 6)"

definition fresh_entry :: "string \<Rightarrow> int \<Rightarrow> persisted_alarm option \<Rightarrow> scheduled_alarm" where
  "fresh_entry a time resumed = \<lparr>ae_actor = a, ae_time = time,
     ae_wake = Some (case resumed of None \<Rightarrow> time
        | Some p \<Rightarrow> max time (case pa_retry p of None \<Rightarrow> time | Some r \<Rightarrow> r)),
     ae_task = None, ae_aborted = False, ae_queued = None, ae_status = WAITING,
     ae_previous = (case resumed of None \<Rightarrow> False | Some p \<Rightarrow> pa_previous p),
     ae_backoff = (case resumed of None \<Rightarrow> 0 | Some p \<Rightarrow> pa_backoff p),
     ae_counted = (case resumed of None \<Rightarrow> 0 | Some p \<Rightarrow> pa_counted p)\<rparr>"

text \<open>The entry exists, mapped, with no task yet.\<close>

definition mapped :: "string \<Rightarrow> int \<Rightarrow> persisted_alarm option \<Rightarrow> sched \<Rightarrow> sched" where
  "mapped a time resumed s = s\<lparr>sc_entries := (sc_entries s)(sc_n_entries s := fresh_entry a time resumed),
     sc_n_entries := Suc (sc_n_entries s), sc_alarms := AList.update a (sc_n_entries s) (sc_alarms s)\<rparr>"

lemma insert_alarm_eq:
  "insert_alarm a time resumed s = arm_task
     (the (ae_wake (fresh_entry a time resumed)) - sc_now s) (sc_n_entries s) None 0 (mapped a time resumed s)"
  by (simp add: insert_alarm_def schedule_alarm_def set_entry_def arm_task_def make_alarm_task_def
      upd_entry_def mapped_def fresh_entry_def Let_def)

lemma replace_alarm_eq:
  "p \<noteq> sc_n_entries s \<Longrightarrow>
   replace_alarm p a time s = upd_entry p (\<lambda>x. x\<lparr>ae_aborted := True\<rparr>) (insert_alarm a time None s)"
  by (simp add: replace_alarm_def insert_alarm_def schedule_alarm_def set_entry_def arm_task_def
      make_alarm_task_def upd_entry_def Let_def fun_eq_iff)

lemma mapped_simps [simp]:
  "sc_entries (mapped a time p s) k = (if k = sc_n_entries s then fresh_entry a time p else sc_entries s k)"
  "sc_n_entries (mapped a time p s) = Suc (sc_n_entries s)" "sc_tasks (mapped a time p s) = sc_tasks s"
  "sc_n_tasks (mapped a time p s) = sc_n_tasks s" "sc_rows (mapped a time p s) = sc_rows s"
  "sc_now (mapped a time p s) = sc_now s" "sc_delivered (mapped a time p s) = sc_delivered s"
  "alarm_of (mapped a time p s) b = (if b = a then Some (sc_n_entries s) else alarm_of s b)"
  by (simp_all add: mapped_def update_conv')

lemma insert_alarm_simps [simp]:
  "sc_n_entries (insert_alarm a time p s) = Suc (sc_n_entries s)"
  "sc_rows (insert_alarm a time p s) = sc_rows s" "sc_now (insert_alarm a time p s) = sc_now s"
  "alarm_of (insert_alarm a time p s) b = (if b = a then Some (sc_n_entries s) else alarm_of s b)"
  "k < sc_n_entries s \<Longrightarrow> sc_entries (insert_alarm a time p s) k = sc_entries s k"
  "k < sc_n_tasks s \<Longrightarrow> sc_tasks (insert_alarm a time p s) k = sc_tasks s k"
  "sc_n_tasks (insert_alarm a time p s) = Suc (sc_n_tasks s)"
  by (simp_all add: insert_alarm_eq)

lemma J_insert:
  assumes J: "J A X s" and p: "persisted_ok p"
    and row: "\<And>r. sc_rows s a = Some r \<Longrightarrow> row_time r = time"
    and X: "\<And>e. e \<in> X \<Longrightarrow> e < sc_n_entries s"
  shows "J (A - {a}) X (insert_alarm a time p s)"
proof -
  let ?t = "mapped a time p s" and ?e = "sc_n_entries s"
  have ent: "at_entry (sc_tasks s n) < ?e" if "n < sc_n_tasks s" for n
    using JD(1) [OF J] that by (auto simp: ids_def)
  have eX: "?e \<notin> X" using X by blast
  have live: "k < ?e" if "alarm_of s b = Some k" for b k using JD(1) [OF J] that by (auto simp: ids_def)
  have "ids ?t" using JD(1) [OF J] ent by (fastforce simp: ids_def fresh_entry_def)
  moreover have "on_time ?t" using JD(2) [OF J] ent by (fastforce simp: on_time_def)
  moreover have "owned (insert ?e X) ?t"
    unfolding owned_def
  proof (intro allI impI)
    fix b k assume b: "alarm_of ?t b = Some k"
    have ow: "owner ?t = owner s" by (rule owner_cong) simp_all
    show "if k \<in> insert ?e X then \<forall>n. \<not> owner ?t k n else \<exists>n. sole_owner ?t k n"
    proof (cases "k = ?e")
      case True
      have "\<not> owner s ?e n" for n using ent [of n] by (auto simp: owner_def)
      with True show ?thesis by (simp add: ow)
    next
      case False
      with b have k: "alarm_of s b = Some k" by (auto split: if_splits)
      have "matched ?t k n = matched s k n" for n
        using False by (simp add: matched_def cong: task_phase.case_cong)
      then have "sole_owner ?t k n = sole_owner s k n" for n by (simp add: sole_owner_def ow)
      then show ?thesis
        using JD(3) [OF J, unfolded owned_def, rule_format, OF k] False by (auto simp: ow)
    qed
  qed
  moreover have "ranges ?t"
    using JD(4) [OF J] p by (auto simp: ranges_def fresh_entry_def entry_ok_def persisted_ok_def
        split: option.splits)
  moreover have "rows_sched (A - {a}) ?t"
    unfolding rows_sched_def
  proof (intro allI impI)
    fix b r assume r: "sc_rows ?t b = Some r" "b \<notin> A - {a}"
    show "\<exists>k. alarm_of ?t b = Some k \<and> row_time r = due (sc_entries ?t k)"
    proof (cases "b = a")
      case True
      then show ?thesis using row [of r] r by (auto simp: due_def fresh_entry_def)
    next
      case False
      then obtain k where k: "alarm_of s b = Some k" "row_time r = due (sc_entries s k)"
        using JD(5) [OF J] r by (auto simp: rows_sched_def)
      then have "k \<noteq> ?e" using live by fastforce
      with k False show ?thesis by auto
    qed
  qed
  ultimately have "J (A - {a}) (insert ?e X) ?t" by (simp add: J_def)
  then show ?thesis unfolding insert_alarm_eq
    by (rule J_arm_task) (simp_all add: eX fresh_entry_def)
qed

lemma J_abort:
  assumes "J A X s" "\<And>a. alarm_of s a \<noteq> Some e"
  shows "J A X (upd_entry e (\<lambda>x. x\<lparr>ae_aborted := True\<rparr>) s)"
  by (rule J_upd_entry [OF assms(1)]) (use assms(2) in \<open>auto simp: entry_ok_def\<close>)

lemma J_replace:
  assumes J: "J A X s" and e: "alarm_of s a = Some e"
    and row: "\<And>r. sc_rows s a = Some r \<Longrightarrow> row_time r = time"
    and X: "\<And>e. e \<in> X \<Longrightarrow> e < sc_n_entries s"
  shows "J (A - {a}) X (replace_alarm e a time s) \<and> (\<forall>b. alarm_of (replace_alarm e a time s) b \<noteq> Some e)"
proof -
  note lt = liveD(1) [OF JD(1) [OF J] e] and uniq = liveD(4) [OF JD(1) [OF J] e]
  let ?i = "insert_alarm a time None s"
  have "J (A - {a}) X ?i" by (rule J_insert [OF J _ row X]) (simp_all add: persisted_ok_def)
  moreover have none: "alarm_of ?i b \<noteq> Some e" for b using uniq [of b] lt by auto
  ultimately show ?thesis using J_abort [of "A - {a}" X ?i e] lt by (simp add: replace_alarm_eq)
qed

section \<open>What tasks and entries keep\<close>

text \<open>Tasks already made and entries' actors and times are never changed but for a task's phase.\<close>

definition extends :: "sched \<Rightarrow> sched \<Rightarrow> bool" where
  "extends s t \<longleftrightarrow> sc_n_tasks s \<le> sc_n_tasks t \<and> sc_n_entries s \<le> sc_n_entries t \<and>
     (\<forall>n < sc_n_tasks s. sc_tasks t n = sc_tasks s n) \<and>
     (\<forall>e < sc_n_entries s. ae_actor (sc_entries t e) = ae_actor (sc_entries s e) \<and>
        ae_time (sc_entries t e) = ae_time (sc_entries s e) \<and>
        (ae_status (sc_entries s e) \<noteq> WAITING \<longrightarrow> ae_status (sc_entries t e) \<noteq> WAITING))"

lemma extends_refl [simp]: "extends s s"
  by (simp add: extends_def)

lemma extends_trans [trans]: "extends s t \<Longrightarrow> extends t u \<Longrightarrow> extends s u"
proof -
  assume a: "extends s t" and b: "extends t u"
  have n: "n < sc_n_tasks t" if "n < sc_n_tasks s" for n using a that by (auto simp: extends_def)
  have e: "e < sc_n_entries t" if "e < sc_n_entries s" for e using a that by (auto simp: extends_def)
  show "extends s u"
    unfolding extends_def
  proof (intro conjI allI impI)
    fix n assume "n < sc_n_tasks s"
    with n [OF this] show "sc_tasks u n = sc_tasks s n" using a b by (simp add: extends_def)
  next
    fix e' assume "e' < sc_n_entries s"
    with e [OF this] show "ae_actor (sc_entries u e') = ae_actor (sc_entries s e')"
      "ae_time (sc_entries u e') = ae_time (sc_entries s e')"
      "ae_status (sc_entries s e') \<noteq> WAITING \<Longrightarrow> ae_status (sc_entries u e') \<noteq> WAITING"
      using a b by (simp_all add: extends_def)
  qed (use a b in \<open>auto simp: extends_def\<close>)
qed

lemma extends_view: "view s = view t \<Longrightarrow> extends s t"
  using viewD [of s t] by (simp add: extends_def)

lemma extends_rows [simp]: "extends s (s\<lparr>sc_rows := f\<rparr>)"
  by (simp add: extends_def)

lemma extends_upd:
  "ae_actor (f (sc_entries s e)) = ae_actor (sc_entries s e) \<Longrightarrow>
   ae_time (f (sc_entries s e)) = ae_time (sc_entries s e) \<Longrightarrow>
   (ae_status (sc_entries s e) \<noteq> WAITING \<Longrightarrow> ae_status (f (sc_entries s e)) \<noteq> WAITING) \<Longrightarrow>
   extends s (upd_entry e f s)"
  by (auto simp: extends_def)

lemma extends_insert [simp]: "extends s (insert_alarm a t p s)"
  by (auto simp: extends_def)

lemma extends_replace: "e < sc_n_entries s \<Longrightarrow> extends s (replace_alarm e a t s)"
  by (simp add: replace_alarm_eq) (rule extends_trans [OF extends_insert extends_upd], simp_all)

lemma extends_arm [simp]: "extends s (arm_task d e c b s)"
  by (auto simp: extends_def)

section \<open>The operations\<close>

text \<open>An operation run while the entries of \<open>X\<close> have no task: it keeps the invariant, returned or thrown.\<close>

definition keeps :: "nat set \<Rightarrow> 'a sop \<Rightarrow> bool" where
  "keeps X m \<longleftrightarrow> (\<forall>s r t. m s = (r, t) \<longrightarrow> J {} X s \<longrightarrow>
     (\<forall>e \<in> X. e < sc_n_entries s \<and> ae_status (sc_entries s e) \<noteq> WAITING) \<longrightarrow> J {} X t \<and> extends s t)"

lemma set_alarm_inv:
  assumes J: "J {} X s" and X: "\<And>e. e \<in> X \<Longrightarrow> e < sc_n_entries s \<and> ae_status (sc_entries s e) \<noteq> WAITING"
    and run: "set_alarm a time s = (r, t)"
  shows "J {} X t \<and> extends s t"
proof (cases rule: db_run_cases [of "stmt_set_alarm a time" s])
  case (refused u)
  then have "t = u" using run by (simp add: set_alarm_def op_bind_def)
  with refused J show ?thesis using J_view [of u s] extends_view [of s u] by simp
next
  case (applied u)
  let ?s1 = "s\<lparr>sc_rows := stmt_set_alarm a time (sc_rows s)\<rparr>"
  have v: "view u = view ?s1" using applied(2) .
  have Ju: "J {a} X u" using J_set_row [OF J, of a time] J_view [OF v] by simp
  have su: "extends s u" using extends_trans [OF extends_rows extends_view [OF v [symmetric]]] by simp
  have row: "row_time q = time" if "sc_rows u a = Some q" for q
    using that viewD(1) [OF v] stmt_set_alarm_time by simp
  have Xu: "e < sc_n_entries u \<and> ae_status (sc_entries u e) \<noteq> WAITING" if "e \<in> X" for e
    using X [OF that] viewD(3,4) [OF v] by simp
  define w where "w = (case alarm_of u a of
        None \<Rightarrow> insert_alarm a time None u
      | Some e \<Rightarrow> (if ae_status (sc_entries u e) \<noteq> WAITING
           then upd_entry e (\<lambda>x. x\<lparr>ae_queued := Some time\<rparr>) u else replace_alarm e a time u))"
  have w: "J {} X w \<and> extends u w"
  proof (cases "alarm_of u a")
    case None
    then show ?thesis using J_insert [OF Ju _ row, where p = None and a = a] Xu by (simp add: w_def persisted_ok_def)
  next
    case (Some e)
    note e = liveD(1,4) [OF JD(1) [OF Ju] Some]
    show ?thesis
    proof (cases "ae_status (sc_entries u e) = WAITING")
      case True
      then have "e \<notin> X" using Xu by blast
      with True Some J_replace [OF Ju Some row] Xu extends_replace [OF e(1)] show ?thesis
        by (simp add: w_def)
    next
      case False
      let ?w = "upd_entry e (\<lambda>x. x\<lparr>ae_queued := Some time\<rparr>) u"
      have "J {a} X ?w"
        by (rule J_upd_entry [OF Ju]) (use e(2) in \<open>auto simp: entry_ok_def\<close>)
      moreover have "rows_sched {} ?w"
        unfolding rows_sched_def
      proof (intro allI impI)
        fix b q assume q: "sc_rows ?w b = Some q"
        show "\<exists>k. alarm_of ?w b = Some k \<and> row_time q = due (sc_entries ?w k)"
        proof (cases "b = a")
          case True
          then show ?thesis using q row Some by (auto simp: due_def)
        next
          case False
          then obtain k where "alarm_of u b = Some k" "row_time q = due (sc_entries u k)"
            using JD(5) [OF Ju] q by (auto simp: rows_sched_def)
          with False e(2) show ?thesis by auto
        qed
      qed
      ultimately have "J {} X ?w" by (simp add: J_def)
      with False Some show ?thesis by (simp add: w_def extends_upd)
    qed
  qed
  have "op_bind project_next_wake (\<lambda>_. op_return True) w = (r, t)"
    using run applied(1) by (simp add: set_alarm_def op_bind_def op_modify_def w_def)
  then have "view t = view w"
    by (auto simp: op_bind_def op_return_def split: prod.splits sum.splits dest: project_view)
  with w su J_view [of t w] show ?thesis
    using extends_trans [OF su extends_trans [OF _ extends_view]] by metis
qed

lemma delete_entry_inv:
  assumes J: "J {} X s" and none: "sc_rows s a = None"
    and X: "\<And>e. e \<in> X \<Longrightarrow> e < sc_n_entries s"
  shows "J {} X (delete_entry a s) \<and> extends s (delete_entry a s)"
proof (cases "alarm_of s a")
  case None
  with J show ?thesis by (simp add: delete_entry_def)
next
  case (Some e)
  note e = liveD(1,4,2) [OF JD(1) [OF J] Some]
  show ?thesis
  proof (cases "ae_queued (sc_entries s e)")
    case q: (Some q)
    show ?thesis
    proof (cases "ae_status (sc_entries s e) = STARTED")
      case True
      have "J {} X (upd_entry e (\<lambda>x. x\<lparr>ae_queued := None\<rparr>) s)"
      proof (rule J_upd_entry [OF J])
        fix b assume "alarm_of s b = Some e"
        with e(2) none show "ae_aborted (sc_entries s e\<lparr>ae_queued := None\<rparr>) = ae_aborted (sc_entries s e) \<and>
          (e \<in> X \<or> ae_status (sc_entries s e\<lparr>ae_queued := None\<rparr>) = ae_status (sc_entries s e) \<and>
             ae_task (sc_entries s e\<lparr>ae_queued := None\<rparr>) = ae_task (sc_entries s e)) \<and>
          (b \<in> {} \<or> sc_rows s b = None \<or> due (sc_entries s e\<lparr>ae_queued := None\<rparr>) = due (sc_entries s e))"
          by simp
      qed (simp_all add: entry_ok_def)
      with True Some q show ?thesis by (simp add: delete_entry_def extends_upd)
    next
      case False
      have "J ({} - {a}) X (replace_alarm e a q s)"
        using J_replace [OF J Some, of q] none X by simp
      then have "J {} X (replace_alarm e a q s)" by simp
      with False Some q extends_replace [OF e(1)] show ?thesis by (simp add: delete_entry_def)
    qed
  next
    case None
    show ?thesis
    proof (cases "ae_status (sc_entries s e) = STARTED")
      case True
      with J Some None show ?thesis by (simp add: delete_entry_def)
    next
      case False
      let ?u = "s\<lparr>sc_alarms := AList.delete a (sc_alarms s)\<rparr>"
      have al: "map_of (AList.delete a (sc_alarms s)) b = (if b = a then None else alarm_of s b)" for b
        by (simp add: delete_conv')
      have "owner ?u = owner s" "matched ?u = matched s" by (rule owner_cong matched_cong; simp)+
      then have so: "sole_owner ?u = sole_owner s" "owner ?u = owner s"
        by (auto simp: sole_owner_def intro!: ext)
      have "owned X ?u" using JD(3) [OF J] by (simp add: owned_def al so)
      moreover have "ids ?u" using JD(1) [OF J] by (simp add: ids_def al)
      moreover have "on_time ?u" using JD(2) [OF J] on_time_cong [of s ?u] by simp
      moreover have "rows_sched {} ?u" using JD(5) [OF J] none by (auto simp: rows_sched_def al)
      ultimately have "J {} X ?u" using JD(4) [OF J] by (simp add: J_def ranges_def)
      then have "J {} X (upd_entry e (\<lambda>x. x\<lparr>ae_aborted := True\<rparr>) ?u)"
        by (rule J_abort) (use e(2) in \<open>auto simp: al\<close>)
      moreover have "delete_entry a s = upd_entry e (\<lambda>x. x\<lparr>ae_aborted := True\<rparr>) ?u"
        using False Some None by (simp add: delete_entry_def upd_entry_def)
      moreover have "extends s (upd_entry e (\<lambda>x. x\<lparr>ae_aborted := True\<rparr>) ?u)"
        by (auto simp: extends_def)
      ultimately show ?thesis by simp
    qed
  qed
qed

lemma delete_alarm_inv:
  assumes J: "J {} X s" and X: "\<And>e. e \<in> X \<Longrightarrow> e < sc_n_entries s"
    and run: "delete_alarm a s = (r, t)"
  shows "J {} X t \<and> extends s t"
proof (cases rule: db_run_cases [of "stmt_delete_alarm a" s])
  case (refused u)
  then have "t = u" using run by (simp add: delete_alarm_def op_bind_def)
  with refused J show ?thesis using J_view [of u s] extends_view [of s u] by simp
next
  case (applied u)
  let ?s1 = "s\<lparr>sc_rows := stmt_delete_alarm a (sc_rows s)\<rparr>"
  have Ju: "J {} X u" using J_delete_row [OF J, of a] J_view [OF applied(2)] by simp
  have su: "extends s u" using extends_trans [OF extends_rows extends_view [OF applied(2) [symmetric]]] by simp
  have "sc_rows u a = None" using viewD(1) [OF applied(2)] by (simp add: stmt_delete_alarm_def)
  then have w: "J {} X (delete_entry a u) \<and> extends u (delete_entry a u)"
    using delete_entry_inv [OF Ju] X viewD(4) [OF applied(2)] by simp
  have "op_bind project_next_wake (\<lambda>_. op_return (sc_rows s a \<noteq> None)) (delete_entry a u) = (r, t)"
    using run applied(1) by (simp add: delete_alarm_def op_bind_def op_modify_def)
  then have "view t = view (delete_entry a u)"
    by (auto simp: op_bind_def op_return_def split: prod.splits sum.splits dest: project_view)
  with w su J_view [of t "delete_entry a u"] show ?thesis
    using extends_trans [OF su extends_trans [OF _ extends_view]] by metis
qed

section \<open>Slices of a task\<close>

lemma set_phase_parts:
  "ids (set_phase n p s) = ids s" "ranges (set_phase n p s) = ranges s"
  "rows_sched A (set_phase n p s) = rows_sched A s"
  by (simp_all add: ids_def ranges_def rows_sched_def)

lemma set_phase_on_time:
  "(p = Ready \<Longrightarrow> ae_aborted (sc_entries s (at_entry (sc_tasks s n))) \<or> at_time (sc_tasks s n) \<le> sc_now s) \<Longrightarrow>
   on_time s \<Longrightarrow> on_time (set_phase n p s)"
  by (auto simp: on_time_def)

text \<open>A task resumes: its entry has no task while it runs.\<close>

lemma J_resume:
  assumes J: "J A {} s" and n: "n < sc_n_tasks s" "at_phase (sc_tasks s n) \<noteq> Ended"
  shows "J A {at_entry (sc_tasks s n)} (set_phase n Ended s)"
proof -
  let ?t = "set_phase n Ended s" and ?e = "at_entry (sc_tasks s n)"
  have ow: "owner ?t k m \<longleftrightarrow> owner s k m \<and> m \<noteq> n" for k m by (auto simp: owner_def)
  have "owned {?e} ?t"
    unfolding owned_def
  proof (intro allI impI)
    fix a k assume "alarm_of ?t a = Some k"
    then have "alarm_of s a = Some k" by simp
    then obtain m where m: "sole_owner s k m" using JD(3) [OF J] by (auto simp: owned_def)
    show "if k \<in> {?e} then \<forall>j. \<not> owner ?t k j else \<exists>j. sole_owner ?t k j"
    proof (cases "k = ?e")
      case True
      then have "owner s k n" using n by (simp add: owner_def)
      with m True have "\<not> owner ?t k j" for j unfolding ow sole_owner_def by blast
      with True show ?thesis by simp
    next
      case False
      then have "m \<noteq> n" using m by (auto simp: sole_owner_def owner_def)
      then have "matched ?t k m = matched s k m" by (simp add: matched_def cong: task_phase.case_cong)
      with m \<open>m \<noteq> n\<close> have "sole_owner ?t k m" unfolding sole_owner_def ow by blast
      with False show ?thesis by auto
    qed
  qed
  then show ?thesis
    using JD [OF J] set_phase_on_time [of Ended s n] by (simp add: J_def set_phase_parts)
qed

text \<open>A task is suspended: it owns its entry again.\<close>

lemma J_suspend:
  assumes J: "J A {e} s" and n: "n < sc_n_tasks s" "at_entry (sc_tasks s n) = e" "p \<noteq> Ended"
      "p = Ready \<Longrightarrow> ae_aborted (sc_entries s e) \<or> at_time (sc_tasks s n) \<le> sc_now s"
    and m: "\<And>a. alarm_of s a = Some e \<Longrightarrow> matched (set_phase n p s) e n"
  shows "J A {} (set_phase n p s)"
proof -
  let ?t = "set_phase n p s"
  have "owned {} ?t"
    unfolding owned_def
  proof (intro allI impI)
    fix a k assume "alarm_of ?t a = Some k"
    then have a: "alarm_of s a = Some k" by simp
    have o: "if k \<in> {e} then \<forall>j. \<not> owner s k j else \<exists>j. sole_owner s k j"
      using JD(3) [OF J, unfolded owned_def, rule_format, OF a] .
    show "if k \<in> {} then \<forall>j. \<not> owner ?t k j else \<exists>j. sole_owner ?t k j"
    proof (cases "k = e")
      case True
      then have none: "\<And>j. \<not> owner s e j" using o by simp
      have "owner ?t e j \<longleftrightarrow> j = n" for j using none [of j] n by (auto simp: owner_def)
      with m a True have "sole_owner ?t k n" unfolding sole_owner_def by blast
      then show ?thesis by auto
    next
      case False
      then obtain j where j: "sole_owner s k j" using o by auto
      then have "j \<noteq> n" using False n(2) by (auto simp: sole_owner_def owner_def)
      moreover have "owner ?t k i \<longleftrightarrow> owner s k i" for i using False n(2) by (auto simp: owner_def)
      moreover from \<open>j \<noteq> n\<close> have "matched ?t k j = matched s k j"
        by (simp add: matched_def cong: task_phase.case_cong)
      ultimately have "sole_owner ?t k j" using j unfolding sole_owner_def by blast
      then show ?thesis by auto
    qed
  qed
  then show ?thesis
    using JD [OF J] set_phase_on_time [of p s n] n(2,4) by (simp add: J_def set_phase_parts)
qed

lemma delivery_finally_view [simp]: "view (delivery_finally n s) = view s"
proof (cases "project_next_wake (s\<lparr>sc_active := removeAll (at_entry (sc_tasks s n)) (sc_active s)\<rparr>)")
  case (Pair r t)
  have "view t = view s" using project_view [OF Pair] by simp
  then show ?thesis by (cases r) (simp_all add: delivery_finally_def Pair)
qed

lemma J_catch:
  assumes J: "J {} {e} s" and n: "n < sc_n_tasks s" "at_entry (sc_tasks s n) = e"
  shows "J {} {} (delivery_catch n info x s)"
proof -
  let ?s1 = "task_failed x s"
  have v: "view ?s1 = view s" by simp
  have J1: "J {} {e} ?s1" using J J_view [OF v] by simp
  note vd = viewD [OF v]
  have e: "e < sc_n_entries s" and b: "0 \<le> at_bookkeeping (sc_tasks s n)"
    using JD(1,4) [OF J] n by (auto simp: ids_def ranges_def)
  show ?thesis
  proof (cases "alarm_of s (ae_actor (sc_entries s e)) = Some e")
    case False
    then have "alarm_of ?s1 a \<noteq> Some e" for a
      using liveD(2) [OF JD(1) [OF J]] vd by (metis)
    then have "J {} {} ?s1" using J1 J_dead by blast
    with False show ?thesis by (simp add: delivery_catch_def Let_def n vd)
  next
    case True
    let ?s2 = "upd_entry e (\<lambda>y. y\<lparr>ae_status := (if info = None then WAITING else FINISHED)\<rparr>) ?s1"
    let ?b = "min RETRY_BACKOFF_MAX (at_bookkeeping (sc_tasks s n))"
    have J2: "J {} {e} ?s2"
      by (rule J_upd_entry [OF J1]) (auto simp: entry_ok_def due_def cong: option.case_cong)
    obtain d s3 where d: "retry_delay ?b ?s2 = (Inr d, s3)"
      using retry_delay_ok [of ?b ?s2] b by (auto simp: RETRY_BACKOFF_MAX_def)
    have v3: "view s3 = view ?s2" by (rule retry_delay_view [OF d])
    have "J {} {e} s3" using J2 J_view [OF v3] by simp
    then have "J {} {} (arm_task d e info (?b + 1) s3)"
      using e viewD [OF v3] vd b by (intro J_arm_task) (auto simp: RETRY_BACKOFF_MAX_def)
    then show ?thesis using True d by (simp add: delivery_catch_def Let_def n vd)
  qed
qed

text \<open>What a slice's \<open>try\<close> block must do for its \<open>finally\<close> to restore the invariant.\<close>

definition slice_ok :: "nat \<Rightarrow> nat \<Rightarrow> bool sop \<Rightarrow> sched \<Rightarrow> bool" where
  "slice_ok n e body s \<longleftrightarrow> (\<forall>r t. body s = (r, t) \<longrightarrow> n < sc_n_tasks t \<and>
     at_entry (sc_tasks t n) = e \<and> (if r = Inr False then J {} {} t else J {} {e} t) \<and>
     (r = Inr True \<longrightarrow> ae_status (sc_entries t e) = FINISHED))"

lemma delivery_end_inv:
  assumes "slice_ok n e body (set_phase n Ended s)"
  shows "J {} {} (delivery_end n info body s)"
proof (cases "body (set_phase n Ended s)")
  case (Pair r t)
  then have t: "r \<noteq> Inr False \<Longrightarrow> J {} {e} t" "n < sc_n_tasks t" "at_entry (sc_tasks t n) = e"
    "r = Inr True \<Longrightarrow> ae_status (sc_entries t e) = FINISHED" "r = Inr False \<Longrightarrow> J {} {} t"
    using assms by (auto simp: slice_ok_def)
  show ?thesis
  proof (cases r)
    case (Inl x)
    have "J {} {} (delivery_catch n (Some info) x t)" by (rule J_catch [OF t(1) t(2,3)]) (simp add: Inl)
    with Inl Pair J_view [of "delivery_finally n (delivery_catch n (Some info) x t)"
        "delivery_catch n (Some info) x t"] show ?thesis by (simp add: delivery_end_def)
  next
    case (Inr b)
    show ?thesis
    proof (cases b)
      case True
      have "J {} {} (set_phase n (Abandoning info) t)"
        by (rule J_suspend [OF t(1) t(2,3)]) (use t(4) Inr True in \<open>auto simp: matched_def\<close>)
      with Inr True Pair show ?thesis by (simp add: delivery_end_def)
    next
      case False
      with Inr t(5) Pair J_view [of "delivery_finally n t" t] show ?thesis by (simp add: delivery_end_def)
    qed
  qed
qed

text \<open>A result of \<open>slice_ok\<close> shape from the state the block leaves.\<close>

definition good :: "nat \<Rightarrow> nat \<Rightarrow> (js_exn + bool) \<times> sched \<Rightarrow> bool" where
  "good n e rt \<longleftrightarrow> (case rt of (r, t) \<Rightarrow> n < sc_n_tasks t \<and> at_entry (sc_tasks t n) = e \<and>
     (if r = Inr False then J {} {} t else J {} {e} t) \<and>
     (r = Inr True \<longrightarrow> ae_status (sc_entries t e) = FINISHED))"

lemma slice_ok_good: "slice_ok n e body s \<longleftrightarrow> good n e (body s)"
  by (cases "body s") (simp add: slice_ok_def good_def)

text \<open>The state a block starts from, and keeps while it has not finished.\<close>

definition base :: "nat \<Rightarrow> nat \<Rightarrow> sched \<Rightarrow> bool" where
  "base n e s \<longleftrightarrow> J {} {e} s \<and> n < sc_n_tasks s \<and> at_entry (sc_tasks s n) = e"

lemma baseD:
  assumes "base n e s"
  shows "J {} {e} s" "n < sc_n_tasks s" "at_entry (sc_tasks s n) = e" "e < sc_n_entries s"
  using assms JD(1) [of "{}" "{e}" s] by (auto simp: base_def ids_def)

lemma base_view: "view s = view t \<Longrightarrow> base n e s = base n e t"
  using J_view [of s t] viewD [of s t] by (simp add: base_def)

lemma base_extends: "base n e s \<Longrightarrow> J {} {e} t \<Longrightarrow> extends s t \<Longrightarrow> base n e t"
  by (auto simp: base_def extends_def)

lemma good_throw: "base n e s \<Longrightarrow> good n e (Inl x, s)"
  by (simp add: good_def base_def)

lemma good_false: "base n e s \<Longrightarrow> extends s t \<Longrightarrow> J {} {} t \<Longrightarrow> good n e (Inr False, t)"
  by (auto simp: good_def base_def extends_def)

text \<open>A write, then the rest of the block.\<close>

lemma good_db:
  assumes b: "base n e s" and f: "J {} {e} (s\<lparr>sc_rows := f (sc_rows s)\<rparr>)"
    and k: "\<And>u. base n e u \<Longrightarrow> view u = view (s\<lparr>sc_rows := f (sc_rows s)\<rparr>) \<Longrightarrow> good n e (k u)"
  shows "good n e (op_bind (db_run f) (\<lambda>_. k) s)"
proof (cases rule: db_run_cases [of f s])
  case (refused u)
  have "base n e u" using b base_view [OF refused(2)] by simp
  with refused show ?thesis by (simp add: op_bind_def good_throw)
next
  case (applied u)
  have "base n e (s\<lparr>sc_rows := f (sc_rows s)\<rparr>)" using b f by (simp add: base_def)
  then have "base n e u" using base_view [OF applied(2)] by simp
  with applied k show ?thesis by (simp add: op_bind_def)
qed

lemma good_replace:
  assumes b: "base n e s" and live: "alarm_of s a = Some e" "due (sc_entries s e) = q"
  shows "good n e (op_bind (db_run (stmt_clear_running a))
    (\<lambda>_. op_bind (op_modify (replace_alarm e a q)) (\<lambda>_. op_return False)) s)"
proof (rule good_db [OF b, where f = "stmt_clear_running a"])
  show "J {} {e} (s\<lparr>sc_rows := stmt_clear_running a (sc_rows s)\<rparr>)"
    by (rule J_clear_running [OF baseD(1) [OF b]])
next
  fix u assume u: "base n e u" "view u = view (s\<lparr>sc_rows := stmt_clear_running a (sc_rows s)\<rparr>)"
  note vd = viewD [OF u(2)]
  have l: "alarm_of u a = Some e" using live vd by simp
  have row: "row_time r = q" if rw: "sc_rows u a = Some r" for r
  proof -
    obtain k where "alarm_of u a = Some k" "row_time r = due (sc_entries u k)"
      using JD(5) [OF baseD(1) [OF u(1)]] rw unfolding rows_sched_def by blast
    with l live(2) vd(3) show ?thesis by simp
  qed
  have "J ({} - {a}) {e} (replace_alarm e a q u) \<and> (\<forall>b. alarm_of (replace_alarm e a q u) b \<noteq> Some e)"
    by (rule J_replace [OF baseD(1) [OF u(1)] l row]) (use baseD(4) [OF u(1)] in auto)
  then have "J {} {e} (replace_alarm e a q u)" "J {} {} (replace_alarm e a q u)"
    using J_dead [of "replace_alarm e a q u" e "{}" "{}"] by auto
  then show "good n e (op_bind (op_modify (replace_alarm e a q)) (\<lambda>_. op_return False) u)"
    using good_false [OF u(1) extends_replace [OF baseD(4) [OF u(1)]]]
    by (simp add: op_bind_def op_modify_def op_return_def)
qed

text \<open>Deleting the alarm of an entry that is not started and has nothing queued removes the entry.\<close>

lemma delete_alarm_dead:
  assumes J: "J {} {e} s" and a: "ae_actor (sc_entries s e) = a" and e: "e < sc_n_entries s"
    "ae_queued (sc_entries s e) = None" "ae_status (sc_entries s e) \<noteq> STARTED"
    and run: "delete_alarm a s = (Inr b, t)"
  shows "J {} {} t"
proof -
  have Jt: "J {} {e} t" using delete_alarm_inv [OF J _ run] e by simp
  obtain u where u: "view u = view (s\<lparr>sc_rows := stmt_delete_alarm a (sc_rows s)\<rparr>)" "view t = view (delete_entry a u)"
    using run by (cases rule: db_run_cases [of "stmt_delete_alarm a" s])
      (auto simp: delete_alarm_def op_bind_def op_modify_def op_return_def
        split: prod.splits sum.splits dest: project_view)
  note vd = viewD [OF u(1)]
  have "alarm_of (delete_entry a u) b \<noteq> Some e" for b
  proof (cases "alarm_of u a = Some e")
    case True
    then show ?thesis using liveD(4) [OF JD(1) [OF J], of a e b] e vd
      by (auto simp: delete_entry_def Let_def delete_conv' split: if_splits)
  next
    case False
    have na: "alarm_of s b \<noteq> Some e" for b
      using False liveD(2) [OF JD(1) [OF J], of b e] a vd by auto
    show ?thesis
    proof (cases "alarm_of u a")
      case None
      with na vd show ?thesis by (simp add: delete_entry_def)
    next
      case (Some k)
      have "k \<noteq> sc_n_entries u" using liveD(1) [OF JD(1) [OF J], of a k] Some vd by auto
      with Some na [of b] e(1) vd show ?thesis
        by (auto simp: delete_entry_def Let_def delete_conv' replace_alarm_eq split: option.split)
    qed
  qed
  then have "alarm_of t b \<noteq> Some e" for b using viewD(2) [OF u(2)] by simp
  with Jt J_dead [of t e "{}" "{}"] show ?thesis by blast
qed

lemma good_delete:
  assumes b: "base n e s" and a: "ae_actor (sc_entries s e) = a"
    and e: "ae_queued (sc_entries s e) = None" "ae_status (sc_entries s e) \<noteq> STARTED"
  shows "good n e (op_bind (delete_alarm a) (\<lambda>_. op_return False) s)"
proof (cases "delete_alarm a s")
  case (Pair r t)
  note bd = baseD [OF b]
  have t: "J {} {e} t" "extends s t" using delete_alarm_inv [OF bd(1) _ Pair] bd(4) by auto
  have bt: "base n e t" by (rule base_extends [OF b t])
  show ?thesis
  proof (cases r)
    case (Inl x)
    with Pair bt show ?thesis by (simp add: op_bind_def good_throw)
  next
    case (Inr y)
    with Pair have "J {} {} t" using delete_alarm_dead [OF bd(1) a bd(4) e] by simp
    with Inr Pair good_false [OF bt extends_refl] show ?thesis by (simp add: op_bind_def op_return_def)
  qed
qed

lemma good_retry:
  assumes b: "base n e s" and st: "ae_status (sc_entries s e) = FINISHED" and c: "ae_counted (sc_entries s e) < 6"
  shows "good n e (retry_body e info s)"
proof -
  note bd = baseD [OF b]
  have eo: "entry_ok (sc_entries s e)" using JD(4) [OF bd(1)] bd(4) by (simp add: ranges_def)
  define c' b1 where "c' = ae_counted (sc_entries s e) + (if res_counts info then 1 else 0)"
    and "b1 = min RETRY_BACKOFF_MAX (if res_counts info \<and> \<not> ae_previous (sc_entries s e) then 0 else ae_backoff (sc_entries s e))"
  have rng: "0 \<le> b1" "b1 \<le> 9" "0 \<le> c'" "c' \<le> 6"
    using eo c by (auto simp: b1_def c'_def entry_ok_def RETRY_BACKOFF_MAX_def)
  obtain d s1 where d: "retry_delay b1 s = (Inr d, s1)" using retry_delay_ok [OF rng(1,2)] by blast
  have v1: "view s1 = view s" by (rule retry_delay_view [OF d])
  have b1': "base n e s1" using b base_view [OF v1] by simp
  let ?p = "if res_counts info then (1::int) else 0"
  let ?f = "stmt_save_retry (sc_now s1 + d) (b1 + 1) c' ?p (ae_actor (sc_entries s e))"
  let ?g = "\<lambda>x. x\<lparr>ae_backoff := b1 + 1, ae_counted := c', ae_previous := res_counts info,
      ae_wake := Some (sc_now s1 + d)\<rparr>"
  have eq: "retry_body e info s = op_bind (db_run ?f) (\<lambda>_ s2. (Inr False, arm_task d e None 0 (upd_entry e ?g s2))) s1"
    unfolding retry_body_def Let_def b1_def [symmetric] c'_def [symmetric]
    by (subst op_bind_Inr [where m = "retry_delay b1", OF d]) simp
  have "good n e (op_bind (db_run ?f) (\<lambda>_ s2. (Inr False, arm_task d e None 0 (upd_entry e ?g s2))) s1)"
  proof (rule good_db [OF b1', where f = ?f])
    show "J {} {e} (s1\<lparr>sc_rows := ?f (sc_rows s1)\<rparr>)"
      by (rule J_save_retry [OF baseD(1) [OF b1']]) (use rng in simp_all)
  next
    fix u assume u: "base n e u" "view u = view (s1\<lparr>sc_rows := ?f (sc_rows s1)\<rparr>)"
    note ud = baseD [OF u(1)]
    have stu: "ae_status (sc_entries u e) = FINISHED" using st viewD [OF u(2)] viewD [OF v1] by simp
    let ?u = "upd_entry e ?g u"
    have Ju: "J {} {e} ?u"
      by (rule J_upd_entry [OF ud(1)]) (use rng in \<open>auto simp: entry_ok_def due_def cong: option.case_cong\<close>)
    have "J {} {} (arm_task d e None 0 ?u)"
      by (rule J_arm_task) (use Ju ud stu in auto)
    moreover have "extends u (arm_task d e None 0 ?u)"
      using extends_trans [OF extends_upd extends_arm] by simp
    ultimately show "good n e (Inr False, arm_task d e None 0 ?u)" by (intro good_false [OF u(1)])
  qed
  then show ?thesis by (simp add: eq)
qed

lemma delivery_body_good:
  assumes b: "base n e s"
  shows "good n e (delivery_body n info s)"
proof -
  note bd = baseD [OF b]
  define a where "a = ae_actor (sc_entries s e)"
  show ?thesis
  proof (cases "alarm_of s a = Some e")
    case False
    have "alarm_of s c \<noteq> Some e" for c
      using False liveD(2) [OF JD(1) [OF bd(1)], of c e] by (auto simp: a_def)
    then have "J {} {} s" using bd(1) J_dead [of s e "{}" "{}"] by blast
    with False good_false [OF b extends_refl] show ?thesis by (simp add: delivery_body_def bd(3) Let_def a_def)
  next
    case live: True
    show ?thesis
    proof (cases "ae_task (sc_entries s e)")
      case None
      with live good_throw [OF b] show ?thesis by (simp add: delivery_body_def bd(3) Let_def a_def)
    next
      case (Some m)
      let ?s1 = "upd_entry e (\<lambda>x. x\<lparr>ae_task := None\<rparr>) s"
      have J1: "J {} {e} ?s1"
        by (rule J_upd_entry [OF bd(1)]) (auto simp: entry_ok_def due_def cong: option.case_cong)
      have b1: "base n e ?s1" using J1 bd by (simp add: base_def)
      show ?thesis
      proof (cases "ae_queued (sc_entries s e)")
        case q: (Some q)
        have "good n e (op_bind (db_run (stmt_clear_running a))
            (\<lambda>_. op_bind (op_modify (replace_alarm e a q)) (\<lambda>_. op_return False)) ?s1)"
          by (rule good_replace [OF b1]) (use live q in \<open>simp_all add: due_def\<close>)
        with live Some q show ?thesis by (simp add: delivery_body_def bd(3) Let_def a_def)
      next
        case q: None
        let ?s2 = "upd_entry e (\<lambda>x. x\<lparr>ae_status := FINISHED\<rparr>) ?s1"
        have J2: "J {} {e} ?s2"
          by (rule J_upd_entry [OF J1]) (auto simp: entry_ok_def due_def cong: option.case_cong)
        have b2: "base n e ?s2" using J2 bd by (simp add: base_def)
        have eq: "delivery_body n info s =
           (if res_retry info
            then (if ae_counted (sc_entries ?s2 e) \<ge> ALARM_RETRY_MAX_TRIES then (Inr True, ?s2)
                  else retry_body e info ?s2)
            else if res_outcome info = OutAborted then (Inr True, ?s2)
            else op_bind (delete_alarm a) (\<lambda>_. op_return False) ?s2)"
          using live Some q by (simp add: delivery_body_def bd(3) Let_def a_def)
        have sus: "good n e (Inr True, ?s2)" using b2 by (simp add: good_def base_def)
        have ret: "good n e (retry_body e info ?s2)" if "\<not> ae_counted (sc_entries ?s2 e) \<ge> ALARM_RETRY_MAX_TRIES"
          by (rule good_retry [OF b2]) (use that in \<open>simp_all add: ALARM_RETRY_MAX_TRIES_def\<close>)
        have del: "good n e (op_bind (delete_alarm a) (\<lambda>_. op_return False) ?s2)"
          by (rule good_delete [OF b2]) (use q in \<open>simp_all add: a_def\<close>)
        show ?thesis unfolding eq using sus ret del by (simp split: if_split)
      qed
    qed
  qed
qed

lemma set_alarm_queue:
  assumes live: "alarm_of s a = Some e" "ae_status (sc_entries s e) \<noteq> WAITING"
    and run: "set_alarm a time s = (r, t)"
  shows "alarm_of t a = Some e \<and> ae_status (sc_entries t e) = ae_status (sc_entries s e)"
proof (cases rule: db_run_cases [of "stmt_set_alarm a time" s])
  case (refused u)
  then have "t = u" using run by (simp add: set_alarm_def op_bind_def)
  with live viewD [OF refused(2)] show ?thesis by simp
next
  case (applied u)
  note vd = viewD [OF applied(2)]
  have "op_bind project_next_wake (\<lambda>_. op_return True) (upd_entry e (\<lambda>x. x\<lparr>ae_queued := Some time\<rparr>) u) = (r, t)"
    using run applied(1) live vd by (simp add: set_alarm_def op_bind_def op_modify_def)
  then have "view t = view (upd_entry e (\<lambda>x. x\<lparr>ae_queued := Some time\<rparr>) u)"
    by (auto simp: op_bind_def op_return_def split: prod.splits sum.splits dest: project_view)
  from viewD [OF this] live vd show ?thesis by simp
qed

lemma abandon_rest_good:
  assumes b: "base n e s"
    and st: "alarm_of s (ae_actor (sc_entries s e)) = Some e \<Longrightarrow> ae_status (sc_entries s e) = FINISHED"
  shows "good n e (abandon_rest n newer s)"
proof -
  note bd = baseD [OF b]
  define a where "a = ae_actor (sc_entries s e)"
  show ?thesis
  proof (cases "alarm_of s a = Some e")
    case False
    have "alarm_of s c \<noteq> Some e" for c
      using False liveD(2) [OF JD(1) [OF bd(1)], of c e] by (auto simp: a_def)
    then have "J {} {} s" using bd(1) J_dead [of s e "{}" "{}"] by blast
    with False good_false [OF b extends_refl] show ?thesis by (simp add: abandon_rest_def bd(3) Let_def a_def)
  next
    case live: True
    then have st: "ae_status (sc_entries s e) = FINISHED" using st by (simp add: a_def)
    define m where "m = (case newer of
        Some t \<Rightarrow> (if ae_queued (sc_entries s e) = None
                   then op_bind (set_alarm a t) (\<lambda>_. op_return ()) else op_return ())
      | None \<Rightarrow> op_return ())"
    define k where "k = (\<lambda>(_::unit) s1. (case ae_queued (sc_entries s1 e) of
          Some q \<Rightarrow> op_bind (db_run (stmt_clear_running a))
            (\<lambda>_. op_bind (op_modify (replace_alarm e a q)) (\<lambda>_. op_return False)) s1
        | None \<Rightarrow> op_bind (delete_alarm a) (\<lambda>_. op_return False) s1))"
    have eq: "abandon_rest n newer s = op_bind m k s"
      unfolding abandon_rest_def bd(3) Let_def a_def [symmetric] m_def k_def using live by simp
    obtain r t where mt: "m s = (r, t)" by (cases "m s")
    have t: "J {} {e} t \<and> extends s t \<and> (alarm_of t a = Some e \<and> ae_status (sc_entries t e) = FINISHED)"
    proof (cases "newer = None \<or> ae_queued (sc_entries s e) \<noteq> None")
      case True
      then have "t = s" using mt by (auto simp: m_def op_return_def split: option.splits)
      with bd live st show ?thesis by simp
    next
      case False
      then obtain tm where tm: "newer = Some tm" "ae_queued (sc_entries s e) = None" by auto
      obtain r' where sa: "set_alarm a tm s = (r', t)"
        using mt tm by (auto simp: m_def op_bind_def op_return_def split: prod.splits sum.splits)
      have "alarm_of t a = Some e \<and> ae_status (sc_entries t e) = FINISHED"
        using set_alarm_queue [OF live _ sa] st by simp
      with set_alarm_inv [OF bd(1) _ sa] bd(4) st show ?thesis by simp
    qed
    have bt: "base n e t" using base_extends [OF b] t by simp
    show ?thesis
    proof (cases r)
      case (Inl x)
      with mt good_throw [OF bt] show ?thesis by (simp add: eq op_bind_def)
    next
      case (Inr u)
      have "ae_actor (sc_entries t e) = a"
        using t liveD(2) [OF JD(1) [OF baseD(1) [OF bt]], of a e] by simp
      then have "good n e (k u t)"
        using good_replace [OF bt, of a] good_delete [OF bt, of a] t
        by (auto simp: k_def due_def split: option.split)
      with mt Inr show ?thesis by (simp add: eq op_bind_def)
    qed
  qed
qed

section \<open>Runs\<close>

text \<open>
  The calls of the actor's storage and of the host, and the progress of the tasks. The clock moves
  forward. The scheduler is built on the rows of a database the previous one left.
\<close>

inductive sched_step :: "sched \<Rightarrow> sched \<Rightarrow> bool" where
  st_set: "set_alarm a time s = (r, t) \<Longrightarrow> sched_step s t"
| st_delete: "delete_alarm a s = (r', t) \<Longrightarrow> sched_step s t"
| st_delete_all: "delete_all s = (r'', t) \<Longrightarrow> sched_step s t"
| st_tick: "0 \<le> d \<Longrightarrow> sched_step s (s\<lparr>sc_now := sc_now s + d\<rparr>)"
| st_wake: "n < sc_n_tasks s \<Longrightarrow> at_phase (sc_tasks s n) = Sleeping \<Longrightarrow> sched_step s (task_wake n s)"
| st_begin: "n < sc_n_tasks s \<Longrightarrow> at_phase (sc_tasks s n) = Ready \<Longrightarrow> sched_step s (task_begin n s)"
| st_deliver: "n < sc_n_tasks s \<Longrightarrow> at_phase (sc_tasks s n) = Delivering \<Longrightarrow>
    sched_step s (task_deliver n res s)"
| st_abandoned: "n < sc_n_tasks s \<Longrightarrow> at_phase (sc_tasks s n) = Abandoning info \<Longrightarrow>
    sched_step s (task_abandoned n newer s)"

inductive sched_reach :: "sched \<Rightarrow> bool" where
  sr_init: "distinct (map fst raw) \<Longrightarrow> new_sched raw now db random project = (Inr (), s) \<Longrightarrow> sched_reach s"
| sr_step: "sched_reach s \<Longrightarrow> sched_step s t \<Longrightarrow> sched_reach t"

end
