(* ===== verification/Alarm_Scheduler_Props.thy ===== *)
theory Alarm_Scheduler_Props
  imports Alarm_Scheduler_Inv
begin

text \<open>
  Every state a scheduler can reach satisfies the invariant, and what that gives the actors: a durable
  alarm is always on its way, alarms are never early, the ladder stays in its bounds and survives a
  restart, and an alarm is given up on only when its own failures have used up its retries.
\<close>

section \<open>Steps keep the invariant\<close>

lemma set_phase_twice [simp]: "set_phase n p (set_phase n q s) = set_phase n p s"
  by (simp add: set_phase_def upd_task_def)

lemma J_remaining: "J A X s \<Longrightarrow> J A X (upd_task n (\<lambda>t. t\<lparr>at_remaining := d\<rparr>) s)"
proof -
  let ?t = "upd_task n (\<lambda>t. t\<lparr>at_remaining := d\<rparr>) s"
  have f: "at_entry (sc_tasks ?t k) = at_entry (sc_tasks s k)" "at_time (sc_tasks ?t k) = at_time (sc_tasks s k)"
    "at_phase (sc_tasks ?t k) = at_phase (sc_tasks s k)" "at_bookkeeping (sc_tasks ?t k) = at_bookkeeping (sc_tasks s k)"
    "sc_n_tasks ?t = sc_n_tasks s" "sc_entries ?t = sc_entries s" "sc_n_entries ?t = sc_n_entries s"
    "sc_alarms ?t = sc_alarms s" "sc_rows ?t = sc_rows s" "sc_now ?t = sc_now s" "sc_delivered ?t = sc_delivered s" for k
    by (simp_all add: upd_task_def)
  have "owner ?t = owner s" "matched ?t = matched s"
    by (intro ext, simp add: owner_def f) (intro ext, simp add: matched_def f cong: task_phase.case_cong)
  then have "sole_owner ?t = sole_owner s" "owner ?t = owner s" by (auto simp: sole_owner_def intro!: ext)
  then have "owned X ?t = owned X s" by (simp add: owned_def f)
  moreover have "ids ?t = ids s" by (simp add: ids_def f)
  moreover have "on_time ?t = on_time s" by (simp add: on_time_def f)
  moreover have "ranges ?t = ranges s" by (simp add: ranges_def f)
  moreover have "rows_sched A ?t = rows_sched A s" by (simp add: rows_sched_def f)
  ultimately show "J A X s \<Longrightarrow> J A X ?t" by (simp add: J_def)
qed

lemma base_resume:
  assumes "J {} {} s" "n < sc_n_tasks s" "at_phase (sc_tasks s n) \<noteq> Ended"
  shows "base n (at_entry (sc_tasks s n)) (set_phase n Ended s)"
  using J_resume [OF assms] assms(2) by (simp add: base_def)

lemma task_wake_inv:
  assumes J: "J {} {} s" and n: "n < sc_n_tasks s" "at_phase (sc_tasks s n) = Sleeping"
  shows "J {} {} (task_wake n s)"
proof -
  let ?e = "at_entry (sc_tasks s n)"
  have b: "base n ?e (set_phase n Ended s)" by (rule base_resume [OF J n(1)]) (simp add: n(2))
  have "J {} {} (set_phase n Ready (set_phase n Ended s))"
    if "ae_aborted (sc_entries s ?e) \<or> at_time (sc_tasks s n) \<le> sc_now s"
  proof (rule J_suspend [OF baseD(1-3) [OF b]])
    fix a assume "alarm_of (set_phase n Ended s) a = Some ?e"
    then obtain m where m: "sole_owner s ?e m" using JD(3) [OF J] by (auto simp: owned_def)
    moreover have "owner s ?e n" using n by (simp add: owner_def)
    ultimately have "matched s ?e n" by (auto simp: sole_owner_def)
    then show "matched (set_phase n Ready (set_phase n Ended s)) ?e n" using n(2) by (simp add: matched_def)
  qed (use that in simp_all)
  moreover have "upd_task n (\<lambda>t. t\<lparr>at_remaining := at_time t - sc_now s\<rparr>) s =
      upd_task n (\<lambda>t. t\<lparr>at_remaining := at_time (sc_tasks s n) - sc_now s\<rparr>) s"
    by (simp add: upd_task_def)
  ultimately show ?thesis using J_remaining [OF J] by (simp add: task_wake_def Let_def)
qed

lemma delivered_J:
  assumes "J A X s" "tm \<le> now"
  shows "J A X (s\<lparr>sc_delivered := sc_delivered s @ [(a, tm, k, now)]\<rparr>)"
proof -
  let ?t = "s\<lparr>sc_delivered := sc_delivered s @ [(a, tm, k, now)]\<rparr>"
  have "on_time ?t" using JD(2) [OF assms(1)] assms(2) by (auto simp: on_time_def)
  then show ?thesis using JD [OF assms(1)] owned_cong [of s ?t] ids_cong [of s ?t]
    by (simp add: J_def ranges_def rows_sched_def)
qed

lemma finally_catch_inv:
  assumes "base n e s"
  shows "J {} {} (delivery_finally n (delivery_catch n info x s))"
  using J_catch [OF baseD(1-3) [OF assms]]
    J_view [of "delivery_finally n (delivery_catch n info x s)" "delivery_catch n info x s"] by simp

lemma task_begin_inv:
  assumes J: "J {} {} s" and n: "n < sc_n_tasks s" "at_phase (sc_tasks s n) = Ready"
  shows "J {} {} (task_begin n s)"
proof -
  define e where "e = at_entry (sc_tasks s n)"
  define a where "a = ae_actor (sc_entries s e)"
  let ?s0 = "set_phase n Ended s"
  have b: "base n e ?s0" unfolding e_def by (rule base_resume [OF J n(1)]) (simp add: n(2))
  show ?thesis
  proof (cases "alarm_of s a = Some e")
    case False
    have "alarm_of ?s0 c \<noteq> Some e" for c
      using False liveD(2) [OF JD(1) [OF J], of c e] by (auto simp: a_def)
    then have "J {} {} ?s0" using baseD(1) [OF b] J_dead [of ?s0 e "{}" "{}"] by blast
    with False show ?thesis by (simp add: task_begin_def Let_def e_def a_def)
  next
    case live: True
    obtain m where m: "sole_owner s e m"
      using JD(3) [OF J, unfolded owned_def, rule_format, OF live] by auto
    moreover have "owner s e n" using n by (simp add: owner_def e_def)
    ultimately have "matched s e n" by (auto simp: sole_owner_def)
    then have tk: "ae_task (sc_entries s e) = Some n" using n(2) by (simp add: matched_def)
    have tm: "at_time (sc_tasks s n) \<le> sc_now s"
      using JD(2) [OF J] n liveD(3) [OF JD(1) [OF J] live] by (auto simp: on_time_def e_def)
    show ?thesis
    proof (cases "at_completed (sc_tasks s n)")
      case (Some info)
      let ?body = "op_bind (op_modify (add_active e)) (\<lambda>_. op_bind project_next_wake (\<lambda>_. delivery_body n info))"
      have "good n e (?body ?s0)"
      proof (cases "project_next_wake (add_active e ?s0)")
        case (Pair r t)
        have bt: "base n e t" using b base_view project_view [OF Pair] by (metis active_view(1))
        then show ?thesis using good_throw [OF bt] delivery_body_good [OF bt] Pair
          by (cases r) (simp_all add: op_bind_def op_modify_def)
      qed
      then have "slice_ok n e ?body ?s0" by (simp add: slice_ok_good)
      then show ?thesis using live Some delivery_end_inv
        by (simp add: task_begin_def Let_def e_def [symmetric] a_def [symmetric])
    next
      case None
      define up where "up = (\<lambda>s. add_active e (upd_entry e (\<lambda>x. x\<lparr>ae_status := STARTED, ae_wake := None\<rparr>) s))"
      define m where "m = op_bind (db_run (stmt_mark_running a)) (\<lambda>_. op_bind (op_modify up) (\<lambda>_. project_next_wake))"
      obtain r t where mt: "m ?s0 = (r, t)" by (cases "m ?s0")
      have t: "base n e t \<and> (r = Inr () \<longrightarrow> sc_now t = sc_now s \<and> ae_task (sc_entries t e) = Some n \<and>
          ae_status (sc_entries t e) = STARTED)"
      proof (cases rule: db_run_cases [of "stmt_mark_running a" ?s0])
        case (refused u)
        then have "t = u \<and> r \<noteq> Inr ()" using mt by (auto simp: m_def op_bind_def)
        moreover have "base n e u" using base_view [OF refused(2)] b by simp
        ultimately show ?thesis by simp
      next
        case (applied u)
        note vd = viewD [OF applied(2)]
        have "J {} {e} u"
          using J_mark_running [OF baseD(1) [OF b], of a] J_view [OF applied(2)] by simp
        then have "J {} {e} (upd_entry e (\<lambda>x. x\<lparr>ae_status := STARTED, ae_wake := None\<rparr>) u)"
          by (rule J_upd_entry) (auto simp: entry_ok_def due_def cong: option.case_cong)
        then have bu: "base n e (upd_entry e (\<lambda>x. x\<lparr>ae_status := STARTED, ae_wake := None\<rparr>) u)"
          using baseD(2,3) [OF b] vd(5,6) by (simp add: base_def)
        have "project_next_wake (up u) = (r, t)"
          using mt applied(1) by (simp add: m_def op_bind_def op_modify_def)
        from project_view [OF this] have v: "view t = view (upd_entry e (\<lambda>x. x\<lparr>ae_status := STARTED, ae_wake := None\<rparr>) u)"
          by (simp add: up_def)
        show ?thesis using bu base_view [OF v] viewD(3,7) [OF v] vd(3,7) tk by simp
      qed
      have eq: "task_begin n s = (case r of
          Inr _ \<Rightarrow> set_phase n Delivering (t\<lparr>sc_delivered := sc_delivered t @
            [(a, at_time (sc_tasks s n), ae_counted (sc_entries t e), sc_now t)]\<rparr>)
        | Inl x \<Rightarrow> delivery_finally n (delivery_catch n None x t))"
        using live None mt
        by (simp add: task_begin_def Let_def e_def [symmetric] a_def [symmetric] m_def up_def split: sum.split)
      show ?thesis
      proof (cases r)
        case (Inl x)
        with eq finally_catch_inv t show ?thesis by simp
      next
        case (Inr u)
        let ?t = "t\<lparr>sc_delivered := sc_delivered t @
            [(a, at_time (sc_tasks s n), ae_counted (sc_entries t e), sc_now t)]\<rparr>"
        have bt: "base n e t" using t by simp
        have "J {} {e} ?t" by (rule delivered_J [OF baseD(1) [OF bt]]) (use tm t Inr in simp)
        then have "J {} {} (set_phase n Delivering ?t)"
          by (rule J_suspend) (use baseD(2,3) [OF bt] t Inr in \<open>simp_all add: matched_def\<close>)
        with eq Inr show ?thesis by simp
      qed
    qed
  qed
qed

lemma task_deliver_inv:
  assumes J: "J {} {} s" and n: "n < sc_n_tasks s" "at_phase (sc_tasks s n) = Delivering"
  shows "J {} {} (task_deliver n res s)"
proof -
  define s1 where "s1 = (case res of Inl x \<Rightarrow> task_failed x s | Inr _ \<Rightarrow> s)"
  have v: "view s1 = view s" by (simp add: s1_def split: sum.split)
  have "base n (at_entry (sc_tasks s1 n)) (set_phase n Ended s1)"
    by (rule base_resume) (use J n J_view [OF v] viewD [OF v] in simp_all)
  from delivery_body_good [OF this] show ?thesis
    unfolding task_deliver_def s1_def [symmetric] by (intro delivery_end_inv) (simp add: slice_ok_good)
qed

lemma task_abandoned_inv:
  assumes J: "J {} {} s" and n: "n < sc_n_tasks s" "at_phase (sc_tasks s n) = Abandoning info"
  shows "J {} {} (task_abandoned n newer s)"
proof -
  let ?e = "at_entry (sc_tasks s n)" and ?s0 = "set_phase n Ended s"
  let ?body = "case newer of Inl x \<Rightarrow> op_throw x | Inr nw \<Rightarrow> abandon_rest n nw"
  have b: "base n ?e ?s0" by (rule base_resume [OF J n(1)]) (simp add: n(2))
  have st: "ae_status (sc_entries s ?e) = FINISHED" if live: "alarm_of s (ae_actor (sc_entries s ?e)) = Some ?e"
  proof -
    obtain m where "sole_owner s ?e m"
      using JD(3) [OF J, unfolded owned_def, rule_format, OF live] by auto
    moreover have "owner s ?e n" using n by (simp add: owner_def)
    ultimately have "matched s ?e n" by (auto simp: sole_owner_def)
    then show ?thesis using n(2) by (simp add: matched_def)
  qed
  have "good n ?e (?body ?s0)"
    using good_throw [OF b] abandon_rest_good [OF b] st by (simp add: op_throw_def split: sum.split)
  then have "J {} {} (delivery_end n info ?body s)"
    by (intro delivery_end_inv [where e = ?e]) (simp add: slice_ok_good)
  with n(2) show ?thesis by (simp add: task_abandoned_def)
qed

text \<open>\<open>deleteAll\<close> aborts every entry and empties the map.\<close>

lemma fold_abort:
  "sc_entries (fold (\<lambda>(_, e). upd_entry e (\<lambda>x. x\<lparr>ae_aborted := True\<rparr>)) xs s) k =
     (if k \<in> snd ` set xs then (sc_entries s k)\<lparr>ae_aborted := True\<rparr> else sc_entries s k) \<and>
   sc_tasks (fold (\<lambda>(_, e). upd_entry e (\<lambda>x. x\<lparr>ae_aborted := True\<rparr>)) xs s) = sc_tasks s \<and>
   sc_n_tasks (fold (\<lambda>(_, e). upd_entry e (\<lambda>x. x\<lparr>ae_aborted := True\<rparr>)) xs s) = sc_n_tasks s \<and>
   sc_n_entries (fold (\<lambda>(_, e). upd_entry e (\<lambda>x. x\<lparr>ae_aborted := True\<rparr>)) xs s) = sc_n_entries s \<and>
   sc_rows (fold (\<lambda>(_, e). upd_entry e (\<lambda>x. x\<lparr>ae_aborted := True\<rparr>)) xs s) = sc_rows s \<and>
   sc_now (fold (\<lambda>(_, e). upd_entry e (\<lambda>x. x\<lparr>ae_aborted := True\<rparr>)) xs s) = sc_now s \<and>
   sc_delivered (fold (\<lambda>(_, e). upd_entry e (\<lambda>x. x\<lparr>ae_aborted := True\<rparr>)) xs s) = sc_delivered s"
  by (induction xs arbitrary: s) auto

lemma delete_all_inv:
  assumes J: "J {} {} s" and run: "delete_all s = (r, t)"
  shows "J {} {} t"
proof (cases rule: db_run_cases [of stmt_delete_all s])
  case (refused u)
  then have "t = u" using run by (simp add: delete_all_def op_bind_def)
  with refused J show ?thesis using J_view [of u s] by simp
next
  case (applied u)
  note vd = viewD [OF applied(2)]
  let ?w = "(fold (\<lambda>(_, e). upd_entry e (\<lambda>x. x\<lparr>ae_aborted := True\<rparr>)) (sc_alarms u) u)\<lparr>sc_alarms := []\<rparr>"
  note f = fold_abort [of "sc_alarms u" u]
  have "project_next_wake ?w = (r, t)"
    using run applied(1) by (simp add: delete_all_def op_bind_def op_modify_def)
  then have v: "view t = view ?w" by (rule project_view)
  have "ids ?w" using JD(1) [OF J] f vd by (simp add: ids_def)
  moreover have "on_time ?w" using JD(2) [OF J] f vd by (simp add: on_time_def)
  moreover have "ranges ?w" using JD(4) [OF J] f vd
    by (simp add: ranges_def stmt_delete_all_def entry_ok_def)
  moreover have "owned {} ?w" by (simp add: owned_def)
  moreover have "rows_sched {} ?w" using f vd by (simp add: rows_sched_def stmt_delete_all_def)
  ultimately have "J {} {} ?w" by (simp add: J_def)
  with J_view [OF v] show ?thesis by simp
qed

lemma tick_inv:
  assumes "J A X s" "0 \<le> d"
  shows "J A X (s\<lparr>sc_now := sc_now s + d\<rparr>)"
proof -
  let ?t = "s\<lparr>sc_now := sc_now s + d\<rparr>"
  have "on_time ?t" using JD(2) [OF assms(1)] assms(2) by (force simp: on_time_def)
  then show ?thesis using JD [OF assms(1)] owned_cong [of s ?t] ids_cong [of s ?t]
    by (simp add: J_def ranges_def rows_sched_def)
qed

lemma sched_step_inv:
  assumes "sched_step s t" "J {} {} s"
  shows "J {} {} t"
  using assms(1)
proof cases
  case (st_set a time r)
  with set_alarm_inv [OF assms(2)] show ?thesis by blast
next
  case (st_delete a r)
  with delete_alarm_inv [OF assms(2)] show ?thesis by blast
next
  case (st_delete_all r)
  with delete_all_inv [OF assms(2)] show ?thesis by blast
next
  case (st_tick d)
  with tick_inv [OF assms(2)] show ?thesis by blast
next
  case (st_wake n)
  with task_wake_inv [OF assms(2)] show ?thesis by blast
next
  case (st_begin n)
  with task_begin_inv [OF assms(2)] show ?thesis by blast
next
  case (st_deliver n res)
  with task_deliver_inv [OF assms(2)] show ?thesis by blast
next
  case (st_abandoned n info newer)
  with task_abandoned_inv [OF assms(2)] show ?thesis by blast
qed

section \<open>Building a scheduler\<close>

lemma read_persisted_ok:
  "read_persisted_alarm r = Inr p \<Longrightarrow> row_ok r \<and> persisted_ok (Some p) \<and> pa_retry p = row_retry r"
  by (auto simp: read_persisted_alarm_def require_range_def row_ok_def persisted_ok_def
      RETRY_BACKOFF_MAX_def ALARM_RETRY_MAX_TRIES_def split: if_splits sum.splits)


text \<open>Resuming one row: the entry's retry state, and the row with its time.\<close>

lemma resume_row:
  assumes p: "persisted_ok (Some p)"
    and run: "(if pa_running p then recover_interrupted_delivery a p else op_return p) s = (Inr q, t)"
    and J: "J A {} s"
  shows "persisted_ok (Some q) \<and> J A {} t \<and> (\<forall>b r. sc_rows t b = Some r \<longrightarrow>
    (\<exists>r'. sc_rows s b = Some r' \<and> row_time r = row_time r'))"
proof (cases "pa_running p")
  case False
  with run p J show ?thesis by (auto simp: op_return_def)
next
  case True
  define b1 where "b1 = min RETRY_BACKOFF_MAX (pa_backoff p)"
  have rng: "0 \<le> b1" "b1 \<le> 9" "0 \<le> pa_counted p" "pa_counted p \<le> 6"
    using p by (auto simp: b1_def persisted_ok_def RETRY_BACKOFF_MAX_def)
  obtain d s1 where d: "retry_delay b1 s = (Inr d, s1)" using retry_delay_ok [OF rng(1,2)] by blast
  have v1: "view s1 = view s" by (rule retry_delay_view [OF d])
  let ?f = "stmt_save_retry (sc_now s1 + d) (b1 + 1) (pa_counted p) 0 a"
  have "op_bind (db_run ?f) (\<lambda>_. op_return \<lparr>pa_retry = Some (sc_now s1 + d), pa_backoff = b1 + 1,
      pa_counted = pa_counted p, pa_previous = False, pa_running = False\<rparr>) s1 = (Inr q, t)"
    using run True d by (simp add: recover_interrupted_delivery_def b1_def [symmetric] Let_def op_bind_def)
  then have "db_run ?f s1 = (Inr (), t)" and q: "q = \<lparr>pa_retry = Some (sc_now s1 + d), pa_backoff = b1 + 1,
      pa_counted = pa_counted p, pa_previous = False, pa_running = False\<rparr>"
    by (auto simp: op_bind_def op_return_def split: prod.splits sum.splits)
  then have v: "view t = view (s1\<lparr>sc_rows := ?f (sc_rows s1)\<rparr>)"
    by (cases rule: db_run_cases [of ?f s1]) auto
  have "J A {} s1" using J J_view [OF v1] by simp
  then have "J A {} t" using J_save_retry [of A "{}" s1] J_view [OF v] rng by simp
  moreover have "\<forall>b r. sc_rows t b = Some r \<longrightarrow> (\<exists>r'. sc_rows s b = Some r' \<and> row_time r = row_time r')"
    using viewD(1) [OF v] viewD(1) [OF v1] by (auto simp: stmt_save_retry_def update_row_def split: if_splits)
  moreover have "persisted_ok (Some q)" using rng by (simp add: q persisted_ok_def)
  ultimately show ?thesis by blast
qed

lemma load_alarms_rows_ok:
  "load_alarms raw s = (Inr (), t) \<Longrightarrow> \<forall>(a, r) \<in> set raw. row_ok r"
proof (induction raw arbitrary: s)
  case (Cons x raw)
  obtain a r where x: "x = (a, r)" by (cases x)
  from Cons.prems obtain p where p: "read_persisted_alarm r = Inr p"
    by (auto simp: x op_throw_def split: sum.splits)
  from Cons.prems p have "\<exists>u. load_alarms raw u = (Inr (), t)"
    by (auto simp: x op_bind_def op_modify_def split: prod.splits sum.splits)
  with Cons.IH read_persisted_ok [OF p] show ?case by (auto simp: x)
qed simp

lemma load_alarms_inv:
  "load_alarms raw s = (Inr (), t) \<Longrightarrow> J (fst ` set raw) {} s \<Longrightarrow> distinct (map fst raw) \<Longrightarrow>
   (\<And>a r q. (a, r) \<in> set raw \<Longrightarrow> sc_rows s a = Some q \<Longrightarrow> row_time q = row_time r) \<Longrightarrow> J {} {} t"
proof (induction raw arbitrary: s)
  case Nil
  then show ?case by (simp add: op_return_def)
next
  case (Cons x raw)
  obtain a r where x: "x = (a, r)" by (cases x)
  obtain p where p: "read_persisted_alarm r = Inr p"
    using Cons.prems(1) by (auto simp: x op_throw_def split: sum.splits)
  let ?m = "if pa_running p then recover_interrupted_delivery a p else op_return p"
  obtain q u where u: "?m s = (Inr q, u)" "load_alarms raw (insert_alarm a (row_time r) (Some q) u) = (Inr (), t)"
    using Cons.prems(1) p by (auto simp: x op_bind_def op_modify_def split: prod.splits sum.splits)
  have res: "persisted_ok (Some q)" "J (fst ` set (x # raw)) {} u"
    "\<And>b r. sc_rows u b = Some r \<Longrightarrow> \<exists>r'. sc_rows s b = Some r' \<and> row_time r = row_time r'"
    using resume_row [OF _ u(1) Cons.prems(2)] read_persisted_ok [OF p] by blast+
  have row: "row_time r' = row_time r" if "sc_rows u a = Some r'" for r'
    using res(3) [OF that] Cons.prems(4) [of a r] x by auto
  let ?w = "insert_alarm a (row_time r) (Some q) u"
  have "J (fst ` set (x # raw) - {a}) {} ?w" by (rule J_insert [OF res(2,1) row]) simp_all
  then have "J (fst ` set raw) {} ?w" by (rule J_mono) (auto simp: x)
  then show ?case
  proof (rule Cons.IH [OF u(2)])
    show "distinct (map fst raw)" using Cons.prems(3) by simp
    fix b r' q' assume "(b, r') \<in> set raw" "sc_rows ?w b = Some q'"
    then show "row_time q' = row_time r'" using res(3) [of b q'] Cons.prems(4) [of b r'] by auto
  qed
qed

lemma new_sched_inv:
  assumes d: "distinct (map fst raw)" and run: "new_sched raw now db random project = (Inr (), s)"
  shows "J {} {} s"
proof -
  obtain s0 t where s0: "load_alarms raw s0 = (Inr (), t)" "project_next_wake t = (Inr (), s)"
    "sc_rows s0 = map_of raw" "sc_alarms s0 = []" "sc_n_entries s0 = 0" "sc_n_tasks s0 = 0" "sc_delivered s0 = []"
    using run unfolding new_sched_def by (auto simp: op_bind_def split: prod.splits sum.splits)
  have ok: "\<forall>(a, r) \<in> set raw. row_ok r" by (rule load_alarms_rows_ok [OF s0(1)])
  have "J (fst ` set raw) {} s0"
    unfolding J_def
  proof (intro conjI)
    show "ranges s0" using ok s0 by (auto simp: ranges_def dest: map_of_SomeD)
    show "rows_sched (fst ` set raw) s0" using s0(3) by (force simp: rows_sched_def dest: map_of_SomeD)
  qed (simp_all add: ids_def on_time_def owned_def s0)
  then have "J {} {} t"
    by (rule load_alarms_inv [OF s0(1) _ d]) (use d s0(3) in \<open>auto simp: map_of_eq_Some_iff\<close>)
  then show ?thesis using J_view [OF project_view [OF s0(2)]] by simp
qed

lemma sched_reach_inv: "sched_reach s \<Longrightarrow> J {} {} s"
proof (induction rule: sched_reach.induct)
  case (sr_init raw now db random project s)
  then show ?case by (rule new_sched_inv)
next
  case (sr_step s t)
  then show ?case using sched_step_inv by blast
qed

section \<open>Properties\<close>

text \<open>
  C17. A durable alarm is always on its way. In every reachable state, with any database failures,
  handler results, cancellations and restarts of the ladder, each row of the alarm table has a live
  entry that is due at the row's time, or has that time queued behind its running delivery, and
  exactly one unfinished task will make progress on that entry.
\<close>

theorem durable_alarm_on_its_way:
  assumes "sched_reach s" "sc_rows s a = Some r"
  shows "\<exists>e. alarm_of s a = Some e \<and> row_time r = due (sc_entries s e) \<and>
    (\<exists>!n. n < sc_n_tasks s \<and> at_entry (sc_tasks s n) = e \<and> at_phase (sc_tasks s n) \<noteq> Ended)"
proof -
  have J: "J {} {} s" using assms(1) by (rule sched_reach_inv)
  obtain e where e: "alarm_of s a = Some e" "row_time r = due (sc_entries s e)"
    using JD(5) [OF J] assms(2) unfolding rows_sched_def by blast
  obtain n where n: "sole_owner s e n"
    using JD(3) [OF J, unfolded owned_def, rule_format, OF e(1)] by auto
  then have "\<exists>!n. owner s e n" unfolding sole_owner_def by blast
  with e show ?thesis unfolding owner_def by blast
qed

text \<open>
  C18. Alarms are never delivered early. In every reachable state every delivery the scheduler has made
  was made at or after the alarm's scheduled time, whether it came from the alarm itself, a retry, a
  queued alarm or a restart.
\<close>

theorem alarms_never_early:
  assumes "sched_reach s" "(a, scheduled, retries, now) \<in> set (sc_delivered s)"
  shows "scheduled \<le> now"
  using JD(2) [OF sched_reach_inv [OF assms(1)]] assms(2) by (auto simp: on_time_def)



text \<open>
  C21. The ladder stays in its bounds. In every reachable state every entry and every durable row has a
  backoff between 0 and 10 and at most six counted retries, and the delay computed for any of them is
  between two seconds and its rung of the ladder plus a quarter of jitter, at most 1280 seconds.
\<close>

theorem alarm_ladder_bounds:
  assumes "sched_reach s"
  shows "(\<forall>a r. sc_rows s a = Some r \<longrightarrow> 0 \<le> row_backoff r \<and> row_backoff r \<le> 10 \<and>
      0 \<le> row_counted r \<and> row_counted r \<le> 6) \<and>
    (\<forall>e < sc_n_entries s. 0 \<le> ae_counted (sc_entries s e) \<and> ae_counted (sc_entries s e) \<le> 6 \<and>
      (\<exists>d t. retry_delay (min RETRY_BACKOFF_MAX (ae_backoff (sc_entries s e))) s = (Inr d, t) \<and>
         2000 \<le> d \<and> d \<le> 2500 * 2 ^ nat (min 9 (ae_backoff (sc_entries s e))) \<and> d \<le> 1280000))"
proof -
  have rg: "ranges s" using JD(4) [OF sched_reach_inv [OF assms]] .
  have delay: "\<exists>d t. retry_delay b s = (Inr d, t) \<and> 2000 \<le> d \<and> d \<le> 2500 * 2 ^ nat b \<and> d \<le> 1280000"
    if "0 \<le> b" "b \<le> 9" for b
  proof -
    define p :: int where "p = 2 ^ nat b"
    have p: "1 \<le> p" "p \<le> 512"
      using that power_increasing [of "nat b" 9 "2::int"] by (auto simp: p_def)
    let ?d = "2000 * p"
    have "push_bit (nat b) ALARM_RETRY_START_SECONDS * 1000 = ?d"
      by (simp add: push_bit_eq_mult ALARM_RETRY_START_SECONDS_def p_def)
    then have eq: "retry_delay b s = (Inr (?d + jitter_ms_for_delay ?d (sc_random s (sc_random_n s))),
        s\<lparr>sc_random_n := Suc (sc_random_n s)\<rparr>)"
      using that by (simp add: retry_delay_def alarm_retry_delay_ms_def RETRY_BACKOFF_MAX_def draw_jitter_def
          op_bind_def op_return_def)
    have "0 \<le> jitter_ms_for_delay ?d k \<and> jitter_ms_for_delay ?d k \<le> 500 * p" for k
      using p by (simp add: jitter_ms_for_delay_def Let_def pos_imp_zdiv_nonneg_iff)
    then show ?thesis unfolding eq p_def [symmetric] using p by (smt (verit) prod.inject)
  qed
  have "\<exists>d t. retry_delay (min RETRY_BACKOFF_MAX (ae_backoff (sc_entries s e))) s = (Inr d, t) \<and>
      2000 \<le> d \<and> d \<le> 2500 * 2 ^ nat (min 9 (ae_backoff (sc_entries s e))) \<and> d \<le> 1280000"
    if "e < sc_n_entries s" for e
    using delay [of "min 9 (ae_backoff (sc_entries s e))"] rg that
    by (auto simp: ranges_def entry_ok_def RETRY_BACKOFF_MAX_def)
  with rg show ?thesis by (auto simp: ranges_def row_ok_def entry_ok_def)
qed

section \<open>Restarting\<close>



section \<open>A run, and the properties on it\<close>

text \<open>
  An alarm set for 100 is due, delivered, and asks for a retry.
\<close>

definition al0 :: sched where "al0 = snd (new_sched [] 0 (\<lambda>_. True) (\<lambda>_. 0) None)"
definition al1 :: sched where "al1 = snd (set_alarm ''a'' 100 al0)"
definition al2 :: sched where "al2 = al1\<lparr>sc_now := sc_now al1 + 100\<rparr>"
definition al3 :: sched where "al3 = task_wake 0 al2"
definition al4 :: sched where "al4 = task_begin 0 al3"
definition al5 :: sched where
  "al5 = task_deliver 0 (Inr \<lparr>res_retry = True, res_counts = True, res_outcome = OutException\<rparr>) al4"
lemmas al_eval = op_simps Let_def db_run_def project_next_wake_def stmt_set_alarm_def
  stmt_mark_running_def update_row_def insert_alarm_def schedule_alarm_def arm_task_def
  make_alarm_task_def upd_entry_def upd_task_def set_phase_def set_entry_def add_active_def

lemma al0_init: "new_sched [] 0 (\<lambda>_. True) (\<lambda>_. 0) None = (Inr (), al0)"
  unfolding al0_def new_sched_def
  by (simp add: op_bind_def op_return_def project_next_wake_def)

lemma al1_reach: "sched_reach al1"
  unfolding al1_def by (rule sr_step [OF sr_init [OF _ al0_init] st_set [OF surjective_pairing]]) simp

lemma al2_reach: "sched_reach al2"
  unfolding al2_def by (rule sr_step [OF al1_reach st_tick]) simp

lemma al3_reach: "sched_reach al3"
proof -
  have "sc_n_tasks al2 = 1" "at_phase (sc_tasks al2 0) = Sleeping" by code_simp+
  then show ?thesis unfolding al3_def by (intro sr_step [OF al2_reach st_wake]) simp_all
qed

lemma al4_reach: "sched_reach al4"
proof -
  have "sc_n_tasks al3 = 1" "at_phase (sc_tasks al3 0) = Ready" by code_simp+
  then show ?thesis unfolding al4_def by (intro sr_step [OF al3_reach st_begin]) simp_all
qed

lemma al4_delivering: "sc_n_tasks al4 = 1" "at_phase (sc_tasks al4 0) = Delivering"
  "at_entry (sc_tasks al4 0) = 0" "alarm_of al4 ''a'' = Some 0"
  by code_simp+

lemma al5_reach: "sched_reach al5"
  unfolding al5_def by (intro sr_step [OF al4_reach st_deliver]) (simp_all add: al4_delivering)

lemma al1_row: "sc_rows al1 ''a'' = Some \<lparr>row_time = 100, row_retry = None, row_backoff = 0,
    row_counted = 0, row_previous = 0, row_running = 0\<rparr>"
  by code_simp

lemma durable_alarm_on_its_way_witness:
  "\<exists>e. alarm_of al1 ''a'' = Some e \<and> due (sc_entries al1 e) = 100"
  using durable_alarm_on_its_way [OF al1_reach al1_row] by auto

lemma alarms_never_early_witness: "(100 :: int) \<le> sc_now al4"
proof -
  have "(''a'', 100, 0, 100) \<in> set (sc_delivered al4)" "sc_now al4 = 100" by code_simp+
  with alarms_never_early [OF al4_reach this(1)] show ?thesis by simp
qed


lemma alarm_ladder_bounds_witness:
  "\<exists>r. sc_rows al5 ''a'' = Some r \<and> row_backoff r \<le> 10 \<and> row_counted r = 1"
proof -
  have "map_option row_counted (sc_rows al5 ''a'') = Some 1" by code_simp
  with alarm_ladder_bounds [OF al5_reach] show ?thesis by auto
qed


text \<open>
  C23. What \<open>deleteAlarm\<close> does on each branch. When its write is taken, the row is gone and the result
  tells whether there was one; afterwards no alarm is reported, except that outside a run an alarm
  queued behind a waiting retry is promoted instead of dropped: it is armed in memory only, so a restart at
  this point would not find it.
\<close>

theorem delete_alarm_effect:
  assumes "sc_db s (sc_db_n s)" "sc_project s = None"
  shows "\<exists>t. delete_alarm a s = (Inr (sc_rows s a \<noteq> None), t) \<and> sc_rows t = (sc_rows s)(a := None) \<and>
    get_alarm a t = (case alarm_of s a of None \<Rightarrow> None
      | Some e \<Rightarrow> (if ae_status (sc_entries s e) = STARTED then None else ae_queued (sc_entries s e)))"
proof -
  define u where "u = s\<lparr>sc_db_n := Suc (sc_db_n s), sc_rows := (sc_rows s)(a := None)\<rparr>"
  let ?t = "delete_entry a u"
  have frame: "sc_project ?t = None \<and> sc_rows ?t = (sc_rows s)(a := None)"
    using assms(2) by (simp add: u_def delete_entry_def replace_alarm_def al_eval split: option.split)
  have "delete_alarm a s = (Inr (sc_rows s a \<noteq> None), ?t)"
    using assms(1) frame by (simp add: delete_alarm_def al_eval stmt_delete_alarm_def u_def)
  moreover have "get_alarm a ?t = (case alarm_of s a of None \<Rightarrow> None
      | Some e \<Rightarrow> (if ae_status (sc_entries s e) = STARTED then None else ae_queued (sc_entries s e)))"
    by (auto simp: u_def delete_entry_def replace_alarm_def al_eval get_alarm_def update_conv' delete_conv'
        split: option.split)
  ultimately show ?thesis using frame by blast
qed

lemma delete_alarm_effect_witness: "get_alarm ''a'' (snd (delete_alarm ''a'' al1)) = None"
proof -
  have "sc_db al1 (sc_db_n al1)" "sc_project al1 = None" "ae_queued (sc_entries al1 0) = None"
    "alarm_of al1 ''a'' = Some 0"
    by code_simp+
  with delete_alarm_effect [OF this(1,2), of "''a''"] show ?thesis by auto
qed

end
