(* ===== verification/Sql_Text.thy ===== *)
theory Sql_Text
  imports Js_Text "HOL-Library.Char_ord"
begin

text \<open>
  What \<open>src/src/util/sqlite.ts\<close> reads off the text of a SQL statement: the trivia before it, its
  leading keyword, whether it may write, and the change of the transaction stack it makes.

  The regular expressions of the source are terms of type \<open>rx\<close>. \<open>rx_run\<close> lists the ways one matches
  at the start of a text in the order a backtracking matcher tries them, each with what it consumed,
  its groups and what is left; letters match without regard to ASCII case, as the flag \<open>i\<close> does for
  them. \<open>Star\<close> is a greedy repetition, whose iterations must consume something, \<open>Lazy0 p\<close> is \<open>p*?\<close>, and
  \<open>Boundary\<close> is \<open>\b\<close> after a word character. A string is its list of UTF-16 code units.
\<close>

section \<open>Characters\<close>

abbreviation ch :: "char \<Rightarrow> 16 word" where "ch c \<equiv> of_nat (of_char c)"

text \<open>\<open>\s\<close>, which is also what \<open>trim\<close> removes.\<close>

definition js_space :: "16 word \<Rightarrow> bool" where
  "js_space c \<longleftrightarrow> c \<in> {0x09, 0x0A, 0x0B, 0x0C, 0x0D, 0x20, 0xA0, 0x1680, 0x2028, 0x2029, 0x202F, 0x205F,
     0x3000, 0xFEFF} \<or> 0x2000 \<le> c \<and> c \<le> 0x200A"

lemma js_space_20 [simp]: "js_space 0x20" "\<not> js_space 0x54"
  by (simp_all add: js_space_def)

definition lower_letter :: "16 word \<Rightarrow> bool" where "lower_letter c \<longleftrightarrow> 0x61 \<le> c \<and> c \<le> 0x7A"
definition upper_letter :: "16 word \<Rightarrow> bool" where "upper_letter c \<longleftrightarrow> 0x41 \<le> c \<and> c \<le> 0x5A"
definition js_digit :: "16 word \<Rightarrow> bool" where "js_digit c \<longleftrightarrow> 0x30 \<le> c \<and> c \<le> 0x39"

definition letter :: "16 word \<Rightarrow> bool" where "letter c \<longleftrightarrow> lower_letter c \<or> upper_letter c"
definition word_char :: "16 word \<Rightarrow> bool" where
  "word_char c \<longleftrightarrow> letter c \<or> js_digit c \<or> c = ch CHR ''_''"

definition to_upper :: "16 word \<Rightarrow> 16 word" where
  "to_upper c = (if lower_letter c then c - 0x20 else c)"

definition to_lower :: "16 word \<Rightarrow> 16 word" where
  "to_lower c = (if upper_letter c then c + 0x20 else c)"

text \<open>\<open>s.indexOf(pat, from)\<close>, \<open>s.trimEnd()\<close> and \<open>s.trim()\<close>.\<close>

definition index_of :: "js_string \<Rightarrow> js_string \<Rightarrow> nat \<Rightarrow> nat option" where
  "index_of pat s from = List.find (\<lambda>i. take (length pat) (drop i s) = pat) [from..<Suc (length s)]"

definition trim_end :: "js_string \<Rightarrow> js_string" where
  "trim_end s = rev (dropWhile js_space (rev s))"

definition trim :: "js_string \<Rightarrow> js_string" where
  "trim s = trim_end (dropWhile js_space s)"

lemma find_Some_in: "List.find P xs = Some x \<Longrightarrow> x \<in> set xs \<and> P x"
  by (induction xs) (auto split: if_splits)

lemma index_of_ge: "index_of pat s from = Some i \<Longrightarrow> from \<le> i"
  unfolding index_of_def by (drule find_Some_in) auto

section \<open>Regular expressions\<close>

datatype rx =
  Word js_string
| Many1 "16 word \<Rightarrow> bool"
| Many0 "16 word \<Rightarrow> bool"
| One "16 word \<Rightarrow> bool"
| Seq rx rx
| Alt rx rx
| Opt rx
| Grp nat rx
| Star rx
| Lazy0 "16 word \<Rightarrow> bool"
| Boundary

type_synonym rx_match = "js_string \<times> (nat \<times> js_string) list \<times> js_string"

definition prefixes_down :: "nat \<Rightarrow> nat \<Rightarrow> js_string \<Rightarrow> rx_match list" where
  "prefixes_down lo hi s = map (\<lambda>k. (take k s, [], drop k s)) (rev [lo..<Suc hi])"

function rx_run :: "rx \<Rightarrow> js_string \<Rightarrow> rx_match list" where
  "rx_run (Word w) s =
     (if map to_upper (take (length w) s) = map to_upper w
      then [(take (length w) s, [], drop (length w) s)] else [])"
| "rx_run (Many1 p) s = prefixes_down 1 (length (takeWhile p s)) s"
| "rx_run (Many0 p) s = prefixes_down 0 (length (takeWhile p s)) s"
| "rx_run (One p) s = (case s of [] \<Rightarrow> [] | c # t \<Rightarrow> if p c then [([c], [], t)] else [])"
| "rx_run (Seq r q) s =
     concat (map (\<lambda>(u, g, t). map (\<lambda>(v, h, t'). (u @ v, g @ h, t')) (rx_run q t)) (rx_run r s))"
| "rx_run (Alt r q) s = rx_run r s @ rx_run q s"
| "rx_run (Opt r) s = rx_run r s @ [([], [], s)]"
| "rx_run (Grp n r) s = map (\<lambda>(u, g, t). (u, (n, u) # g, t)) (rx_run r s)"
| "rx_run (Star r) s =
     concat (map (\<lambda>(u, g, t). if length t < length s
                             then map (\<lambda>(v, h, t'). (u @ v, g @ h, t')) (rx_run (Star r) t) else [])
       (rx_run r s)) @ [([], [], s)]"
| "rx_run (Lazy0 p) s = rev (prefixes_down 0 (length (takeWhile p s)) s)"
| "rx_run Boundary s = (case s of [] \<Rightarrow> [([], [], s)] | c # _ \<Rightarrow> if word_char c then [] else [([], [], s)])"
  by pat_completeness auto
termination by (relation "measures [\<lambda>(r, s). size r, \<lambda>(r, s). length s]") auto

text \<open>\<open>/^r$/.exec(s)\<close>, its groups, and \<open>/^r\b/.test(s)\<close> for an \<open>r\<close> that ends in a word character.\<close>

definition rx_exec :: "rx \<Rightarrow> js_string \<Rightarrow> (nat \<times> js_string) list option" where
  "rx_exec r s = map_option (\<lambda>(u, g, t). g) (List.find (\<lambda>(u, g, t). t = []) (rx_run r s))"

definition rx_test_boundary :: "rx \<Rightarrow> js_string \<Rightarrow> bool" where
  "rx_test_boundary r s =
     list_ex (\<lambda>(u, g, t). case t of [] \<Rightarrow> True | c # _ \<Rightarrow> \<not> word_char c) (rx_run r s)"

section \<open>The patterns\<close>

abbreviation kw :: "string \<Rightarrow> rx" where "kw s \<equiv> Word (of_chars s)"
abbreviation sp :: rx where "sp \<equiv> Many1 js_space"

definition quoted :: "char \<Rightarrow> char \<Rightarrow> rx" where
  "quoted l r = Seq (One (\<lambda>c. c = ch l)) (Seq (Many0 (\<lambda>c. c \<noteq> ch r)) (One (\<lambda>c. c = ch r)))"

definition NAME :: "nat \<Rightarrow> rx" where
  "NAME n = Grp n (Alt (quoted CHR 0x22 CHR 0x22) (Alt (quoted CHR 0x27 CHR 0x27)
     (Alt (quoted CHR 0x60 CHR 0x60) (Alt (quoted CHR ''['' CHR '']'')
     (Seq (One (\<lambda>c. letter c \<or> c = ch CHR ''_'')) (Many0 (\<lambda>c. word_char c \<or> c = ch CHR ''$'')))))))"

definition RX_BEGIN :: rx where
  "RX_BEGIN = Seq (kw ''BEGIN'')
     (Seq (Opt (Seq sp (Alt (kw ''DEFERRED'') (Alt (kw ''IMMEDIATE'') (kw ''EXCLUSIVE'')))))
          (Opt (Seq sp (kw ''TRANSACTION''))))"

definition RX_SAVEPOINT :: rx where
  "RX_SAVEPOINT = Seq (kw ''SAVEPOINT'') (Seq sp (NAME 1))"

definition RX_COMMIT :: rx where
  "RX_COMMIT = Seq (Alt (kw ''COMMIT'') (kw ''END'')) (Opt (Seq sp (kw ''TRANSACTION'')))"

definition RX_RELEASE :: rx where
  "RX_RELEASE = Seq (kw ''RELEASE'') (Seq (Opt (Seq sp (kw ''SAVEPOINT''))) (Seq sp (NAME 2)))"

definition RX_ROLLBACK :: rx where
  "RX_ROLLBACK = Seq (kw ''ROLLBACK'') (Opt (Seq sp (kw ''TRANSACTION'')))"

definition RX_ROLLBACK_TO :: rx where
  "RX_ROLLBACK_TO = Seq (kw ''ROLLBACK'') (Seq (Opt (Seq sp (kw ''TRANSACTION'')))
     (Seq sp (Seq (kw ''TO'') (Seq (Opt (Seq sp (kw ''SAVEPOINT''))) (Seq sp (NAME 3))))))"

definition RX_TRANSACTION_KEYWORD :: rx where
  "RX_TRANSACTION_KEYWORD = Alt (kw ''BEGIN'') (Alt (kw ''COMMIT'') (Alt (kw ''END'')
     (Alt (kw ''ROLLBACK'') (Alt (kw ''SAVEPOINT'') (kw ''RELEASE'')))))"

section \<open>Trivia\<close>

definition skip_space :: "js_string \<Rightarrow> nat \<Rightarrow> nat" where
  "skip_space s i = i + length (takeWhile js_space (drop i s))"

definition char_at :: "js_string \<Rightarrow> nat \<Rightarrow> char \<Rightarrow> bool" where
  "char_at s i c \<longleftrightarrow> i < length s \<and> s ! i = ch c"

function strip_from :: "js_string \<Rightarrow> nat \<Rightarrow> js_string" where
  "strip_from s i0 =
     (let i = skip_space s i0
      in if char_at s i CHR ''-'' \<and> char_at s (i + 1) CHR ''-'' then
           strip_from s (case index_of [0x0A] s i of None \<Rightarrow> length s | Some n \<Rightarrow> n + 1)
         else if char_at s i CHR ''/'' \<and> char_at s (i + 1) CHR ''*'' then
           strip_from s (case index_of (of_chars ''*/'') s (i + 2) of None \<Rightarrow> length s | Some n \<Rightarrow> n + 2)
         else drop i s)"
  by pat_completeness auto
termination
proof (relation "measure (\<lambda>(s, i). length s - i)", goal_cases)
  case 1
  then show ?case by simp
next
  case (2 s i0 i)
  then have "i0 \<le> i" "i < length s" by (auto simp: skip_space_def char_at_def)
  then show ?case using index_of_ge [of "[0x0A]" s i] by (auto split: option.split)
next
  case (3 s i0 i)
  then have "i0 \<le> i" "i < length s" by (auto simp: skip_space_def char_at_def)
  then show ?case using index_of_ge [of "of_chars ''*/''" s "i + 2"] by (auto split: option.split)
qed

declare strip_from.simps [simp del]

definition strip_leading_trivia :: "js_string \<Rightarrow> js_string" where
  "strip_leading_trivia s = strip_from s 0"

definition has_sql_statement :: "js_string \<Rightarrow> bool" where
  "has_sql_statement s \<longleftrightarrow> trim (strip_leading_trivia s) \<noteq> []"

definition leading_keyword :: "js_string \<Rightarrow> js_string" where
  "leading_keyword s = map to_upper (takeWhile letter (strip_leading_trivia s))"

definition NON_WRITE_KEYWORDS :: "js_string list" where
  "NON_WRITE_KEYWORDS = map of_chars [''SELECT'', ''EXPLAIN'', ''BEGIN'', ''COMMIT'', ''END'',
     ''ROLLBACK'', ''SAVEPOINT'', ''RELEASE'']"

definition is_write :: "js_string \<Rightarrow> bool" where
  "is_write s \<longleftrightarrow> leading_keyword s \<notin> set NON_WRITE_KEYWORDS"

section \<open>The change a statement makes\<close>

datatype state_change = NoChange | BeginTxn "js_string option" | CommitTxn "js_string option"
  | RollbackTxn "js_string option"

definition wrapped :: "js_string \<Rightarrow> char \<Rightarrow> char \<Rightarrow> bool" where
  "wrapped s l r \<longleftrightarrow> s \<noteq> [] \<and> hd s = ch l \<and> last s = ch r"

definition savepoint_name :: "js_string \<Rightarrow> js_string" where
  "savepoint_name raw =
     (let unquoted =
        (if wrapped raw CHR 0x22 CHR 0x22 \<or> wrapped raw CHR 0x27 CHR 0x27 \<or> wrapped raw CHR 0x60 CHR 0x60
         then butlast (tl raw)
         else if wrapped raw CHR ''['' CHR '']'' then butlast (tl raw) else raw)
      in map to_lower unquoted)"

definition drop_semicolon :: "js_string \<Rightarrow> js_string" where
  "drop_semicolon s = (if s \<noteq> [] \<and> last s = ch CHR '';'' then butlast s else s)"

definition rx_group :: "nat \<Rightarrow> (nat \<times> js_string) list \<Rightarrow> js_exn + js_string" where
  "rx_group n g = (case map_of g n of None \<Rightarrow> Inl (Failure ''SQL pattern group did not match'') | Some v \<Rightarrow> Inr v)"

definition named :: "(js_string option \<Rightarrow> state_change) \<Rightarrow> nat \<Rightarrow> (nat \<times> js_string) list \<Rightarrow> js_exn + state_change" where
  "named c n g = map_sum id (\<lambda>v. c (Some (savepoint_name v))) (rx_group n g)"

definition control_text :: "js_string \<Rightarrow> js_string" where
  "control_text sql = trim_end (drop_semicolon (trim (strip_leading_trivia sql)))"

definition classify :: "js_string \<Rightarrow> js_exn + state_change" where
  "classify sql =
     (let statement = control_text sql
      in case rx_exec RX_ROLLBACK_TO statement of Some g \<Rightarrow> named RollbackTxn 3 g | None \<Rightarrow>
      (if rx_exec RX_ROLLBACK statement \<noteq> None then Inr (RollbackTxn None) else
      (case rx_exec RX_SAVEPOINT statement of Some g \<Rightarrow> named BeginTxn 1 g | None \<Rightarrow>
      (if rx_exec RX_BEGIN statement \<noteq> None then Inr (BeginTxn None) else
      (case rx_exec RX_RELEASE statement of Some g \<Rightarrow> named CommitTxn 2 g | None \<Rightarrow>
      (if rx_exec RX_COMMIT statement \<noteq> None then Inr (CommitTxn None) else
      (if rx_test_boundary RX_TRANSACTION_KEYWORD statement
       then Inl (Failure ''Unrecognized transaction-control statement'') else Inr NoChange)))))))"

section \<open>Transaction control is never announced as a write\<close>

lemma strip_from_hd: "strip_from s i = [] \<or> \<not> js_space (hd (strip_from s i))"
proof (induction s i rule: strip_from.induct)
  case (1 s i0)
  have "drop (skip_space s i0) s = dropWhile js_space (drop i0 s)"
    by (simp add: skip_space_def dropWhile_eq_drop add.commute)
  then have "drop (skip_space s i0) s = [] \<or> \<not> js_space (hd (drop (skip_space s i0) s))"
    using hd_dropWhile by metis
  with 1 show ?case by (subst (1 2) strip_from.simps) (auto simp: Let_def)
qed

lemma trim_end_split: "\<exists>r. s = trim_end s @ r \<and> (\<forall>c \<in> set r. js_space c)"
proof (intro exI conjI)
  have "rev s = takeWhile js_space (rev s) @ dropWhile js_space (rev s)" by simp
  then show "s = trim_end s @ rev (takeWhile js_space (rev s))"
    unfolding trim_end_def by (metis rev_append rev_rev_ident)
  show "\<forall>c \<in> set (rev (takeWhile js_space (rev s))). js_space c" by (auto dest: set_takeWhileD)
qed

lemma space_not_word: "js_space c \<Longrightarrow> \<not> word_char c"
  by (auto simp: js_space_def word_char_def letter_def lower_letter_def upper_letter_def js_digit_def
      word_le_nat_alt)

lemma drop_semicolon_split: "\<exists>r. s = drop_semicolon s @ r \<and> (\<forall>c \<in> set r. c = ch CHR '';'')"
proof (cases "s \<noteq> [] \<and> last s = ch CHR '';''")
  case True
  then obtain u where "s = u @ [ch CHR '';'']" by (metis append_butlast_last_id)
  then show ?thesis by (simp add: drop_semicolon_def)
next
  case False
  then show ?thesis by (auto simp: drop_semicolon_def)
qed

lemma control_text_split:
  "\<exists>r. strip_leading_trivia sql = control_text sql @ r \<and> (\<forall>c \<in> set r. \<not> word_char c)"
proof -
  let ?s = "strip_leading_trivia sql"
  have "dropWhile js_space ?s = ?s"
    using strip_from_hd [of sql 0] by (cases ?s) (simp_all add: strip_leading_trivia_def)
  then have ct: "control_text sql = trim_end (drop_semicolon (trim_end ?s))"
    by (simp add: control_text_def trim_def)
  obtain r1 where r1: "?s = trim_end ?s @ r1" "\<forall>c \<in> set r1. js_space c" using trim_end_split by blast
  obtain r2 where r2: "trim_end ?s = drop_semicolon (trim_end ?s) @ r2" "\<forall>c \<in> set r2. c = ch CHR '';''"
    using drop_semicolon_split by blast
  obtain r3 where r3: "drop_semicolon (trim_end ?s) = control_text sql @ r3" "\<forall>c \<in> set r3. js_space c"
    unfolding ct using trim_end_split by blast
  have "\<not> word_char (ch CHR '';'')"
    by (simp add: word_char_def letter_def lower_letter_def upper_letter_def js_digit_def)
  then have "\<forall>c \<in> set (r3 @ r2 @ r1). \<not> word_char c"
    using r1(2) r2(2) r3(2) space_not_word by auto
  moreover have "?s = control_text sql @ r3 @ r2 @ r1"
    by (metis append.assoc r1(1) r2(1) r3(1))
  ultimately show ?thesis by blast
qed

lemma letter_word: "letter c \<Longrightarrow> word_char c"
  by (simp add: word_char_def)

lemma leading_keyword_control: "leading_keyword sql = map to_upper (takeWhile letter (control_text sql))"
proof -
  obtain r where r: "strip_leading_trivia sql = control_text sql @ r" "\<forall>c \<in> set r. \<not> word_char c"
    using control_text_split by blast
  from r(2) have "takeWhile letter r = []" using letter_word by (cases r) auto
  then show ?thesis by (auto simp: leading_keyword_def r(1) takeWhile_append takeWhile_eq_all_conv [THEN iffD2])
qed

lemma rx_run_Seq:
  "(u, g, t') \<in> set (rx_run (Seq r q) s) \<longleftrightarrow> (\<exists>v h t w k. (v, h, t) \<in> set (rx_run r s) \<and>
     (w, k, t') \<in> set (rx_run q t) \<and> u = v @ w \<and> g = h @ k)"
  by (auto simp: image_iff) (metis case_prod_conv)+

lemma rx_exec_iff: "rx_exec r s \<noteq> None \<longleftrightarrow> (\<exists>u g. (u, g, []) \<in> set (rx_run r s))"
  by (auto simp: rx_exec_def find_None_iff)

declare rx_run.simps(5) [simp del]

text \<open>A pattern that consumes something only where a space begins.\<close>

definition space_start :: "js_string \<Rightarrow> bool" where "space_start t \<longleftrightarrow> t \<noteq> [] \<and> js_space (hd t)"

definition needs_space :: "rx \<Rightarrow> bool" where
  "needs_space r \<longleftrightarrow> (\<forall>t u g t'. (u, g, t') \<in> set (rx_run r t) \<longrightarrow> t' = t \<or> space_start t)"

lemma prefixes_down_mem:
  "(u, g, t') \<in> set (prefixes_down lo hi s) \<longleftrightarrow> (\<exists>k. lo \<le> k \<and> k \<le> hi \<and> u = take k s \<and> g = [] \<and> t' = drop k s)"
  by (auto simp: prefixes_down_def image_iff less_Suc_eq_le simp del: upt_Suc)

lemma needs_space_sp: "needs_space (Seq sp q)"
proof -
  have "space_start t" if "1 \<le> length (takeWhile js_space t)" for t
    using that by (cases t) (auto simp: space_start_def split: if_splits)
  then show ?thesis by (fastforce simp: needs_space_def prefixes_down_mem rx_run_Seq)
qed

lemma needs_space_Opt: "needs_space r \<Longrightarrow> needs_space (Opt r)"
  by (auto simp: needs_space_def)

lemma needs_space_Seq: "needs_space r \<Longrightarrow> needs_space q \<Longrightarrow> needs_space (Seq r q)"
  unfolding needs_space_def rx_run_Seq by metis

lemmas needs_space_intros = needs_space_sp needs_space_Opt needs_space_Seq

definition upper_text :: "js_string \<Rightarrow> bool" where "upper_text w \<longleftrightarrow> (\<forall>c \<in> set w. upper_letter c)"

lemma to_upper_upper: "upper_letter (to_upper c) \<Longrightarrow> letter c"
  by (auto simp: to_upper_def letter_def split: if_splits)

lemma to_upper_id: "upper_text w \<Longrightarrow> map to_upper w = w"
proof -
  have "to_upper c = c" if "upper_letter c" for c
    using that by (auto simp: to_upper_def upper_letter_def lower_letter_def word_le_nat_alt)
  then show "upper_text w \<Longrightarrow> map to_upper w = w" by (auto simp: upper_text_def intro!: map_idI)
qed

lemma keyword_match:
  assumes "(u, g, t) \<in> set (rx_run (Word w) s)" "upper_text w" "t = [] \<or> \<not> letter (hd t)"
  shows "map to_upper (takeWhile letter s) = w"
proof -
  have u: "s = u @ t" "map to_upper u = w"
    using assms(1) to_upper_id [OF assms(2)] by (auto split: if_splits)
  have "\<forall>c \<in> set u. letter c"
    using assms(2) to_upper_upper unfolding upper_text_def u(2) [symmetric] by auto
  moreover have "takeWhile letter t = []" using assms(3) by (cases t) auto
  ultimately show ?thesis using u by (simp add: takeWhile_append)
qed

lemma space_not_letter: "space_start t \<Longrightarrow> \<not> letter (hd t)"
  using space_not_word letter_word by (auto simp: space_start_def)

lemma rx_exec_keyword:
  assumes "rx_exec (Seq (Word w) q) s \<noteq> None" "upper_text w" "needs_space q"
  shows "map to_upper (takeWhile letter s) = w"
proof -
  obtain v h t w' h' where m: "(v, h, t) \<in> set (rx_run (Word w) s)" "(w', h', []) \<in> set (rx_run q t)"
    using assms(1) unfolding rx_exec_iff rx_run_Seq by blast
  then have "t = [] \<or> space_start t" using assms(3) unfolding needs_space_def by metis
  then show ?thesis using keyword_match [OF m(1) assms(2)] space_not_letter by blast
qed

lemma rx_exec_keywords:
  assumes "rx_exec (Seq (Alt (Word w) (Word w')) q) s \<noteq> None"
  shows "rx_exec (Seq (Word w) q) s \<noteq> None \<or> rx_exec (Seq (Word w') q) s \<noteq> None"
  using assms unfolding rx_exec_iff rx_run_Seq rx_run.simps(6) set_append by blast

lemma upper_text_of_chars: "list_all (\<lambda>c. CHR ''A'' \<le> c \<and> c \<le> CHR ''Z'') k \<Longrightarrow> upper_text (of_chars k)"
proof -
  have "upper_letter (ch c)" if "CHR ''A'' \<le> c" "c \<le> CHR ''Z''" for c
  proof -
    have b: "(65::nat) \<le> of_char c" "(of_char c :: nat) \<le> 90"
      using that by (simp_all add: less_eq_char_def)
    then have "unat (ch c) = of_char c" by (simp add: unat_of_nat)
    then show ?thesis using b by (simp add: upper_letter_def word_le_nat_alt)
  qed
  then show "list_all (\<lambda>c. CHR ''A'' \<le> c \<and> c \<le> CHR ''Z'') k \<Longrightarrow> upper_text (of_chars k)"
    by (auto simp: upper_text_def of_chars_def list_all_iff)
qed


lemma rx_test_boundaryI:
  assumes "(u, g, t) \<in> set (rx_run r s)" "t = [] \<or> \<not> word_char (hd t)"
  shows "rx_test_boundary r s"
  unfolding rx_test_boundary_def list_ex_iff
  by (rule bexI [OF _ assms(1)]) (use assms(2) in \<open>cases t; simp\<close>)

lemma named_neq: "named BeginTxn n g \<noteq> Inr NoChange" "named CommitTxn n g \<noteq> Inr NoChange"
  "named RollbackTxn n g \<noteq> Inr NoChange"
  by (cases "rx_group n g"; simp add: named_def)+

definition CONTROL_KEYWORDS :: "js_string set" where
  "CONTROL_KEYWORDS = of_chars ` {''BEGIN'', ''COMMIT'', ''END'', ''ROLLBACK'', ''SAVEPOINT'', ''RELEASE''}"

lemma control_upper: "w \<in> CONTROL_KEYWORDS \<Longrightarrow> upper_text w"
  by (auto simp: CONTROL_KEYWORDS_def intro!: upper_text_of_chars)

lemma control_patterns:
  assumes "leading_keyword sql \<notin> CONTROL_KEYWORDS"
  shows "rx_exec RX_ROLLBACK_TO (control_text sql) = None" "rx_exec RX_ROLLBACK (control_text sql) = None"
    "rx_exec RX_SAVEPOINT (control_text sql) = None" "rx_exec RX_BEGIN (control_text sql) = None"
    "rx_exec RX_RELEASE (control_text sql) = None" "rx_exec RX_COMMIT (control_text sql) = None"
proof -
  let ?s = "control_text sql"
  have k: "rx_exec (Seq (Word w) q) ?s = None" if "w \<in> CONTROL_KEYWORDS" "needs_space q" for w q
    using rx_exec_keyword [of w q ?s] control_upper [OF that(1)] that assms
    unfolding leading_keyword_control by metis
  have in_kw: "of_chars ''BEGIN'' \<in> CONTROL_KEYWORDS" "of_chars ''COMMIT'' \<in> CONTROL_KEYWORDS"
    "of_chars ''END'' \<in> CONTROL_KEYWORDS" "of_chars ''ROLLBACK'' \<in> CONTROL_KEYWORDS"
    "of_chars ''SAVEPOINT'' \<in> CONTROL_KEYWORDS" "of_chars ''RELEASE'' \<in> CONTROL_KEYWORDS"
    by (simp_all add: CONTROL_KEYWORDS_def)
  show "rx_exec RX_ROLLBACK_TO ?s = None" "rx_exec RX_ROLLBACK ?s = None" "rx_exec RX_SAVEPOINT ?s = None"
    "rx_exec RX_BEGIN ?s = None" "rx_exec RX_RELEASE ?s = None"
    unfolding RX_ROLLBACK_TO_def RX_ROLLBACK_def RX_SAVEPOINT_def RX_BEGIN_def RX_RELEASE_def
    by (intro k in_kw needs_space_intros)+
  show "rx_exec RX_COMMIT ?s = None"
    using rx_exec_keywords k [OF in_kw(2) needs_space_Opt [OF needs_space_sp]]
      k [OF in_kw(3) needs_space_Opt [OF needs_space_sp]]
    unfolding RX_COMMIT_def by blast
qed

lemma control_keyword:
  assumes "classify sql = Inr c" "c \<noteq> NoChange"
  shows "leading_keyword sql \<in> CONTROL_KEYWORDS"
  using control_patterns [of sql] assms unfolding classify_def Let_def
  by (auto split: option.splits if_splits)

lemma classify_data:
  assumes "leading_keyword sql \<notin> CONTROL_KEYWORDS"
  shows "classify sql = Inr NoChange"
proof -
  let ?s = "control_text sql"
  have "\<not> rx_test_boundary RX_TRANSACTION_KEYWORD ?s"
  proof
    assume "rx_test_boundary RX_TRANSACTION_KEYWORD ?s"
    then obtain u g t where m: "(u, g, t) \<in> set (rx_run RX_TRANSACTION_KEYWORD ?s)" "t = [] \<or> \<not> word_char (hd t)"
      unfolding rx_test_boundary_def list_ex_iff by (fastforce split: list.splits)
    then obtain w where w: "w \<in> CONTROL_KEYWORDS" "(u, g, t) \<in> set (rx_run (Word w) ?s)"
      unfolding RX_TRANSACTION_KEYWORD_def rx_run.simps(6) set_append CONTROL_KEYWORDS_def by blast
    have "map to_upper (takeWhile letter ?s) = w"
      by (rule keyword_match [OF w(2) control_upper [OF w(1)]]) (use m(2) letter_word in blast)
    then show False using assms w(1) by (simp add: leading_keyword_control)
  qed
  then show ?thesis using control_patterns [OF assms] by (simp add: classify_def Let_def)
qed

lemma control_not_write: "classify sql = Inr c \<Longrightarrow> c \<noteq> NoChange \<Longrightarrow> \<not> is_write sql"
  using control_keyword [of sql c] by (auto simp: is_write_def NON_WRITE_KEYWORDS_def CONTROL_KEYWORDS_def)

text \<open>
  C24. Every statement the runtime executes is transaction control, a query, or announced as a write.
  Whatever the text, if it is classified at all then a change of the transaction stack is never taken
  for a write (so an automatic \<open>BEGIN\<close> does not call the write callback again), and a statement that
  changes nothing and is not announced starts with the letters SELECT or EXPLAIN, unless its first word
  only begins with a transaction keyword, which is no SQL statement.
\<close>

theorem sql_write_classification:
  assumes "classify sql = Inr c"
  shows "(c \<noteq> NoChange \<longrightarrow> \<not> is_write sql) \<and>
    (c = NoChange \<longrightarrow> \<not> is_write sql \<longrightarrow>
       leading_keyword sql \<in> of_chars ` {''SELECT'', ''EXPLAIN''} \<or>
       (\<exists>d t. strip_leading_trivia sql = takeWhile letter (strip_leading_trivia sql) @ d # t \<and> word_char d))"
proof (intro conjI impI)
  assume "c \<noteq> NoChange"
  with control_not_write [OF assms] show "\<not> is_write sql" .
next
  assume c: "c = NoChange" "\<not> is_write sql"
  let ?s = "control_text sql"
  show "leading_keyword sql \<in> of_chars ` {''SELECT'', ''EXPLAIN''} \<or>
       (\<exists>d t. strip_leading_trivia sql = takeWhile letter (strip_leading_trivia sql) @ d # t \<and> word_char d)"
  proof (rule disjCI)
    assume no: "\<not> (\<exists>d t. strip_leading_trivia sql = takeWhile letter (strip_leading_trivia sql) @ d # t \<and> word_char d)"
    have off: "\<not> rx_test_boundary RX_TRANSACTION_KEYWORD ?s"
      using assms c(1) unfolding classify_def Let_def
      by (auto simp: named_neq split: option.splits if_splits)
    have differs: "leading_keyword sql \<noteq> w"
      if w: "upper_text w" "set (rx_run (Word w) ?s) \<subseteq> set (rx_run RX_TRANSACTION_KEYWORD ?s)" for w
    proof
      assume kw: "leading_keyword sql = w"
      define u where "u = takeWhile letter ?s"
      obtain t where t: "?s = u @ t" "t = dropWhile letter ?s" by (simp add: u_def)
      have len: "length w = length u" using kw by (auto simp: leading_keyword_control u_def)
      have "map to_upper u = map to_upper w"
        using kw to_upper_id [OF w(1)] unfolding leading_keyword_control u_def by simp
      moreover have "take (length w) ?s = u" "drop (length w) ?s = t" using t(1) len by (metis append_eq_conv_conj)+
      ultimately have "(u, [], t) \<in> set (rx_run (Word w) ?s)" by simp
      then have hit: "(u, [], t) \<in> set (rx_run RX_TRANSACTION_KEYWORD ?s)" by (rule subsetD [OF w(2)])
      then have "\<not> (t = [] \<or> \<not> word_char (hd t))" using off rx_test_boundaryI by blast
      then have "t \<noteq> []" "word_char (hd t)" by blast+
      moreover define d t' where "d = hd t" "t' = tl t"
      ultimately have d: "t = d # t'" "word_char d" by simp_all
      obtain r where r: "strip_leading_trivia sql = ?s @ r" "\<forall>c \<in> set r. \<not> word_char c"
        using control_text_split by blast
      have "\<not> letter d" using t(2) d(1) by (metis hd_dropWhile list.discI list.sel(1))
      moreover have "\<forall>c \<in> set u. letter c" using set_takeWhileD unfolding u_def by fast
      ultimately have "takeWhile letter (u @ d # t' @ r) = u" by (simp add: takeWhile_append)
      then have "takeWhile letter (strip_leading_trivia sql) = u" unfolding r(1) using t(1) d(1) by simp
      then show False using no r(1) t(1) d by auto
    qed
    have "leading_keyword sql \<noteq> of_chars k"
      if "k \<in> {''BEGIN'', ''COMMIT'', ''END'', ''ROLLBACK'', ''SAVEPOINT'', ''RELEASE''}" for k
    proof (rule differs)
      show "upper_text (of_chars k)" using that by (auto intro!: upper_text_of_chars)
      show "set (rx_run (kw k) ?s) \<subseteq> set (rx_run RX_TRANSACTION_KEYWORD ?s)"
        using that unfolding RX_TRANSACTION_KEYWORD_def rx_run.simps(6) set_append by blast
    qed
    then have "leading_keyword sql \<notin> of_chars ` {''BEGIN'', ''COMMIT'', ''END'', ''ROLLBACK'', ''SAVEPOINT'', ''RELEASE''}"
      by blast
    with c(2) show "leading_keyword sql \<in> of_chars ` {''SELECT'', ''EXPLAIN''}"
      by (auto simp: is_write_def NON_WRITE_KEYWORDS_def)
  qed
qed

lemma sql_write_classification_witness: "\<not> is_write (of_chars '' /* tx */ begin;'')"
proof -
  have "classify (of_chars '' /* tx */ begin;'') = Inr (BeginTxn None)" by code_simp
  from sql_write_classification [OF this] show ?thesis by simp
qed

section \<open>The statements the runtime writes itself\<close>

text \<open>A plain identifier, which is what the runtime's own savepoint names are.\<close>

definition ident :: "js_string \<Rightarrow> bool" where
  "ident n \<longleftrightarrow> n \<noteq> [] \<and> (letter (hd n) \<or> hd n = ch CHR ''_'') \<and> (\<forall>c \<in> set n. word_char c)"

lemma ident_facts:
  assumes "ident n"
  shows "n \<noteq> []" "\<forall>c \<in> set n. \<not> js_space c" "\<forall>c \<in> set n. c \<noteq> ch CHR '';''" "takeWhile js_space n = []"
    "hd n \<notin> {ch CHR 0x22, ch CHR 0x27, ch CHR 0x60, ch CHR ''[''}"
    "takeWhile (\<lambda>c. word_char c \<or> c = ch CHR ''$'') (tl n) = tl n"
proof -
  show ne: "n \<noteq> []" and ns: "\<forall>c \<in> set n. \<not> js_space c" using assms space_not_word by (auto simp: ident_def)
  have nw: "\<not> word_char (ch CHR '';'')" "\<not> word_char (ch CHR 0x22)" "\<not> word_char (ch CHR 0x27)"
    "\<not> word_char (ch CHR 0x60)" "\<not> word_char (ch CHR ''['')"
    by (simp_all add: word_char_def letter_def lower_letter_def upper_letter_def js_digit_def)
  show "\<forall>c \<in> set n. c \<noteq> ch CHR '';''" using assms nw(1) unfolding ident_def by blast
  show "takeWhile js_space n = []" using ns ne by (cases n) auto
  have "word_char (hd n)" using assms ne by (simp add: ident_def)
  then show "hd n \<notin> {ch CHR 0x22, ch CHR 0x27, ch CHR 0x60, ch CHR ''[''}" using nw by auto
  show "takeWhile (\<lambda>c. word_char c \<or> c = ch CHR ''$'') (tl n) = tl n"
    using assms ne by (cases n) (auto simp: ident_def takeWhile_eq_all_conv)
qed

lemma NAME_run: "ident n \<Longrightarrow> \<exists>ms. rx_run (NAME k) n = (n, [(k, n)], []) # ms"
proof -
  assume i: "ident n"
  then obtain c cs where n: "n = c # cs" by (cases n) (auto simp: ident_def)
  note f = ident_facts [OF i, unfolded n]
  have "\<exists>ms. prefixes_down 0 (length cs) cs = (cs, [], []) # ms" by (simp add: prefixes_down_def)
  then obtain ms where ms: "prefixes_down 0 (length cs) cs = (cs, [], []) # ms" by blast
  have q: "rx_run (quoted l r) (c # cs) = []" if "c \<noteq> ch l" for l r
    using that by (simp add: quoted_def rx_run.simps(5))
  let ?P = "\<lambda>c. word_char c \<or> c = ch CHR ''$''"
  have "takeWhile ?P cs = cs" using f(6) unfolding list.sel .
  then have "prefixes_down 0 (length (takeWhile ?P cs)) cs = (cs, [], []) # ms" using ms by metis
  moreover have "letter c \<or> c = ch CHR ''_''" using i n by (simp add: ident_def)
  ultimately have "rx_run (Seq (One (\<lambda>c. letter c \<or> c = ch CHR ''_'')) (Many0 ?P)) n =
      (n, [], []) # map (\<lambda>(v, h, t'). (c # v, h, t')) ms"
    by (simp add: n rx_run.simps(5))
  then show ?thesis using f(5) unfolding NAME_def n by (simp add: q)
qed

lemma space_NAME_run:
  assumes "ident n"
  shows "\<exists>ms. rx_run (Seq sp (NAME k)) (0x20 # n) = (0x20 # n, [(k, n)], []) # ms"
proof -
  obtain ms where "rx_run (NAME k) n = (n, [(k, n)], []) # ms" using NAME_run [OF assms] by blast
  moreover have "js_space 0x20" by (simp add: js_space_def)
  ultimately show ?thesis using ident_facts(4) [OF assms] by (simp add: rx_run.simps(5) prefixes_down_def)
qed

lemma no_space_run: "takeWhile js_space t = [] \<Longrightarrow> rx_run (Seq sp q) t = []"
  by (simp add: rx_run.simps(5) prefixes_down_def)

lemma control_text_plain:
  assumes "s \<noteq> []" "word_char (hd s)" "word_char (last s)"
  shows "control_text s = s"
proof -
  have h: "\<not> js_space (hd s)" "\<not> js_space (last s)" using assms space_not_word by blast+
  have "\<not> word_char (ch CHR ''-'')" "\<not> word_char (ch CHR ''/'')" "\<not> word_char (ch CHR '';'')"
    by (simp_all add: word_char_def letter_def lower_letter_def upper_letter_def js_digit_def)
  then have c: "hd s \<noteq> ch CHR ''-''" "hd s \<noteq> ch CHR ''/''" "last s \<noteq> ch CHR '';''" using assms by metis+
  have "takeWhile js_space s = []" using h(1) assms(1) by (cases s) auto
  then have "strip_leading_trivia s = s"
    using c(1,2) assms(1) unfolding strip_leading_trivia_def
    by (subst strip_from.simps) (simp add: skip_space_def char_at_def Let_def hd_conv_nth)
  moreover have "dropWhile js_space s = s" using h(1) by (cases s) auto
  moreover have "trim_end s = s" using h(2) assms(1) by (cases s rule: rev_cases) (simp_all add: trim_end_def)
  ultimately show ?thesis using c(3) by (simp add: control_text_def trim_def drop_semicolon_def)
qed

lemma ident_last: "ident n \<Longrightarrow> last (s @ n) = last n \<and> word_char (last n)"
  by (auto simp: ident_def)

lemma savepoint_name_ident: "ident n \<Longrightarrow> savepoint_name n = map to_lower n"
  using ident_facts(5) [of n] by (auto simp: savepoint_name_def wrapped_def)

lemma classify_savepoint:
  assumes "ident n"
  shows "classify (of_chars ''SAVEPOINT '' @ n) = Inr (BeginTxn (Some (savepoint_name n)))"
proof -
  have "control_text (of_chars ''SAVEPOINT '' @ n) = of_chars ''SAVEPOINT '' @ n"
    by (rule control_text_plain)
      (use ident_last [OF assms] ident_facts(1) [OF assms] in \<open>simp_all add: of_chars_def word_char_def letter_def upper_letter_def\<close>)
  moreover obtain ms where "rx_run (Seq sp (NAME 1)) (0x20 # n) = (0x20 # n, [(1, n)], []) # ms"
    using space_NAME_run [OF assms] by blast
  ultimately show ?thesis
    by (simp add: classify_def Let_def RX_ROLLBACK_TO_def RX_ROLLBACK_def RX_SAVEPOINT_def rx_exec_def
        rx_run.simps(5) [of "Word _"] of_chars_def to_upper_def lower_letter_def named_def rx_group_def)
qed

lemma classify_release:
  assumes "ident n"
  shows "classify (of_chars ''RELEASE '' @ n) = Inr (CommitTxn (Some (savepoint_name n)))"
proof -
  have "control_text (of_chars ''RELEASE '' @ n) = of_chars ''RELEASE '' @ n"
    by (rule control_text_plain)
      (use ident_last [OF assms] ident_facts(1) [OF assms] in \<open>simp_all add: of_chars_def word_char_def letter_def upper_letter_def\<close>)
  moreover obtain ms where ms: "rx_run (Seq sp (NAME 2)) (0x20 # n) = (0x20 # n, [(2, n)], []) # ms"
    using space_NAME_run [OF assms] by blast
  moreover have "rx_run (Seq (Opt (Seq sp (kw ''SAVEPOINT''))) (Seq sp (NAME 2))) (0x20 # n) =
      rx_run (Seq sp (NAME 2)) (0x20 # n)"
  proof -
    have "rx_run (Seq sp (NAME 2)) (drop k n) = []" for k
    proof (rule no_space_run)
      have "\<forall>c \<in> set (drop k n). \<not> js_space c" using ident_facts(2) [OF assms] set_drop_subset [of k n] by blast
      then show "takeWhile js_space (drop k n) = []" by (cases "drop k n") auto
    qed
    moreover have "rx_run sp (0x20 # n) = [([0x20], [], n)]"
      using ident_facts(4) [OF assms] by (simp add: prefixes_down_def js_space_def)
    ultimately show ?thesis by (simp add: rx_run.simps(5) [of "Opt _"] rx_run.simps(5) [of sp "Word _"] split_def)
  qed
  ultimately show ?thesis
    by (simp add: classify_def Let_def RX_ROLLBACK_TO_def RX_ROLLBACK_def RX_SAVEPOINT_def RX_BEGIN_def
        RX_RELEASE_def rx_exec_def rx_run.simps(5) [of "Word _"] of_chars_def to_upper_def
        lower_letter_def named_def rx_group_def)
qed

lemma classify_rollback_to:
  assumes "ident n"
  shows "classify (of_chars ''ROLLBACK TO '' @ n) = Inr (RollbackTxn (Some (savepoint_name n)))"
proof -
  have ct: "control_text (of_chars ''ROLLBACK TO '' @ n) = of_chars ''ROLLBACK TO '' @ n"
    by (rule control_text_plain)
      (use ident_last [OF assms] ident_facts(1) [OF assms] in \<open>simp_all add: of_chars_def word_char_def letter_def upper_letter_def\<close>)
  obtain ms where ms: "rx_run (Seq sp (NAME 3)) (0x20 # n) = (0x20 # n, [(3, n)], []) # ms"
    using space_NAME_run [OF assms] by blast
  moreover have "rx_run (Seq (Opt (Seq sp (kw ''SAVEPOINT''))) (Seq sp (NAME 3))) (0x20 # n) =
      rx_run (Seq sp (NAME 3)) (0x20 # n)"
  proof -
    have "rx_run (Seq sp (NAME 3)) (drop k n) = []" for k
    proof (rule no_space_run)
      have "\<forall>c \<in> set (drop k n). \<not> js_space c" using ident_facts(2) [OF assms] set_drop_subset [of k n] by blast
      then show "takeWhile js_space (drop k n) = []" by (cases "drop k n") auto
    qed
    moreover have "rx_run sp (0x20 # n) = [([0x20], [], n)]"
      using ident_facts(4) [OF assms] by (simp add: prefixes_down_def js_space_def)
    ultimately show ?thesis by (simp add: rx_run.simps(5) [of "Opt _"] rx_run.simps(5) [of sp "Word _"] split_def)
  qed
  ultimately have x: "rx_run (Seq (Opt (Seq sp (kw ''SAVEPOINT''))) (Seq sp (NAME 3))) (0x20 # n) =
      (0x20 # n, [(3, n)], []) # ms" by simp
  let ?x = "Seq (Opt (Seq sp (kw ''SAVEPOINT''))) (Seq sp (NAME 3))" and ?t = "0x54 # 0x4F # 0x20 # n"
  have sp: "rx_run sp (0x20 # 0x54 # m) = [([0x20], [], 0x54 # m)]" for m
    by (simp add: prefixes_down_def)
  have "rx_run (Seq (kw ''TO'') ?x) ?t = (?t, [(3, n)], []) # map (\<lambda>(v, h, t). (0x54 # 0x4F # v, h, t)) ms"
    unfolding rx_run.simps(5) [of "Word _"] using x by (simp add: of_chars_def to_upper_def lower_letter_def)
  then obtain ms1 where "rx_run (Seq (kw ''TO'') ?x) ?t = (?t, [(3, n)], []) # ms1" by blast
  then have "rx_run (Seq sp (Seq (kw ''TO'') ?x)) (0x20 # ?t) =
      (0x20 # ?t, [(3, n)], []) # map (\<lambda>(v, h, t). (0x20 # v, h, t)) ms1"
    unfolding rx_run.simps(5) [of sp] sp by simp
  then obtain ms2 where y: "rx_run (Seq sp (Seq (kw ''TO'') ?x)) (0x20 # ?t) = (0x20 # ?t, [(3, n)], []) # ms2" by blast
  have "rx_run (Opt (Seq sp (kw ''TRANSACTION''))) (0x20 # ?t) = [([], [], 0x20 # ?t)]"
    unfolding rx_run.simps(7) rx_run.simps(5) [of sp] sp by (simp add: of_chars_def to_upper_def lower_letter_def)
  then have "rx_run (Seq (Opt (Seq sp (kw ''TRANSACTION''))) (Seq sp (Seq (kw ''TO'') ?x))) (0x20 # ?t) =
      (0x20 # ?t, [(3, n)], []) # ms2"
    unfolding rx_run.simps(5) [of "Opt _"] using y by (simp add: split_def)
  then have "rx_exec RX_ROLLBACK_TO (of_chars ''ROLLBACK TO '' @ n) = Some [(3, n)]"
    unfolding RX_ROLLBACK_TO_def rx_exec_def rx_run.simps(5) [of "Word _"]
    by (simp add: of_chars_def to_upper_def lower_letter_def)
  with ct show ?thesis by (simp add: classify_def named_def rx_group_def)
qed

text \<open>Evaluating the keyword and the control text of a literal text.\<close>

lemma strip_chars:
  assumes "dropWhile (\<lambda>c. js_space (ch c)) s = c # t" "letter (ch c)"
  shows "strip_leading_trivia (of_chars s) = of_chars (c # t)"
proof -
  have d: "dropWhile js_space (of_chars s) = of_chars (c # t)"
    using assms(1) by (simp add: of_chars_def dropWhile_map comp_def)
  have sk: "drop (skip_space (of_chars s) 0) (of_chars s) = of_chars (c # t)"
    using d by (simp add: skip_space_def dropWhile_eq_drop)
  have "\<not> letter (ch CHR ''-'')" "\<not> letter (ch CHR ''/'')"
    by (simp_all add: letter_def lower_letter_def upper_letter_def)
  then have "ch c \<noteq> ch CHR ''-''" "ch c \<noteq> ch CHR ''/''" using assms(2) by metis+
  moreover have "of_chars s ! skip_space (of_chars s) 0 = ch c"
    using sk by (metis hd_drop_conv_nth list.sel(1) drop_all list.distinct(1) not_le of_chars_def comp_apply list.simps(9))
  ultimately show ?thesis using sk unfolding strip_leading_trivia_def
    by (subst strip_from.simps) (simp add: char_at_def Let_def)
qed

lemma leading_keyword_chars:
  assumes "dropWhile (\<lambda>c. js_space (ch c)) s = c # t" "letter (ch c)"
  shows "leading_keyword (of_chars s) = map (\<lambda>c. to_upper (ch c)) (takeWhile (\<lambda>c. letter (ch c)) (c # t))"
  unfolding leading_keyword_def strip_chars [OF assms] by (simp add: of_chars_def takeWhile_map comp_def)

lemma of_chars_apply: "of_chars s = map (\<lambda>c. ch c) s"
  by (simp add: of_chars_def)

lemma char_eval:
  "js_space 10" "js_space 32" "\<not> js_space 67" "\<not> js_space 68" "\<not> js_space 73" "\<not> js_space 82" "\<not> js_space 83"
  by (simp_all add: js_space_def)

lemma classify_cong: "control_text a = control_text b \<Longrightarrow> classify a = classify b"
  by (simp add: classify_def)

end
