(* ===== verification/Sqlite.thy ===== *)
theory Sqlite
  imports Sql_Text
begin

text \<open>
  \<open>SqliteDatabase\<close> of \<open>src/src/util/sqlite.ts\<close>: the loop that runs a text statement by statement, the
  stack of transactions and savepoints, and the callbacks registered with \<open>onRollback\<close>.

  The backend (\<open>SqlDatabase\<close>) is a parameter: a record of the functions the class calls, on a file of
  type \<open>'f\<close>. What lives beside the database is a memory of type \<open>'m\<close>: the callbacks and listeners
  the class calls (\<open>hooks\<close>) act on it, and a rollback callback is a value of type \<open>'c\<close> that one of the
  hooks carries out. The two stacks are lists with the newest element first.
\<close>

section \<open>Values and the backend\<close>

datatype sql_value = SText js_string | SNum int | SNull | SBlob bytes

record sql_result =
  rs_columns :: "js_string list"
  rs_rows :: "sql_value list list"
  rs_written :: nat

text \<open>\<open>SqlDatabaseStatement\<close>.\<close>

record 'f sql_statement =
  st_sql :: js_string
  st_params :: nat
  st_execute :: "sql_value list \<Rightarrow> 'f \<Rightarrow> (js_exn + sql_result) \<times> 'f"

text \<open>\<open>SqlDatabase\<close>.\<close>

record 'f sql_backend =
  be_prepare :: "js_string \<Rightarrow> 'f \<Rightarrow> js_exn + 'f sql_statement"
  be_in_transaction :: "'f \<Rightarrow> bool"
  be_reset :: "'f \<Rightarrow> (js_exn + unit) \<times> 'f"

definition SQL_WRONG_BINDINGS :: js_exn where
  "SQL_WRONG_BINDINGS = Failure ''Wrong number of parameter bindings for SQL query.''"
definition SQL_PRELUDE_BINDINGS :: js_exn where
  "SQL_PRELUDE_BINDINGS = Failure
     ''When executing multiple SQL statements in a single call, only the last statement can have parameters.''"
definition SQLITE_LENGTH_LIMIT :: nat where "SQLITE_LENGTH_LIMIT = 8 * 1024 * 1024 + 34"
definition SQLITE_TOOBIG :: js_exn where "SQLITE_TOOBIG = Failure ''string or blob too big: SQLITE_TOOBIG''"

definition require_sqlite_length :: "sql_value \<Rightarrow> js_exn + unit" where
  "require_sqlite_length v =
     (if (case v of SText s \<Rightarrow> length (utf8_encode s) | SBlob b \<Rightarrow> length b | _ \<Rightarrow> 0) > SQLITE_LENGTH_LIMIT
      then Inl SQLITE_TOOBIG else Inr ())"

section \<open>Snapshots\<close>

definition safe_name_char :: "16 word \<Rightarrow> bool" where
  "safe_name_char c \<longleftrightarrow> word_char c \<or> c = ch CHR ''-''"

definition require_safe_database_name :: "js_string \<Rightarrow> js_exn + unit" where
  "require_safe_database_name n =
     (if n \<noteq> [] \<and> list_all safe_name_char n then Inr ()
      else Inl (Failure ''Database name is not a safe file name''))"

definition SQLITE_HEADER :: bytes where "SQLITE_HEADER = map (of_nat \<circ> of_char) ''SQLite format 3''"

definition require_sqlite_database_image :: "bytes \<Rightarrow> js_exn + unit" where
  "require_sqlite_database_image img =
     (if length img < 512 \<or> length img mod 512 \<noteq> 0 \<or> take (length SQLITE_HEADER) img \<noteq> SQLITE_HEADER
      then Inl (Failure ''Snapshot entry is not a valid SQLite database image.'') else Inr ())"

fun require_databases :: "js_string list \<Rightarrow> (js_string \<times> bytes) list \<Rightarrow> js_exn + unit" where
  "require_databases names [] = Inr ()"
| "require_databases names ((name, img) # rest) =
     (case require_safe_database_name name of Inl e \<Rightarrow> Inl e | Inr _ \<Rightarrow>
       (if name \<in> set names then Inl (Failure ''SQLite snapshot contains duplicate database name'')
        else (case require_sqlite_database_image img of Inl e \<Rightarrow> Inl e | Inr _ \<Rightarrow>
          require_databases (name # names) rest)))"

definition require_valid_snapshot :: "int \<Rightarrow> (js_string \<times> bytes) list \<Rightarrow> js_exn + unit" where
  "require_valid_snapshot version databases =
     (if version \<noteq> 1 then Inl (Failure ''Unsupported SQLite snapshot format.'')
      else require_databases [] databases)"

section \<open>Columns\<close>

definition column :: "sql_value list \<Rightarrow> nat \<Rightarrow> sql_value option" where
  "column row i = (if i < length row then Some (row ! i) else None)"

definition is_null :: "sql_value list \<Rightarrow> nat \<Rightarrow> bool" where
  "is_null row i \<longleftrightarrow> column row i \<in> {None, Some SNull}"

definition get_blob :: "sql_value list \<Rightarrow> nat \<Rightarrow> js_exn + bytes" where
  "get_blob row i = (case column row i of Some (SBlob b) \<Rightarrow> Inr b | _ \<Rightarrow> Inl (Failure ''Expected a BLOB''))"

definition get_text :: "sql_value list \<Rightarrow> nat \<Rightarrow> js_exn + js_string" where
  "get_text row i = (case column row i of Some (SText s) \<Rightarrow> Inr s | _ \<Rightarrow> Inl (Failure ''Expected TEXT''))"

definition MAX_SAFE :: int where "MAX_SAFE = 2 ^ 53 - 1"

definition get_int64 :: "sql_value list \<Rightarrow> nat \<Rightarrow> js_exn + int" where
  "get_int64 row i =
     (case column row i of
        Some (SNum n) \<Rightarrow> (if \<bar>n\<bar> \<le> MAX_SAFE then Inr n else Inl (Failure ''Expected a safe integer''))
      | _ \<Rightarrow> Inl (Failure ''Expected a safe integer''))"

section \<open>State\<close>

record ('f, 'c, 'm) sqlite =
  sq_file :: 'f
  sq_callbacks :: "'c list"
  sq_savepoints :: "(js_string \<times> nat) list"
  sq_in_txn :: bool
  sq_critical :: "js_exn option"
  sq_mem :: 'm

type_synonym ('f, 'c, 'm, 'a) sqop = "(('f, 'c, 'm) sqlite, 'a) op"

record ('f, 'c, 'm) hooks =
  hk_on_write :: "bool \<Rightarrow> ('f, 'c, 'm, unit) sqop"
  hk_on_critical :: "js_exn \<Rightarrow> ('f, 'c, 'm, unit) sqop"
  hk_callback :: "'c \<Rightarrow> 'm \<Rightarrow> 'm"
  hk_before_reset :: "'m \<Rightarrow> 'm"

definition js_assert :: "bool \<Rightarrow> string \<Rightarrow> ('s, unit) op" where
  "js_assert b msg = (if b then op_return () else op_throw (Failure msg))"

definition txn_open :: "('f, 'c, 'm) sqlite \<Rightarrow> bool" where
  "txn_open s \<longleftrightarrow> sq_in_txn s \<or> sq_savepoints s \<noteq> []"

definition on_rollback :: "'c \<Rightarrow> ('f, 'c, 'm) sqlite \<Rightarrow> ('f, 'c, 'm) sqlite" where
  "on_rollback c s = (if txn_open s then s\<lparr>sq_callbacks := c # sq_callbacks s\<rparr> else s)"

definition assert_usable :: "('f, 'c, 'm, unit) sqop" where
  "assert_usable s = (case sq_critical s of Some e \<Rightarrow> (Inl e, s) | None \<Rightarrow> (Inr (), s))"

definition notify_write :: "('f, 'c, 'm) hooks \<Rightarrow> bool \<Rightarrow> ('f, 'c, 'm, unit) sqop" where
  "notify_write h = hk_on_write h"

section \<open>The transaction stack\<close>

text \<open>\<open>#runRollbackCallbacksDownTo\<close>: pop, then call.\<close>

fun unwind :: "('c \<Rightarrow> 'm \<Rightarrow> 'm) \<Rightarrow> nat \<Rightarrow> 'c list \<Rightarrow> 'm \<Rightarrow> 'c list \<times> 'm" where
  "unwind f n [] m = ([], m)"
| "unwind f n (c # cs) m = (if length (c # cs) > n then unwind f n cs (f c m) else (c # cs, m))"

definition run_callbacks_down_to :: "('f, 'c, 'm) hooks \<Rightarrow> nat \<Rightarrow> ('f, 'c, 'm, unit) sqop" where
  "run_callbacks_down_to h n = op_bind
     (\<lambda>s. js_assert (n \<le> length (sq_callbacks s)) ''rollback callback stack shrank?'' s)
     (\<lambda>_ s. (case unwind (hk_callback h) n (sq_callbacks s) (sq_mem s) of
        (cs, m) \<Rightarrow> (Inr (), s\<lparr>sq_callbacks := cs, sq_mem := m\<rparr>)))"

text \<open>Popping savepoints up to and including the named one, or only those above it.\<close>

fun release_to :: "js_string \<Rightarrow> (js_string \<times> nat) list \<Rightarrow> (js_string \<times> nat) list option" where
  "release_to n [] = None"
| "release_to n ((m, k) # sps) = (if m = n then Some sps else release_to n sps)"

fun rollback_to :: "js_string \<Rightarrow> (js_string \<times> nat) list \<Rightarrow> (js_string \<times> nat) list option" where
  "rollback_to n [] = None"
| "rollback_to n ((m, k) # sps) = (if m = n then Some ((m, k) # sps) else rollback_to n sps)"

definition drop_callbacks :: "('f, 'c, 'm) sqlite \<Rightarrow> ('f, 'c, 'm) sqlite" where
  "drop_callbacks s = (if txn_open s then s else s\<lparr>sq_callbacks := []\<rparr>)"

definition apply_begin :: "js_string option \<Rightarrow> ('f, 'c, 'm, unit) sqop" where
  "apply_begin n s =
     (case n of
        Some name \<Rightarrow> (Inr (), s\<lparr>sq_savepoints := (name, length (sq_callbacks s)) # sq_savepoints s\<rparr>)
      | None \<Rightarrow> op_bind (js_assert (sq_savepoints s = []) ''BEGIN TRANSACTION should have failed when savepoints are present?'')
          (\<lambda>_. op_bind (js_assert (\<not> sq_in_txn s) ''BEGIN TRANSACTION should have failed when already in a transaction?'')
          (\<lambda>_. op_bind (js_assert (sq_callbacks s = []) ''we shouldn't have been keeping rollback callbacks with no transaction open!'')
          (\<lambda>_. op_modify (\<lambda>s. s\<lparr>sq_in_txn := True\<rparr>)))) s)"

definition apply_commit :: "js_string option \<Rightarrow> ('f, 'c, 'm, unit) sqop" where
  "apply_commit n s =
     (case n of
        Some name \<Rightarrow>
          (case release_to name (sq_savepoints s) of
             None \<Rightarrow> (Inl (Failure ''released a savepoint that didn't exist?''), s\<lparr>sq_savepoints := []\<rparr>)
           | Some sps \<Rightarrow> (Inr (), drop_callbacks (s\<lparr>sq_savepoints := sps\<rparr>)))
      | None \<Rightarrow> op_bind (js_assert (sq_in_txn s) ''COMMIT TRANSACTION without BEGIN TRANSACTION?'')
          (\<lambda>_. op_modify (\<lambda>s. drop_callbacks (s\<lparr>sq_savepoints := [], sq_in_txn := False\<rparr>))) s)"

definition apply_rollback :: "('f, 'c, 'm) hooks \<Rightarrow> js_string option \<Rightarrow> ('f, 'c, 'm, unit) sqop" where
  "apply_rollback h n s =
     (case n of
        Some name \<Rightarrow>
          (case rollback_to name (sq_savepoints s) of
             None \<Rightarrow> (Inl (Failure ''released a savepoint that didn't exist?''), s\<lparr>sq_savepoints := []\<rparr>)
           | Some sps \<Rightarrow> run_callbacks_down_to h (snd (hd sps)) (s\<lparr>sq_savepoints := sps\<rparr>))
      | None \<Rightarrow> op_bind (js_assert (sq_in_txn s) ''ROLLBACK TRANSACTION without BEGIN TRANSACTION?'')
          (\<lambda>_. op_bind (op_modify (\<lambda>s. s\<lparr>sq_savepoints := [], sq_in_txn := False\<rparr>))
          (\<lambda>_. run_callbacks_down_to h 0)) s)"

definition apply_change :: "('f, 'c, 'm) hooks \<Rightarrow> state_change \<Rightarrow> ('f, 'c, 'm, unit) sqop" where
  "apply_change h c =
     (case c of
        NoChange \<Rightarrow> op_return ()
      | BeginTxn n \<Rightarrow> apply_begin n
      | CommitTxn n \<Rightarrow> apply_commit n
      | RollbackTxn n \<Rightarrow> apply_rollback h n)"

section \<open>Running statements\<close>

definition CRITICAL_MESSAGE :: js_exn where
  "CRITICAL_MESSAGE = Failure ''SQLite rolled back the open transaction in response to a critical error''"

definition check_for_auto_rollback ::
  "('f, 'c, 'm) hooks \<Rightarrow> 'f sql_backend \<Rightarrow> ('f, 'c, 'm, unit) sqop" where
  "check_for_auto_rollback h be s =
     (if \<not> txn_open s then (Inr (), s)
      else if be_in_transaction be (sq_file s) then (Inr (), s)
      else op_bind (op_modify (\<lambda>s. s\<lparr>sq_in_txn := False, sq_savepoints := [], sq_callbacks := [],
               sq_critical := Some CRITICAL_MESSAGE\<rparr>))
             (\<lambda>_. op_bind (hk_on_critical h CRITICAL_MESSAGE) (\<lambda>_. op_throw CRITICAL_MESSAGE)) s)"

definition exec_statement :: "('f, 'c, 'm) hooks \<Rightarrow> 'f sql_backend \<Rightarrow> 'f sql_statement \<Rightarrow>
    sql_value list \<Rightarrow> bool \<Rightarrow> ('f, 'c, 'm, sql_result) sqop" where
  "exec_statement h be st bindings allow_unconfirmed =
     (case classify (st_sql st) of
        Inl e \<Rightarrow> op_throw e
      | Inr change \<Rightarrow>
          op_bind (if is_write (st_sql st) then notify_write h allow_unconfirmed else op_return ())
          (\<lambda>_ s. (case st_execute st bindings (sq_file s) of
              (Inl e, f) \<Rightarrow> op_bind (check_for_auto_rollback h be) (\<lambda>_. op_throw e) (s\<lparr>sq_file := f\<rparr>)
            | (Inr r, f) \<Rightarrow> op_bind (apply_change h change) (\<lambda>_. op_return r) (s\<lparr>sq_file := f\<rparr>))))"

text \<open>
  The loop of \<open>#exec\<close>. It returns when the backend consumes text at every turn; the fuel makes it
  \<open>None\<close> when it has not returned after that many statements. \<open>regulate\<close> is the public regulator.
\<close>

fun exec_loop :: "nat \<Rightarrow> ('f, 'c, 'm) hooks \<Rightarrow> 'f sql_backend \<Rightarrow> (js_string \<Rightarrow> js_exn + unit) \<Rightarrow> js_string \<Rightarrow>
    sql_value list \<Rightarrow> bool \<Rightarrow> sql_result option \<Rightarrow> ('f, 'c, 'm) sqlite \<Rightarrow>
    ((js_exn + sql_result) \<times> ('f, 'c, 'm) sqlite) option" where
  "exec_loop n h be regulate remaining bindings au result s =
     (if \<not> has_sql_statement remaining then
        Some ((case result of None \<Rightarrow> Inl (Failure ''Expected at least one SQL statement.'') | Some r \<Rightarrow> Inr r), s)
      else (case n of 0 \<Rightarrow> None | Suc n' \<Rightarrow>
        (case be_prepare be remaining (sq_file s) of
           Inl e \<Rightarrow> Some (Inl e, s)
         | Inr st \<Rightarrow>
             (let tail = drop (length (st_sql st)) remaining; final = (\<not> has_sql_statement tail)
              in case regulate (st_sql st) of
                   Inl e \<Rightarrow> Some (Inl e, s)
                 | Inr _ \<Rightarrow>
                     (if \<not> final \<and> st_params st \<noteq> 0 then Some (Inl SQL_PRELUDE_BINDINGS, s)
                      else if final \<and> st_params st \<noteq> length bindings then Some (Inl SQL_WRONG_BINDINGS, s)
                      else (case exec_statement h be st (if final then bindings else []) (final \<and> au) s of
                              (Inl e, t) \<Rightarrow> Some (Inl e, t)
                            | (Inr r, t) \<Rightarrow> exec_loop n' h be regulate tail bindings au (Some r) t))))))"

declare exec_loop.simps [simp del]

definition db_exec :: "('f, 'c, 'm) hooks \<Rightarrow> 'f sql_backend \<Rightarrow> (js_string \<Rightarrow> js_exn + unit) \<Rightarrow> js_string \<Rightarrow>
    sql_value list \<Rightarrow> bool \<Rightarrow> ('f, 'c, 'm) sqlite \<Rightarrow> ((js_exn + sql_result) \<times> ('f, 'c, 'm) sqlite) option" where
  "db_exec h be regulate sql bindings au s =
     (case assert_usable s of
        (Inl e, t) \<Rightarrow> Some (Inl e, t)
      | (Inr _, t) \<Rightarrow> exec_loop (Suc (length sql)) h be regulate sql bindings au None t)"

text \<open>\<open>ingest\<close>: the remaining text, rows read, rows written and statements run.\<close>

definition ends_with_semicolon :: "js_string \<Rightarrow> bool" where
  "ends_with_semicolon s \<longleftrightarrow> trim_end s \<noteq> [] \<and> last (trim_end s) = ch CHR '';''"

fun ingest_loop :: "nat \<Rightarrow> ('f, 'c, 'm) hooks \<Rightarrow> 'f sql_backend \<Rightarrow> (js_exn \<Rightarrow> bool) \<Rightarrow>
    (js_string \<Rightarrow> js_exn + unit) \<Rightarrow> js_string \<Rightarrow> nat \<times> nat \<times> nat \<Rightarrow> ('f, 'c, 'm) sqlite \<Rightarrow>
    ((js_exn + js_string \<times> nat \<times> nat \<times> nat) \<times> ('f, 'c, 'm) sqlite) option" where
  "ingest_loop n h be incomplete regulate remainder (rr, rw, k) s =
     (if \<not> has_sql_statement remainder then Some (Inr (remainder, rr, rw, k), s)
      else (case n of 0 \<Rightarrow> None | Suc n' \<Rightarrow>
        (case be_prepare be remainder (sq_file s) of
           Inl e \<Rightarrow> if incomplete e then Some (Inr (remainder, rr, rw, k), s) else Some (Inl e, s)
         | Inr st \<Rightarrow>
             (if \<not> ends_with_semicolon (st_sql st) then Some (Inr (remainder, rr, rw, k), s)
              else (case regulate (st_sql st) of
                 Inl e \<Rightarrow> Some (Inl e, s)
               | Inr _ \<Rightarrow>
                   (if st_params st \<noteq> 0 then Some (Inl SQL_WRONG_BINDINGS, s)
                    else (case exec_statement h be st [] False s of
                            (Inl e, t) \<Rightarrow> Some (Inl e, t)
                          | (Inr r, t) \<Rightarrow> ingest_loop n' h be incomplete regulate
                              (drop (length (st_sql st)) remainder)
                              (rr + length (rs_rows r), rw + rs_written r, Suc k) t)))))))"

declare ingest_loop.simps [simp del]

definition db_ingest :: "('f, 'c, 'm) hooks \<Rightarrow> 'f sql_backend \<Rightarrow> (js_exn \<Rightarrow> bool) \<Rightarrow>
    (js_string \<Rightarrow> js_exn + unit) \<Rightarrow> js_string \<Rightarrow> ('f, 'c, 'm) sqlite \<Rightarrow>
    ((js_exn + js_string \<times> nat \<times> nat \<times> nat) \<times> ('f, 'c, 'm) sqlite) option" where
  "db_ingest h be incomplete regulate sql s =
     (case assert_usable s of
        (Inl e, t) \<Rightarrow> Some (Inl e, t)
      | (Inr _, t) \<Rightarrow> ingest_loop (Suc (length sql)) h be incomplete regulate sql (0, 0, 0) t)"

text \<open>\<open>run\<close> on the text of one statement, as the runtime's own layers call it.\<close>

definition db_run1 :: "('f, 'c, 'm) hooks \<Rightarrow> 'f sql_backend \<Rightarrow> 'f sql_statement \<Rightarrow> sql_value list \<Rightarrow> bool \<Rightarrow>
    ('f, 'c, 'm, sql_result) sqop" where
  "db_run1 h be st bindings au = op_bind assert_usable (\<lambda>_. exec_statement h be st bindings au)"

definition db_reset :: "('f, 'c, 'm) hooks \<Rightarrow> 'f sql_backend \<Rightarrow> ('f, 'c, 'm, unit) sqop" where
  "db_reset h be = op_bind assert_usable (\<lambda>_ s.
     (if txn_open s then (Inl (Failure ''can't reset() a database during a transaction''), s)
      else (case be_reset be (sq_file s) of
              (r, f) \<Rightarrow> (r, s\<lparr>sq_file := f, sq_mem := hk_before_reset h (sq_mem s)\<rparr>))))"

end
