(* ===== verification/Sql_File.thy ===== *)
theory Sql_File
  imports Sqlite
begin

text \<open>
  A database file as the SQL the runtime writes sees it, for every backend alike: the data, and the
  stack of transactions the statements of https://www.sqlite.org/lang_transaction.html and
  lang_savepoint.html act on, each with the data it would be rolled back to. A statement may be refused,
  and a failing one may make SQLite roll the whole transaction back: a script decides, by the number
  of the statement, so that every theorem holds for any failures.

  Resetting a file, which closes it, deletes it and opens a new one, is taken not to fail.

  It instantiates the backend parameter of \<^const>\<open>exec_statement\<close>; nothing of it maps to code of
  the repository.
\<close>

datatype outcome = Runs | Refused | RolledBack

record 'd sql_file =
  sf_data :: 'd
  sf_stack :: "(js_string option \<times> 'd) list"
  sf_script :: "nat \<Rightarrow> outcome"
  sf_n :: nat

definition SQL_ERROR :: js_exn where "SQL_ERROR = Failure ''SQLite error''"

definition no_rows :: "nat \<Rightarrow> sql_result" where "no_rows n = \<lparr>rs_columns = [], rs_rows = [], rs_written = n\<rparr>"

definition scripted :: "('d sql_file \<Rightarrow> (js_exn + 'r) \<times> 'd sql_file) \<Rightarrow> 'd sql_file \<Rightarrow> (js_exn + 'r) \<times> 'd sql_file" where
  "scripted f file =
     (let g = file\<lparr>sf_n := Suc (sf_n file)\<rparr>
      in case sf_script file (sf_n file) of
           Runs \<Rightarrow> f g
         | Refused \<Rightarrow> (Inl SQL_ERROR, g)
         | RolledBack \<Rightarrow> (Inl SQL_ERROR, if sf_stack g = [] then g
                         else g\<lparr>sf_data := snd (last (sf_stack g)), sf_stack := []\<rparr>))"

fun stack_to :: "js_string \<Rightarrow> (js_string option \<times> 'd) list \<Rightarrow> (js_string option \<times> 'd) list option" where
  "stack_to n [] = None"
| "stack_to n ((m, d) # st) = (if m = Some n then Some ((m, d) # st) else stack_to n st)"

definition control :: "state_change \<Rightarrow> 'd sql_file \<Rightarrow> (js_exn + sql_result) \<times> 'd sql_file" where
  "control c f =
     (case c of
        NoChange \<Rightarrow> (Inr (no_rows 0), f)
      | BeginTxn None \<Rightarrow> (if sf_stack f \<noteq> [] then (Inl SQL_ERROR, f)
                        else (Inr (no_rows 0), f\<lparr>sf_stack := [(None, sf_data f)]\<rparr>))
      | BeginTxn (Some n) \<Rightarrow> (Inr (no_rows 0), f\<lparr>sf_stack := (Some n, sf_data f) # sf_stack f\<rparr>)
      | CommitTxn None \<Rightarrow> (if sf_stack f = [] then (Inl SQL_ERROR, f)
                         else (Inr (no_rows 0), f\<lparr>sf_stack := []\<rparr>))
      | CommitTxn (Some n) \<Rightarrow> (case stack_to n (sf_stack f) of None \<Rightarrow> (Inl SQL_ERROR, f)
                              | Some st \<Rightarrow> (Inr (no_rows 0), f\<lparr>sf_stack := tl st\<rparr>))
      | RollbackTxn None \<Rightarrow> (if sf_stack f = [] then (Inl SQL_ERROR, f)
                           else (Inr (no_rows 0), f\<lparr>sf_data := snd (last (sf_stack f)), sf_stack := []\<rparr>))
      | RollbackTxn (Some n) \<Rightarrow> (case stack_to n (sf_stack f) of None \<Rightarrow> (Inl SQL_ERROR, f)
                                | Some st \<Rightarrow> (Inr (no_rows 0), f\<lparr>sf_data := snd (hd st), sf_stack := st\<rparr>)))"

text \<open>A transaction control statement, and a statement that reads or changes the data.\<close>

definition control_stmt :: "js_string \<Rightarrow> state_change \<Rightarrow> 'd sql_file sql_statement" where
  "control_stmt sql c = \<lparr>st_sql = sql, st_params = 0, st_execute = (\<lambda>_. scripted (control c))\<rparr>"

definition data_stmt :: "js_string \<Rightarrow> nat \<Rightarrow> (sql_value list \<Rightarrow> 'd \<Rightarrow> (js_exn + sql_result) \<times> 'd) \<Rightarrow>
    'd sql_file sql_statement" where
  "data_stmt sql k f = \<lparr>st_sql = sql, st_params = k, st_execute = (\<lambda>b. scripted (\<lambda>g.
     (case f b (sf_data g) of (r, d) \<Rightarrow> (r, g\<lparr>sf_data := d\<rparr>))))\<rparr>"

definition file_backend :: "(js_string \<Rightarrow> 'd sql_file \<Rightarrow> js_exn + 'd sql_file sql_statement) \<Rightarrow> 'd \<Rightarrow> 'd sql_file sql_backend" where
  "file_backend prep empty_data = \<lparr>be_prepare = prep, be_in_transaction = (\<lambda>f. sf_stack f \<noteq> []),
     be_reset = (\<lambda>g. (Inr (), g\<lparr>sf_data := empty_data\<rparr>))\<rparr>"

end
