(* ===== verification/Sqlite_Inv.thy ===== *)
theory Sqlite_Inv
  imports Sql_File
begin

text \<open>
  What \<open>SqliteDatabase\<close> keeps: its stack mirrors SQLite's, and unwinding the rollback callbacks to any
  savepoint turns every memory that agrees with the data into one that agrees with the data the
  savepoint would be rolled back to. \<open>M d\<close> is the set of memories that agree with the data \<open>d\<close>; the
  layers above choose it. And the loop over the statements of a text returns.
\<close>

section \<open>Unwinding\<close>

lemma unwind_eq: "unwind f n cs m = (drop (length cs - n) cs, fold f (take (length cs - n) cs) m)"
proof (induction cs arbitrary: m)
  case (Cons c cs)
  show ?case
  proof (cases "n \<le> length cs")
    case True
    then have "length (c # cs) - n = Suc (length cs - n)" by simp
    with True Cons.IH show ?thesis by simp
  qed simp
qed simp

lemma unwind_all: "length cs \<le> n \<Longrightarrow> unwind f n cs m = (cs, m)"
  by (simp add: unwind_eq)

lemma unwind_unwind:
  assumes "k \<le> n" "n \<le> length cs"
  shows "snd (unwind f k (fst (unwind f n cs m)) (snd (unwind f n cs m))) = snd (unwind f k cs m)"
proof -
  have e: "length cs - k = (length cs - n) + (n - k)" using assms by simp
  show ?thesis using assms unfolding unwind_eq fst_conv snd_conv e take_add by simp
qed

lemma unwind_Cons: "n \<le> length cs \<Longrightarrow> snd (unwind f n (c # cs) m) = snd (unwind f n cs (f c m))"
  by simp

section \<open>The invariant\<close>

type_synonym ('d, 'c, 'm) fdb = "('d sql_file, 'c, 'm) sqlite"

abbreviation db_data :: "('d, 'c, 'm) fdb \<Rightarrow> 'd" where "db_data s \<equiv> sf_data (sq_file s)"
abbreviation db_stack :: "('d, 'c, 'm) fdb \<Rightarrow> (js_string option \<times> 'd) list" where
  "db_stack s \<equiv> sf_stack (sq_file s)"

definition marks :: "('f, 'c, 'm) sqlite \<Rightarrow> nat list" where
  "marks s = map snd (sq_savepoints s) @ (if sq_in_txn s then [0] else [])"

definition frame_names :: "('f, 'c, 'm) sqlite \<Rightarrow> js_string option list" where
  "frame_names s = map (\<lambda>(n, k). Some n) (sq_savepoints s) @ (if sq_in_txn s then [None] else [])"

text \<open>
  The frames, newest first: each mark with the data it would be rolled back to. Unwinding to the first
  mark leads from the memories of the data to those of its snapshot, and so on down.
\<close>

fun chain :: "('d \<Rightarrow> 'm set) \<Rightarrow> ('c \<Rightarrow> 'm \<Rightarrow> 'm) \<Rightarrow> 'c list \<Rightarrow> 'd \<Rightarrow> nat list \<Rightarrow> 'd list \<Rightarrow> bool" where
  "chain M f cs d [] [] = True"
| "chain M f cs d (k # ks) (e # es) =
     (k \<le> length cs \<and> (\<forall>x \<in> M d. snd (unwind f k cs x) \<in> M e) \<and> chain M f (drop (length cs - k) cs) e ks es)"
| "chain M f cs d _ _ = False"

definition frames_ok :: "('d \<Rightarrow> 'm set) \<Rightarrow> ('c \<Rightarrow> 'm \<Rightarrow> 'm) \<Rightarrow> ('d, 'c, 'm) fdb \<Rightarrow> bool" where
  "frames_ok M f s \<longleftrightarrow> map fst (db_stack s) = frame_names s \<and>
     chain M f (sq_callbacks s) (db_data s) (marks s) (map snd (db_stack s)) \<and>
     (txn_open s \<or> sq_callbacks s = [])"

lemma chain_length: "chain M f cs d ks es \<Longrightarrow> length ks = length es"
  by (induction M f cs d ks es rule: chain.induct) auto

lemma chain_change:
  "chain M f cs d ks es \<Longrightarrow> (\<And>x. x \<in> M d' \<Longrightarrow> f c x \<in> M d) \<Longrightarrow> chain M f (c # cs) d' ks es"
  by (cases "(M, f, cs, d, ks, es)" rule: chain.cases) (auto simp del: unwind.simps simp: unwind_Cons Suc_diff_le)

lemma chain_same: "chain M f cs d ks es \<Longrightarrow> M d' = M d \<Longrightarrow> chain M f cs d' ks es"
  by (cases "(M, f, cs, d, ks, es)" rule: chain.cases) auto

lemma chain_push: "chain M f cs d ks es \<Longrightarrow> chain M f cs d (length cs # ks) (d # es)"
  by (simp add: unwind_all)

lemma chain_tl:
  assumes "chain M f cs d (k # ks) (e # es)"
  shows "chain M f cs d ks es"
proof (cases ks)
  case Nil
  then show ?thesis using chain_length [OF assms] by simp
next
  case (Cons k' ks')
  then obtain e' es' where es: "es = e' # es'" using chain_length [OF assms] by (cases es) auto
  have c: "k \<le> length cs" "\<forall>x \<in> M d. snd (unwind f k cs x) \<in> M e" "k' \<le> k"
    "\<forall>x \<in> M e. snd (unwind f k' (drop (length cs - k) cs) x) \<in> M e'"
    "chain M f (drop (length cs - k') cs) e' ks' es'"
    using assms by (auto simp: Cons es)
  have "snd (unwind f k' cs x) \<in> M e'" if "x \<in> M d" for x
  proof -
    have "snd (unwind f k' (drop (length cs - k) cs) (snd (unwind f k cs x))) \<in> M e'" using c(2,4) that by blast
    moreover have "fst (unwind f k cs x) = drop (length cs - k) cs" by (simp add: unwind_eq)
    ultimately show ?thesis using unwind_unwind [OF c(3,1), of f x] by metis
  qed
  then show ?thesis using c by (simp add: Cons es)
qed

lemma chain_drop: "chain M f cs d ks es \<Longrightarrow> chain M f cs d (drop j ks) (drop j es)"
proof (induction j arbitrary: ks es)
  case (Suc j)
  show ?case
  proof (cases ks)
    case Nil
    then show ?thesis using chain_length [OF Suc.prems] by simp
  next
    case (Cons k ks')
    then obtain e es' where "es = e # es'" using chain_length [OF Suc.prems] by (cases es) auto
    then show ?thesis using Suc.IH [OF chain_tl] Suc.prems Cons by simp
  qed
qed simp

lemma chain_rollback:
  assumes "chain M f cs d ks es" "j < length ks" "x \<in> M d"
  shows "ks ! j \<le> length cs" "snd (unwind f (ks ! j) cs x) \<in> M (es ! j)"
    "chain M f (drop (length cs - ks ! j) cs) (es ! j) (drop j ks) (drop j es)"
proof -
  have "drop j ks = ks ! j # drop (Suc j) ks" "drop j es = es ! j # drop (Suc j) es"
    using assms(2) chain_length [OF assms(1)] by (simp_all add: Cons_nth_drop_Suc)
  with chain_drop [OF assms(1), of j] show "ks ! j \<le> length cs" "snd (unwind f (ks ! j) cs x) \<in> M (es ! j)"
    "chain M f (drop (length cs - ks ! j) cs) (es ! j) (drop j ks) (drop j es)"
    using assms(3) by (simp_all add: unwind_all)
qed

definition coherent :: "('d \<Rightarrow> 'm set) \<Rightarrow> ('c \<Rightarrow> 'm \<Rightarrow> 'm) \<Rightarrow> ('d, 'c, 'm) fdb \<Rightarrow> bool" where
  "coherent M f s \<longleftrightarrow> sq_critical s = None \<longrightarrow> frames_ok M f s \<and> sq_mem s \<in> M (db_data s)"

lemma frames_okD:
  assumes "frames_ok M f s"
  shows "map fst (db_stack s) = frame_names s"
    "chain M f (sq_callbacks s) (db_data s) (marks s) (map snd (db_stack s))"
    "txn_open s \<or> sq_callbacks s = []"
  using assms by (simp_all add: frames_ok_def)

lemma stack_open: "frames_ok M f s \<Longrightarrow> db_stack s = [] \<longleftrightarrow> \<not> txn_open s"
  using frames_okD(1) [of M f s] by (auto simp: frame_names_def txn_open_def split: if_splits)

lemma length_marks: "frames_ok M f s \<Longrightarrow> length (marks s) = length (db_stack s)"
  using chain_length [OF frames_okD(2)] by fastforce

text \<open>Only the data, the stacks and the callbacks matter.\<close>

lemma frames_ok_cong:
  "db_data s = db_data t \<Longrightarrow> db_stack s = db_stack t \<Longrightarrow> sq_callbacks s = sq_callbacks t \<Longrightarrow>
   sq_savepoints s = sq_savepoints t \<Longrightarrow> sq_in_txn s = sq_in_txn t \<Longrightarrow> frames_ok M f s = frames_ok M f t"
  by (simp add: frames_ok_def marks_def frame_names_def txn_open_def)

text \<open>A change of the data with the callback that undoes it, and one the memory does not see.\<close>

lemma frames_ok_change:
  assumes "frames_ok M f s" "txn_open s"
    "\<And>x. x \<in> M d \<Longrightarrow> f c x \<in> M (db_data s)"
    "db_data t = d" "db_stack t = db_stack s" "sq_callbacks t = c # sq_callbacks s"
    "sq_savepoints t = sq_savepoints s" "sq_in_txn t = sq_in_txn s"
  shows "frames_ok M f t"
  using frames_okD [OF assms(1)] chain_change [OF frames_okD(2) [OF assms(1)] assms(3)] assms(2,4-)
  by (simp add: frames_ok_def marks_def frame_names_def txn_open_def)

lemma frames_ok_same:
  assumes "frames_ok M f s" "M (db_data t) = M (db_data s)"
    "db_stack t = db_stack s" "sq_callbacks t = sq_callbacks s"
    "sq_savepoints t = sq_savepoints s" "sq_in_txn t = sq_in_txn s"
  shows "frames_ok M f t"
  using frames_okD [OF assms(1)] chain_same [OF frames_okD(2) [OF assms(1)] assms(2)] assms(3-)
  by (simp add: frames_ok_def marks_def frame_names_def txn_open_def)

text \<open>With nothing open every change of the data is final.\<close>

lemma frames_ok_closed:
  assumes "frames_ok M f s" "\<not> txn_open s" "db_stack t = db_stack s" "sq_callbacks t = sq_callbacks s"
    "sq_savepoints t = sq_savepoints s" "sq_in_txn t = sq_in_txn s"
  shows "frames_ok M f t"
  using frames_okD [OF assms(1)] stack_open [OF assms(1)] assms
  by (simp add: frames_ok_def marks_def frame_names_def txn_open_def)

section \<open>Transaction control\<close>

lemma release_to_stack:
  assumes "map fst st = map (\<lambda>(n, k). Some n) sps @ bs" "\<forall>b \<in> set bs. b = None" "stack_to n st = Some st'"
  shows "\<exists>j sps'. release_to n sps = Some sps' \<and> j < length sps \<and> sps' = drop (Suc j) sps \<and> st' = drop j st \<and>
    rollback_to n sps = Some (drop j sps)"
  using assms
proof (induction sps arbitrary: st)
  case Nil
  then have "set (map fst st) \<subseteq> {None}" by auto
  then have "\<forall>x \<in> set st. fst x = None" by auto
  then have "stack_to n st = None" by (induction st rule: list.induct) auto
  with Nil show ?case by simp
next
  case (Cons p sps)
  obtain m k where p: "p = (m, k)" by (cases p)
  from Cons.prems(1) obtain d st1 where st: "st = (Some m, d) # st1" "map fst st1 = map (\<lambda>(n, k). Some n) sps @ bs"
    by (cases st) (auto simp: p)
  show ?case
  proof (cases "m = n")
    case True
    then show ?thesis using Cons.prems(3) by (intro exI [of _ 0]) (simp add: p st)
  next
    case False
    then have "stack_to n st1 = Some st'" using Cons.prems(3) st by simp
    from Cons.IH [OF st(2) Cons.prems(2) this] obtain j where
      "release_to n sps = Some (drop (Suc j) sps)" "j < length sps" "st' = drop j st1"
      "rollback_to n sps = Some (drop j sps)" by blast
    with False show ?thesis by (intro exI [of _ "Suc j"]) (simp add: p st)
  qed
qed

lemma marks_drop: "j \<le> length (sq_savepoints s) \<Longrightarrow>
    marks (s\<lparr>sq_savepoints := drop j (sq_savepoints s)\<rparr>) = drop j (marks s) \<and>
    frame_names (s\<lparr>sq_savepoints := drop j (sq_savepoints s)\<rparr>) = drop j (frame_names s)"
  by (simp add: marks_def frame_names_def drop_map)

lemma frames_ok_drop:
  assumes "frames_ok M f s" "j \<le> length (sq_savepoints s)" "txn_open (s\<lparr>sq_savepoints := drop j (sq_savepoints s)\<rparr>)"
    "db_data t = db_data s" "db_stack t = drop j (db_stack s)" "sq_callbacks t = sq_callbacks s"
    "sq_savepoints t = drop j (sq_savepoints s)" "sq_in_txn t = sq_in_txn s"
  shows "frames_ok M f t"
proof -
  have m: "marks t = drop j (marks s)" "frame_names t = drop j (frame_names s)" "txn_open t"
    using marks_drop [OF assms(2)] assms(3,7,8) by (simp_all add: marks_def frame_names_def txn_open_def)
  have "map fst (drop j (db_stack s)) = drop j (frame_names s)"
    using frames_okD(1) [OF assms(1)] by (simp add: drop_map [symmetric])
  with chain_drop [OF frames_okD(2) [OF assms(1)], of j] show ?thesis
    by (simp add: frames_ok_def m assms(4-6) drop_map)
qed

text \<open>A statement that failed.\<close>

lemma failed_coherent:
  assumes inv: "frames_ok M (hk_callback h) s" "sq_mem s \<in> M (db_data s)"
    and crit: "\<And>e u. sq_critical u \<noteq> None \<Longrightarrow> sq_critical (snd (hk_on_critical h e u)) \<noteq> None"
    and g: "sf_stack g = db_stack s \<and> sf_data g = db_data s \<or> db_stack s \<noteq> [] \<and> sf_stack g = []"
  shows "coherent M (hk_callback h)
    (snd (op_bind (check_for_auto_rollback h (file_backend prep d0)) (\<lambda>_. op_throw e) (s\<lparr>sq_file := g\<rparr>)))"
proof (cases "txn_open s \<and> sf_stack g = []")
  case True
  let ?u = "s\<lparr>sq_file := g, sq_in_txn := False, sq_savepoints := [], sq_callbacks := [], sq_critical := Some CRITICAL_MESSAGE\<rparr>"
  obtain r t where t: "hk_on_critical h CRITICAL_MESSAGE ?u = (r, t)" by (cases "hk_on_critical h CRITICAL_MESSAGE ?u")
  then have "coherent M (hk_callback h) t" using crit [of ?u CRITICAL_MESSAGE] by (auto simp: coherent_def)
  moreover have "snd (op_bind (check_for_auto_rollback h (file_backend prep d0)) (\<lambda>_. op_throw e) (s\<lparr>sq_file := g\<rparr>)) = t"
    using True t by (simp add: check_for_auto_rollback_def txn_open_def file_backend_def op_simps split: sum.split)
  ultimately show ?thesis by metis
next
  case False
  then have same: "sf_stack g = db_stack s" "sf_data g = db_data s" using g stack_open [OF inv(1)] by auto
  have "snd (op_bind (check_for_auto_rollback h (file_backend prep d0)) (\<lambda>_. op_throw e) (s\<lparr>sq_file := g\<rparr>)) = s\<lparr>sq_file := g\<rparr>"
    using False by (auto simp: check_for_auto_rollback_def txn_open_def file_backend_def op_simps)
  moreover have "frames_ok M (hk_callback h) (s\<lparr>sq_file := g\<rparr>)"
    using frames_ok_cong [of s "s\<lparr>sq_file := g\<rparr>"] inv(1) same by simp
  then have "coherent M (hk_callback h) (s\<lparr>sq_file := g\<rparr>)" using inv(2) same by (simp add: coherent_def)
  ultimately show ?thesis by metis
qed

lemma failed_data:
  assumes inv: "frames_ok M (hk_callback h) s"
    and crit: "\<And>e u. sq_critical u \<noteq> None \<Longrightarrow> sq_critical (snd (hk_on_critical h e u)) \<noteq> None"
    and g: "sf_stack g = db_stack s \<and> sf_data g = db_data s \<or> db_stack s \<noteq> [] \<and> sf_stack g = []"
    and t: "op_bind (check_for_auto_rollback h (file_backend prep d0)) (\<lambda>_. op_throw e) (s\<lparr>sq_file := g\<rparr>) = (r, t)"
  shows "db_data t = db_data s \<or> sq_critical t \<noteq> None"
proof (cases "txn_open s \<and> sf_stack g = []")
  case True
  let ?u = "s\<lparr>sq_file := g, sq_in_txn := False, sq_savepoints := [], sq_callbacks := [], sq_critical := Some CRITICAL_MESSAGE\<rparr>"
  have "t = snd (hk_on_critical h CRITICAL_MESSAGE ?u)" using True t
    by (auto simp: check_for_auto_rollback_def txn_open_def file_backend_def op_simps split: sum.splits prod.splits)
  then show ?thesis using crit [of ?u CRITICAL_MESSAGE] by simp
next
  case False
  then have "sf_data g = db_data s" using g stack_open [OF inv] by auto
  moreover have "t = s\<lparr>sq_file := g\<rparr>" using False t
    by (auto simp: check_for_auto_rollback_def txn_open_def file_backend_def op_simps split: if_splits)
  ultimately show ?thesis by simp
qed

lemma scripted_cases:
  obtains (runs) "scripted f g = f (g\<lparr>sf_n := Suc (sf_n g)\<rparr>)"
  | (failed) k where "scripted f g = (Inl SQL_ERROR, k)"
      "sf_stack k = sf_stack g \<and> sf_data k = sf_data g \<or> sf_stack g \<noteq> [] \<and> sf_stack k = []"
proof (cases "sf_script g (sf_n g)")
  case Runs
  then show thesis by (intro runs) (simp add: scripted_def)
next
  case Refused
  then show thesis by (intro failed [of "g\<lparr>sf_n := Suc (sf_n g)\<rparr>"]) (simp_all add: scripted_def)
next
  case RolledBack
  then show thesis
    by (intro failed [of "snd (scripted f g)"]) (auto simp: scripted_def Let_def)
qed

text \<open>The six kinds of control statement, when they run.\<close>

lemma apply_begin_ok:
  assumes "frames_ok M f s" "sq_mem s \<in> M (db_data s)" "control (BeginTxn n) (sq_file s) = (Inr r, g)"
  shows "frames_ok M f (snd (apply_begin n (s\<lparr>sq_file := g\<rparr>))) \<and>
    db_data (snd (apply_begin n (s\<lparr>sq_file := g\<rparr>))) = db_data s \<and> sq_mem (snd (apply_begin n (s\<lparr>sq_file := g\<rparr>))) = sq_mem s"
proof (cases n)
  case None
  with assms(3) have c: "db_stack s = []" "g = (sq_file s)\<lparr>sf_stack := [(None, db_data s)]\<rparr>"
    by (auto simp: control_def split: if_splits)
  then have "\<not> txn_open s" "sq_callbacks s = []" using stack_open [OF assms(1)] frames_okD(3) [OF assms(1)] by auto
  then show ?thesis using c(2) None
    by (simp add: apply_begin_def js_assert_def op_simps txn_open_def frames_ok_def marks_def frame_names_def)
next
  case (Some m)
  with assms(3) have g: "g = (sq_file s)\<lparr>sf_stack := (Some m, db_data s) # db_stack s\<rparr>" by (simp add: control_def)
  show ?thesis using frames_okD [OF assms(1)] chain_push [OF frames_okD(2) [OF assms(1)]] Some g
    by (simp add: apply_begin_def frames_ok_def marks_def frame_names_def txn_open_def)
qed

lemma drop_callbacks_ok:
  "frames_ok M f s \<or> \<not> txn_open s \<and> db_stack s = [] \<Longrightarrow> frames_ok M f (drop_callbacks s)"
  by (auto simp: drop_callbacks_def frames_ok_def marks_def frame_names_def txn_open_def)

lemma drop_callbacks_frame [simp]: "sq_mem (drop_callbacks s) = sq_mem s" "sq_file (drop_callbacks s) = sq_file s"
  "sq_critical (drop_callbacks s) = sq_critical s"
  by (simp_all add: drop_callbacks_def)

lemma apply_commit_ok:
  assumes "frames_ok M f s" "control (CommitTxn n) (sq_file s) = (Inr r, g)" "n = None \<Longrightarrow> sq_in_txn s"
  shows "frames_ok M f (snd (apply_commit n (s\<lparr>sq_file := g\<rparr>))) \<and>
    db_data (snd (apply_commit n (s\<lparr>sq_file := g\<rparr>))) = db_data s \<and> sq_mem (snd (apply_commit n (s\<lparr>sq_file := g\<rparr>))) = sq_mem s"
proof (cases n)
  case None
  with assms(2) have "g = (sq_file s)\<lparr>sf_stack := []\<rparr>" by (auto simp: control_def split: if_splits)
  moreover have "frames_ok M f (drop_callbacks (s\<lparr>sq_file := (sq_file s)\<lparr>sf_stack := []\<rparr>, sq_savepoints := [], sq_in_txn := False\<rparr>))"
    by (rule drop_callbacks_ok) (simp add: txn_open_def)
  ultimately show ?thesis using None assms(3) by (simp add: apply_commit_def js_assert_def op_simps)
next
  case (Some m)
  with assms(2) obtain st where st: "stack_to m (db_stack s) = Some st" "g = (sq_file s)\<lparr>sf_stack := tl st\<rparr>"
    by (auto simp: control_def split: option.splits)
  obtain j where j: "release_to m (sq_savepoints s) = Some (drop (Suc j) (sq_savepoints s))"
    "j < length (sq_savepoints s)" "st = drop j (db_stack s)"
    using release_to_stack [OF _ _ st(1), of "sq_savepoints s" "if sq_in_txn s then [None] else []"]
      frames_okD(1) [OF assms(1)] by (auto simp: frame_names_def)
  let ?u = "s\<lparr>sq_file := g, sq_savepoints := drop (Suc j) (sq_savepoints s)\<rparr>"
  have stk: "db_stack ?u = drop (Suc j) (db_stack s)" using st(2) j(3) by (simp add: tl_drop drop_Suc)
  have "frames_ok M f ?u \<or> \<not> txn_open ?u \<and> db_stack ?u = []"
  proof (cases "txn_open ?u")
    case True
    have "frames_ok M f ?u"
      by (rule frames_ok_drop [OF assms(1), of "Suc j"]) (use True j(2) stk st(2) in \<open>simp_all add: txn_open_def\<close>)
    then show ?thesis ..
  next
    case False
    then have "length (db_stack s) \<le> Suc j" using length_marks [OF assms(1)] by (simp add: txn_open_def marks_def)
    with False stk show ?thesis by simp
  qed
  from drop_callbacks_ok [OF this] show ?thesis using Some j(1) st(2)
    by (simp add: apply_commit_def)
qed

lemma apply_rollback_ok:
  assumes "frames_ok M (hk_callback h) s" "sq_mem s \<in> M (db_data s)" "control (RollbackTxn n) (sq_file s) = (Inr r, g)"
    "n = None \<Longrightarrow> sq_in_txn s"
  shows "frames_ok M (hk_callback h) (snd (apply_rollback h n (s\<lparr>sq_file := g\<rparr>))) \<and>
    db_data (snd (apply_rollback h n (s\<lparr>sq_file := g\<rparr>))) = sf_data g \<and>
    sq_mem (snd (apply_rollback h n (s\<lparr>sq_file := g\<rparr>))) \<in> M (sf_data g)"
proof (cases n)
  case None
  with assms(3) have g: "db_stack s \<noteq> []" "g = (sq_file s)\<lparr>sf_data := snd (last (db_stack s)), sf_stack := []\<rparr>"
    by (auto simp: control_def split: if_splits)
  have ne: "marks s \<noteq> []" using length_marks [OF assms(1)] g(1) by auto
  have len: "length (marks s) = length (db_stack s)" by (rule length_marks [OF assms(1)])
  have "length (marks s) - 1 < length (marks s)" using ne by simp
  note R = chain_rollback [OF frames_okD(2) [OF assms(1)] this assms(2)]
  have "marks s ! (length (marks s) - 1) = 0" using assms(4) None ne
    by (simp add: marks_def nth_append)
  moreover have "map snd (db_stack s) ! (length (marks s) - 1) = snd (last (db_stack s))"
    using g(1) len by (simp add: last_conv_nth)
  ultimately have "snd (unwind (hk_callback h) 0 (sq_callbacks s) (sq_mem s)) \<in> M (snd (last (db_stack s)))"
    using R(2) by simp
  then show ?thesis using None assms(4) g(2)
    by (simp add: apply_rollback_def js_assert_def op_simps run_callbacks_down_to_def frames_ok_def marks_def
        frame_names_def txn_open_def unwind_eq)
next
  case (Some m)
  with assms(3) obtain st where st: "stack_to m (db_stack s) = Some st"
    "g = (sq_file s)\<lparr>sf_data := snd (hd st), sf_stack := st\<rparr>"
    by (auto simp: control_def split: option.splits)
  obtain j where j: "rollback_to m (sq_savepoints s) = Some (drop j (sq_savepoints s))"
    "j < length (sq_savepoints s)" "st = drop j (db_stack s)"
    using release_to_stack [OF _ _ st(1), of "sq_savepoints s" "if sq_in_txn s then [None] else []"]
      frames_okD(1) [OF assms(1)] by (auto simp: frame_names_def)
  define k where "k = snd (sq_savepoints s ! j)"
  have len: "j < length (marks s)" "length (marks s) = length (db_stack s)"
    using j(2) length_marks [OF assms(1)] by (simp_all add: marks_def)
  have kj: "marks s ! j = k" using j(2) by (simp add: marks_def nth_append k_def)
  have hdst: "hd st = db_stack s ! j" using j(3) len by (simp add: hd_drop_conv_nth)
  note R = chain_rollback [OF frames_okD(2) [OF assms(1)] len(1) assms(2), unfolded kj]
  have e: "map snd (db_stack s) ! j = sf_data g" using len st(2) hdst by simp
  note k = R(1)
  let ?cs = "fst (unwind (hk_callback h) k (sq_callbacks s) (sq_mem s))"
  let ?m = "snd (unwind (hk_callback h) k (sq_callbacks s) (sq_mem s))"
  let ?t = "s\<lparr>sq_file := g, sq_savepoints := drop j (sq_savepoints s), sq_callbacks := ?cs, sq_mem := ?m\<rparr>"
  have run: "apply_rollback h n (s\<lparr>sq_file := g\<rparr>) = (Inr (), ?t)"
    using Some j(1,2) k by (simp add: apply_rollback_def run_callbacks_down_to_def js_assert_def op_simps
        hd_drop_conv_nth k_def split_def)
  have cs: "?cs = drop (length (sq_callbacks s) - k) (sq_callbacks s)" by (simp add: unwind_eq)
  have mem: "?m \<in> M (sf_data g)" using R(2) by (simp add: e)
  have mt: "marks ?t = drop j (marks s)" "frame_names ?t = drop j (frame_names s)"
    using j(2) by (simp_all add: marks_def frame_names_def drop_map)
  have "frames_ok M (hk_callback h) ?t"
    using frames_okD(1) [OF assms(1)] R(3) j(2) unfolding e frames_ok_def mt
    by (simp add: st(2) [THEN arg_cong [of _ _ sf_stack]] j(3) txn_open_def drop_map [symmetric] cs)
  then show ?thesis using mem by (simp add: run)
qed

text \<open>Running a control statement, and running one that only reads or changes the data.\<close>

lemma exec_control_coherent:
  assumes inv: "frames_ok M (hk_callback h) s" "sq_mem s \<in> M (db_data s)"
    and cl: "classify sql = Inr c" "c \<noteq> NoChange"
    and crit: "\<And>e u. sq_critical u \<noteq> None \<Longrightarrow> sq_critical (snd (hk_on_critical h e u)) \<noteq> None"
    and guard: "c \<in> {CommitTxn None, RollbackTxn None} \<Longrightarrow> sq_in_txn s"
  shows "coherent M (hk_callback h) (snd (exec_statement h (file_backend prep d0) (control_stmt sql c) b au s))"
proof -
  have w: "\<not> is_write sql" by (rule control_not_write [OF cl])
  define g0 where "g0 = (sq_file s)\<lparr>sf_n := Suc (sf_n (sq_file s))\<rparr>"
  have fail: "coherent M (hk_callback h) (snd (exec_statement h (file_backend prep d0) (control_stmt sql c) b au s))"
    if e: "scripted (control c) (sq_file s) = (Inl e, g)"
      "sf_stack g = db_stack s \<and> sf_data g = db_data s \<or> db_stack s \<noteq> [] \<and> sf_stack g = []" for e g
    using failed_coherent [OF inv crit e(2)] e(1) cl(1) w
    by (simp add: exec_statement_def control_stmt_def op_bind_def op_return_def)
  show ?thesis
  proof (cases rule: scripted_cases [of "control c" "sq_file s"])
    case (failed g)
    then show ?thesis using fail by blast
  next
    case runs
    obtain r g where g: "control c g0 = (r, g)" by (cases "control c g0")
    let ?s = "s\<lparr>sq_file := g0\<rparr>"
    have inv0: "frames_ok M (hk_callback h) ?s" "sq_mem ?s \<in> M (db_data ?s)"
      using inv frames_ok_cong [of s ?s] by (simp_all add: g0_def)
    show ?thesis
    proof (cases r)
      case (Inl e)
      then have "sf_stack g = db_stack s \<and> sf_data g = db_data s"
        using g by (auto simp: control_def g0_def split: state_change.splits option.splits if_splits)
      with fail runs g Inl show ?thesis by (simp add: g0_def)
    next
      case (Inr res)
      have up: "?s\<lparr>sq_file := g\<rparr> = s\<lparr>sq_file := g\<rparr>" by simp
      have "frames_ok M (hk_callback h) (snd (apply_change h c (s\<lparr>sq_file := g\<rparr>))) \<and>
          sq_mem (snd (apply_change h c (s\<lparr>sq_file := g\<rparr>))) \<in> M (db_data (snd (apply_change h c (s\<lparr>sq_file := g\<rparr>))))"
      proof (cases c)
        case (BeginTxn n)
        with apply_begin_ok [OF inv0, of n res g] g Inr inv(2) show ?thesis by (simp add: apply_change_def g0_def)
      next
        case (CommitTxn n)
        with apply_commit_ok [OF inv0(1), of n res g] g Inr inv(2) guard show ?thesis
          by (simp add: apply_change_def g0_def)
      next
        case (RollbackTxn n)
        with apply_rollback_ok [OF inv0, of n res g] g Inr guard show ?thesis by (simp add: apply_change_def)
      qed (use cl(2) in simp)
      moreover have "exec_statement h (file_backend prep d0) (control_stmt sql c) b au s =
          op_bind (apply_change h c) (\<lambda>_. op_return res) (s\<lparr>sq_file := g\<rparr>)"
        using runs g Inr cl(1) w by (simp add: exec_statement_def control_stmt_def op_bind_def op_return_def g0_def)
      moreover have "snd (op_bind m (\<lambda>_. op_return res) u) = snd (m u)" for m :: "('a sql_file, 'c, 'b, unit) sqop" and u
        by (simp add: op_bind_def op_return_def split: prod.split sum.split)
      ultimately show ?thesis by (simp add: coherent_def)
    qed
  qed
qed

lemma exec_data_cases:
  assumes "classify sql = Inr NoChange"
  obtains (refused) e s1 where "is_write sql" "notify_write h au s = (Inl e, s1)"
      "exec_statement h (file_backend prep d0) (data_stmt sql k f) b au s = (Inl e, s1)"
  | (failed) s1 e g where "(if is_write sql then notify_write h au else op_return ()) s = (Inr (), s1)"
      "exec_statement h (file_backend prep d0) (data_stmt sql k f) b au s =
         op_bind (check_for_auto_rollback h (file_backend prep d0)) (\<lambda>_. op_throw e) (s1\<lparr>sq_file := g\<rparr>)"
      "sf_stack g = db_stack s1 \<and> sf_data g = db_data s1 \<or> db_stack s1 \<noteq> [] \<and> sf_stack g = []"
  | (threw) s1 e d where "(if is_write sql then notify_write h au else op_return ()) s = (Inr (), s1)"
      "f b (db_data s1) = (Inl e, d)"
      "exec_statement h (file_backend prep d0) (data_stmt sql k f) b au s =
         op_bind (check_for_auto_rollback h (file_backend prep d0)) (\<lambda>_. op_throw e)
           (s1\<lparr>sq_file := (sq_file s1)\<lparr>sf_n := Suc (sf_n (sq_file s1)), sf_data := d\<rparr>\<rparr>)"
  | (runs) s1 r d where "(if is_write sql then notify_write h au else op_return ()) s = (Inr (), s1)"
      "f b (db_data s1) = (Inr r, d)"
      "exec_statement h (file_backend prep d0) (data_stmt sql k f) b au s =
         (Inr r, s1\<lparr>sq_file := (sq_file s1)\<lparr>sf_n := Suc (sf_n (sq_file s1)), sf_data := d\<rparr>\<rparr>)"
proof (cases "(if is_write sql then notify_write h au else op_return ()) s")
  case (Pair v s1)
  show thesis
  proof (cases v)
    case (Inl e)
    then have "is_write sql" using Pair by (auto simp: op_return_def split: if_splits)
    then show thesis using Pair Inl assms by (intro refused) (simp_all add: exec_statement_def data_stmt_def op_bind_def)
  next
    case (Inr u)
    then have n: "(if is_write sql then notify_write h au else op_return ()) s = (Inr (), s1)" using Pair by simp
    let ?f = "\<lambda>g. case f b (sf_data g) of (r, d) \<Rightarrow> (r, g\<lparr>sf_data := d\<rparr>)"
    have ex: "exec_statement h (file_backend prep d0) (data_stmt sql k f) b au s =
        (case scripted ?f (sq_file s1) of
           (Inl e, g) \<Rightarrow> op_bind (check_for_auto_rollback h (file_backend prep d0)) (\<lambda>_. op_throw e) (s1\<lparr>sq_file := g\<rparr>)
         | (Inr r, g) \<Rightarrow> (Inr r, s1\<lparr>sq_file := g\<rparr>))"
      using n assms by (simp add: exec_statement_def data_stmt_def op_bind_def apply_change_def op_return_def
          split: prod.split sum.split)
    show thesis
    proof (cases rule: scripted_cases [of ?f "sq_file s1"])
      case (failed g)
      then show thesis using ex n by (intro that(2)) simp_all
    next
      case runs': runs
      show thesis
      proof (cases "f b (db_data s1)")
        case (Pair q d)
        then show thesis using runs' ex n that(3,4) by (cases q) simp_all
      qed
    qed
  qed
qed

section \<open>Running a text returns\<close>








end
