(* ===== verification/Sqlite_Kv.thy ===== *)
theory Sqlite_Kv
  imports Sqlite_Inv "HOL-Library.List_Lexorder" "HOL-Library.AList"
begin

text \<open>
  \<open>SqliteKv\<close> of \<open>src/src/util/sqlite-kv.ts\<close> and \<open>SqliteMetadata\<close> of \<open>src/src/util/sqlite-metadata.ts\<close>.

  The data are the two tables and whatever else is in the file. \<open>_cf_KV\<close> is \<open>WITHOUT ROWID\<close>: a
  \<open>kv_table\<close> is the list of its rows, sorted by the key, which SQLite compares as UTF-8 bytes. Every statement of the two
  \<open>STMT\<close> bundles is its text and the function on the tables it stands for. A list cursor is an object:
  the memory numbers them, as \<open>#currentCursor\<close> and a caller may both hold one.
\<close>

section \<open>The tables\<close>

fun row_insert :: "bytes \<Rightarrow> bytes \<Rightarrow> (bytes \<times> bytes) list \<Rightarrow> (bytes \<times> bytes) list" where
  "row_insert k v [] = [(k, v)]"
| "row_insert k v ((j, w) # t) = (if k < j then (k, v) # (j, w) # t else if k = j then (k, v) # t
     else (j, w) # row_insert k v t)"

fun row_remove :: "bytes \<Rightarrow> (bytes \<times> bytes) list \<Rightarrow> (bytes \<times> bytes) list" where
  "row_remove k [] = []"
| "row_remove k ((j, w) # t) = (if k = j then t else (j, w) # row_remove k t)"

lemma row_keys:
  "fst ` set (row_insert k v t) = insert k (fst ` set t)"
  "fst ` set (row_remove k t) \<subseteq> fst ` set t"
proof -
  show "fst ` set (row_insert k v t) = insert k (fst ` set t)"
    by (induction k v t rule: row_insert.induct) (simp_all add: insert_commute)
  show "fst ` set (row_remove k t) \<subseteq> fst ` set t"
    by (induction k t rule: row_remove.induct) (simp_all, blast)
qed

lemma row_sorted:
  assumes "sorted_wrt (<) (map fst t)"
  shows "sorted_wrt (<) (map fst (row_insert k v t))" "sorted_wrt (<) (map fst (row_remove k t))"
proof -
  have s: "sorted_wrt (<) (map fst ((j, w) # u)) \<longleftrightarrow> (\<forall>i \<in> fst ` set u. j < i) \<and> sorted_wrt (<) (map fst u)"
    for j :: bytes and w :: bytes and u by simp
  show "sorted_wrt (<) (map fst (row_insert k v t))"
    using assms
  proof (induction k v t rule: row_insert.induct)
    case (2 k v j w t)
    consider "k < j" | "k = j" | "\<not> k < j" "j < k" by force
    then show ?case using 2 by cases (auto simp: row_keys intro: less_trans)
  qed simp
  show "sorted_wrt (<) (map fst (row_remove k t))"
    using assms
  proof (induction k t rule: row_remove.induct)
    case (2 k j w t)
    then show ?case using row_keys(2) [of k t] unfolding row_remove.simps by (simp only: s split: if_split) blast
  qed simp
qed

typedef kv_table = "{t :: (bytes \<times> bytes) list. sorted_wrt (<) (map fst t)}"
  morphisms kv_rows Kv_Table
  by (rule exI [of _ "[]"]) simp

setup_lifting type_definition_kv_table

lift_definition kv_empty :: kv_table is "[]" by simp
lift_definition kv_insert :: "bytes \<Rightarrow> bytes \<Rightarrow> kv_table \<Rightarrow> kv_table" is row_insert by (rule row_sorted)
lift_definition kv_remove :: "bytes \<Rightarrow> kv_table \<Rightarrow> kv_table" is row_remove by (rule row_sorted)

instantiation kv_table :: equal
begin

definition "HOL.equal t u \<longleftrightarrow> kv_rows t = kv_rows u"

instance by standard (simp add: equal_kv_table_def kv_rows_inject)

end

type_synonym meta_table = "(int \<times> sql_value) list"

record 'u tables =
  tb_kv :: "kv_table option"
  tb_meta :: "meta_table option"
  tb_user :: 'u

text \<open>The rows from \<open>begin\<close> on, before \<open>end\<close>, and \<open>LIMIT n\<close> (no limit when negative).\<close>

definition kv_range :: "bytes \<Rightarrow> bytes option \<Rightarrow> kv_table \<Rightarrow> (bytes \<times> bytes) list" where
  "kv_range b e t = filter (\<lambda>(k, v). b \<le> k \<and> (case e of None \<Rightarrow> True | Some e \<Rightarrow> k < e)) (kv_rows t)"

definition sql_limit :: "int option \<Rightarrow> 'a list \<Rightarrow> 'a list" where
  "sql_limit n xs = (case n of None \<Rightarrow> xs | Some n \<Rightarrow> if n < 0 then xs else take (nat n) xs)"

text \<open>A text column, which the driver decodes from UTF-8 (here without dropping a byte order mark).\<close>

definition utf8_text :: "bytes \<Rightarrow> js_string" where
  "utf8_text bs = map of_nat (concat (map of_scalar (utf8_run 0 0 0x80 0xBF (map unat bs))))"

definition kv_row :: "bytes \<times> bytes \<Rightarrow> sql_value list" where
  "kv_row p = [SText (utf8_text (fst p)), SBlob (snd p)]"

text \<open>The stores read columns by position, so their results carry no names.\<close>

definition rows :: "sql_value list list \<Rightarrow> sql_result" where "rows rs = \<lparr>rs_columns = [], rs_rows = rs, rs_written = 0\<rparr>"

text \<open>A statement on a table that may be missing.\<close>

definition on_kv :: "('u tables \<Rightarrow> kv_table \<Rightarrow> sql_result \<times> kv_table) \<Rightarrow> 'u tables \<Rightarrow> (js_exn + sql_result) \<times> 'u tables" where
  "on_kv f d = (case tb_kv d of None \<Rightarrow> (Inl SQL_ERROR, d)
     | Some t \<Rightarrow> (case f d t of (r, t') \<Rightarrow> (Inr r, d\<lparr>tb_kv := Some t'\<rparr>)))"

definition on_meta :: "(meta_table \<Rightarrow> sql_result \<times> meta_table) \<Rightarrow> 'u tables \<Rightarrow> (js_exn + sql_result) \<times> 'u tables" where
  "on_meta f d = (case tb_meta d of None \<Rightarrow> (Inl SQL_ERROR, d)
     | Some t \<Rightarrow> (case f t of (r, t') \<Rightarrow> (Inr r, d\<lparr>tb_meta := Some t'\<rparr>)))"

section \<open>The statements of the key-value table\<close>

type_synonym 'u stmt = "'u tables sql_file sql_statement"

definition STMT_get :: "'u stmt" where
  "STMT_get = data_stmt (of_chars ''
      SELECT value FROM _cf_KV WHERE key = ?
    '') 1 (\<lambda>b. on_kv (\<lambda>_ t. (rows (case b of [SText k] \<Rightarrow>
      (case map_of (kv_rows t) (utf8_encode k) of None \<Rightarrow> [] | Some v \<Rightarrow> [[SBlob v]]) | _ \<Rightarrow> []), t)))"

definition STMT_put :: "'u stmt" where
  "STMT_put = data_stmt (of_chars ''
      INSERT INTO _cf_KV VALUES(?, ?)
        ON CONFLICT DO UPDATE SET value = excluded.value
    '') 2 (\<lambda>b. on_kv (\<lambda>_ t. (case b of [SText k, SBlob v] \<Rightarrow> (no_rows 1, kv_insert (utf8_encode k) v t)
      | _ \<Rightarrow> (no_rows 0, t))))"

definition STMT_delete :: "'u stmt" where
  "STMT_delete = data_stmt (of_chars ''
      DELETE FROM _cf_KV WHERE key = ?
    '') 1 (\<lambda>b. on_kv (\<lambda>_ t. (case b of [SText k] \<Rightarrow>
      (no_rows (if map_of (kv_rows t) (utf8_encode k) = None then 0 else 1), kv_remove (utf8_encode k) t)
      | _ \<Rightarrow> (no_rows 0, t))))"

definition select_rows :: "bool \<Rightarrow> js_string \<Rightarrow> js_string option \<Rightarrow> int option \<Rightarrow> kv_table \<Rightarrow> sql_value list list" where
  "select_rows reverse b e n t =
     map kv_row (sql_limit n ((if reverse then rev else id) (kv_range (utf8_encode b) (map_option utf8_encode e) t)))"

text \<open>The eight list statements, by the bindings they take.\<close>

definition list_stmt :: "string \<Rightarrow> nat \<Rightarrow> (sql_value list \<Rightarrow> kv_table \<Rightarrow> sql_value list list) \<Rightarrow> 'u stmt" where
  "list_stmt sql k f = data_stmt (of_chars sql) k (\<lambda>b. on_kv (\<lambda>_ t. (rows (f b t), t)))"

definition STMT_list :: "'u stmt" where
  "STMT_list = list_stmt ''
      SELECT * FROM _cf_KV
      WHERE key >= ?
      ORDER BY key
    '' 1 (\<lambda>b t. case b of [SText k] \<Rightarrow> select_rows False k None None t | _ \<Rightarrow> [])"

definition STMT_listEnd :: "'u stmt" where
  "STMT_listEnd = list_stmt ''
      SELECT * FROM _cf_KV
      WHERE key >= ? AND key < ?
      ORDER BY key
    '' 2 (\<lambda>b t. case b of [SText k, SText e] \<Rightarrow> select_rows False k (Some e) None t | _ \<Rightarrow> [])"

definition STMT_listLimit :: "'u stmt" where
  "STMT_listLimit = list_stmt ''
      SELECT * FROM _cf_KV
      WHERE key >= ?
      ORDER BY key
      LIMIT ?
    '' 2 (\<lambda>b t. case b of [SText k, SNum n] \<Rightarrow> select_rows False k None (Some n) t | _ \<Rightarrow> [])"

definition STMT_listEndLimit :: "'u stmt" where
  "STMT_listEndLimit = list_stmt ''
      SELECT * FROM _cf_KV
      WHERE key >= ? AND key < ?
      ORDER BY key
      LIMIT ?
    '' 3 (\<lambda>b t. case b of [SText k, SText e, SNum n] \<Rightarrow> select_rows False k (Some e) (Some n) t | _ \<Rightarrow> [])"

definition STMT_listReverse :: "'u stmt" where
  "STMT_listReverse = list_stmt ''
      SELECT * FROM _cf_KV
      WHERE key >= ?
      ORDER BY key DESC
    '' 1 (\<lambda>b t. case b of [SText k] \<Rightarrow> select_rows True k None None t | _ \<Rightarrow> [])"

definition STMT_listEndReverse :: "'u stmt" where
  "STMT_listEndReverse = list_stmt ''
      SELECT * FROM _cf_KV
      WHERE key >= ? AND key < ?
      ORDER BY key DESC
    '' 2 (\<lambda>b t. case b of [SText k, SText e] \<Rightarrow> select_rows True k (Some e) None t | _ \<Rightarrow> [])"

definition STMT_listLimitReverse :: "'u stmt" where
  "STMT_listLimitReverse = list_stmt ''
      SELECT * FROM _cf_KV
      WHERE key >= ?
      ORDER BY key DESC
      LIMIT ?
    '' 2 (\<lambda>b t. case b of [SText k, SNum n] \<Rightarrow> select_rows True k None (Some n) t | _ \<Rightarrow> [])"

definition STMT_listEndLimitReverse :: "'u stmt" where
  "STMT_listEndLimitReverse = list_stmt ''
      SELECT * FROM _cf_KV
      WHERE key >= ? AND key < ?
      ORDER BY key DESC
      LIMIT ?
    '' 3 (\<lambda>b t. case b of [SText k, SText e, SNum n] \<Rightarrow> select_rows True k (Some e) (Some n) t | _ \<Rightarrow> [])"

definition STMT_countKeys :: "'u stmt" where
  "STMT_countKeys = data_stmt (of_chars ''
      SELECT count(*) FROM _cf_KV
    '') 0 (\<lambda>_. on_kv (\<lambda>_ t. (rows [[SNum (int (length (kv_rows t)))]], t)))"

definition PUT_SAVEPOINT :: js_string where "PUT_SAVEPOINT = of_chars ''_cf_put_multiple_savepoint''"

definition STMT_multiPutSavepoint :: "'u stmt" where
  "STMT_multiPutSavepoint = control_stmt (of_chars ''
      SAVEPOINT _cf_put_multiple_savepoint
    '') (BeginTxn (Some PUT_SAVEPOINT))"

definition STMT_multiPutRelease :: "'u stmt" where
  "STMT_multiPutRelease = control_stmt (of_chars ''
      RELEASE _cf_put_multiple_savepoint
    '') (CommitTxn (Some PUT_SAVEPOINT))"

definition STMT_multiPutRollback :: "'u stmt" where
  "STMT_multiPutRollback = control_stmt (of_chars ''ROLLBACK TO _cf_put_multiple_savepoint'') (RollbackTxn (Some PUT_SAVEPOINT))"

definition KV_CREATE_TABLE :: "'u stmt" where
  "KV_CREATE_TABLE = data_stmt (of_chars ''
      CREATE TABLE IF NOT EXISTS _cf_KV (
        key TEXT PRIMARY KEY,
        value BLOB
      ) WITHOUT ROWID
    '') 0 (\<lambda>_ d. (Inr (no_rows 0), if tb_kv d = None then d\<lparr>tb_kv := Some kv_empty\<rparr> else d))"

section \<open>The statements of the metadata table\<close>

definition STMT_getAlarm :: "'u stmt" where
  "STMT_getAlarm = data_stmt (of_chars ''
      SELECT value FROM _cf_METADATA WHERE key = 1
    '') 0 (\<lambda>_. on_meta (\<lambda>t. (rows (case map_of t 1 of None \<Rightarrow> [] | Some v \<Rightarrow> [[v]]), t)))"

definition STMT_setAlarm :: "'u stmt" where
  "STMT_setAlarm = data_stmt (of_chars ''
      INSERT INTO _cf_METADATA VALUES(1, ?)
        ON CONFLICT DO UPDATE SET value = excluded.value
    '') 1 (\<lambda>b. on_meta (\<lambda>t. (no_rows 1, case b of [v] \<Rightarrow> AList.update 1 v t | _ \<Rightarrow> t)))"

definition STMT_getBookmark :: "'u stmt" where
  "STMT_getBookmark = data_stmt (of_chars ''
      SELECT value FROM _cf_METADATA WHERE key = 2
    '') 0 (\<lambda>_. on_meta (\<lambda>t. (rows (case map_of t 2 of None \<Rightarrow> [] | Some v \<Rightarrow> [[v]]), t)))"

definition STMT_setBookmark :: "'u stmt" where
  "STMT_setBookmark = data_stmt (of_chars ''
      INSERT INTO _cf_METADATA VALUES(2, ?)
        ON CONFLICT DO UPDATE SET value = excluded.value
    '') 1 (\<lambda>b. on_meta (\<lambda>t. (no_rows 1, case b of [v] \<Rightarrow> AList.update 2 v t | _ \<Rightarrow> t)))"

definition META_CREATE_TABLE :: "'u stmt" where
  "META_CREATE_TABLE = data_stmt (of_chars ''
      CREATE TABLE IF NOT EXISTS _cf_METADATA (
        key INTEGER PRIMARY KEY,
        value BLOB
      )
    '') 0 (\<lambda>_ d. (Inr (no_rows 0), if tb_meta d = None then d\<lparr>tb_meta := Some []\<rparr> else d))"

section \<open>Memory\<close>

record list_cursor =
  lc_rows :: "sql_value list list option"
  lc_index :: nat
  lc_canceled :: bool
  lc_parent :: bool

record store_mem =
  km_created :: bool
  km_current :: "nat option"
  km_cursors :: "list_cursor list"
  mm_created :: bool
  mm_cache :: "int option option"

datatype rollback_callback = KvCreated | MetaCreated | MetaCache "int option option"

definition store_callback :: "rollback_callback \<Rightarrow> 'x store_mem_scheme \<Rightarrow> 'x store_mem_scheme" where
  "store_callback c m =
     (case c of
        KvCreated \<Rightarrow> m\<lparr>km_created := False\<rparr>
      | MetaCreated \<Rightarrow> m\<lparr>mm_created := False\<rparr>
      | MetaCache v \<Rightarrow> m\<lparr>mm_cache := v\<rparr>)"

type_synonym ('u, 'x) store = "('u tables sql_file, rollback_callback, 'x store_mem_scheme) sqlite"
type_synonym ('u, 'x) store_hooks = "('u tables sql_file, rollback_callback, 'x store_mem_scheme) hooks"
type_synonym ('u, 'x, 'a) stop = "(('u, 'x) store, 'a) op"

definition mem :: "('x store_mem_scheme \<Rightarrow> 'x store_mem_scheme) \<Rightarrow> ('u, 'x) store \<Rightarrow> ('u, 'x) store" where
  "mem f s = s\<lparr>sq_mem := f (sq_mem s)\<rparr>"

abbreviation set_mem :: "('x store_mem_scheme \<Rightarrow> 'x store_mem_scheme) \<Rightarrow> ('u, 'x, unit) stop" where
  "set_mem f \<equiv> op_modify (mem f)"

section \<open>Cursors\<close>

definition cancel_cursor :: "nat \<Rightarrow> 'x store_mem_scheme \<Rightarrow> 'x store_mem_scheme" where
  "cancel_cursor i m = m\<lparr>km_cursors := (km_cursors m)[i := (km_cursors m ! i)\<lparr>lc_rows := None, lc_canceled := True\<rparr>]\<rparr>"

definition cancel_current :: "'x store_mem_scheme \<Rightarrow> 'x store_mem_scheme" where
  "cancel_current m = (case km_current m of None \<Rightarrow> m | Some i \<Rightarrow> (cancel_cursor i m)\<lparr>km_current := None\<rparr>)"

definition new_cursor :: "bool \<Rightarrow> sql_value list list option \<Rightarrow> 'x store_mem_scheme \<Rightarrow> nat \<times> 'x store_mem_scheme" where
  "new_cursor parent rs m = (length (km_cursors m),
     m\<lparr>km_cursors := km_cursors m @ [\<lparr>lc_rows = rs, lc_index = 0, lc_canceled = False, lc_parent = parent\<rparr>]\<rparr>)"

definition release_cursor :: "nat \<Rightarrow> 'x store_mem_scheme \<Rightarrow> 'x store_mem_scheme" where
  "release_cursor i m = (if km_current m = Some i then m\<lparr>km_current := None\<rparr> else m)"

definition exhaust :: "nat \<Rightarrow> 'x store_mem_scheme \<Rightarrow> 'x store_mem_scheme" where
  "exhaust i m =
     (let m1 = m\<lparr>km_cursors := (km_cursors m)[i := (km_cursors m ! i)\<lparr>lc_rows := None\<rparr>]\<rparr>
      in if lc_parent (km_cursors m ! i) then release_cursor i m1 else m1)"

definition cursor_next :: "nat \<Rightarrow> ('u, 'x, (js_string \<times> bytes) option) stop" where
  "cursor_next i s =
     (let m = sq_mem s; c = km_cursors m ! i
      in case lc_rows c of
           None \<Rightarrow> (Inr None, s)
         | Some rs \<Rightarrow>
             (if lc_index c < length rs then
                (let row = rs ! lc_index c;
                     t = mem (\<lambda>m. m\<lparr>km_cursors := (km_cursors m)[i := c\<lparr>lc_index := Suc (lc_index c)\<rparr>]\<rparr>) s
                 in case get_text row 0 of
                      Inl e \<Rightarrow> (Inl e, t)
                    | Inr k \<Rightarrow> (case get_blob row 1 of Inl e \<Rightarrow> (Inl e, t) | Inr v \<Rightarrow> (Inr (Some (k, v)), t)))
              else (Inr None, mem (exhaust i) s)))"

text \<open>
  \<open>forEach\<close>, with fuel for the rows of the cursor: each turn that goes on uses up one row, so one
  more than their number is enough. \<open>call\<close> is the callback.
\<close>

fun for_each :: "nat \<Rightarrow> nat \<Rightarrow> (js_string \<Rightarrow> bytes \<Rightarrow> 'a \<Rightarrow> ('u, 'x, 'a) stop) \<Rightarrow> nat \<Rightarrow> 'a \<Rightarrow> ('u, 'x, nat \<times> 'a) stop" where
  "for_each 0 i call n a = op_return (n, a)"
| "for_each (Suc fuel) i call n a = op_bind (cursor_next i) (\<lambda>p. case p of
     None \<Rightarrow> op_return (n, a)
   | Some (k, v) \<Rightarrow> op_bind (call k v a) (\<lambda>a. for_each fuel i call (Suc n) a))"

section \<open>The key-value store\<close>

definition kv_ensure_initialized :: "('u, 'x) store_hooks \<Rightarrow> 'u tables sql_file sql_backend \<Rightarrow> bool \<Rightarrow> ('u, 'x, unit) stop" where
  "kv_ensure_initialized h be au s =
     (if km_created (sq_mem s) then (Inr (), s)
      else op_bind (db_run1 h be KV_CREATE_TABLE [] au)
        (\<lambda>_. op_bind (set_mem (\<lambda>m. m\<lparr>km_created := True\<rparr>)) (\<lambda>_. op_modify (on_rollback KvCreated))) s)"

definition kv_get :: "('u, 'x) store_hooks \<Rightarrow> 'u tables sql_file sql_backend \<Rightarrow> js_string \<Rightarrow> ('u, 'x, bytes option) stop" where
  "kv_get h be k = op_bind assert_usable (\<lambda>_ s.
     (if \<not> km_created (sq_mem s) then (Inr None, s)
      else op_bind (db_run1 h be STMT_get [SText k] False) (\<lambda>r s. (case rs_rows r of
             [] \<Rightarrow> (Inr None, s)
           | row # _ \<Rightarrow> (case get_blob row 0 of Inl e \<Rightarrow> (Inl e, s) | Inr v \<Rightarrow> (Inr (Some v), s)))) s))"

datatype order = FORWARD | REVERSE

definition select_list_statement ::
  "js_string \<Rightarrow> js_string option \<Rightarrow> int option \<Rightarrow> order \<Rightarrow> 'u stmt \<times> sql_value list" where
  "select_list_statement b e n ord =
     (if ord = FORWARD then
        (case e of
           Some e' \<Rightarrow> (case n of Some n' \<Rightarrow> (STMT_listEndLimit, [SText b, SText e', SNum n'])
                               | None \<Rightarrow> (STMT_listEnd, [SText b, SText e']))
         | None \<Rightarrow> (case n of Some n' \<Rightarrow> (STMT_listLimit, [SText b, SNum n']) | None \<Rightarrow> (STMT_list, [SText b])))
      else
        (case e of
           Some e' \<Rightarrow> (case n of Some n' \<Rightarrow> (STMT_listEndLimitReverse, [SText b, SText e', SNum n'])
                               | None \<Rightarrow> (STMT_listEndReverse, [SText b, SText e']))
         | None \<Rightarrow> (case n of Some n' \<Rightarrow> (STMT_listLimitReverse, [SText b, SNum n'])
                            | None \<Rightarrow> (STMT_listReverse, [SText b]))))"

definition kv_open_cursor :: "('u, 'x) store_hooks \<Rightarrow> 'u tables sql_file sql_backend \<Rightarrow>
    js_string \<Rightarrow> js_string option \<Rightarrow> int option \<Rightarrow> order \<Rightarrow> ('u, 'x, nat) stop" where
  "kv_open_cursor h be b e n ord = op_bind assert_usable (\<lambda>_ s.
     (if \<not> km_created (sq_mem s) then
        (case new_cursor False None (sq_mem s) of (i, m) \<Rightarrow> (Inr i, s\<lparr>sq_mem := m\<rparr>))
      else (case select_list_statement b e n ord of (st, params) \<Rightarrow>
        op_bind (set_mem cancel_current) (\<lambda>_. op_bind (db_run1 h be st params False) (\<lambda>r s.
          (case new_cursor True (Some (rs_rows r)) (sq_mem s) of
             (i, m) \<Rightarrow> (Inr i, s\<lparr>sq_mem := m\<lparr>km_current := Some i\<rparr>\<rparr>)))) s)))"

definition kv_list :: "('u, 'x) store_hooks \<Rightarrow> 'u tables sql_file sql_backend \<Rightarrow>
    js_string \<Rightarrow> js_string option \<Rightarrow> int option \<Rightarrow> order \<Rightarrow>
    (js_string \<Rightarrow> bytes \<Rightarrow> 'a \<Rightarrow> ('u, 'x, 'a) stop) \<Rightarrow> 'a \<Rightarrow> ('u, 'x, nat \<times> 'a) stop" where
  "kv_list h be b e n ord call a = op_bind (kv_open_cursor h be b e n ord) (\<lambda>i s.
     for_each (Suc (case lc_rows (km_cursors (sq_mem s) ! i) of None \<Rightarrow> 0 | Some rs \<Rightarrow> length rs)) i call 0 a s)"

definition kv_put :: "('u, 'x) store_hooks \<Rightarrow> 'u tables sql_file sql_backend \<Rightarrow> js_string \<Rightarrow> bytes \<Rightarrow> bool \<Rightarrow> ('u, 'x, unit) stop" where
  "kv_put h be k v au = op_bind (kv_ensure_initialized h be au)
     (\<lambda>_. op_bind (db_run1 h be STMT_put [SText k, SBlob v] au) (\<lambda>_. op_return ()))"

definition kv_delete :: "('u, 'x) store_hooks \<Rightarrow> 'u tables sql_file sql_backend \<Rightarrow> js_string \<Rightarrow> bool \<Rightarrow> ('u, 'x, bool) stop" where
  "kv_delete h be k au = op_bind (kv_ensure_initialized h be au)
     (\<lambda>_. op_bind (db_run1 h be STMT_delete [SText k] au) (\<lambda>r. op_return (0 < rs_written r)))"

definition kv_delete_all :: "('u, 'x) store_hooks \<Rightarrow> 'u tables sql_file sql_backend \<Rightarrow> ('u, 'x, int) stop" where
  "kv_delete_all h be = op_bind
     (\<lambda>s. (if km_created (sq_mem s) then
        op_bind (db_run1 h be STMT_countKeys [] False) (\<lambda>r. case rs_rows r of
            [] \<Rightarrow> op_throw (Failure ''count(*) returned no row.'')
          | row # _ \<Rightarrow> (case get_int64 row 0 of Inl e \<Rightarrow> op_throw e | Inr n \<Rightarrow> op_return n)) s
        else (Inr 0, s)))
     (\<lambda>count. op_bind (db_reset h be) (\<lambda>_. op_return count))"

fun put_each :: "('u, 'x) store_hooks \<Rightarrow> 'u tables sql_file sql_backend \<Rightarrow> bool \<Rightarrow> (js_string \<times> bytes) list \<Rightarrow> ('u, 'x, unit) stop" where
  "put_each h be au [] = op_return ()"
| "put_each h be au ((k, v) # ps) = op_bind (kv_put h be k v au) (\<lambda>_. put_each h be au ps)"

definition rollback_multi_put :: "('u, 'x) store_hooks \<Rightarrow> 'u tables sql_file sql_backend \<Rightarrow> bool \<Rightarrow> ('u, 'x, unit) stop" where
  "rollback_multi_put h be au = op_catch
     (op_bind (db_run1 h be STMT_multiPutRollback [] au) (\<lambda>_. op_bind (db_run1 h be STMT_multiPutRelease [] au) (\<lambda>_. op_return ())))
     (\<lambda>_. op_throw (Failure ''Rolling back a multi-put failed''))"

definition kv_put_multiple :: "('u, 'x) store_hooks \<Rightarrow> 'u tables sql_file sql_backend \<Rightarrow> (js_string \<times> bytes) list \<Rightarrow> bool \<Rightarrow> ('u, 'x, unit) stop" where
  "kv_put_multiple h be pairs au = op_bind (kv_ensure_initialized h be au)
     (\<lambda>_. op_bind (db_run1 h be STMT_multiPutSavepoint [] au)
     (\<lambda>_. op_bind (op_catch (put_each h be au pairs) (\<lambda>e. op_bind (rollback_multi_put h be au) (\<lambda>_. op_throw e)))
     (\<lambda>_. op_bind (db_run1 h be STMT_multiPutRelease [] au) (\<lambda>_. op_return ()))))"

section \<open>Metadata\<close>

definition meta_ensure_initialized :: "('u, 'x) store_hooks \<Rightarrow> 'u tables sql_file sql_backend \<Rightarrow> bool \<Rightarrow> ('u, 'x, unit) stop" where
  "meta_ensure_initialized h be au s =
     (if mm_created (sq_mem s) then (Inr (), s)
      else op_bind (db_run1 h be META_CREATE_TABLE [] au)
        (\<lambda>_. op_bind (set_mem (\<lambda>m. m\<lparr>mm_created := True\<rparr>)) (\<lambda>_. op_modify (on_rollback MetaCreated))) s)"

text \<open>The first row's value, as the two getters read it.\<close>

definition read_number :: "sql_result \<Rightarrow> ('u, 'x, int option) stop" where
  "read_number r s =
     (case rs_rows r of
        [] \<Rightarrow> (Inr None, s)
      | row # _ \<Rightarrow> (if is_null row 0 then (Inr None, s)
                   else (case get_int64 row 0 of Inl e \<Rightarrow> (Inl e, s) | Inr n \<Rightarrow> (Inr (Some n), s))))"

definition get_alarm_uncached :: "('u, 'x) store_hooks \<Rightarrow> 'u tables sql_file sql_backend \<Rightarrow> ('u, 'x, int option) stop" where
  "get_alarm_uncached h be s =
     (if \<not> mm_created (sq_mem s) then (Inr None, s)
      else op_bind (db_run1 h be STMT_getAlarm [] False) read_number s)"

definition meta_get_alarm :: "('u, 'x) store_hooks \<Rightarrow> 'u tables sql_file sql_backend \<Rightarrow> ('u, 'x, int option) stop" where
  "meta_get_alarm h be = op_bind assert_usable (\<lambda>_ s. (case mm_cache (sq_mem s) of
     Some a \<Rightarrow> (Inr a, s)
   | None \<Rightarrow> op_bind (get_alarm_uncached h be)
       (\<lambda>a. op_bind (set_mem (\<lambda>m. m\<lparr>mm_cache := Some a\<rparr>)) (\<lambda>_. op_return a)) s))"

definition alarm_value :: "int option \<Rightarrow> sql_value" where
  "alarm_value a = (case a of None \<Rightarrow> SNull | Some t \<Rightarrow> SNum t)"

definition set_alarm_uncached :: "('u, 'x) store_hooks \<Rightarrow> 'u tables sql_file sql_backend \<Rightarrow> int option \<Rightarrow> bool \<Rightarrow> ('u, 'x, unit) stop" where
  "set_alarm_uncached h be a au = op_bind (meta_ensure_initialized h be au)
     (\<lambda>_. op_bind (db_run1 h be STMT_setAlarm [alarm_value a] au) (\<lambda>_. op_return ()))"

definition meta_set_alarm :: "('u, 'x) store_hooks \<Rightarrow> 'u tables sql_file sql_backend \<Rightarrow> int option \<Rightarrow> bool \<Rightarrow> ('u, 'x, bool) stop" where
  "meta_set_alarm h be a au s =
     (let cached = mm_cache (sq_mem s)
      in if cached = Some a then (Inr False, s)
         else op_bind (set_alarm_uncached h be a au)
           (\<lambda>_. op_bind (op_modify (on_rollback (MetaCache cached)))
           (\<lambda>_. op_bind (set_mem (\<lambda>m. m\<lparr>mm_cache := Some a\<rparr>)) (\<lambda>_. op_return True))) s)"

definition get_bookmark :: "('u, 'x) store_hooks \<Rightarrow> 'u tables sql_file sql_backend \<Rightarrow> ('u, 'x, int option) stop" where
  "get_bookmark h be = op_bind (meta_ensure_initialized h be False)
     (\<lambda>_. op_bind (db_run1 h be STMT_getBookmark [] False) (\<lambda>r. op_bind (read_number r) (\<lambda>v. case v of
        Some n \<Rightarrow> (if n < 0 then op_throw (Failure ''Local development bookmark is negative'') else op_return (Some n))
      | None \<Rightarrow> op_return None)))"

definition set_bookmark :: "('u, 'x) store_hooks \<Rightarrow> 'u tables sql_file sql_backend \<Rightarrow> int \<Rightarrow> ('u, 'x, unit) stop" where
  "set_bookmark h be n =
     (if MAX_SAFE < \<bar>n\<bar> \<or> n < 0
      then op_throw (Failure ''Local development bookmark is not a non-negative safe integer'')
      else op_bind (meta_ensure_initialized h be False)
        (\<lambda>_. op_bind (db_run1 h be STMT_setBookmark [SNum n] False) (\<lambda>_. op_return ())))"

text \<open>The two reset listeners, and the two constructors on a file.\<close>

definition store_before_reset :: "'x store_mem_scheme \<Rightarrow> 'x store_mem_scheme" where
  "store_before_reset m = (cancel_current (m\<lparr>km_created := False\<rparr>))\<lparr>mm_created := False, mm_cache := None\<rparr>"

definition new_store_mem :: "'u tables \<Rightarrow> js_exn + store_mem" where
  "new_store_mem d =
     (if (case tb_meta d of None \<Rightarrow> False | Some t \<Rightarrow> list_ex (\<lambda>(k, v). k \<notin> {1, 2}) t)
      then Inl (Failure ''Incompatible @mcp-b/do-runtime storage data: _cf_METADATA contains unsupported key'')
      else Inr \<lparr>km_created = (tb_kv d \<noteq> None), km_current = None, km_cursors = [], mm_created = (tb_meta d \<noteq> None),
             mm_cache = None\<rparr>)"

end
