(* ===== verification/Store_Texts.thy ===== *)
theory Store_Texts
  imports Sqlite_Kv
begin

text \<open>
  What \<^const>\<open>classify\<close> and \<^const>\<open>is_write\<close> say of the texts of the two \<open>STMT\<close> bundles.
\<close>

section \<open>The statements\<close>

named_theorems stmt_text \<open>the text of each statement\<close>

lemma stmt_texts [stmt_text]:
  "leading_keyword (st_sql STMT_get) = of_chars ''SELECT''" "leading_keyword (st_sql STMT_put) = of_chars ''INSERT''"
  "leading_keyword (st_sql STMT_delete) = of_chars ''DELETE''" "leading_keyword (st_sql STMT_countKeys) = of_chars ''SELECT''"
  "leading_keyword (st_sql KV_CREATE_TABLE) = of_chars ''CREATE''" "leading_keyword (st_sql META_CREATE_TABLE) = of_chars ''CREATE''"
  "leading_keyword (st_sql STMT_getAlarm) = of_chars ''SELECT''" "leading_keyword (st_sql STMT_setAlarm) = of_chars ''INSERT''"
  "leading_keyword (st_sql STMT_getBookmark) = of_chars ''SELECT''" "leading_keyword (st_sql STMT_setBookmark) = of_chars ''INSERT''"
  unfolding STMT_get_def STMT_put_def STMT_delete_def STMT_countKeys_def KV_CREATE_TABLE_def META_CREATE_TABLE_def
    STMT_getAlarm_def STMT_setAlarm_def STMT_getBookmark_def STMT_setBookmark_def data_stmt_def
  by (simp add: leading_keyword_chars char_eval letter_def upper_letter_def lower_letter_def to_upper_def of_chars_apply [of "''SELECT''"]
      of_chars_apply [of "''INSERT''"] of_chars_apply [of "''DELETE''"] of_chars_apply [of "''CREATE''"])+

lemma list_stmt_texts:
  "leading_keyword (st_sql STMT_list) = of_chars ''SELECT''" "leading_keyword (st_sql STMT_listEnd) = of_chars ''SELECT''"
  "leading_keyword (st_sql STMT_listLimit) = of_chars ''SELECT''" "leading_keyword (st_sql STMT_listEndLimit) = of_chars ''SELECT''"
  "leading_keyword (st_sql STMT_listReverse) = of_chars ''SELECT''" "leading_keyword (st_sql STMT_listEndReverse) = of_chars ''SELECT''"
  "leading_keyword (st_sql STMT_listLimitReverse) = of_chars ''SELECT''"
  "leading_keyword (st_sql STMT_listEndLimitReverse) = of_chars ''SELECT''"
  unfolding STMT_list_def STMT_listEnd_def STMT_listLimit_def STMT_listEndLimit_def STMT_listReverse_def
    STMT_listEndReverse_def STMT_listLimitReverse_def STMT_listEndLimitReverse_def list_stmt_def data_stmt_def
  by (simp add: leading_keyword_chars char_eval letter_def upper_letter_def lower_letter_def to_upper_def
      of_chars_apply [of "''SELECT''"])+

lemma list_texts [stmt_text]:
  "leading_keyword (st_sql (fst (select_list_statement b e n ord))) = of_chars ''SELECT''"
  by (simp add: select_list_statement_def list_stmt_texts split: option.split)

lemma data_keywords: "of_chars ''SELECT'' \<notin> CONTROL_KEYWORDS" "of_chars ''INSERT'' \<notin> CONTROL_KEYWORDS"
  "of_chars ''DELETE'' \<notin> CONTROL_KEYWORDS" "of_chars ''CREATE'' \<notin> CONTROL_KEYWORDS"
  by (simp_all add: CONTROL_KEYWORDS_def of_chars_def)

lemma ident_put: "ident PUT_SAVEPOINT"
  unfolding PUT_SAVEPOINT_def by code_simp

lemma put_savepoint_name: "savepoint_name PUT_SAVEPOINT = PUT_SAVEPOINT"
  unfolding savepoint_name_ident [OF ident_put] unfolding PUT_SAVEPOINT_def by code_simp

lemma put_savepoint_texts:
  "classify (st_sql STMT_multiPutSavepoint) = Inr (BeginTxn (Some PUT_SAVEPOINT))"
  "classify (st_sql STMT_multiPutRelease) = Inr (CommitTxn (Some PUT_SAVEPOINT))"
  "classify (st_sql STMT_multiPutRollback) = Inr (RollbackTxn (Some PUT_SAVEPOINT))"
proof -
  have "control_text (st_sql STMT_multiPutSavepoint) = control_text (of_chars ''SAVEPOINT '' @ PUT_SAVEPOINT)"
    "control_text (st_sql STMT_multiPutRelease) = control_text (of_chars ''RELEASE '' @ PUT_SAVEPOINT)"
    unfolding STMT_multiPutSavepoint_def STMT_multiPutRelease_def control_stmt_def PUT_SAVEPOINT_def
    by code_simp+
  moreover have "st_sql STMT_multiPutRollback = of_chars ''ROLLBACK TO '' @ PUT_SAVEPOINT"
    by (simp add: STMT_multiPutRollback_def control_stmt_def PUT_SAVEPOINT_def of_chars_def)
  ultimately show "classify (st_sql STMT_multiPutSavepoint) = Inr (BeginTxn (Some PUT_SAVEPOINT))"
    "classify (st_sql STMT_multiPutRelease) = Inr (CommitTxn (Some PUT_SAVEPOINT))"
    "classify (st_sql STMT_multiPutRollback) = Inr (RollbackTxn (Some PUT_SAVEPOINT))"
    using classify_savepoint [OF ident_put] classify_release [OF ident_put] classify_rollback_to [OF ident_put]
      classify_cong put_savepoint_name by metis+
qed

end
