(* ===== verification/Store_Inv.thy ===== *)
theory Store_Inv
  imports Store_Texts
begin

text \<open>
  The caches of the two stores never disagree with the database. The memories that agree with a
  state of the tables know whether each table exists, and cache the stored alarm time or nothing; every
  operation keeps the invariant of \<^const>\<open>frames_ok\<close> for them, whatever statements fail, provided the
  write callback does (the locale \<open>store_hooks_ok\<close>).
\<close>

section \<open>Agreement\<close>

definition alarm_in :: "'u tables \<Rightarrow> int option" where
  "alarm_in d = (case tb_meta d of None \<Rightarrow> None | Some t \<Rightarrow> (case map_of t 1 of Some (SNum n) \<Rightarrow> Some n | _ \<Rightarrow> None))"

definition agree :: "'u tables \<Rightarrow> 'x store_mem_scheme set" where
  "agree d = {m. km_created m = (tb_kv d \<noteq> None) \<and> mm_created m = (tb_meta d \<noteq> None) \<and>
     (mm_cache m = None \<or> mm_cache m = Some (alarm_in d))}"

definition caches :: "'x store_mem_scheme \<Rightarrow> bool \<times> bool \<times> int option option" where
  "caches m = (km_created m, mm_created m, mm_cache m)"

abbreviation db_caches :: "('u, 'x) store \<Rightarrow> bool \<times> bool \<times> int option option" where
  "db_caches s \<equiv> caches (sq_mem s)"

text \<open>What a statement may do to the tables without the caches noticing.\<close>

definition unseen :: "'u tables \<Rightarrow> 'u tables \<Rightarrow> bool" where
  "unseen d e \<longleftrightarrow> (tb_kv e = None) = (tb_kv d = None) \<and> (tb_meta e = None) = (tb_meta d = None) \<and> alarm_in e = alarm_in d"

lemma unseen_refl [simp]: "unseen d d"
  by (simp add: unseen_def)

lemma agree_same: "unseen d e \<Longrightarrow> agree e = agree d"
  by (simp add: agree_def unseen_def)

lemma agree_caches: "caches m = caches m' \<Longrightarrow> m \<in> agree d \<longleftrightarrow> m' \<in> agree d"
  by (simp add: agree_def caches_def)

abbreviation store_ok :: "('u, 'x) store \<Rightarrow> bool" where
  "store_ok s \<equiv> coherent agree store_callback s"

lemma store_okI: "frames_ok agree store_callback s \<Longrightarrow> sq_mem s \<in> agree (db_data s) \<Longrightarrow> store_ok s"
  by (simp add: coherent_def)

lemma store_okD:
  assumes "store_ok s" "sq_critical s = None"
  shows "frames_ok agree store_callback s" "sq_mem s \<in> agree (db_data s)"
  using assms by (simp_all add: coherent_def)

text \<open>Changes of the memory that the tables do not see.\<close>

lemma store_ok_mem:
  assumes "store_ok s" "caches (f (sq_mem s)) = db_caches s"
  shows "store_ok (mem f s)"
  using assms frames_ok_cong [of s "mem f s"] agree_caches [OF assms(2)]
  by (auto simp: coherent_def mem_def)

section \<open>Operations\<close>

text \<open>
  The contract of the hooks: the write callback keeps the invariant, and changes neither the data nor
  what the stores cache. When it throws, the data are as they were or the database is unusable.
\<close>

locale store_hooks_ok =
  fixes h :: "('u, 'x) store_hooks" and prep :: "js_string \<Rightarrow> 'u tables sql_file \<Rightarrow> js_exn + 'u tables sql_file sql_statement"
    and d0 :: "'u tables"
  assumes callback: "hk_callback h = store_callback"
    and critical: "sq_critical s \<noteq> None \<Longrightarrow> sq_critical (snd (hk_on_critical h e s)) \<noteq> None"
    and reset: "hk_before_reset h = store_before_reset"
    and empty_data: "tb_kv d0 = None" "tb_meta d0 = None"
    and write_ok: "store_ok s \<Longrightarrow> sq_critical s = None \<Longrightarrow> store_ok (snd (hk_on_write h au s))"
    and write_frame: "store_ok s \<Longrightarrow> sq_critical s = None \<Longrightarrow> hk_on_write h au s = (Inr (), t) \<Longrightarrow>
      sq_critical t = None \<and> db_data t = db_data s \<and> db_caches t = db_caches s"
    and write_stops: "store_ok s \<Longrightarrow> sq_critical s = None \<Longrightarrow> hk_on_write h au s = (Inl e, t) \<Longrightarrow>
      db_data t = db_data s \<or> sq_critical t \<noteq> None"
begin

abbreviation be :: "'u tables sql_file sql_backend" where "be \<equiv> file_backend prep d0"

definition keeps :: "('u, 'x, 'a) stop \<Rightarrow> bool" where
  "keeps m \<longleftrightarrow> (\<forall>s. store_ok s \<longrightarrow> store_ok (snd (m s)))"

lemma keepsD: "keeps m \<Longrightarrow> m s = (r, t) \<Longrightarrow> store_ok s \<Longrightarrow> store_ok t"
  by (metis keeps_def snd_conv)

lemma keeps_pure [intro, simp]: "keeps (op_return v)" "keeps (op_throw e)" "keeps assert_usable"
  by (simp_all add: keeps_def op_return_def op_throw_def assert_usable_def split: option.split)

lemma keeps_bind [intro]:
  assumes "keeps m" "\<And>v. keeps (f v)"
  shows "keeps (op_bind m f)"
  unfolding keeps_def
proof (intro allI impI)
  fix s :: "('u, 'x) store" assume "store_ok s"
  then have "store_ok (snd (m s))" using assms(1) by (simp add: keeps_def)
  then show "store_ok (snd (op_bind m f s))" using assms(2)
    by (cases "m s"; cases "fst (m s)") (simp_all add: keeps_def op_bind_def)
qed

lemma keeps_catch [intro]:
  assumes "keeps m" "\<And>e. keeps (g e)"
  shows "keeps (op_catch m g)"
  unfolding keeps_def
proof (intro allI impI)
  fix s :: "('u, 'x) store" assume "store_ok s"
  then have "store_ok (snd (m s))" using assms(1) by (simp add: keeps_def)
  then show "store_ok (snd (op_catch m g s))" using assms(2)
    by (cases "m s"; cases "fst (m s)") (simp_all add: keeps_def op_catch_def)
qed

lemma keeps_mem: "(\<And>m. caches (f m) = caches m) \<Longrightarrow> keeps (set_mem f)"
  by (simp add: keeps_def op_modify_def store_ok_mem)

lemma notify:
  assumes "store_ok s" "sq_critical s = None" "(if w then notify_write h au else op_return ()) s = (r, t)"
  shows "store_ok t" "r = Inr () \<Longrightarrow> sq_critical t = None \<and> db_data t = db_data s \<and> db_caches t = db_caches s"
    "r = Inl e \<Longrightarrow> db_data t = db_data s \<or> sq_critical t \<noteq> None"
  using assms write_ok [OF assms(1,2), of au] write_frame [OF assms(1,2), of au t] write_stops [OF assms(1,2), of au e t]
  by (auto simp: notify_write_def op_return_def split: if_splits)

lemma failed_ok:
  assumes "store_ok s" "sq_critical s = None"
    "sf_stack g = db_stack s \<and> sf_data g = db_data s \<or> db_stack s \<noteq> [] \<and> sf_stack g = []"
  shows "store_ok (snd (op_bind (check_for_auto_rollback h be) (\<lambda>_. op_throw e) (s\<lparr>sq_file := g\<rparr>)))"
  using failed_coherent [of agree h s g prep d0 e] store_okD [OF assms(1,2)] critical assms(3) callback by simp

lemma check_throw: "fst (op_bind (check_for_auto_rollback h b) (\<lambda>_. op_throw e) s) \<noteq> Inr v"
  by (simp add: op_bind_def op_throw_def split: prod.split sum.split)

text \<open>A data statement that runs.\<close>

lemma run_data:
  assumes ok: "store_ok s" and kw: "leading_keyword sql \<notin> CONTROL_KEYWORDS"
    and f: "\<And>d e d'. f b d = (Inl e, d') \<Longrightarrow> d' = d"
    and run: "db_run1 h be (data_stmt sql k f) b au s = (r, t)"
  obtains (refused) e where "r = Inl e" "store_ok t" "db_data t = db_data s \<or> sq_critical t \<noteq> None"
  | (ran) v s1 d where "r = Inr v" "store_ok s1" "sq_critical s1 = None" "db_data s1 = db_data s"
      "db_caches s1 = db_caches s" "f b (db_data s) = (Inr v, d)"
      "t = s1\<lparr>sq_file := (sq_file s1)\<lparr>sf_n := Suc (sf_n (sq_file s1)), sf_data := d\<rparr>\<rparr>"
proof (cases "sq_critical s")
  case (Some e)
  then show ?thesis using run ok by (intro that(1) [of e]) (simp_all add: db_run1_def op_bind_def assert_usable_def)
next
  case None
  have ex: "exec_statement h be (data_stmt sql k f) b au s = (r, t)"
    using run None by (simp add: db_run1_def op_bind_def assert_usable_def)
  note N = notify [OF ok None, of "is_write sql" au]
  have stop: thesis if g: "sf_stack g = db_stack s1 \<and> sf_data g = db_data s1 \<or> db_stack s1 \<noteq> [] \<and> sf_stack g = []"
      "(if is_write sql then notify_write h au else op_return ()) s = (Inr (), s1)"
      "(r, t) = op_bind (check_for_auto_rollback h be) (\<lambda>_. op_throw e) (s1\<lparr>sq_file := g\<rparr>)" for s1 e g
  proof (cases r)
    case (Inl e')
    have s1: "store_ok s1" "sq_critical s1 = None" "db_data s1 = db_data s" using N(1,2) [OF g(2)] by simp_all
    have t: "op_bind (check_for_auto_rollback h be) (\<lambda>_. op_throw e) (s1\<lparr>sq_file := g\<rparr>) = (r, t)" using g(3) by simp
    have "store_ok (snd (r, t))" unfolding t [symmetric] by (rule failed_ok [OF s1(1,2) g(1)])
    then have "store_ok t" by simp
    moreover have "db_data t = db_data s \<or> sq_critical t \<noteq> None"
      using failed_data [OF store_okD(1) [OF s1(1,2), folded callback] critical g(1) t] s1(3) by simp
    ultimately show thesis by (rule refused [OF Inl])
  next
    case (Inr v)
    then show thesis using check_throw [of be e "s1\<lparr>sq_file := g\<rparr>" v] g(3) by (metis fst_conv)
  qed
  show thesis
  proof (rule exec_data_cases [OF classify_data [OF kw], of h au s prep d0 k f b], goal_cases)
    case (1 e s1)
    then show thesis using ex N(1,3) [of "Inl e" s1] by (intro that(1) [of e]) simp_all
  next
    case (2 s1 e g)
    then show thesis using ex stop [of g s1 e] by simp
  next
    case (3 s1 e d)
    then show thesis using ex f [of "db_data s1" e d]
      stop [of "(sq_file s1)\<lparr>sf_n := Suc (sf_n (sq_file s1)), sf_data := d\<rparr>" s1 e] by simp
  next
    case (4 s1 q d)
    then show thesis using ex N [of "Inr ()" s1] by (intro that(2) [of q s1 d]) simp_all
  qed
qed

lemma run_same:
  assumes "leading_keyword sql \<notin> CONTROL_KEYWORDS"
    "\<And>d e d'. f b d = (Inl e, d') \<Longrightarrow> d' = d"
    "\<And>d v d'. f b d = (Inr v, d') \<Longrightarrow> unseen d d'"
  shows "keeps (db_run1 h be (data_stmt sql k f) b au)"
  unfolding keeps_def
proof (intro allI impI)
  fix s :: "('u, 'x) store" assume ok: "store_ok s"
  obtain r t where run: "db_run1 h be (data_stmt sql k f) b au s = (r, t)" by fastforce
  have "store_ok t"
  proof (rule run_data [OF ok assms(1,2) run])
    fix v s1 d
    assume s1: "store_ok s1" "sq_critical s1 = None" "db_data s1 = db_data s"
      "f b (db_data s) = (Inr v, d)" "t = s1\<lparr>sq_file := (sq_file s1)\<lparr>sf_n := Suc (sf_n (sq_file s1)), sf_data := d\<rparr>\<rparr>"
    have "agree d = (agree (db_data s1) :: 'x store_mem_scheme set)"
      using assms(3) [OF s1(4)] s1(3) by (intro agree_same) simp_all
    then show "store_ok t" using store_okD [OF s1(1,2)] frames_ok_same [of agree store_callback s1 t] s1(5)
      by (simp add: coherent_def)
  qed
  then show "store_ok (snd (db_run1 h be (data_stmt sql k f) b au s))" by (simp add: run)
qed

text \<open>Reading a table, and changing the rows of one.\<close>

lemma on_kv_frame:
  "on_kv f d = (Inl e, d') \<Longrightarrow> d' = d"
  "on_kv f d = (Inr v, d') \<Longrightarrow> unseen d d'"
  by (auto simp: on_kv_def unseen_def alarm_in_def split: option.splits prod.splits)

lemma run_kv:
  assumes "leading_keyword (st_sql st) \<notin> CONTROL_KEYWORDS" "st = data_stmt sql k (\<lambda>b. on_kv (g b))"
  shows "keeps (db_run1 h be st b au)"
  unfolding assms(2)
proof (rule run_same)
  show "leading_keyword sql \<notin> CONTROL_KEYWORDS" using assms by (simp add: data_stmt_def)
qed (use on_kv_frame in blast)+

lemma on_meta_frame:
  assumes "\<And>t. map_of (snd (r t)) 1 = map_of t 1"
  shows "on_meta r d = (Inl e, d') \<Longrightarrow> d' = d" "on_meta r d = (Inr v, d') \<Longrightarrow> unseen d d'"
proof -
  have "map_of t' 1 = map_of t 1" if "r t = (v, t')" for t v t' using assms [of t] that by simp
  then show "on_meta r d = (Inl e, d') \<Longrightarrow> d' = d" "on_meta r d = (Inr v, d') \<Longrightarrow> unseen d d'"
    by (auto simp: on_meta_def unseen_def alarm_in_def split: option.splits prod.splits)
qed

lemma run_meta:
  assumes "leading_keyword (st_sql st) \<notin> CONTROL_KEYWORDS" "st = data_stmt sql k (\<lambda>b. on_meta (r b))"
    "\<And>b t. map_of (snd (r b t)) 1 = map_of t 1"
  shows "keeps (db_run1 h be st b au)"
  unfolding assms(2)
proof (rule run_same)
  show "leading_keyword sql \<notin> CONTROL_KEYWORDS" using assms by (simp add: data_stmt_def)
qed (use on_meta_frame [of "r b"] assms(3) in blast)+

lemma run_control_at:
  assumes ok: "store_ok s" and c: "classify sql = Inr c" "c \<noteq> NoChange"
    and guard: "c \<in> {CommitTxn None, RollbackTxn None} \<Longrightarrow> sq_critical s = None \<Longrightarrow> sq_in_txn s"
  shows "store_ok (snd (db_run1 h be (control_stmt sql c) b au s))"
proof (cases "sq_critical s")
  case None
  then show ?thesis
    using exec_control_coherent [of agree h s sql c prep d0 b au] store_okD [OF ok None] callback critical c guard
    by (simp add: db_run1_def op_bind_def assert_usable_def)
qed (use ok in \<open>simp add: db_run1_def op_bind_def assert_usable_def\<close>)

lemma run_control:
  assumes "classify sql = Inr c" "c \<noteq> NoChange" "c \<notin> {CommitTxn None, RollbackTxn None}"
  shows "keeps (db_run1 h be (control_stmt sql c) b au)"
  unfolding keeps_def using run_control_at [OF _ assms(1,2)] assms(3) by blast

text \<open>A change of the tables and of what the memory knows of them, with the callback that takes both back.\<close>

lemma changed_ok:
  fixes s1 t :: "('u, 'x) store"
  assumes ok: "store_ok s1" "sq_critical s1 = None"
    and undo: "\<And>x :: 'x store_mem_scheme. x \<in> agree d \<Longrightarrow> store_callback c x \<in> agree (db_data s1)"
    and t: "sq_mem t \<in> agree d" "db_data t = d" "db_stack t = db_stack s1"
      "sq_callbacks t = (if txn_open s1 then c # sq_callbacks s1 else sq_callbacks s1)"
      "sq_savepoints t = sq_savepoints s1" "sq_in_txn t = sq_in_txn s1"
  shows "store_ok t"
proof (rule store_okI)
  show "frames_ok agree store_callback t"
  proof (cases "txn_open s1")
    case True
    show ?thesis
      by (rule frames_ok_change [OF store_okD(1) [OF ok] True, where d = d and c = c]) (use True t undo in simp_all)
  next
    case False
    show ?thesis
      by (rule frames_ok_closed [OF store_okD(1) [OF ok] False]) (use False t in simp_all)
  qed
qed (use t in simp)

text \<open>The two tables are created with the callback that forgets them.\<close>

lemma create_keeps:
  assumes kw: "leading_keyword (st_sql st) \<notin> CONTROL_KEYWORDS"
    and st: "st = data_stmt sql 0 (\<lambda>_ d. (Inr (no_rows 0), mk d))"
    and made: "\<And>m d. m \<in> agree d \<Longrightarrow> \<not> created m \<Longrightarrow> set_created m \<in> agree (mk d)"
    and undo: "\<And>(x :: 'x store_mem_scheme) m d. m \<in> agree d \<Longrightarrow> \<not> created m \<Longrightarrow> x \<in> agree (mk d) \<Longrightarrow> store_callback c x \<in> agree d"
    and cached: "\<And>m m'. caches m = caches m' \<Longrightarrow> created m = created m'"
    and ok: "store_ok s" "\<not> created (sq_mem s)"
  shows "store_ok (snd (op_bind (db_run1 h be st [] au)
      (\<lambda>_. op_bind (set_mem set_created) (\<lambda>_. op_modify (on_rollback c))) s))"
proof -
  obtain r t where run: "db_run1 h be st [] au s = (r, t)" by fastforce
  have kw': "leading_keyword sql \<notin> CONTROL_KEYWORDS" using kw st by (simp add: data_stmt_def)
  show ?thesis
  proof (rule run_data [OF ok(1) kw' _ run [unfolded st]], goal_cases)
    case (2 e)
    then show ?thesis using run by (simp add: op_bind_def)
  next
    case (3 v s1 d)
    then have v: "r = Inr v" and s1: "store_ok s1" "sq_critical s1 = None" "db_data s1 = db_data s"
      "db_caches s1 = db_caches s"
      "t = s1\<lparr>sq_file := (sq_file s1)\<lparr>sf_n := Suc (sf_n (sq_file s1)), sf_data := mk (db_data s)\<rparr>\<rparr>"
      by simp_all
    let ?u = "on_rollback c (mem set_created t)"
    have nc: "\<not> created (sq_mem s1)" using cached [OF s1(4)] ok(2) by simp
    have "store_ok ?u"
    proof (rule changed_ok [OF s1(1,2), of "mk (db_data s1)" c])
      show "store_callback c x \<in> agree (db_data s1)" if "x \<in> agree (mk (db_data s1))" for x :: "'x store_mem_scheme"
        by (rule undo [OF store_okD(2) [OF s1(1,2)] nc that])
    qed (use made [OF store_okD(2) [OF s1(1,2)] nc] s1(3,5) in \<open>auto simp: on_rollback_def mem_def txn_open_def\<close>)
    then show ?thesis using run v by (simp add: op_bind_def op_modify_def)
  qed simp
qed

lemma kv_ensure_keeps: "keeps (kv_ensure_initialized h be au)"
  unfolding keeps_def
proof (intro allI impI)
  fix s :: "('u, 'x) store" assume ok: "store_ok s"
  show "store_ok (snd (kv_ensure_initialized h be au s))"
  proof (cases "km_created (sq_mem s)")
    case False
    have "leading_keyword (st_sql KV_CREATE_TABLE) \<notin> CONTROL_KEYWORDS" by (simp add: stmt_text data_keywords)
    from create_keeps [OF this KV_CREATE_TABLE_def, where created = km_created and c = KvCreated
        and set_created = "\<lambda>m. m\<lparr>km_created := True\<rparr>" and s = s and au = au]
    show ?thesis using False ok
      by (fastforce simp: kv_ensure_initialized_def agree_def store_callback_def caches_def alarm_in_def)
  qed (use ok in \<open>simp add: kv_ensure_initialized_def\<close>)
qed

lemma meta_ensure_keeps: "keeps (meta_ensure_initialized h be au)"
  unfolding keeps_def
proof (intro allI impI)
  fix s :: "('u, 'x) store" assume ok: "store_ok s"
  show "store_ok (snd (meta_ensure_initialized h be au s))"
  proof (cases "mm_created (sq_mem s)")
    case False
    have "leading_keyword (st_sql META_CREATE_TABLE) \<notin> CONTROL_KEYWORDS" by (simp add: stmt_text data_keywords)
    from create_keeps [OF this META_CREATE_TABLE_def, where created = mm_created and c = MetaCreated
        and set_created = "\<lambda>m. m\<lparr>mm_created := True\<rparr>" and s = s and au = au]
    show ?thesis using False ok
      by (fastforce simp: meta_ensure_initialized_def agree_def store_callback_def caches_def alarm_in_def)
  qed (use ok in \<open>simp add: meta_ensure_initialized_def\<close>)
qed

text \<open>Reading and writing rows.\<close>

lemma keeps_state: "(\<And>s. keeps (f s)) \<Longrightarrow> keeps (\<lambda>s. f s s)"
  by (simp add: keeps_def)

lemma keeps_if [intro]: "keeps m \<Longrightarrow> keeps n \<Longrightarrow> keeps (\<lambda>s. if P s then m s else n s)"
  by (simp add: keeps_def)

lemma keeps_result [intro, simp]: "keeps (\<lambda>s. (r s, s))"
  by (simp add: keeps_def)

lemmas kv_texts = stmt_text data_keywords

lemma kv_get_keeps: "keeps (kv_get h be k)"
proof -
  have get: "keeps (db_run1 h be STMT_get [SText k] False)"
    by (rule run_kv [OF _ STMT_get_def]) (simp add: kv_texts)
  have row: "keeps (\<lambda>s. (case rs_rows r of
      [] \<Rightarrow> (Inr None, s)
    | row # _ \<Rightarrow> (case get_blob row 0 of Inl e \<Rightarrow> (Inl e, s) | Inr v \<Rightarrow> (Inr (Some v), s))))" for r
    by (auto simp: keeps_def split: list.split sum.split)
  show ?thesis unfolding kv_get_def by (intro keeps_bind keeps_pure keeps_if keeps_result get row)
qed

lemma run_list:
  assumes "leading_keyword (st_sql st) \<notin> CONTROL_KEYWORDS" "st = list_stmt sql k f"
  shows "keeps (db_run1 h be st b au)"
  by (rule run_kv [OF assms(1) assms(2) [unfolded list_stmt_def]])

lemma list_stmts_keep:
  "keeps (db_run1 h be STMT_list b au)" "keeps (db_run1 h be STMT_listEnd b au)"
  "keeps (db_run1 h be STMT_listLimit b au)" "keeps (db_run1 h be STMT_listEndLimit b au)"
  "keeps (db_run1 h be STMT_listReverse b au)" "keeps (db_run1 h be STMT_listEndReverse b au)"
  "keeps (db_run1 h be STMT_listLimitReverse b au)" "keeps (db_run1 h be STMT_listEndLimitReverse b au)"
  by (rule run_list [OF _ STMT_list_def] run_list [OF _ STMT_listEnd_def] run_list [OF _ STMT_listLimit_def]
      run_list [OF _ STMT_listEndLimit_def] run_list [OF _ STMT_listReverse_def] run_list [OF _ STMT_listEndReverse_def]
      run_list [OF _ STMT_listLimitReverse_def] run_list [OF _ STMT_listEndLimitReverse_def],
    simp add: list_stmt_texts data_keywords)+

lemma list_keeps: "keeps (db_run1 h be (fst (select_list_statement b e n ord)) params False)"
  by (auto simp: select_list_statement_def list_stmts_keep split: option.split)

lemma caches_cursor [simp]: "caches (cancel_current m) = caches m" "caches (m\<lparr>km_current := c\<rparr>) = caches m"
  "caches (m\<lparr>km_cursors := cs\<rparr>) = caches m" "caches (release_cursor i m) = caches m" "caches (exhaust i m) = caches m"
  "caches (snd (new_cursor p rs m)) = caches m"
  by (auto simp: caches_def cancel_current_def cancel_cursor_def release_cursor_def exhaust_def new_cursor_def Let_def
      split: option.split)

lemma store_ok_mem': "store_ok s \<Longrightarrow> caches m = db_caches s \<Longrightarrow> store_ok (s\<lparr>sq_mem := m\<rparr>)"
  using store_ok_mem [of s "\<lambda>_. m"] by (simp add: mem_def)

lemma new_cursor_keeps:
  assumes "\<And>i m. caches (g i m) = caches m"
  shows "keeps (\<lambda>s. case new_cursor p rs (sq_mem s) of (i, m) \<Rightarrow> (Inr i, s\<lparr>sq_mem := g i m\<rparr>))"
proof -
  have "caches (g i (snd (new_cursor p rs m))) = caches m" for i and m :: "'x store_mem_scheme"
    by (simp add: assms)
  then show ?thesis by (auto simp: keeps_def new_cursor_def intro!: store_ok_mem')
qed

lemma kv_open_cursor_keeps: "keeps (kv_open_cursor h be b e n ord)"
proof -
  obtain st :: "'u stmt" and params where sel: "select_list_statement b e n ord = (st, params)" by fastforce
  have none: "keeps (\<lambda>s. case new_cursor False None (sq_mem s) of (i, m) \<Rightarrow> (Inr i, s\<lparr>sq_mem := m\<rparr>))"
    by (rule new_cursor_keeps) simp
  have "keeps (db_run1 h be st params False)" using list_keeps [of b e n ord params] sel by simp
  then show ?thesis unfolding kv_open_cursor_def sel prod.case
    by (intro keeps_bind keeps_pure keeps_if none keeps_mem new_cursor_keeps) simp_all
qed

lemma cursor_next_keeps: "keeps (cursor_next i)"
  by (auto simp: keeps_def cursor_next_def Let_def mem_def split: option.split sum.split intro!: store_ok_mem')

lemma for_each_keeps: "(\<And>k v a. keeps (call k v a)) \<Longrightarrow> keeps (for_each fuel i call n a)"
proof (induction fuel arbitrary: n a)
  case (Suc fuel)
  have "keeps (case p of None \<Rightarrow> op_return (n, a)
      | Some (k, v) \<Rightarrow> op_bind (call k v a) (\<lambda>a. for_each fuel i call (Suc n) a))" for p
    by (auto split: option.split intro!: keeps_bind Suc)
  then show ?case unfolding for_each.simps by (rule keeps_bind [OF cursor_next_keeps])
qed simp

lemma kv_list_keeps: "(\<And>k v a. keeps (call k v a)) \<Longrightarrow> keeps (kv_list h be b e n ord call a)"
  unfolding kv_list_def
  by (rule keeps_bind [OF kv_open_cursor_keeps], rule keeps_state) (rule for_each_keeps)

lemma kv_put_keeps: "keeps (kv_put h be k v au)"
  unfolding kv_put_def
  by (intro keeps_bind kv_ensure_keeps keeps_pure run_kv [OF _ STMT_put_def]) (simp add: kv_texts)

lemma kv_delete_keeps: "keeps (kv_delete h be k au)"
  unfolding kv_delete_def
  by (intro keeps_bind kv_ensure_keeps keeps_pure run_kv [OF _ STMT_delete_def]) (simp add: kv_texts)

lemma put_each_keeps: "keeps (put_each h be au ps)"
  by (induction ps) (auto intro!: kv_put_keeps)

lemma multi_put_keeps: "keeps (db_run1 h be STMT_multiPutSavepoint b au)" "keeps (db_run1 h be STMT_multiPutRelease b au)"
  "keeps (db_run1 h be STMT_multiPutRollback b au)"
  using put_savepoint_texts run_control
  by (simp_all add: STMT_multiPutSavepoint_def STMT_multiPutRelease_def STMT_multiPutRollback_def control_stmt_def)

lemma kv_put_multiple_keeps: "keeps (kv_put_multiple h be ps au)"
  unfolding kv_put_multiple_def rollback_multi_put_def
  by (intro keeps_bind keeps_catch keeps_pure kv_ensure_keeps multi_put_keeps put_each_keeps)

text \<open>The stored alarm.\<close>

lemma read_number_keeps: "keeps (read_number r)"
  by (auto simp: keeps_def read_number_def split: list.split sum.split)

lemma get_alarm_run:
  assumes "store_ok s" "db_run1 h be STMT_getAlarm [] False s = (Inr r, t)"
  shows "store_ok t \<and> sq_critical t = None \<and> db_data t = db_data s \<and> db_caches t = db_caches s \<and>
    (\<exists>m. tb_meta (db_data s) = Some m \<and> r = rows (case map_of m 1 of None \<Rightarrow> [] | Some v \<Rightarrow> [[v]]))"
proof -
  have kw: "leading_keyword (st_sql STMT_getAlarm) \<notin> CONTROL_KEYWORDS" by (simp add: kv_texts)
  have "keeps (db_run1 h be STMT_getAlarm [] False)" by (rule run_meta [OF kw STMT_getAlarm_def]) simp
  then have ok: "store_ok t" using assms by (metis keepsD)
  show ?thesis
  proof (rule run_data [OF assms(1) kw [unfolded STMT_getAlarm_def data_stmt_def, simplified] _
        assms(2) [unfolded STMT_getAlarm_def]], goal_cases)
    case (3 v s1 d)
    then show ?thesis using ok by (auto simp: on_meta_def mem_def split: option.splits)
  qed (auto simp: on_meta_def split: option.splits)
qed

lemma get_alarm_uncached_reads:
  assumes "store_ok s" "sq_critical s = None" "get_alarm_uncached h be s = (Inr a, t)"
  shows "store_ok t \<and> sq_critical t = None \<and> db_data t = db_data s \<and> db_caches t = db_caches s \<and> a = alarm_in (db_data s)"
proof (cases "mm_created (sq_mem s)")
  case False
  then show ?thesis using assms store_okD(2) [OF assms(1,2)]
    by (simp add: get_alarm_uncached_def agree_def alarm_in_def)
next
  case True
  then obtain r t1 where r: "db_run1 h be STMT_getAlarm [] False s = (Inr r, t1)" "read_number r t1 = (Inr a, t)"
    using assms(3) by (auto simp: get_alarm_uncached_def op_bind_eq_Inr)
  with get_alarm_run [OF assms(1) r(1)] show ?thesis
    by (auto simp: read_number_def rows_def alarm_in_def is_null_def column_def get_int64_def
        split: option.splits if_splits sql_value.splits)
qed

lemma get_alarm_uncached_keeps: "keeps (get_alarm_uncached h be)"
  unfolding get_alarm_uncached_def
  by (intro keeps_if keeps_result keeps_bind read_number_keeps run_meta [OF _ STMT_getAlarm_def])
    (simp_all add: kv_texts)

text \<open>What the metadata table's own getter answers, cached or not.\<close>

lemma meta_get_alarm_reads:
  assumes "store_ok s" "meta_get_alarm h be s = (Inr a, t)"
  shows "store_ok t \<and> sq_critical t = None \<and> db_data t = db_data s \<and> a = alarm_in (db_data s) \<and> mm_cache (sq_mem t) = Some a"
proof -
  have c: "sq_critical s = None" using assms(2) by (simp add: meta_get_alarm_def op_bind_def assert_usable_def split: option.splits)
  show ?thesis
  proof (cases "mm_cache (sq_mem s)")
    case (Some v)
    then show ?thesis using assms c store_okD(2) [OF assms(1) c]
      by (auto simp: meta_get_alarm_def op_bind_def assert_usable_def agree_def)
  next
    case None
    then obtain t1 where t1: "get_alarm_uncached h be s = (Inr a, t1)" "t = mem (\<lambda>m. m\<lparr>mm_cache := Some a\<rparr>) t1"
      using assms c by (auto simp: meta_get_alarm_def op_bind_eq_Inr assert_usable_def op_simps split: prod.splits sum.splits)
    note R = get_alarm_uncached_reads [OF assms(1) c t1(1)]
    have "sq_mem t \<in> agree (db_data t)" using R store_okD(2) [of t1] t1(2) by (auto simp: agree_def mem_def)
    moreover have "frames_ok agree store_callback t"
      using R store_okD(1) [of t1] frames_ok_cong [of t1 t] t1(2) by (simp add: mem_def)
    ultimately have "store_ok t" by (intro store_okI)
    then show ?thesis using R t1(2) by (simp add: mem_def)
  qed
qed

lemma meta_get_alarm_keeps: "keeps (meta_get_alarm h be)"
  unfolding keeps_def
proof (intro allI impI)
  fix s :: "('u, 'x) store" assume ok: "store_ok s"
  obtain r t where rt: "meta_get_alarm h be s = (r, t)" by fastforce
  show "store_ok (snd (meta_get_alarm h be s))"
  proof (cases r)
    case (Inr a)
    then show ?thesis using meta_get_alarm_reads [OF ok] rt by simp
  next
    case (Inl e)
    then have "t = s \<or> t = snd (get_alarm_uncached h be s)" using rt
      by (auto simp: meta_get_alarm_def op_simps assert_usable_def split: option.splits prod.splits sum.splits)
    then show ?thesis using rt ok get_alarm_uncached_keeps by (auto simp: keeps_def)
  qed
qed

lemma ensure_frame:
  assumes "store_ok s" "meta_ensure_initialized h be au s = (Inr v, t)" "sq_critical s = None"
  shows "sq_critical t = None \<and> alarm_in (db_data t) = alarm_in (db_data s) \<and> mm_cache (sq_mem t) = mm_cache (sq_mem s)"
proof (cases "mm_created (sq_mem s)")
  case True
  then show ?thesis using assms by (simp add: meta_ensure_initialized_def)
next
  case False
  obtain r t1 where run: "db_run1 h be META_CREATE_TABLE [] au s = (Inr r, t1)"
    "t = on_rollback MetaCreated (mem (\<lambda>m. m\<lparr>mm_created := True\<rparr>) t1)"
    using assms(2) False by (auto simp: meta_ensure_initialized_def op_bind_eq_Inr op_modify_def)
  have kw: "leading_keyword (st_sql META_CREATE_TABLE) \<notin> CONTROL_KEYWORDS" by (simp add: kv_texts)
  show ?thesis
  proof (rule run_data [OF assms(1) kw [unfolded META_CREATE_TABLE_def data_stmt_def, simplified] _
        run(1) [unfolded META_CREATE_TABLE_def]], goal_cases)
    case (3 v s1 d)
    then show ?thesis using run(2)
      by (auto simp: on_rollback_def mem_def caches_def alarm_in_def split: if_splits)
  qed simp_all
qed

lemma alarm_in_update: "alarm_in (d\<lparr>tb_meta := Some (AList.update 1 (alarm_value a) m)\<rparr>) = a"
  by (simp add: alarm_in_def alarm_value_def update_conv split: option.split)

lemma keeps_run_set: "keeps (db_run1 h be STMT_setBookmark b au)" "keeps (db_run1 h be STMT_getBookmark b au)"
  by (rule run_meta [OF _ STMT_setBookmark_def] run_meta [OF _ STMT_getBookmark_def];
    simp add: kv_texts update_conv split: list.split)+

lemma meta_set_alarm_keeps: "keeps (meta_set_alarm h be a au)"
  unfolding keeps_def
proof (intro allI impI)
  fix s :: "('u, 'x) store" assume ok: "store_ok s"
  let ?c = "mm_cache (sq_mem s)"
  show "store_ok (snd (meta_set_alarm h be a au s))"
  proof (cases "?c = Some a \<or> (\<exists>e t. meta_ensure_initialized h be au s = (Inl e, t))")
    case True
    then show ?thesis using ok meta_ensure_keeps [of au]
      by (auto simp: meta_set_alarm_def Let_def op_bind_def set_alarm_uncached_def dest: keepsD)
  next
    case False
    then obtain t0 where t0: "meta_ensure_initialized h be au s = (Inr (), t0)"
      by (cases "meta_ensure_initialized h be au s"; cases "fst (meta_ensure_initialized h be au s)") auto
    have ok0: "store_ok t0" using keepsD [OF meta_ensure_keeps t0 ok] .
    obtain r t1 where run: "db_run1 h be STMT_setAlarm [alarm_value a] au t0 = (r, t1)" by fastforce
    have kw: "leading_keyword (st_sql STMT_setAlarm) \<notin> CONTROL_KEYWORDS" by (simp add: kv_texts)
    show ?thesis
    proof (rule run_data [OF ok0 kw [unfolded STMT_setAlarm_def data_stmt_def, simplified] _
          run [unfolded STMT_setAlarm_def]], goal_cases)
      case (2 e)
      then show ?thesis using False t0 run
        by (simp add: meta_set_alarm_def set_alarm_uncached_def Let_def op_bind_def)
    next
      case (3 v s1 d)
      have crit: "sq_critical s = None"
      proof (rule ccontr)
        assume "sq_critical s \<noteq> None"
        moreover have "mm_created (sq_mem s) \<or> fst (meta_ensure_initialized h be au s) \<noteq> Inr ()" if "sq_critical s \<noteq> None"
          using that by (auto simp: meta_ensure_initialized_def db_run1_def op_bind_def assert_usable_def)
        ultimately have "t0 = s" using t0 by (simp add: meta_ensure_initialized_def)
        with run 3(1) \<open>sq_critical s \<noteq> None\<close> show False by (auto simp: db_run1_def op_bind_def assert_usable_def)
      qed
      obtain m where m: "tb_meta (db_data t0) = Some m" "d = (db_data t0)\<lparr>tb_meta := Some (AList.update 1 (alarm_value a) m)\<rparr>"
        using 3(6) by (auto simp: on_meta_def split: option.splits)
      note F = ensure_frame [OF ok t0 crit]
      let ?u = "mem (\<lambda>m. m\<lparr>mm_cache := Some a\<rparr>) (on_rollback (MetaCache ?c) t1)"
      have agree1: "sq_mem s1 \<in> agree (db_data s1)" by (rule store_okD(2) [OF 3(2,3)])
      have was: "?c = None \<or> ?c = Some (alarm_in (db_data t0))"
        using store_okD(2) [OF ok crit] F by (auto simp: agree_def)
      have dd: "alarm_in d = a" "tb_kv d = tb_kv (db_data t0)" "tb_meta d \<noteq> None" using m by (simp_all add: alarm_in_update)
      have "store_ok ?u"
      proof (rule changed_ok [OF 3(2,3), of d "MetaCache ?c"])
        show "store_callback (MetaCache ?c) x \<in> agree (db_data s1)" if "x \<in> agree d" for x :: "'x store_mem_scheme"
          using that was dd m(1) 3(4) by (auto simp: agree_def store_callback_def)
        show "sq_mem ?u \<in> agree d" using agree1 dd m(1) 3(4,7)
          by (simp add: agree_def mem_def on_rollback_def)
      qed (use 3(7) in \<open>auto simp: mem_def on_rollback_def txn_open_def\<close>)
      moreover have "snd (meta_set_alarm h be a au s) = ?u" using False t0 run 3(1)
        by (simp add: meta_set_alarm_def set_alarm_uncached_def Let_def op_simps)
      ultimately show ?thesis by simp
    qed (auto simp: on_meta_def split: option.splits)
  qed
qed

lemma bookmark_keeps: "keeps (get_bookmark h be)" "keeps (set_bookmark h be n)"
proof -
  have "keeps (case v of Some n \<Rightarrow> (if n < 0 then op_throw e else op_return (Some n)) | None \<Rightarrow> op_return None)"
    for v :: "int option" and e
    by (cases v) auto
  then show "keeps (get_bookmark h be)" unfolding get_bookmark_def
    by (intro keeps_bind meta_ensure_keeps keeps_run_set read_number_keeps)
  show "keeps (set_bookmark h be n)" unfolding set_bookmark_def
    by (auto intro!: keeps_bind meta_ensure_keeps keeps_run_set)
qed

text \<open>A reset that returns: an empty file, and memories that know it.\<close>

lemma reset_ok:
  assumes "store_ok s" "db_reset h be s = (r, t)"
  shows "store_ok t" "r = Inr v \<Longrightarrow> sq_critical t = None \<and> db_data t = d0"
proof -
  have "store_ok t \<and> (r = Inr v \<longrightarrow> sq_critical t = None \<and> db_data t = d0)"
  proof (cases "sq_critical s = None \<and> \<not> txn_open s")
    case False
    then show ?thesis using assms by (auto simp: db_reset_def op_bind_def assert_usable_def split: option.splits if_splits)
  next
    case True
    then have t: "t = s\<lparr>sq_file := (sq_file s)\<lparr>sf_data := d0\<rparr>, sq_mem := store_before_reset (sq_mem s)\<rparr>"
      using assms(2) by (auto simp: db_reset_def op_bind_def assert_usable_def file_backend_def reset)
    have "frames_ok agree store_callback t"
      by (rule frames_ok_closed [OF store_okD(1) [OF assms(1)]]) (use t True in simp_all)
    moreover have "sq_mem t \<in> agree (db_data t)" using t empty_data
      by (simp add: agree_def store_before_reset_def cancel_current_def cancel_cursor_def split: option.split)
    ultimately have "store_ok t" by (intro store_okI)
    then show ?thesis using t True by simp
  qed
  then show "store_ok t" "r = Inr v \<Longrightarrow> sq_critical t = None \<and> db_data t = d0" by simp_all
qed

lemma reset_keeps: "keeps (db_reset h be)"
  unfolding keeps_def by (metis reset_ok(1) prod.collapse)

definition kv_count :: "('u, 'x, int) stop" where
  "kv_count s = (if km_created (sq_mem s) then
        op_bind (db_run1 h be STMT_countKeys [] False) (\<lambda>r. case rs_rows r of
            [] \<Rightarrow> op_throw (Failure ''count(*) returned no row.'')
          | row # _ \<Rightarrow> (case get_int64 row 0 of Inl e \<Rightarrow> op_throw e | Inr n \<Rightarrow> op_return n)) s
        else (Inr 0, s))"

lemma kv_count_keeps: "keeps kv_count"
proof -
  have "keeps (db_run1 h be STMT_countKeys [] False)"
    by (rule run_kv [OF _ STMT_countKeys_def]) (simp add: kv_texts)
  then show ?thesis unfolding kv_count_def
    by (intro keeps_if keeps_result keeps_bind) (auto split: list.split sum.split)
qed

lemma kv_delete_all_split: "kv_delete_all h be = op_bind kv_count (\<lambda>n. op_bind (db_reset h be) (\<lambda>_. op_return n))"
  by (rule ext) (simp add: kv_delete_all_def kv_count_def op_bind_def)

lemma kv_delete_all_keeps: "keeps (kv_delete_all h be)"
  unfolding kv_delete_all_split by (intro keeps_bind kv_count_keeps reset_keeps keeps_pure)

lemma kv_delete_all_ok:
  assumes "store_ok s" "kv_delete_all h be s = (Inr n, t)"
  shows "sq_critical t = None \<and> db_data t = d0"
proof -
  obtain m u where u: "kv_count s = (Inr m, u)" "op_bind (db_reset h be) (\<lambda>_. op_return m) u = (Inr n, t)"
    using assms(2) unfolding kv_delete_all_split op_bind_eq_Inr by blast
  then have "db_reset h be u = (Inr (), t)" by (auto simp: op_bind_eq_Inr op_return_def)
  from reset_ok(2) [OF keepsD [OF kv_count_keeps u(1) assms(1)] this] show ?thesis by simp
qed

end

end
