(* ===== verification/Store_Outer.thy ===== *)
theory Store_Outer
  imports Store_Texts
begin

text \<open>
  What the owner of a database keeps beside the two stores. A property that looks only at whether a
  transaction was begun, at the critical error, and at the memory outside the stores is kept by every
  operation of the stores when the callbacks the owner installed keep it (the locale \<open>outer_kept\<close>).
\<close>

definition outside :: "'x store_mem_scheme \<Rightarrow> 'x store_mem_scheme" where
  "outside m = m\<lparr>km_created := False, km_current := None, km_cursors := [], mm_created := False, mm_cache := None\<rparr>"

lemma outside_store [simp]:
  "outside (m\<lparr>km_created := a\<rparr>) = outside m" "outside (m\<lparr>km_current := b\<rparr>) = outside m"
  "outside (m\<lparr>km_cursors := c\<rparr>) = outside m" "outside (m\<lparr>mm_created := a\<rparr>) = outside m"
  "outside (m\<lparr>mm_cache := e\<rparr>) = outside m" "outside (store_callback k m) = outside m"
  "outside (cancel_current m) = outside m" "outside (release_cursor i m) = outside m" "outside (exhaust i m) = outside m"
  "outside (snd (new_cursor p rs m)) = outside m" "outside (store_before_reset m) = outside m"
  by (simp_all add: outside_def store_callback_def cancel_current_def cancel_cursor_def release_cursor_def exhaust_def
      new_cursor_def store_before_reset_def Let_def split: rollback_callback.split option.split)

lemma outside_fold [simp]: "outside (fold store_callback cs m) = outside m"
  by (induction cs arbitrary: m) simp_all

lemma outside_unwind [simp]: "outside (snd (unwind store_callback n cs m)) = outside m"
  by (simp add: unwind_eq)

definition unnamed :: "state_change set" where
  "unnamed = {BeginTxn None, CommitTxn None, RollbackTxn None}"

text \<open>The statements of the two bundles that read or change the tables.\<close>

definition is_data :: "'u stmt \<Rightarrow> bool" where
  "is_data st \<longleftrightarrow> leading_keyword (st_sql st) \<notin> CONTROL_KEYWORDS \<and> (\<exists>sql k f. st = data_stmt sql k f)"

lemma is_dataI: "leading_keyword (st_sql st) \<notin> CONTROL_KEYWORDS \<Longrightarrow> st = data_stmt sql k f \<Longrightarrow> is_data st"
  by (auto simp: is_data_def)

lemma data_stmts:
  "is_data STMT_get" "is_data STMT_put" "is_data STMT_delete" "is_data STMT_countKeys" "is_data KV_CREATE_TABLE"
  "is_data META_CREATE_TABLE" "is_data STMT_getAlarm" "is_data STMT_setAlarm" "is_data STMT_getBookmark" "is_data STMT_setBookmark"
  by (rule is_dataI, simp add: stmt_text data_keywords, (rule STMT_get_def STMT_put_def STMT_delete_def STMT_countKeys_def KV_CREATE_TABLE_def META_CREATE_TABLE_def STMT_getAlarm_def STMT_setAlarm_def STMT_getBookmark_def STMT_setBookmark_def))+

lemma select_is_data: "is_data (fst (select_list_statement b e n ord))"
proof -
  have "\<exists>sql k f. fst (select_list_statement b e n ord) = data_stmt sql k f"
    unfolding select_list_statement_def STMT_list_def STMT_listEnd_def STMT_listLimit_def STMT_listEndLimit_def
      STMT_listReverse_def STMT_listEndReverse_def STMT_listLimitReverse_def STMT_listEndLimitReverse_def list_stmt_def
    by (cases ord; cases e; cases n) (simp_all only: order.simps option.case if_True if_False fst_conv refl simp_thms, blast+)
  then show ?thesis by (simp add: is_data_def stmt_text data_keywords)
qed

section \<open>Properties kept by operations\<close>

locale kept =
  fixes Q :: "'s \<Rightarrow> bool"
begin

definition outer :: "('s, 'a) op \<Rightarrow> bool" where
  "outer m \<longleftrightarrow> (\<forall>s. Q s \<longrightarrow> Q (snd (m s)))"

lemma outerD: "outer m \<Longrightarrow> m s = (r, t) \<Longrightarrow> Q s \<Longrightarrow> Q t"
  by (metis outer_def snd_conv)

lemma outer_pure [intro, simp]: "outer (op_return v)" "outer (op_throw e)" "outer (\<lambda>s. (r s, s))"
  by (simp_all add: outer_def op_return_def op_throw_def)

lemma outer_bind [intro]:
  assumes "outer m" "\<And>v. outer (f v)"
  shows "outer (op_bind m f)"
  unfolding outer_def
proof (intro allI impI)
  fix s assume "Q s"
  then have "Q (snd (m s))" using assms(1) by (simp add: outer_def)
  then show "Q (snd (op_bind m f s))" using assms(2)
    by (cases "m s"; cases "fst (m s)") (simp_all add: outer_def op_bind_def)
qed

lemma outer_catch [intro]:
  assumes "outer m" "\<And>e. outer (g e)"
  shows "outer (op_catch m g)"
  unfolding outer_def
proof (intro allI impI)
  fix s assume "Q s"
  then have "Q (snd (m s))" using assms(1) by (simp add: outer_def)
  then show "Q (snd (op_catch m g s))" using assms(2)
    by (cases "m s"; cases "fst (m s)") (simp_all add: outer_def op_catch_def)
qed

lemma outer_finally:
  assumes "outer m" "outer f"
  shows "outer (op_finally m f)"
  unfolding outer_def
proof (intro allI impI)
  fix s assume "Q s"
  then have t: "Q (snd (m s))" using assms(1) by (simp add: outer_def)
  obtain r t q u where e: "m s = (r, t)" "f t = (q, u)" by fastforce
  then have "Q u" using t outerD [OF assms(2) e(2)] by simp
  then show "Q (snd (op_finally m f s))" using e by (cases q) (simp_all add: op_finally_def)
qed

lemma outer_if [intro]: "outer m \<Longrightarrow> outer n \<Longrightarrow> outer (\<lambda>s. if P s then m s else n s)"
  by (simp add: outer_def)

lemma outer_state: "(\<And>s. outer (f s)) \<Longrightarrow> outer (\<lambda>s. f s s)"
  by (simp add: outer_def)

end

text \<open>What keeps every statement of the bundles, and looks at nothing the stores remember, is kept by the stores.\<close>

locale store_kept = kept Q for Q :: "('u, 'x) store \<Rightarrow> bool" +
  fixes h :: "('u, 'x) store_hooks" and be :: "'u tables sql_file sql_backend"
  assumes data_kept: "is_data st \<Longrightarrow> Q s \<Longrightarrow> Q (snd (db_run1 h be st b au s))"
    and memory_kept: "Q s \<Longrightarrow> outside m = outside (sq_mem s) \<Longrightarrow> Q (s\<lparr>sq_mem := m\<rparr>)"
    and callback_kept: "Q s \<Longrightarrow> Q (on_rollback c s)"
begin

lemma outer_usable: "outer assert_usable"
  by (simp add: outer_def assert_usable_def split: option.split)

lemma outer_data: "is_data st \<Longrightarrow> outer (db_run1 h be st b au)"
  by (simp add: outer_def data_kept)

lemma outer_mem: "(\<And>m. outside (f m) = outside m) \<Longrightarrow> outer (set_mem f)"
  by (auto simp: outer_def op_modify_def mem_def intro: memory_kept)

lemma outer_on_rollback: "outer (op_modify (on_rollback c))"
  by (auto simp: outer_def op_modify_def intro: callback_kept)

text \<open>The operations of the stores.\<close>

lemma outer_ensure: "outer (kv_ensure_initialized h be au)" "outer (meta_ensure_initialized h be au)"
  unfolding kv_ensure_initialized_def meta_ensure_initialized_def
  by (intro outer_if outer_pure outer_bind outer_data outer_mem outer_on_rollback; simp add: data_stmts)+

lemma outer_get: "outer (kv_get h be k)"
proof -
  have row: "outer (\<lambda>s. (case rs_rows r of
      [] \<Rightarrow> (Inr None, s)
    | row # _ \<Rightarrow> (case get_blob row 0 of Inl e \<Rightarrow> (Inl e, s) | Inr v \<Rightarrow> (Inr (Some v), s))))" for r
    by (auto simp: outer_def split: list.split sum.split)
  show ?thesis unfolding kv_get_def
    by (intro outer_bind outer_usable outer_pure outer_if outer_data row data_stmts)
qed

lemma outer_cursor:
  assumes "\<And>i m. outside (g i m) = outside m"
  shows "outer (\<lambda>s. case new_cursor p rs (sq_mem s) of (i, m) \<Rightarrow> (Inr i, s\<lparr>sq_mem := g i m\<rparr>))"
proof -
  have "outside (g i (snd (new_cursor p rs m))) = outside m" for i and m :: "'x store_mem_scheme"
    by (simp add: assms)
  then show ?thesis by (auto simp: outer_def new_cursor_def intro!: memory_kept)
qed

lemma outer_open_cursor: "outer (kv_open_cursor h be b e n ord)"
proof -
  obtain st :: "'u stmt" and params where sel: "select_list_statement b e n ord = (st, params)" by fastforce
  have st: "is_data st" using sel by (metis select_is_data fst_conv)
  have none: "outer (\<lambda>s. case new_cursor False None (sq_mem s) of (i, m) \<Rightarrow> (Inr i, s\<lparr>sq_mem := m\<rparr>))"
    by (rule outer_cursor) simp
  show ?thesis unfolding kv_open_cursor_def sel prod.case
    by (intro outer_bind outer_usable outer_pure outer_if none outer_mem outer_cursor outer_data st) simp_all
qed

lemma outer_next: "outer (cursor_next i)"
  by (auto simp: outer_def cursor_next_def Let_def mem_def split: option.split sum.split intro!: memory_kept)

lemma outer_for_each: "(\<And>k v a. outer (call k v a)) \<Longrightarrow> outer (for_each fuel i call n a)"
proof (induction fuel arbitrary: n a)
  case (Suc fuel)
  have "outer (case p of None \<Rightarrow> op_return (n, a)
      | Some (k, v) \<Rightarrow> op_bind (call k v a) (\<lambda>a. for_each fuel i call (Suc n) a))" for p
    by (auto split: option.split intro!: outer_bind Suc)
  then show ?case unfolding for_each.simps by (rule outer_bind [OF outer_next])
qed simp

lemma outer_list: "(\<And>k v a. outer (call k v a)) \<Longrightarrow> outer (kv_list h be b e n ord call a)"
  unfolding kv_list_def
  by (rule outer_bind [OF outer_open_cursor], rule outer_state) (rule outer_for_each)

lemma outer_put: "outer (kv_put h be k v au)" and outer_delete: "outer (kv_delete h be k au)"
  unfolding kv_put_def kv_delete_def
  by (intro outer_bind outer_ensure outer_pure outer_data data_stmts)+

lemma outer_put_each: "outer (put_each h be au ps)"
  by (induction ps) (auto intro!: outer_put)

lemma outer_read_number: "outer (read_number r)"
  by (auto simp: outer_def read_number_def split: list.split sum.split)

lemma outer_get_alarm: "outer (meta_get_alarm h be)"
proof -
  have u: "outer (get_alarm_uncached h be)" unfolding get_alarm_uncached_def
    by (intro outer_if outer_bind outer_data outer_read_number outer_pure data_stmts)
  have "outer (op_bind (get_alarm_uncached h be) (\<lambda>a. op_bind (set_mem (\<lambda>m. m\<lparr>mm_cache := Some a\<rparr>)) (\<lambda>_. op_return a)))"
    by (intro outer_bind u outer_mem outer_pure) simp
  then have "outer (\<lambda>s. case mm_cache (sq_mem s) of Some a \<Rightarrow> (Inr a, s)
      | None \<Rightarrow> op_bind (get_alarm_uncached h be) (\<lambda>a. op_bind (set_mem (\<lambda>m. m\<lparr>mm_cache := Some a\<rparr>)) (\<lambda>_. op_return a)) s)"
    by (auto simp: outer_def split: option.split)
  then show ?thesis unfolding meta_get_alarm_def by (intro outer_bind outer_usable)
qed

lemma outer_set_alarm: "outer (meta_set_alarm h be a au)"
proof -
  have "outer (op_bind (set_alarm_uncached h be a au) (\<lambda>_. op_bind (op_modify (on_rollback (MetaCache c)))
      (\<lambda>_. op_bind (set_mem (\<lambda>m. m\<lparr>mm_cache := Some a\<rparr>)) (\<lambda>_. op_return True))))" for c
    unfolding set_alarm_uncached_def
    by (intro outer_bind outer_ensure outer_data outer_pure outer_on_rollback outer_mem data_stmts) simp
  then show ?thesis by (simp add: outer_def meta_set_alarm_def Let_def)
qed

lemma outer_bookmark: "outer (get_bookmark h be)" "outer (set_bookmark h be n)"
proof -
  have "outer (case v of Some n \<Rightarrow> (if n < 0 then op_throw e else op_return (Some n)) | None \<Rightarrow> op_return None)"
    for v :: "int option" and e
    by (cases v) auto
  then show "outer (get_bookmark h be)" unfolding get_bookmark_def
    by (intro outer_bind outer_ensure outer_data outer_read_number data_stmts)
  have "outer (db_run1 h be STMT_setBookmark b au)" for b au by (intro outer_data data_stmts)
  then show "outer (set_bookmark h be n)" unfolding set_bookmark_def
    by (auto intro!: outer_bind outer_ensure)
qed

end

text \<open>A property of what the owner keeps: the operations keep it when the callbacks the owner installed do.\<close>

locale outer_kept = kept Q for Q :: "('u, 'x) store \<Rightarrow> bool" +
  fixes h :: "('u, 'x) store_hooks" and be :: "'u tables sql_file sql_backend"
  assumes callback: "hk_callback h = store_callback"
    and reset: "hk_before_reset h = store_before_reset"
    and written: "Q s \<Longrightarrow> Q (snd (hk_on_write h au s))"
    and critical: "Q s \<Longrightarrow> Q (snd (hk_on_critical h e (s\<lparr>sq_file := f, sq_in_txn := False, sq_savepoints := [],
      sq_callbacks := [], sq_critical := Some e\<rparr>)))"
    and same: "Q s \<Longrightarrow> sq_in_txn t = sq_in_txn s \<Longrightarrow> sq_critical t = sq_critical s \<Longrightarrow>
      outside (sq_mem t) = outside (sq_mem s) \<Longrightarrow> Q t"
begin

lemma outer_asserted: "outer assert_usable"
  by (simp add: outer_def assert_usable_def split: option.split)

lemma same_file: "Q s \<Longrightarrow> outside m = outside (sq_mem s) \<Longrightarrow> Q (s\<lparr>sq_file := f, sq_mem := m\<rparr>)"
  by (rule same) simp_all

text \<open>A statement that does not begin or end a transaction.\<close>

lemma outer_auto_rollback: "Q s \<Longrightarrow> Q (snd (op_bind (check_for_auto_rollback h be) (\<lambda>_. op_throw e) (s\<lparr>sq_file := f\<rparr>)))"
  using critical [of s CRITICAL_MESSAGE f] same [of s "s\<lparr>sq_file := f\<rparr>"]
  by (auto simp: check_for_auto_rollback_def op_simps split: prod.splits sum.splits)

lemma outer_change:
  assumes "c \<notin> unnamed"
  shows "outer (apply_change h c)"
proof -
  have "sq_in_txn (snd (apply_change h c s)) = sq_in_txn s \<and> sq_critical (snd (apply_change h c s)) = sq_critical s \<and>
      outside (sq_mem (snd (apply_change h c s))) = outside (sq_mem s)" for s :: "('u, 'x) store"
  proof (cases c)
    case NoChange
    then show ?thesis by (simp add: apply_change_def op_return_def)
  next
    case (BeginTxn n)
    then show ?thesis using assms by (cases n) (auto simp: apply_change_def apply_begin_def unnamed_def)
  next
    case (CommitTxn n)
    then show ?thesis using assms
      by (cases n) (auto simp: apply_change_def apply_commit_def drop_callbacks_def unnamed_def split: option.split)
  next
    case (RollbackTxn n)
    then show ?thesis using assms callback
      by (cases n) (auto simp: apply_change_def apply_rollback_def run_callbacks_down_to_def js_assert_def op_simps
          unnamed_def split: option.split prod.split if_splits dest: arg_cong [of _ _ "\<lambda>p. outside (snd p)"])
  qed
  then show ?thesis using same by (auto simp: outer_def)
qed

lemma outer_exec:
  assumes "classify (st_sql st) = Inr c" "c \<notin> unnamed"
  shows "outer (exec_statement h be st b au)"
proof -
  have exec: "outer (\<lambda>s. (case st_execute st b (sq_file s) of
      (Inl e, f) \<Rightarrow> op_bind (check_for_auto_rollback h be) (\<lambda>_. op_throw e) (s\<lparr>sq_file := f\<rparr>)
    | (Inr r, f) \<Rightarrow> op_bind (apply_change h c) (\<lambda>_. op_return r) (s\<lparr>sq_file := f\<rparr>)))"
    unfolding outer_def
  proof (intro allI impI)
    fix s assume q: "Q s"
    obtain r f where rf: "st_execute st b (sq_file s) = (r, f)" by fastforce
    have "Q (s\<lparr>sq_file := f\<rparr>)" by (rule same [OF q]) simp_all
    moreover have "outer (op_bind (apply_change h c) (\<lambda>_. op_return v))" for v :: sql_result
      by (intro outer_bind outer_change assms outer_pure)
    ultimately show "Q (snd (case st_execute st b (sq_file s) of
        (Inl e, f) \<Rightarrow> op_bind (check_for_auto_rollback h be) (\<lambda>_. op_throw e) (s\<lparr>sq_file := f\<rparr>)
      | (Inr r, f) \<Rightarrow> op_bind (apply_change h c) (\<lambda>_. op_return r) (s\<lparr>sq_file := f\<rparr>)))"
      using rf outer_auto_rollback [OF q] by (cases r) (auto simp: outer_def)
  qed
  have "outer (notify_write h au)" by (simp add: outer_def notify_write_def written)
  then show ?thesis unfolding exec_statement_def assms(1) by (auto intro!: outer_bind exec)
qed

lemma outer_run:
  assumes "classify (st_sql st) = Inr c" "c \<notin> unnamed"
  shows "outer (db_run1 h be st b au)"
  unfolding db_run1_def by (intro outer_bind outer_asserted outer_exec [OF assms])

sublocale store_kept Q h be
proof unfold_locales
  show "Q (snd (db_run1 h be st b au s))" if "is_data st" "Q s" for st b au s
    using outer_run [OF classify_data, of st b au] that by (simp add: is_data_def unnamed_def outer_def)
qed (auto simp: on_rollback_def intro: same)

lemma outer_put_multiple: "outer (kv_put_multiple h be ps au)"
  unfolding kv_put_multiple_def rollback_multi_put_def
  by (intro outer_bind outer_catch outer_pure outer_ensure outer_put_each outer_run [OF put_savepoint_texts(1)]
      outer_run [OF put_savepoint_texts(2)] outer_run [OF put_savepoint_texts(3)]; simp add: unnamed_def)

lemma outer_delete_all: "outer (kv_delete_all h be)"
proof -
  have "outer (db_reset h be)" unfolding db_reset_def
    by (intro outer_bind outer_usable outer_pure outer_if) (auto simp: outer_def reset intro!: same_file split: prod.split)
  moreover have "outer (\<lambda>s. (if km_created (sq_mem s) then
        op_bind (db_run1 h be STMT_countKeys [] False) (\<lambda>r. case rs_rows r of
            [] \<Rightarrow> op_throw (Failure ''count(*) returned no row.'')
          | row # _ \<Rightarrow> (case get_int64 row 0 of Inl e \<Rightarrow> op_throw e | Inr n \<Rightarrow> op_return n)) s
        else (Inr 0, s)))"
    by (intro outer_if outer_pure outer_bind outer_data data_stmts) (auto split: list.split sum.split)
  ultimately show ?thesis unfolding kv_delete_all_def by (intro outer_bind outer_pure)
qed

end

end
