(* ===== verification/Kv_Map.thy ===== *)
theory Kv_Map
  imports Store_Inv Store_Outer
begin

text \<open>
  The key-value store is a map from keys to values: what each operation of \<open>SqliteKv\<close> returns and leaves
  is what the operation of the same name does to a map, in the locale of the callbacks; when it throws,
  the map is as it was or the database has become unusable. A key is named by its UTF-8 bytes, in whose
  order entries are listed.
\<close>

section \<open>Sorted rows\<close>

definition map_range :: "bytes \<Rightarrow> bytes option \<Rightarrow> (bytes \<Rightarrow> bytes option) \<Rightarrow> (bytes \<times> bytes) list" where
  "map_range b e m = map (\<lambda>k. (k, the (m k)))
     (sorted_list_of_set {k \<in> dom m. b \<le> k \<and> (case e of None \<Rightarrow> True | Some e \<Rightarrow> k < e)})"

lemma sorted_keys: "sorted_wrt (<) (map fst (kv_rows t))"
  using kv_rows [of t] by simp

lemma distinct_keys: "distinct (map fst (kv_rows t))"
  using sorted_keys by (simp add: strict_sorted_iff)

lemma map_of_insert: "map_of (kv_rows (kv_insert k v t)) = (map_of (kv_rows t))(k \<mapsto> v)"
proof -
  have "map_of (row_insert k v r) = (map_of r)(k \<mapsto> v)" for r
    by (induction k v r rule: row_insert.induct) (auto simp: fun_upd_twist)
  then show ?thesis by (simp add: kv_insert.rep_eq)
qed

lemma map_of_remove: "map_of (kv_rows (kv_remove k t)) = (map_of (kv_rows t))(k := None)"
proof -
  have "distinct (map fst r) \<Longrightarrow> map_of (row_remove k r) = (map_of r)(k := None)" for r
  proof (induction k r rule: row_remove.induct)
    case (2 k j w r)
    then have "k = j \<Longrightarrow> map_of r k = None" by (simp add: map_of_eq_None_iff)
    then show ?case using 2 by (auto simp: fun_eq_iff)
  qed simp
  then show ?thesis using distinct_keys by (simp add: kv_remove.rep_eq)
qed

lemma kv_range_map: "kv_range b e t = map_range b e (map_of (kv_rows t))"
proof -
  let ?P = "\<lambda>k. b \<le> k \<and> (case e of None \<Rightarrow> True | Some e \<Rightarrow> k < e)"
  let ?l = "kv_range b e t" and ?m = "map_of (kv_rows t)"
  have l: "?l = filter (\<lambda>p. ?P (fst p)) (kv_rows t)" unfolding kv_range_def by (rule filter_cong) (auto split: option.splits)
  have "map fst ?l = filter ?P (map fst (kv_rows t))" by (simp add: l filter_map comp_def)
  then have "sorted_wrt (<) (map fst ?l)" "set (map fst ?l) = {k \<in> dom ?m. ?P k}"
    using sorted_wrt_filter [OF sorted_keys] by (auto simp: dom_map_of_conv_image_fst)
  then have keys: "sorted_list_of_set {k \<in> dom ?m. ?P k} = map fst ?l"
    using sorted_list_of_set.idem_if_sorted_distinct [of "map fst ?l"] by (simp add: strict_sorted_iff)
  have "map (\<lambda>k. (k, the (?m k))) (map fst ?l) = ?l"
    unfolding map_map by (rule map_idI) (use distinct_keys [of t] in \<open>auto simp: l\<close>)
  then show ?thesis by (simp add: map_range_def keys)
qed

section \<open>The operations of a map\<close>

definition contents :: "'u tables \<Rightarrow> bytes \<Rightarrow> bytes option" where
  "contents d = (case tb_kv d of None \<Rightarrow> (\<lambda>_. None) | Some t \<Rightarrow> map_of (kv_rows t))"

abbreviation kv_map :: "('u, 'x) store \<Rightarrow> bytes \<Rightarrow> bytes option" where
  "kv_map s \<equiv> contents (db_data s)"

definition map_list :: "js_string \<Rightarrow> js_string option \<Rightarrow> int option \<Rightarrow> order \<Rightarrow> (bytes \<Rightarrow> bytes option) \<Rightarrow> (js_string \<times> bytes) list" where
  "map_list b e n ord m = map (\<lambda>(k, v). (utf8_text k, v))
     (sql_limit n ((if ord = REVERSE then rev else id) (map_range (utf8_encode b) (map_option utf8_encode e) m)))"

lemma contents_table: "tb_kv d = Some t \<Longrightarrow> contents d = map_of (kv_rows t)"
  by (simp add: contents_def)

lemma select_rows_map:
  "select_rows (ord = REVERSE) b e n t = map (\<lambda>(k, v). [SText k, SBlob v]) (map_list b e n ord (map_of (kv_rows t)))"
  by (simp add: select_rows_def map_list_def kv_row_def kv_range_map case_prod_beta comp_def)

section \<open>What the operations do\<close>

text \<open>What an operation may do when it throws.\<close>

definition unchanged :: "('u, 'x) store \<Rightarrow> ('u, 'x) store \<Rightarrow> bool" where
  "unchanged s t \<longleftrightarrow> kv_map t = kv_map s \<or> sq_critical t \<noteq> None"

lemma unchanged_refl [simp]: "unchanged s s"
  by (simp add: unchanged_def)

context store_hooks_ok
begin

lemma run_table:
  assumes ok: "store_ok s" and kw: "leading_keyword (st_sql st) \<notin> CONTROL_KEYWORDS"
    and st: "st = data_stmt sql k (\<lambda>b. on_kv (g b))" and run: "db_run1 h be st b au s = (r, t)"
  obtains (stopped) e where "r = Inl e" "store_ok t" "unchanged s t"
  | (ran) v tb tb' where "r = Inr v" "store_ok t" "sq_critical t = None" "tb_kv (db_data s) = Some tb"
      "g b (db_data s) tb = (v, tb')" "kv_map t = map_of (kv_rows tb')" "db_caches t = db_caches s"
proof -
  have ok': "store_ok t" using keepsD [OF run_kv [OF kw st] run ok] .
  have kw': "leading_keyword sql \<notin> CONTROL_KEYWORDS" using kw by (simp add: st data_stmt_def)
  show thesis
  proof (rule run_data [OF ok kw' _ run [unfolded st]], goal_cases)
    case (1 d e d')
    then show ?case by (rule on_kv_frame(1))
  next
    case (2 e)
    then show thesis by (intro stopped) (auto simp: unchanged_def)
  next
    case (3 v s1 d)
    then obtain tb tb' where tb: "tb_kv (db_data s) = Some tb" "g b (db_data s) tb = (v, tb')" "d = (db_data s)\<lparr>tb_kv := Some tb'\<rparr>"
      by (auto simp: on_kv_def split: option.splits prod.splits)
    show thesis by (rule ran [OF 3(1) ok' _ tb(1,2)]) (use 3 tb in \<open>simp_all add: contents_def\<close>)
  qed
qed

lemma ensure_map:
  assumes ok: "store_ok s" and run: "kv_ensure_initialized h be au s = (r, t)"
  shows "store_ok t" "unchanged s t" "r = Inr v \<Longrightarrow> kv_map t = kv_map s"
proof -
  show "store_ok t" by (rule keepsD [OF kv_ensure_keeps run ok])
  have "unchanged s t \<and> (\<forall>v. r = Inr v \<longrightarrow> kv_map t = kv_map s)"
  proof (cases "km_created (sq_mem s)")
    case True
    then show ?thesis using run by (simp add: kv_ensure_initialized_def)
  next
    case False
    obtain q u where q: "db_run1 h be KV_CREATE_TABLE [] au s = (q, u)" by fastforce
    have kw: "leading_keyword (st_sql (KV_CREATE_TABLE :: 'u stmt)) \<notin> CONTROL_KEYWORDS" by (simp add: stmt_text data_keywords)
    obtain sql where c: "(KV_CREATE_TABLE :: 'u stmt) = data_stmt sql 0
        (\<lambda>_ d. (Inr (no_rows 0), if tb_kv d = None then d\<lparr>tb_kv := Some kv_empty\<rparr> else d))"
      by (simp add: KV_CREATE_TABLE_def)
    have kw': "leading_keyword sql \<notin> CONTROL_KEYWORDS" using kw unfolding c by (simp add: data_stmt_def)
    show ?thesis
    proof (rule run_data [OF ok kw' _ q [unfolded c]], goal_cases)
      case (2 e)
      then show ?thesis using run False q by (auto simp: kv_ensure_initialized_def op_bind_def unchanged_def)
    next
      case (3 v s1 d)
      then have "contents d = kv_map s" by (auto simp: contents_def kv_empty.rep_eq split: option.splits)
      moreover have "db_data t = d" using run False q 3
        by (auto simp: kv_ensure_initialized_def op_simps mem_def on_rollback_def)
      ultimately show ?thesis by (simp add: unchanged_def)
    qed simp
  qed
  then show "unchanged s t" "r = Inr v \<Longrightarrow> kv_map t = kv_map s" by auto
qed

lemma get_map:
  assumes ok: "store_ok s" and run: "kv_get h be k s = (r, t)"
  shows "store_ok t" "unchanged s t" "r = Inr v \<Longrightarrow> v = kv_map s (utf8_encode k) \<and> kv_map t = kv_map s"
proof -
  show "store_ok t" by (rule keepsD [OF kv_get_keeps run ok])
  have "unchanged s t \<and> (\<forall>v. r = Inr v \<longrightarrow> v = kv_map s (utf8_encode k) \<and> kv_map t = kv_map s)"
  proof (cases "sq_critical s = None \<and> km_created (sq_mem s)")
    case False
    have "sq_critical s = None \<Longrightarrow> \<not> km_created (sq_mem s) \<Longrightarrow> tb_kv (db_data s) = None"
      using store_okD(2) [OF ok] by (auto simp: agree_def)
    then show ?thesis using False run by (cases "sq_critical s") (auto simp: kv_get_def op_bind_def assert_usable_def contents_def)
  next
    case True
    obtain q u where q: "db_run1 h be STMT_get [SText k] False s = (q, u)" by fastforce
    have kw: "leading_keyword (st_sql (STMT_get :: 'u stmt)) \<notin> CONTROL_KEYWORDS" by (simp add: kv_texts)
    show ?thesis
    proof (rule run_table [OF ok kw STMT_get_def q], goal_cases)
      case (1 e)
      then show ?thesis using run True q by (auto simp: kv_get_def op_bind_def assert_usable_def)
    next
      case (2 v tb tb')
      then have "kv_map u = kv_map s" "rs_rows v = (case kv_map s (utf8_encode k) of None \<Rightarrow> [] | Some x \<Rightarrow> [[SBlob x]])"
        by (auto simp: contents_table rows_def)
      then show ?thesis using run True q 2(1)
        by (auto simp: kv_get_def op_bind_def assert_usable_def get_blob_def column_def unchanged_def split: option.splits)
    qed
  qed
  then show "unchanged s t" "r = Inr v \<Longrightarrow> v = kv_map s (utf8_encode k) \<and> kv_map t = kv_map s" by auto
qed

text \<open>A statement that writes rows, after the table has been created.\<close>

lemma write_map:
  fixes st :: "'u stmt"
  assumes kw: "leading_keyword (st_sql st) \<notin> CONTROL_KEYWORDS" and st: "st = data_stmt sql k (\<lambda>b. on_kv (\<lambda>_. g b))"
    and g: "\<And>tb v tb'. g b tb = (v, tb') \<Longrightarrow> map_of (kv_rows tb') = eff (map_of (kv_rows tb)) \<and> P (map_of (kv_rows tb)) v"
    and ok: "store_ok s" and run: "op_bind (kv_ensure_initialized h be au) (\<lambda>_. op_bind (db_run1 h be st b au) f) s = (r, t)"
    and f: "\<And>v u. f v u = (Inr (a v), u)"
  shows "store_ok t" "unchanged s t \<or> (\<exists>v. r = Inr v)" "r = Inr w \<Longrightarrow> kv_map t = eff (kv_map s) \<and> (\<exists>v. w = a v \<and> P (kv_map s) v)"
proof -
  obtain q u where q: "kv_ensure_initialized h be au s = (q, u)" by fastforce
  note E = ensure_map [OF ok q]
  have "store_ok t \<and> (unchanged s t \<or> (\<exists>v. r = Inr v)) \<and> (\<forall>w. r = Inr w \<longrightarrow> kv_map t = eff (kv_map s) \<and> (\<exists>v. w = a v \<and> P (kv_map s) v))"
  proof (cases q)
    case (Inl e)
    then show ?thesis using run q E by (auto simp: op_bind_def)
  next
    case (Inr v)
    obtain p x where p: "db_run1 h be st b au u = (p, x)" by fastforce
    show ?thesis
    proof (rule run_table [OF E(1) kw st p], goal_cases)
      case (1 e)
      then show ?thesis using run q p Inr E(3) [OF Inr] by (auto simp: op_bind_def unchanged_def)
    next
      case (2 y tb tb')
      then show ?thesis using run q p Inr E(3) [OF Inr] g [OF 2(5)] by (auto simp: op_bind_def f contents_table)
    qed
  qed
  then show "store_ok t" "unchanged s t \<or> (\<exists>v. r = Inr v)" "r = Inr w \<Longrightarrow> kv_map t = eff (kv_map s) \<and> (\<exists>v. w = a v \<and> P (kv_map s) v)"
    by auto
qed

lemma put_map:
  assumes ok: "store_ok s" and run: "kv_put h be k v au s = (r, t)"
  shows "store_ok t" "unchanged s t \<or> r = Inr ()" "r = Inr () \<Longrightarrow> kv_map t = (kv_map s)(utf8_encode k \<mapsto> v)"
proof -
  have kw: "leading_keyword (st_sql (STMT_put :: 'u stmt)) \<notin> CONTROL_KEYWORDS" by (simp add: kv_texts)
  note W = write_map [OF kw STMT_put_def _ ok run [unfolded kv_put_def], where a = "\<lambda>_. ()" and P = "\<lambda>_ _. True"
      and eff = "\<lambda>m. m(utf8_encode k \<mapsto> v)"]
  show "store_ok t" "unchanged s t \<or> r = Inr ()" "r = Inr () \<Longrightarrow> kv_map t = (kv_map s)(utf8_encode k \<mapsto> v)"
    using W by (auto simp: map_of_insert op_return_def)
qed

lemma delete_map:
  assumes ok: "store_ok s" and run: "kv_delete h be k au s = (r, t)"
  shows "store_ok t" "unchanged s t \<or> (\<exists>v. r = Inr v)"
    "r = Inr w \<Longrightarrow> kv_map t = (kv_map s)(utf8_encode k := None) \<and> w = (kv_map s (utf8_encode k) \<noteq> None)"
proof -
  have kw: "leading_keyword (st_sql (STMT_delete :: 'u stmt)) \<notin> CONTROL_KEYWORDS" by (simp add: kv_texts)
  note W = write_map [OF kw STMT_delete_def _ ok run [unfolded kv_delete_def], where a = "\<lambda>r. 0 < rs_written r"
      and P = "\<lambda>m r. (0 < rs_written r) = (m (utf8_encode k) \<noteq> None)" and eff = "\<lambda>m. m(utf8_encode k := None)"]
  note simps = map_of_remove op_return_def no_rows_def
  show "store_ok t" "unchanged s t \<or> (\<exists>v. r = Inr v)" by (rule W(1) W(2); auto simp: simps split: if_splits)+
  show "kv_map t = (kv_map s)(utf8_encode k := None) \<and> w = (kv_map s (utf8_encode k) \<noteq> None)" if "r = Inr w"
  proof -
    have "kv_map t = (kv_map s)(utf8_encode k := None) \<and>
        (\<exists>v :: sql_result. w = (0 < rs_written v) \<and> (0 < rs_written v) = (kv_map s (utf8_encode k) \<noteq> None))"
      by (rule W(3) [OF _ _ that]) (auto simp: simps split: if_splits)
    then show ?thesis by blast
  qed
qed

text \<open>The rows a cursor holds are what \<open>forEach\<close> visits.\<close>

lemma for_each_rows:
  assumes "lc_rows c = Some (map (\<lambda>(k, v). [SText k, SBlob v]) ps)" "lc_index c \<le> length ps" "i < length (km_cursors (sq_mem s))"
    "km_cursors (sq_mem s) ! i = c" "length ps - lc_index c < fuel"
    "for_each fuel i (\<lambda>k v rs. op_return (rs @ [(k, v)])) n a s = (r, t)"
  shows "r = Inr (n + (length ps - lc_index c), a @ drop (lc_index c) ps) \<and> sq_file t = sq_file s \<and> sq_critical t = sq_critical s"
  using assms
proof (induction fuel arbitrary: c s n a)
  case (Suc fuel)
  show ?case
  proof (cases "lc_index c < length ps")
    case True
    obtain k v where kv: "ps ! lc_index c = (k, v)" by fastforce
    let ?c = "c\<lparr>lc_index := Suc (lc_index c)\<rparr>"
    let ?s = "mem (\<lambda>m. m\<lparr>km_cursors := (km_cursors m)[i := ?c]\<rparr>) s"
    have "cursor_next i s = (Inr (Some (k, v)), ?s)"
      using Suc.prems(1,4) True by (simp add: cursor_next_def Let_def kv get_text_def get_blob_def column_def)
    then have "for_each fuel i (\<lambda>k v rs. op_return (rs @ [(k, v)])) (Suc n) (a @ [(k, v)]) ?s = (r, t)"
      using Suc.prems(6) by (simp add: op_bind_def) (simp add: op_return_def)
    with Suc.prems True have "r = Inr (Suc n + (length ps - lc_index ?c), (a @ [(k, v)]) @ drop (lc_index ?c) ps) \<and>
        sq_file t = sq_file ?s \<and> sq_critical t = sq_critical ?s"
      by (intro Suc.IH) (simp_all add: mem_def)
    then show ?thesis using True by (simp add: mem_def Cons_nth_drop_Suc [symmetric] kv)
  next
    case False
    then show ?thesis using Suc.prems by (auto simp: cursor_next_def Let_def op_bind_def op_return_def mem_def)
  qed
qed simp

lemma list_statement:
  obtains sql k f params where "(select_list_statement b e n ord :: 'u stmt \<times> sql_value list) = (list_stmt sql k f, params)"
    "\<And>t. f params t = select_rows (ord = REVERSE) b e n t" "leading_keyword (st_sql (list_stmt sql k f :: 'u stmt)) \<notin> CONTROL_KEYWORDS"
proof -
  have kw: "leading_keyword (st_sql (fst (select_list_statement b e n ord) :: 'u stmt)) \<notin> CONTROL_KEYWORDS"
    by (rule select_is_data [unfolded is_data_def, THEN conjunct1])
  have "\<exists>sql k f params. (select_list_statement b e n ord :: 'u stmt \<times> sql_value list) = (list_stmt sql k f, params) \<and>
      (\<forall>t. f params t = select_rows (ord = REVERSE) b e n t)"
    by (cases ord; cases e; cases n)
      (simp_all add: select_list_statement_def STMT_list_def STMT_listEnd_def STMT_listLimit_def STMT_listEndLimit_def
        STMT_listReverse_def STMT_listEndReverse_def STMT_listLimitReverse_def STMT_listEndLimitReverse_def, (intro exI conjI, rule refl, simp)+)
  then show thesis using kw that by (metis fst_conv)
qed

lemma open_cursor_map:
  assumes ok: "store_ok s" and run: "kv_open_cursor h be b e n ord s = (r, t)"
  shows "unchanged s t" "r = Inr i \<Longrightarrow> kv_map t = kv_map s \<and> i < length (km_cursors (sq_mem t)) \<and>
      lc_index (km_cursors (sq_mem t) ! i) = 0 \<and>
      (case lc_rows (km_cursors (sq_mem t) ! i) of None \<Rightarrow> map_list b e n ord (kv_map s) = []
       | Some rs \<Rightarrow> rs = map (\<lambda>(k, v). [SText k, SBlob v]) (map_list b e n ord (kv_map s)))"
proof -
  have "unchanged s t \<and> (\<forall>i. r = Inr i \<longrightarrow> kv_map t = kv_map s \<and> i < length (km_cursors (sq_mem t)) \<and>
      lc_index (km_cursors (sq_mem t) ! i) = 0 \<and>
      (case lc_rows (km_cursors (sq_mem t) ! i) of None \<Rightarrow> map_list b e n ord (kv_map s) = []
       | Some rs \<Rightarrow> rs = map (\<lambda>(k, v). [SText k, SBlob v]) (map_list b e n ord (kv_map s))))"
  proof (cases "sq_critical s = None \<and> km_created (sq_mem s)")
    case False
    have "contents (db_data s) = (\<lambda>_. None)" if "sq_critical s = None" "\<not> km_created (sq_mem s)"
      using store_okD(2) [OF ok that(1)] that(2) by (auto simp: agree_def contents_def)
    moreover have "map_list b e n ord (\<lambda>_. None) = []"
      by (simp add: map_list_def map_range_def sql_limit_def split: option.split)
    ultimately show ?thesis using False run
      by (cases "sq_critical s") (auto simp: kv_open_cursor_def op_bind_def assert_usable_def new_cursor_def unchanged_def)
  next
    case True
    obtain sql k f params where st: "(select_list_statement b e n ord :: 'u stmt \<times> sql_value list) = (list_stmt sql k f, params)"
      "\<And>t. f params t = select_rows (ord = REVERSE) b e n t" "leading_keyword (st_sql (list_stmt sql k f :: 'u stmt)) \<notin> CONTROL_KEYWORDS"
      by (rule list_statement [of b e n ord]) blast
    let ?s = "mem cancel_current s"
    have ok': "store_ok ?s" by (rule store_ok_mem [OF ok]) simp
    have same: "kv_map ?s = kv_map s" by (simp add: mem_def)
    obtain q u where q: "db_run1 h be (list_stmt sql k f) params False ?s = (q, u)" by fastforce
    show ?thesis
    proof (rule run_table [OF ok' st(3) list_stmt_def q], goal_cases)
      case (1 x)
      then show ?thesis using run True q st(1) same
        by (auto simp: kv_open_cursor_def op_simps assert_usable_def unchanged_def)
    next
      case (2 v tb tb')
      then have "kv_map u = kv_map s" "rs_rows v = map (\<lambda>(k, v). [SText k, SBlob v]) (map_list b e n ord (kv_map s))"
        using same by (auto simp: contents_table rows_def st(2) select_rows_map)
      then show ?thesis using run True q st(1) 2(1)
        by (auto simp: kv_open_cursor_def op_simps assert_usable_def new_cursor_def unchanged_def)
    qed
  qed
  then show "unchanged s t" "r = Inr i \<Longrightarrow> kv_map t = kv_map s \<and> i < length (km_cursors (sq_mem t)) \<and>
      lc_index (km_cursors (sq_mem t) ! i) = 0 \<and>
      (case lc_rows (km_cursors (sq_mem t) ! i) of None \<Rightarrow> map_list b e n ord (kv_map s) = []
       | Some rs \<Rightarrow> rs = map (\<lambda>(k, v). [SText k, SBlob v]) (map_list b e n ord (kv_map s)))"
    by auto
qed

lemma list_map:
  assumes ok: "store_ok s" and run: "kv_list h be b e n ord (\<lambda>k v rs. op_return (rs @ [(k, v)])) [] s = (r, t)"
  shows "unchanged s t" "r = Inr w \<Longrightarrow> kv_map t = kv_map s \<and> snd w = map_list b e n ord (kv_map s)"
proof -
  obtain q u where q: "kv_open_cursor h be b e n ord s = (q, u)" by fastforce
  note O = open_cursor_map [OF ok q]
  have "unchanged s t \<and> (\<forall>w. r = Inr w \<longrightarrow> kv_map t = kv_map s \<and> snd w = map_list b e n ord (kv_map s))"
  proof (cases q)
    case (Inl x)
    then show ?thesis using run q O(1) by (auto simp: kv_list_def op_bind_def)
  next
    case (Inr i)
    note I = O(2) [OF Inr]
    show ?thesis
    proof (cases "lc_rows (km_cursors (sq_mem u) ! i)")
      case None
      then show ?thesis using run q Inr I
        by (auto simp: kv_list_def op_bind_def op_return_def cursor_next_def Let_def unchanged_def)
    next
      case (Some rs)
      let ?ps = "map_list b e n ord (kv_map s)"
      have fe: "for_each (Suc (length rs)) i (\<lambda>k v rs. op_return (rs @ [(k, v)])) 0 [] u = (r, t)"
        using run q Inr Some by (simp add: kv_list_def op_bind_def del: for_each.simps)
      have z: "lc_index (km_cursors (sq_mem u) ! i) = 0" using I by simp
      have "r = Inr (0 + (length ?ps - lc_index (km_cursors (sq_mem u) ! i)), [] @ drop (lc_index (km_cursors (sq_mem u) ! i)) ?ps) \<and>
          sq_file t = sq_file u \<and> sq_critical t = sq_critical u"
        by (rule for_each_rows [OF _ _ _ _ _ fe]) (use I Some in auto)
      then show ?thesis using I z by (auto simp: unchanged_def)
    qed
  qed
  then show "unchanged s t" "r = Inr w \<Longrightarrow> kv_map t = kv_map s \<and> snd w = map_list b e n ord (kv_map s)" by auto
qed

end

end
