(* ===== verification/Actor_Sqlite.thy ===== *)
theory Actor_Sqlite
  imports Sqlite_Kv
begin

text \<open>
  \<open>ActorSqlite\<close>, \<open>ImplicitTxn\<close> and \<open>ExplicitTxn\<close> of \<open>src/src/io/actor-sqlite.ts\<close>.

  The memory of the two stores is extended with the fields of the class. Objects that others hold are
  numbered: transactions, deferred alarm deleters, calls of \<open>scheduleRun\<close>, and commits. A commit is the
  asynchronous work behind one element of \<open>commitTasks\<close>: the body that \<open>evalLater\<close> runs, or the
  \<open>commitImpl\<close> an explicit transaction starts; its phase says which \<open>await\<close> it is suspended at. What
  happens between two awaits is one operation. The locks are the promises \<open>lockWhile\<close> was given.
\<close>

section \<open>State\<close>

datatype promise = Ready | RequestOf nat | CommitOf nat

datatype gate_lock = LockOn promise | LockError js_exn

datatype current_txn = NoTxn | ImplicitTxn nat | ExplicitTxn nat

record implicit_txn =
  it_committed :: bool
  it_dropped :: bool
  it_confirmed :: bool

record explicit_txn =
  et_parent :: "nat option"
  et_depth :: nat
  et_child :: bool
  et_committed :: bool
  et_dropped :: bool
  et_dirty :: bool
  et_confirmed :: bool

text \<open>A call of \<open>scheduleRun\<close>, whether it moved the alarm later, and how its promise settled.\<close>

record request =
  rq_time :: "int option"
  rq_prior :: promise
  rq_later :: bool
  rq_result :: "(js_exn + unit) option"

datatype commit_kind = FlushImplicit nat | FlushDeleteAll | CommitExplicit

datatype phase =
    Scheduled
  | Merged nat
  | AwaitRequest nat
  | Persisting "int option" nat
  | Finished
  | Failed js_exn
  | Caught js_exn
  | Dead

text \<open>\<open>cm_shared\<close> is the promise of \<open>#pendingCommit\<close> that other commits wait on.\<close>

record commit =
  cm_kind :: commit_kind
  cm_phase :: phase
  cm_shared :: "(js_exn + unit) option"

record actor_mem = store_mem +
  am_broken :: "js_exn option"
  am_current :: current_txn
  am_implicit :: "implicit_txn list"
  am_explicit :: "explicit_txn list"
  am_commits :: "commit list"
  am_locks :: "gate_lock list"
  am_requests :: "request list"
  am_deleters :: "bool list"
  am_delete_all_scheduled :: bool
  am_last_commit :: promise
  am_deferred_delete :: bool
  am_in_handler :: bool
  am_confirmed :: "int option"
  am_no_later :: "int option"
  am_pending_commit :: "nat option"
  am_later_in_flight :: promise
  am_later_is_in_flight :: bool
  am_later_handler :: "nat option"
  am_pending_later :: "int option option"
  am_version :: nat
  am_sync_depth :: nat

type_synonym 'u actor = "('u tables sql_file, rollback_callback, actor_mem) sqlite"
type_synonym ('u, 'a) aop = "('u actor, 'a) op"

text \<open>What is given to the constructor: the backend, and the alarm outlet, which may throw at a call.\<close>

record 'u actor_env =
  ae_backend :: "'u tables sql_file sql_backend"
  ae_schedule_run :: "nat \<Rightarrow> int option \<Rightarrow> js_exn option"

abbreviation upd :: "(actor_mem \<Rightarrow> actor_mem) \<Rightarrow> ('u, unit) aop" where
  "upd f \<equiv> op_modify (mem f)"

definition set_implicit :: "nat \<Rightarrow> (implicit_txn \<Rightarrow> implicit_txn) \<Rightarrow> actor_mem \<Rightarrow> actor_mem" where
  "set_implicit i f m = m\<lparr>am_implicit := (am_implicit m)[i := f (am_implicit m ! i)]\<rparr>"

definition set_explicit :: "nat \<Rightarrow> (explicit_txn \<Rightarrow> explicit_txn) \<Rightarrow> actor_mem \<Rightarrow> actor_mem" where
  "set_explicit j f m = m\<lparr>am_explicit := (am_explicit m)[j := f (am_explicit m ! j)]\<rparr>"

definition set_commit :: "nat \<Rightarrow> (commit \<Rightarrow> commit) \<Rightarrow> actor_mem \<Rightarrow> actor_mem" where
  "set_commit c f m = m\<lparr>am_commits := (am_commits m)[c := f (am_commits m ! c)]\<rparr>"

definition add_lock :: "gate_lock \<Rightarrow> actor_mem \<Rightarrow> actor_mem" where
  "add_lock l m = m\<lparr>am_locks := am_locks m @ [l]\<rparr>"

definition add_commit :: "commit_kind \<Rightarrow> actor_mem \<Rightarrow> actor_mem" where
  "add_commit k m = m\<lparr>am_commits := am_commits m @ [\<lparr>cm_kind = k, cm_phase = Scheduled, cm_shared = None\<rparr>]\<rparr>"

definition require_not_broken :: "('u, unit) aop" where
  "require_not_broken s = (case am_broken (sq_mem s) of Some e \<Rightarrow> (Inl e, s) | None \<Rightarrow> (Inr (), s))"

text \<open>An unset alarm is an alarm at infinity.\<close>

definition will_fire_earlier :: "int option \<Rightarrow> int option \<Rightarrow> bool" where
  "will_fire_earlier a b = (case a of None \<Rightarrow> False | Some x \<Rightarrow> (case b of None \<Rightarrow> True | Some y \<Rightarrow> x < y))"

section \<open>Statements\<close>

definition STMT_BEGIN :: "'u stmt" where
  "STMT_BEGIN = control_stmt (of_chars ''BEGIN TRANSACTION'') (BeginTxn None)"
definition STMT_COMMIT :: "'u stmt" where
  "STMT_COMMIT = control_stmt (of_chars ''COMMIT TRANSACTION'') (CommitTxn None)"
definition STMT_ROLLBACK :: "'u stmt" where
  "STMT_ROLLBACK = control_stmt (of_chars ''ROLLBACK TRANSACTION'') (RollbackTxn None)"
definition STMT_SAVEPOINT :: "js_string \<Rightarrow> 'u stmt" where
  "STMT_SAVEPOINT n = control_stmt (of_chars ''SAVEPOINT '' @ n) (BeginTxn (Some n))"
definition STMT_RELEASE :: "js_string \<Rightarrow> 'u stmt" where
  "STMT_RELEASE n = control_stmt (of_chars ''RELEASE '' @ n) (CommitTxn (Some n))"
definition STMT_ROLLBACK_TO :: "js_string \<Rightarrow> 'u stmt" where
  "STMT_ROLLBACK_TO n = control_stmt (of_chars ''ROLLBACK TO '' @ n) (RollbackTxn (Some n))"

definition sync_savepoint :: "nat \<Rightarrow> js_string" where
  "sync_savepoint d = of_chars ''_cf_sync_savepoint_'' @ js_decimal d"
definition txn_savepoint :: "nat \<Rightarrow> js_string" where
  "txn_savepoint d = of_chars ''_cf_savepoint_'' @ js_decimal d"

section \<open>The database's callbacks\<close>

definition on_critical_error :: "js_exn \<Rightarrow> ('u, unit) aop" where
  "on_critical_error e s =
     (case am_broken (sq_mem s) of
        Some _ \<Rightarrow> (Inr (), s)
      | None \<Rightarrow> (let b = Failure (''broken.outputGateBroken; '' @ (case e of Failure t \<Rightarrow> t | Canceled \<Rightarrow> ''''))
               in (Inr (), mem (\<lambda>m. add_lock (LockError b) (m\<lparr>am_broken := Some b\<rparr>)) s)))"

text \<open>
  Transaction control is never a write: the statements \<open>#onWrite\<close> itself runs do not call it again,
  and run with hooks whose write callback does nothing.
\<close>

definition control_hooks :: "('u tables sql_file, rollback_callback, actor_mem) hooks" where
  "control_hooks = \<lparr>hk_on_write = (\<lambda>_. op_return ()), hk_on_critical = on_critical_error,
     hk_callback = store_callback, hk_before_reset = store_before_reset\<rparr>"

definition run_control :: "'u actor_env \<Rightarrow> 'u stmt \<Rightarrow> ('u, unit) aop" where
  "run_control E st = op_bind (db_run1 control_hooks (ae_backend E) st [] False) (\<lambda>_. op_return ())"

definition implicit_new :: "'u actor_env \<Rightarrow> ('u, nat) aop" where
  "implicit_new E s =
     (if am_current (sq_mem s) \<noteq> NoTxn
      then (Inl (Failure ''an implicit transaction requires that no transaction is open''), s)
      else op_bind (run_control E STMT_BEGIN) (\<lambda>_ s. (let i = length (am_implicit (sq_mem s)) in
        (Inr i, mem (\<lambda>m. m\<lparr>am_implicit := am_implicit m @ [\<lparr>it_committed = False, it_dropped = False, it_confirmed = False\<rparr>],
                    am_current := ImplicitTxn i\<rparr>) s))) s)"

definition start_implicit_txn :: "'u actor_env \<Rightarrow> ('u, unit) aop" where
  "start_implicit_txn E = op_bind (implicit_new E)
     (\<lambda>i. upd (\<lambda>m. (add_commit (FlushImplicit i) m)\<lparr>am_last_commit := CommitOf (length (am_commits m))\<rparr>))"

definition on_write :: "'u actor_env \<Rightarrow> bool \<Rightarrow> ('u, unit) aop" where
  "on_write E allow_unconfirmed = op_bind require_not_broken
     (\<lambda>_. op_bind (\<lambda>s. (if am_current (sq_mem s) = NoTxn then start_implicit_txn E s else (Inr (), s)))
     (\<lambda>_ s. (case am_current (sq_mem s) of
        NoTxn \<Rightarrow> (Inl (Failure ''we must have a transaction at this point''), s)
      | ImplicitTxn i \<Rightarrow>
          (if \<not> it_confirmed (am_implicit (sq_mem s) ! i) \<and> \<not> allow_unconfirmed
           then (Inr (), mem (\<lambda>m. add_lock (LockOn (am_last_commit m)) (set_implicit i (\<lambda>t. t\<lparr>it_confirmed := True\<rparr>) m)) s)
           else (Inr (), s))
      | ExplicitTxn j \<Rightarrow>
          (if \<not> et_confirmed (am_explicit (sq_mem s) ! j) \<and> \<not> allow_unconfirmed
           then (Inr (), mem (set_explicit j (\<lambda>t. t\<lparr>et_confirmed := True\<rparr>)) s)
           else (Inr (), s)))))"

definition actor_hooks :: "'u actor_env \<Rightarrow> ('u tables sql_file, rollback_callback, actor_mem) hooks" where
  "actor_hooks E = \<lparr>hk_on_write = on_write E, hk_on_critical = on_critical_error,
     hk_callback = store_callback, hk_before_reset = store_before_reset\<rparr>"

abbreviation stored_alarm :: "'u actor_env \<Rightarrow> ('u, int option) aop" where
  "stored_alarm E \<equiv> meta_get_alarm (actor_hooks E) (ae_backend E)"

section \<open>Alarm scheduling\<close>

definition request_scheduled_alarm :: "'u actor_env \<Rightarrow> int option \<Rightarrow> promise \<Rightarrow> ('u, nat) aop" where
  "request_scheduled_alarm E t prior s =
     (let later = will_fire_earlier (am_no_later (sq_mem s)) t;
          k = length (am_requests (sq_mem s));
          failure = ae_schedule_run E k t;
          u = mem (\<lambda>m. m\<lparr>am_no_later := (if later then t else am_no_later m),
                 am_requests := am_requests m @ [\<lparr>rq_time = t, rq_prior = prior, rq_later = later,
                   rq_result = (case failure of None \<Rightarrow> None | Some e \<Rightarrow> Some (Inl e))\<rparr>]\<rparr>) s
      in case failure of None \<Rightarrow> (Inr k, u) | Some e \<Rightarrow> (Inl e, u))"

text \<open>The promise of a call settles, and its continuation runs.\<close>

definition request_settled :: "nat \<Rightarrow> js_exn + unit \<Rightarrow> actor_mem \<Rightarrow> actor_mem" where
  "request_settled k res m =
     (let q = am_requests m ! k in
      m\<lparr>am_requests := (am_requests m)[k := q\<lparr>rq_result := Some res\<rparr>],
        am_no_later := (if res = Inr () \<and> \<not> rq_later q then rq_time q else am_no_later m)\<rparr>)"

definition schedule_later_alarm :: "'u actor_env \<Rightarrow> int option \<Rightarrow> ('u, unit) aop" where
  "schedule_later_alarm E t s =
     (if am_later_is_in_flight (sq_mem s) then (Inr (), mem (\<lambda>m. m\<lparr>am_pending_later := Some t\<rparr>) s)
      else op_bind (upd (\<lambda>m. m\<lparr>am_later_is_in_flight := True\<rparr>))
        (\<lambda>_. op_bind (request_scheduled_alarm E t (am_later_in_flight (sq_mem s)))
        (\<lambda>k. upd (\<lambda>m. m\<lparr>am_later_in_flight := RequestOf k, am_later_handler := Some k\<rparr>))) s)"

text \<open>The handler of the move-later request, once that has settled; its own exceptions are swallowed.\<close>

definition later_done :: "'u actor_env \<Rightarrow> ('u, unit) aop" where
  "later_done E = op_catch (op_bind (upd (\<lambda>m. m\<lparr>am_later_handler := None, am_later_is_in_flight := False\<rparr>))
     (\<lambda>_ s. (case am_pending_later (sq_mem s) of
        None \<Rightarrow> (Inr (), s)
      | Some t \<Rightarrow> op_bind (upd (\<lambda>m. m\<lparr>am_pending_later := None\<rparr>)) (\<lambda>_. op_bind (stored_alarm E)
          (\<lambda>a. if \<not> will_fire_earlier a t then schedule_later_alarm E t else op_return ())) s)))
     (\<lambda>_. op_return ())"

definition start_precommit_alarm_scheduling :: "'u actor_env \<Rightarrow> ('u, nat option) aop" where
  "start_precommit_alarm_scheduling E s =
     (if am_pending_commit (sq_mem s) \<noteq> None then (Inr None, s)
      else op_bind (stored_alarm E) (\<lambda>a s.
        (if will_fire_earlier a (am_no_later (sq_mem s)) then
           op_bind (upd (\<lambda>m. m\<lparr>am_pending_later := None\<rparr>)) (\<lambda>_. op_bind (stored_alarm E)
             (\<lambda>a. op_bind (request_scheduled_alarm E a (am_later_in_flight (sq_mem s))) (\<lambda>k. op_return (Some k)))) s
         else (Inr None, s))) s)"

section \<open>Commits\<close>

definition enter :: "nat \<Rightarrow> phase \<Rightarrow> ('u, unit) aop" where
  "enter c p = upd (set_commit c (\<lambda>k. k\<lparr>cm_phase := p\<rparr>))"

text \<open>The loop of \<open>commitImpl\<close> up to its next \<open>await\<close>, and its \<open>catch\<close>.\<close>

definition commit_loop :: "'u actor_env \<Rightarrow> nat \<Rightarrow> ('u, unit) aop" where
  "commit_loop E c = op_bind (stored_alarm E) (\<lambda>a s.
     (if will_fire_earlier a (am_no_later (sq_mem s)) then
        op_bind (stored_alarm E) (\<lambda>a. op_bind (request_scheduled_alarm E a Ready) (\<lambda>k. enter c (AwaitRequest k))) s
      else op_bind (stored_alarm E) (\<lambda>a s. op_bind (upd (\<lambda>m. m\<lparr>am_pending_commit := None\<rparr>))
        (\<lambda>_. enter c (Persisting a (am_version (sq_mem s)))) s) s))"

definition commit_failed :: "nat \<Rightarrow> js_exn \<Rightarrow> ('u, unit) aop" where
  "commit_failed c e = upd (set_commit c (\<lambda>k. k\<lparr>cm_phase := Failed e,
     cm_shared := (case cm_shared k of None \<Rightarrow> Some (Inl e) | Some r \<Rightarrow> Some r)\<rparr>))"

definition commit_impl :: "'u actor_env \<Rightarrow> nat \<Rightarrow> nat option \<Rightarrow> ('u, unit) aop" where
  "commit_impl E c precommit s =
     (case am_pending_commit (sq_mem s) of
        Some p \<Rightarrow> enter c (Merged p) s
      | None \<Rightarrow> op_bind (upd (\<lambda>m. m\<lparr>am_pending_commit := Some c\<rparr>))
          (\<lambda>_. case precommit of
             Some k \<Rightarrow> enter c (AwaitRequest k)
           | None \<Rightarrow> op_catch (commit_loop E c) (commit_failed c)) s)"

text \<open>What a commit does when the promise it awaits has settled.\<close>

definition commit_resume :: "'u actor_env \<Rightarrow> nat \<Rightarrow> ('u, unit) aop" where
  "commit_resume E c s =
     (case cm_phase (am_commits (sq_mem s) ! c) of
        AwaitRequest k \<Rightarrow>
          (case rq_result (am_requests (sq_mem s) ! k) of
             None \<Rightarrow> (Inr (), s)
           | Some (Inr _) \<Rightarrow> op_catch (commit_loop E c) (commit_failed c) s
           | Some (Inl e) \<Rightarrow> commit_failed c e s)
      | Merged p \<Rightarrow>
          (case cm_shared (am_commits (sq_mem s) ! p) of
             None \<Rightarrow> (Inr (), s)
           | Some (Inr _) \<Rightarrow> enter c Finished s
           | Some (Inl e) \<Rightarrow> enter c (Failed e) s)
      | _ \<Rightarrow> (Inr (), s))"

definition commit_persisted :: "'u actor_env \<Rightarrow> nat \<Rightarrow> js_exn + unit \<Rightarrow> ('u, unit) aop" where
  "commit_persisted E c res s =
     (case cm_phase (am_commits (sq_mem s) ! c) of
        Persisting a v \<Rightarrow>
          (case res of
             Inl e \<Rightarrow> commit_failed c e s
           | Inr _ \<Rightarrow> op_catch
               (op_bind (upd (\<lambda>m. set_commit c (\<lambda>k. k\<lparr>cm_shared := Some (Inr ())\<rparr>) (m\<lparr>am_confirmed := a\<rparr>)))
               (\<lambda>_. op_bind (\<lambda>s. (if am_version (sq_mem s) = v \<and> will_fire_earlier (am_no_later (sq_mem s)) a
                                then schedule_later_alarm E a s else (Inr (), s)))
               (\<lambda>_. enter c Finished)))
               (commit_failed c) s)
      | _ \<Rightarrow> (Inr (), s))"

text \<open>The \<open>catch\<close> around an implicit or explicit commit breaks the output gate, then the task fails.\<close>

definition commit_caught :: "nat \<Rightarrow> actor_mem \<Rightarrow> actor_mem" where
  "commit_caught c m =
     (case cm_phase (am_commits m ! c) of
        Failed e \<Rightarrow> set_commit c (\<lambda>k. k\<lparr>cm_phase := Caught e\<rparr>)
          (if cm_kind (am_commits m ! c) = FlushDeleteAll then m else add_lock (LockError e) m)
      | _ \<Rightarrow> m)"

definition commit_task_failed :: "nat \<Rightarrow> actor_mem \<Rightarrow> actor_mem" where
  "commit_task_failed c m =
     (case cm_phase (am_commits m ! c) of
        Caught e \<Rightarrow> set_commit c (\<lambda>k. k\<lparr>cm_phase := Dead\<rparr>)
          (m\<lparr>am_broken := (case am_broken m of None \<Rightarrow> Some e | Some b \<Rightarrow> Some b)\<rparr>)
      | _ \<Rightarrow> m)"

section \<open>Implicit transactions\<close>

definition implicit_commit :: "'u actor_env \<Rightarrow> nat \<Rightarrow> ('u, unit) aop" where
  "implicit_commit E i s =
     (if it_committed (am_implicit (sq_mem s) ! i) then (Inr (), s)
      else op_bind (run_control E STMT_COMMIT) (\<lambda>_. upd (set_implicit i (\<lambda>t. t\<lparr>it_committed := True\<rparr>))) s)"

definition implicit_rollback :: "'u actor_env \<Rightarrow> nat \<Rightarrow> ('u, unit) aop" where
  "implicit_rollback E i s =
     (if it_committed (am_implicit (sq_mem s) ! i) then (Inr (), s)
      else op_bind (run_control E STMT_ROLLBACK) (\<lambda>_. upd (set_implicit i (\<lambda>t. t\<lparr>it_committed := True\<rparr>))) s)"

definition implicit_drop :: "'u actor_env \<Rightarrow> nat \<Rightarrow> ('u, unit) aop" where
  "implicit_drop E i s =
     (if it_dropped (am_implicit (sq_mem s) ! i) then (Inr (), s)
      else op_bind (upd (\<lambda>m. (set_implicit i (\<lambda>t. t\<lparr>it_dropped := True\<rparr>) m)\<lparr>am_current :=
             (if am_current m = ImplicitTxn i then NoTxn else am_current m)\<rparr>))
           (\<lambda>_ s. (if \<not> it_committed (am_implicit (sq_mem s) ! i) \<and> am_broken (sq_mem s) = None
                  then run_control E STMT_ROLLBACK s else (Inr (), s))) s)"

text \<open>The body \<open>evalLater\<close> runs for the commit \<open>c\<close> of the transaction \<open>i\<close>, up to its first \<open>await\<close>.\<close>

definition flush_implicit :: "'u actor_env \<Rightarrow> nat \<Rightarrow> nat \<Rightarrow> ('u, unit) aop" where
  "flush_implicit E c i = op_catch
     (op_finally
        (op_bind require_not_broken
        (\<lambda>_. op_bind (start_precommit_alarm_scheduling E)
        (\<lambda>pre. op_bind (op_catch (implicit_commit E i) (\<lambda>e. op_bind require_not_broken (\<lambda>_. op_throw e)))
        (\<lambda>_. op_bind (implicit_drop E i) (\<lambda>_. commit_impl E c pre)))))
        (implicit_drop E i))
     (\<lambda>e. enter c (Failed e))"

text \<open>And the body \<open>deleteAll\<close> has scheduled.\<close>

definition flush_delete_all :: "'u actor_env \<Rightarrow> nat \<Rightarrow> ('u, unit) aop" where
  "flush_delete_all E c = op_catch
     (op_bind require_not_broken
     (\<lambda>_. op_bind (upd (\<lambda>m. m\<lparr>am_delete_all_scheduled := False\<rparr>))
     (\<lambda>_ s. (case am_current (sq_mem s) of
        ImplicitTxn _ \<Rightarrow> enter c Finished s
      | _ \<Rightarrow> op_bind (start_precommit_alarm_scheduling E) (commit_impl E c) s))))
     (\<lambda>e. enter c (Failed e))"

definition commit_start :: "'u actor_env \<Rightarrow> nat \<Rightarrow> ('u, unit) aop" where
  "commit_start E c s =
     (case (cm_phase (am_commits (sq_mem s) ! c), cm_kind (am_commits (sq_mem s) ! c)) of
        (Scheduled, FlushImplicit i) \<Rightarrow> flush_implicit E c i s
      | (Scheduled, FlushDeleteAll) \<Rightarrow> flush_delete_all E c s
      | _ \<Rightarrow> (Inr (), s))"

end
