(* ===== verification/Actor_Storage.thy ===== *)
theory Actor_Storage
  imports Actor_Sqlite
begin

text \<open>
  The interface of \<open>ActorSqlite\<close> (\<open>src/src/io/actor-sqlite.ts\<close>): reads and writes, alarms,
  \<open>deleteAll\<close>, the alarm handler protocol, bookmarks, \<open>transactionSync\<close>, and \<open>ExplicitTxn\<close>.
\<close>

section \<open>Reads and writes\<close>

definition actor_get :: "'u actor_env \<Rightarrow> js_string \<Rightarrow> ('u, bytes option) aop" where
  "actor_get E k = op_bind require_not_broken (\<lambda>_. kv_get (actor_hooks E) (ae_backend E) k)"

fun get_each :: "'u actor_env \<Rightarrow> js_string list \<Rightarrow> ('u, (js_string \<times> bytes) list) aop" where
  "get_each E [] = op_return []"
| "get_each E (k # ks) = op_bind (kv_get (actor_hooks E) (ae_backend E) k) (\<lambda>v. op_bind (get_each E ks)
     (\<lambda>rs. op_return (case v of None \<Rightarrow> rs | Some v \<Rightarrow> (k, v) # rs)))"

text \<open>The order of the keys is JavaScript's \<open><\<close> on strings, that of their code units.\<close>

definition actor_get_multiple :: "'u actor_env \<Rightarrow> js_string list \<Rightarrow> ('u, (js_string \<times> bytes) list) aop" where
  "actor_get_multiple E ks = op_bind require_not_broken
     (\<lambda>_. op_bind (get_each E ks) (\<lambda>rs. op_return (sort_key fst rs)))"

definition actor_get_alarm :: "'u actor_env \<Rightarrow> ('u, int option) aop" where
  "actor_get_alarm E = op_bind require_not_broken (\<lambda>_ s.
     (let dirty = (case am_current (sq_mem s) of ExplicitTxn j \<Rightarrow> et_dirty (am_explicit (sq_mem s) ! j) | _ \<Rightarrow> False)
      in if am_deferred_delete (sq_mem s) \<and> \<not> dirty then (Inr None, s) else stored_alarm E s))"

definition actor_list :: "'u actor_env \<Rightarrow> js_string \<Rightarrow> js_string option \<Rightarrow> int option \<Rightarrow> ('u, (js_string \<times> bytes) list) aop" where
  "actor_list E b e n = op_bind require_not_broken (\<lambda>_. op_bind
     (kv_list (actor_hooks E) (ae_backend E) b e n FORWARD (\<lambda>k v rs. op_return (rs @ [(k, v)])) [])
     (\<lambda>(_, rs). op_return rs))"

definition actor_list_reverse :: "'u actor_env \<Rightarrow> js_string \<Rightarrow> js_string option \<Rightarrow> int option \<Rightarrow> ('u, (js_string \<times> bytes) list) aop" where
  "actor_list_reverse E b e n = op_bind require_not_broken (\<lambda>_. op_bind
     (kv_list (actor_hooks E) (ae_backend E) b e n REVERSE (\<lambda>k v rs. op_return (rs @ [(k, v)])) [])
     (\<lambda>(_, rs). op_return rs))"

definition actor_put :: "'u actor_env \<Rightarrow> js_string \<Rightarrow> bytes \<Rightarrow> bool \<Rightarrow> ('u, unit) aop" where
  "actor_put E k v au = op_bind require_not_broken (\<lambda>_. kv_put (actor_hooks E) (ae_backend E) k v au)"

definition actor_put_multiple :: "'u actor_env \<Rightarrow> (js_string \<times> bytes) list \<Rightarrow> bool \<Rightarrow> ('u, unit) aop" where
  "actor_put_multiple E pairs au = op_bind require_not_broken
     (\<lambda>_. op_bind (\<lambda>s. (if am_current (sq_mem s) = NoTxn then start_implicit_txn E s else (Inr (), s)))
     (\<lambda>_ s. (if am_current (sq_mem s) = NoTxn then (Inl (Failure ''we must have a transaction at this point''), s)
            else kv_put_multiple (actor_hooks E) (ae_backend E) pairs au s)))"

definition actor_delete :: "'u actor_env \<Rightarrow> js_string \<Rightarrow> bool \<Rightarrow> ('u, bool) aop" where
  "actor_delete E k au = op_bind require_not_broken (\<lambda>_. kv_delete (actor_hooks E) (ae_backend E) k au)"

fun delete_each :: "'u actor_env \<Rightarrow> bool \<Rightarrow> nat \<Rightarrow> js_string list \<Rightarrow> ('u, nat) aop" where
  "delete_each E au n [] = op_return n"
| "delete_each E au n (k # ks) = op_bind (kv_delete (actor_hooks E) (ae_backend E) k au)
     (\<lambda>there. delete_each E au (if there then Suc n else n) ks)"

definition actor_delete_multiple :: "'u actor_env \<Rightarrow> js_string list \<Rightarrow> bool \<Rightarrow> ('u, nat) aop" where
  "actor_delete_multiple E ks au = op_bind require_not_broken (\<lambda>_. delete_each E au 0 ks)"

text \<open>Changing the stored alarm counts as a new version of it.\<close>

definition change_alarm :: "'u actor_env \<Rightarrow> int option \<Rightarrow> bool \<Rightarrow> ('u, unit) aop" where
  "change_alarm E a au = op_bind (meta_set_alarm (actor_hooks E) (ae_backend E) a au)
     (\<lambda>changed. if changed then upd (\<lambda>m. m\<lparr>am_version := Suc (am_version m)\<rparr>) else op_return ())"

definition actor_set_alarm :: "'u actor_env \<Rightarrow> int option \<Rightarrow> bool \<Rightarrow> ('u, unit) aop" where
  "actor_set_alarm E a au = op_bind require_not_broken (\<lambda>_. op_bind (change_alarm E a au)
     (\<lambda>_. upd (\<lambda>m. case am_current m of
        ExplicitTxn j \<Rightarrow> set_explicit j (\<lambda>t. t\<lparr>et_dirty := True\<rparr>) m
      | _ \<Rightarrow> m\<lparr>am_deferred_delete := False\<rparr>)))"

definition schedule_delete_all_commit :: "actor_mem \<Rightarrow> actor_mem" where
  "schedule_delete_all_commit m =
     (if am_delete_all_scheduled m then m
      else (add_lock (LockOn (CommitOf (length (am_commits m)))) (add_commit FlushDeleteAll m))\<lparr>am_delete_all_scheduled := True\<rparr>)"

definition actor_delete_all :: "'u actor_env \<Rightarrow> bool \<Rightarrow> ('u, int) aop" where
  "actor_delete_all E delete_alarm = op_bind require_not_broken
     (\<lambda>_. op_bind (stored_alarm E)
     (\<lambda>local. op_bind
        (\<lambda>s. (case am_current (sq_mem s) of
           NoTxn \<Rightarrow> (Inr (), s)
         | ImplicitTxn i \<Rightarrow> op_bind (implicit_rollback E i) (\<lambda>_. upd (\<lambda>m. m\<lparr>am_current := NoTxn\<rparr>)) s
         | ExplicitTxn _ \<Rightarrow> (Inl (Failure ''Cannot call deleteAll() within a transaction''), s)))
     (\<lambda>_. op_bind (upd schedule_delete_all_commit)
     (\<lambda>_. op_bind (kv_delete_all (actor_hooks E) (ae_backend E))
     (\<lambda>count. op_bind
        (if local = None then op_return ()
         else if delete_alarm then upd (\<lambda>m. m\<lparr>am_version := Suc (am_version m), am_deferred_delete := False\<rparr>)
         else change_alarm E local False)
     (\<lambda>_. op_return count))))))"

definition SHUTDOWN_ERROR_MESSAGE :: js_exn where
  "SHUTDOWN_ERROR_MESSAGE = Failure ''broken.ignored; jsg.Error: Durable Object storage is no longer accessible.''"

definition actor_shutdown :: "js_exn option \<Rightarrow> actor_mem \<Rightarrow> actor_mem" where
  "actor_shutdown e m = (case am_broken m of Some _ \<Rightarrow> m
     | None \<Rightarrow> m\<lparr>am_broken := Some (case e of Some e \<Rightarrow> e | None \<Rightarrow> SHUTDOWN_ERROR_MESSAGE)\<rparr>)"

section \<open>Running alarms\<close>

datatype arm_result = RunHandler nat | CancelRun nat

definition maybe_delete_deferred_alarm :: "'u actor_env \<Rightarrow> ('u, unit) aop" where
  "maybe_delete_deferred_alarm E = op_bind (upd (\<lambda>m. m\<lparr>am_in_handler := False\<rparr>))
     (\<lambda>_ s. (if am_deferred_delete (sq_mem s) then
        op_bind (if am_broken (sq_mem s) = None then change_alarm E None False else op_return ())
          (\<lambda>_. upd (\<lambda>m. m\<lparr>am_deferred_delete := False\<rparr>)) s
      else (Inr (), s)))"

definition new_deferred_alarm_deleter :: "('u, arm_result) aop" where
  "new_deferred_alarm_deleter s = (Inr (RunHandler (length (am_deleters (sq_mem s)))),
     mem (\<lambda>m. m\<lparr>am_deleters := am_deleters m @ [False]\<rparr>) s)"

definition deleter_drop :: "'u actor_env \<Rightarrow> nat \<Rightarrow> ('u, unit) aop" where
  "deleter_drop E d s =
     (if am_deleters (sq_mem s) ! d then (Inl (Failure ''the deferred alarm deleter was dropped twice''), s)
      else op_bind (upd (\<lambda>m. m\<lparr>am_deleters := (am_deleters m)[d := True]\<rparr>)) (\<lambda>_. maybe_delete_deferred_alarm E) s)"

definition arm_alarm_handler :: "'u actor_env \<Rightarrow> int \<Rightarrow> int \<Rightarrow> ('u, arm_result) aop" where
  "arm_alarm_handler E scheduled now s =
     (if am_in_handler (sq_mem s)
      then (Inl (Failure ''armAlarmHandler() called while an alarm handler is already running''), s)
      else op_bind (stored_alarm E) (\<lambda>local s.
        (let clean = (local = am_confirmed (sq_mem s));
             run = (\<lambda>deferred. op_bind (upd (\<lambda>m. m\<lparr>am_deferred_delete := deferred, am_in_handler := True\<rparr>))
                     (\<lambda>_. new_deferred_alarm_deleter))
         in if local = Some scheduled then run True s
            else if \<not> clean then run False s
            else if will_fire_earlier local (Some now) then run True s
            else if will_fire_earlier (Some scheduled) local then
              op_bind (request_scheduled_alarm E local (am_later_in_flight (sq_mem s)))
                (\<lambda>k. op_bind (upd (\<lambda>m. m\<lparr>am_pending_later := None, am_later_in_flight := RequestOf k\<rparr>))
                (\<lambda>_. op_return (CancelRun k))) s
            else op_bind (request_scheduled_alarm E local Ready) (\<lambda>k. op_return (CancelRun k)) s)) s)"

definition cancel_deferred_alarm_deletion :: "actor_mem \<Rightarrow> actor_mem" where
  "cancel_deferred_alarm_deletion m = m\<lparr>am_deferred_delete := False\<rparr>"

definition abandon_alarm :: "'u actor_env \<Rightarrow> int \<Rightarrow> ('u, int option) aop" where
  "abandon_alarm E scheduled s =
     (if am_in_handler (sq_mem s) then (Inr None, s)
      else op_bind (stored_alarm E) (\<lambda>stored. case stored of
          None \<Rightarrow> op_return None
        | Some t \<Rightarrow> (if t = scheduled then op_bind (actor_set_alarm E None False) (\<lambda>_. op_return None)
                   else op_return (Some t))) s)"

section \<open>Bookmarks\<close>

definition lower_hex_digit :: "nat \<Rightarrow> 16 word" where
  "lower_hex_digit d = of_nat (if d < 10 then 48 + d else 87 + d)"

fun js_hex :: "nat \<Rightarrow> js_string" where
  "js_hex n = (if n < 16 then [lower_hex_digit n] else js_hex (n div 16) @ [lower_hex_digit (n mod 16)])"

declare js_hex.simps [simp del]

definition padded_hex :: "nat \<Rightarrow> js_string" where
  "padded_hex n = replicate (8 - length (js_hex n)) 48 @ js_hex n"

definition bookmark_text :: "nat \<Rightarrow> js_string" where
  "bookmark_text b = padded_hex (b div 0xFFFFFFFF) @ [45] @ padded_hex (b mod 0xFFFFFFFF) @ [45] @ padded_hex 0 @ [45]
     @ replicate 32 48"

definition get_current_bookmark :: "'u actor_env \<Rightarrow> ('u, js_string) aop" where
  "get_current_bookmark E = op_bind require_not_broken
     (\<lambda>_. op_bind (get_bookmark (actor_hooks E) (ae_backend E))
     (\<lambda>stored. let b = (case stored of None \<Rightarrow> 0 | Some n \<Rightarrow> n + 1)
        in op_bind (set_bookmark (actor_hooks E) (ae_backend E) b) (\<lambda>_. op_return (bookmark_text (nat b)))))"

section \<open>Transactions\<close>

abbreviation actor_run :: "'u actor_env \<Rightarrow> 'u stmt \<Rightarrow> ('u, unit) aop" where
  "actor_run E st \<equiv> op_bind (db_run1 (actor_hooks E) (ae_backend E) st [] False) (\<lambda>_. op_return ())"

text \<open>\<open>transactionSync\<close>; the callback says whether what it returns is a thenable.\<close>

definition sync_rollback :: "'u actor_env \<Rightarrow> nat \<Rightarrow> ('u, unit) aop" where
  "sync_rollback E d s =
     (if sq_critical s = None
      then op_bind (actor_run E (STMT_ROLLBACK_TO (sync_savepoint d))) (\<lambda>_. actor_run E (STMT_RELEASE (sync_savepoint d))) s
      else (Inr (), s))"

definition transaction_sync :: "'u actor_env \<Rightarrow> ('u, 'a \<times> bool) aop \<Rightarrow> ('u, 'a) aop" where
  "transaction_sync E callback = op_bind (on_write E False)
     (\<lambda>_ s. (let d = am_sync_depth (sq_mem s) in
       op_bind (upd (\<lambda>m. m\<lparr>am_sync_depth := Suc d\<rparr>)) (\<lambda>_. op_finally
         (op_bind (actor_run E (STMT_SAVEPOINT (sync_savepoint d))) (\<lambda>_. op_catch
            (op_bind callback (\<lambda>(result, thenable). op_bind
              (\<lambda>s. (if thenable then (Inl (Failure ''transactionSync() callback returned a promise.''), s)
                  else if sq_critical s \<noteq> None
                  then (Inl (Failure ''Cannot commit transaction due to an earlier SQL critical error''), s)
                  else (Inr (), s)))
              (\<lambda>_. op_bind (actor_run E (STMT_RELEASE (sync_savepoint d))) (\<lambda>_. op_return result))))
            (\<lambda>e. op_bind (sync_rollback E d) (\<lambda>_. op_throw e))))
         (upd (\<lambda>m. m\<lparr>am_sync_depth := am_sync_depth m - 1\<rparr>))) s))"

section \<open>Explicit transactions\<close>

definition explicit_open :: "'u actor_env \<Rightarrow> ('u, explicit_txn) aop" where
  "explicit_open E s =
     (let fresh = \<lparr>et_parent = None, et_depth = 0, et_child = False, et_committed = False, et_dropped = False,
                  et_dirty = False, et_confirmed = False\<rparr>
      in case am_current (sq_mem s) of
           NoTxn \<Rightarrow> (Inr fresh, s)
         | ImplicitTxn i \<Rightarrow> op_bind (implicit_commit E i) (\<lambda>_. op_return fresh) s
         | ExplicitTxn p \<Rightarrow> (let t = am_explicit (sq_mem s) ! p in
             if et_child t
             then (Inl (Failure ''critical section should have blocked creation of more than one child at a time''), s)
             else (Inr (fresh\<lparr>et_parent := Some p, et_depth := Suc (et_depth t), et_dirty := et_dirty t,
                         et_confirmed := et_confirmed t\<rparr>),
                   mem (set_explicit p (\<lambda>t. t\<lparr>et_child := True\<rparr>)) s)))"

definition explicit_new :: "'u actor_env \<Rightarrow> ('u, nat) aop" where
  "explicit_new E = op_bind (explicit_open E) (\<lambda>t s. (let j = length (am_explicit (sq_mem s)) in
     op_bind (upd (\<lambda>m. m\<lparr>am_explicit := am_explicit m @ [t], am_current := ExplicitTxn j\<rparr>))
       (\<lambda>_. op_bind (actor_run E (STMT_SAVEPOINT (txn_savepoint (et_depth t)))) (\<lambda>_. op_return j)) s))"

definition start_transaction :: "'u actor_env \<Rightarrow> ('u, nat) aop" where
  "start_transaction E = op_bind require_not_broken (\<lambda>_. explicit_new E)"

definition explicit_rollback_impl :: "'u actor_env \<Rightarrow> nat \<Rightarrow> ('u, unit) aop" where
  "explicit_rollback_impl E j s =
     (let n = txn_savepoint (et_depth (am_explicit (sq_mem s) ! j)) in
      op_bind (actor_run E (STMT_ROLLBACK_TO n)) (\<lambda>_. op_bind (actor_run E (STMT_RELEASE n))
        (\<lambda>_. upd (\<lambda>m. (case et_parent (am_explicit m ! j) of
           Some p \<Rightarrow> set_explicit j (\<lambda>t. t\<lparr>et_dirty := et_dirty (am_explicit m ! p), et_confirmed := et_confirmed (am_explicit m ! p)\<rparr>) m
         | None \<Rightarrow> set_explicit j (\<lambda>t. t\<lparr>et_dirty := False, et_confirmed := False\<rparr>) m)))) s)"

definition explicit_rollback :: "'u actor_env \<Rightarrow> nat \<Rightarrow> ('u, unit) aop" where
  "explicit_rollback E j = op_bind require_not_broken (\<lambda>_ s.
     (if et_child (am_explicit (sq_mem s) ! j)
      then (Inl (Failure ''Cannot roll back an outer transaction while a nested transaction is still running.''), s)
      else if et_committed (am_explicit (sq_mem s) ! j) then (Inr (), s)
      else op_bind (explicit_rollback_impl E j) (\<lambda>_. upd (set_explicit j (\<lambda>t. t\<lparr>et_committed := True\<rparr>))) s))"

text \<open>The commit of a root transaction: precommit scheduling, RELEASE, and the commit of the database.\<close>

definition explicit_commit_root :: "'u actor_env \<Rightarrow> nat \<Rightarrow> nat option \<Rightarrow> ('u, unit) aop" where
  "explicit_commit_root E j pre s =
     (let m = sq_mem s; c = length (am_commits m); t = am_explicit m ! j in
      op_bind (upd (\<lambda>m. (add_commit CommitExplicit m)\<lparr>am_deferred_delete :=
          (if et_dirty t then False else am_deferred_delete m)\<rparr>))
        (\<lambda>_. op_bind (commit_impl E c pre)
        (\<lambda>_. upd (\<lambda>m. (if et_confirmed t then add_lock (LockOn (CommitOf c)) m else m)\<lparr>am_last_commit := CommitOf c\<rparr>))) s)"

definition explicit_commit :: "'u actor_env \<Rightarrow> nat \<Rightarrow> ('u, unit) aop" where
  "explicit_commit E j = op_bind require_not_broken (\<lambda>_ s.
     (let t = am_explicit (sq_mem s) ! j in
      if et_child t
      then (Inl (Failure ''critical sections should have prevented committing transaction while nested txn is outstanding''), s)
      else op_bind (if et_parent t = None then start_precommit_alarm_scheduling E else op_return None)
        (\<lambda>pre. op_bind (actor_run E (STMT_RELEASE (txn_savepoint (et_depth t))))
        (\<lambda>_. op_bind (upd (set_explicit j (\<lambda>t. t\<lparr>et_committed := True\<rparr>)))
        (\<lambda>_. case et_parent t of
           Some p \<Rightarrow> upd (\<lambda>m. set_explicit p (\<lambda>q. q\<lparr>et_dirty := et_dirty t \<or> et_dirty q,
                       et_confirmed := et_confirmed t \<or> et_confirmed q\<rparr>) m)
         | None \<Rightarrow> explicit_commit_root E j pre))) s))"

text \<open>Leaving the transaction: the rollback's own exception is held until the state is updated.\<close>

definition explicit_leave :: "nat \<Rightarrow> ('u, unit) aop" where
  "explicit_leave j s =
     (let t = am_explicit (sq_mem s) ! j in
      if et_child t then (Inl (Failure ''an explicit transaction was dropped while a nested one was outstanding''), s)
      else if am_current (sq_mem s) \<noteq> ExplicitTxn j
      then (Inl (Failure ''an explicit transaction was dropped out of order''), s)
      else (case et_parent t of
              Some p \<Rightarrow> (Inr (), mem (\<lambda>m. (set_explicit p (\<lambda>t. t\<lparr>et_child := False\<rparr>) m)\<lparr>am_current := ExplicitTxn p\<rparr>) s)
            | None \<Rightarrow> (Inr (), mem (\<lambda>m. m\<lparr>am_current := NoTxn\<rparr>) s)))"

definition explicit_drop :: "'u actor_env \<Rightarrow> nat \<Rightarrow> ('u, unit) aop" where
  "explicit_drop E j s =
     (if et_dropped (am_explicit (sq_mem s) ! j) then (Inr (), s)
      else op_bind (upd (set_explicit j (\<lambda>t. t\<lparr>et_dropped := True\<rparr>)))
        (\<lambda>_ s. op_finally
           (if \<not> et_committed (am_explicit (sq_mem s) ! j) \<and> am_broken (sq_mem s) = None
            then explicit_rollback_impl E j else op_return ())
           (explicit_leave j) s) s)"

section \<open>Construction\<close>

definition init_actor_mem :: "store_mem \<Rightarrow> actor_mem" where
  "init_actor_mem m = store_mem.extend m (actor_mem.fields None NoTxn [] [] [] [] [] [] False Ready False False None None
     None Ready False None None 0 0)"

definition new_actor :: "'u actor_env \<Rightarrow> 'u tables sql_file \<Rightarrow> js_exn + 'u actor" where
  "new_actor E file =
     (case new_store_mem (sf_data file) of
        Inl e \<Rightarrow> Inl e
      | Inr m \<Rightarrow>
          (case op_bind (stored_alarm E) (\<lambda>a. op_bind (upd (\<lambda>m. m\<lparr>am_confirmed := a\<rparr>)) (\<lambda>_. op_bind (stored_alarm E)
               (\<lambda>a. upd (\<lambda>m. m\<lparr>am_no_later := a\<rparr>))))
             \<lparr>sq_file = file, sq_callbacks = [], sq_savepoints = [], sq_in_txn = False, sq_critical = None,
              sq_mem = init_actor_mem m\<rparr> of
             (Inl e, _) \<Rightarrow> Inl e
           | (Inr _, s) \<Rightarrow> Inr s))"

end
