(* ===== verification/Actor_Inv.thy ===== *)
theory Actor_Inv
  imports Kv_Map Actor_Storage
begin

text \<open>
  The interfaces of the stores (\<open>store_hooks_ok\<close>, \<open>outer_kept\<close>) hold of the callbacks \<open>ActorSqlite\<close>
  installs on its database, and what every operation keeps.
\<close>

section \<open>The texts of transaction control\<close>

lemma control_texts [stmt_text]:
  "classify (st_sql STMT_BEGIN) = Inr (BeginTxn None)"
  "classify (st_sql STMT_COMMIT) = Inr (CommitTxn None)"
  "classify (st_sql STMT_ROLLBACK) = Inr (RollbackTxn None)"
  unfolding STMT_BEGIN_def STMT_COMMIT_def STMT_ROLLBACK_def control_stmt_def by code_simp+

lemma decimal_digits: "c \<in> set (js_decimal n) \<Longrightarrow> js_digit c"
proof (induction n arbitrary: c rule: js_decimal.induct)
  case (1 n)
  have digit: "js_digit (of_nat (48 + d))" if "d < 10" for d
    using that by (auto simp: js_digit_def word_le_nat_alt unat_word_ariths unat_of_nat)
  show ?case
  proof (cases "n < 10")
    case True
    then show ?thesis using 1 digit [of n] by (simp add: js_decimal.simps [of n])
  next
    case False
    have "js_digit (of_nat (48 + n mod 10))" by (rule digit) simp
    then show ?thesis using 1 False by (subst (asm) js_decimal.simps) auto
  qed
qed

lemma lower_digit: "js_digit c \<Longrightarrow> to_lower c = c"
  by (auto simp: js_digit_def to_lower_def upper_letter_def word_le_nat_alt)

lemma savepoint_names:
  "ident (sync_savepoint d)" "ident (txn_savepoint d)"
  "savepoint_name (sync_savepoint d) = sync_savepoint d" "savepoint_name (txn_savepoint d) = txn_savepoint d"
proof -
  have w: "list_all word_char (of_chars ''_cf_sync_savepoint_'')" "list_all word_char (of_chars ''_cf_savepoint_'')"
    by (simp_all add: of_chars_def word_char_def letter_def lower_letter_def upper_letter_def)
  have "\<forall>c \<in> set (js_decimal d). word_char c"
    using decimal_digits by (auto simp: word_char_def)
  with w show i: "ident (sync_savepoint d)" "ident (txn_savepoint d)"
    by (auto simp: ident_def sync_savepoint_def txn_savepoint_def list_all_iff) (simp_all add: of_chars_def)
  have "map to_lower (of_chars ''_cf_sync_savepoint_'') = of_chars ''_cf_sync_savepoint_''"
    "map to_lower (of_chars ''_cf_savepoint_'') = of_chars ''_cf_savepoint_''"
    by (simp_all add: of_chars_def to_lower_def upper_letter_def)
  moreover have "map to_lower (js_decimal d) = js_decimal d"
    using decimal_digits lower_digit by (intro map_idI) blast
  ultimately show "savepoint_name (sync_savepoint d) = sync_savepoint d" "savepoint_name (txn_savepoint d) = txn_savepoint d"
    using savepoint_name_ident [OF i(1)] savepoint_name_ident [OF i(2)]
    by (simp_all add: sync_savepoint_def txn_savepoint_def)
qed

lemma savepoint_texts [stmt_text]:
  assumes "n = sync_savepoint d \<or> n = txn_savepoint d"
  shows "classify (st_sql (STMT_SAVEPOINT n)) = Inr (BeginTxn (Some n))"
    "classify (st_sql (STMT_RELEASE n)) = Inr (CommitTxn (Some n))"
    "classify (st_sql (STMT_ROLLBACK_TO n)) = Inr (RollbackTxn (Some n))"
  using assms savepoint_names [of d] classify_savepoint [of n] classify_release [of n] classify_rollback_to [of n]
  by (auto simp: STMT_SAVEPOINT_def STMT_RELEASE_def STMT_ROLLBACK_TO_def control_stmt_def)

section \<open>The callbacks\<close>

definition empty_tables :: "'u \<Rightarrow> 'u tables" where
  "empty_tables u = \<lparr>tb_kv = None, tb_meta = None, tb_user = u\<rparr>"

text \<open>The environment on a database file; how a text is compiled is left open.\<close>

definition file_env :: "(js_string \<Rightarrow> 'u tables sql_file \<Rightarrow> js_exn + 'u stmt) \<Rightarrow> 'u \<Rightarrow>
    (nat \<Rightarrow> int option \<Rightarrow> js_exn option) \<Rightarrow> 'u actor_env" where
  "file_env prep u sr = \<lparr>ae_backend = file_backend prep (empty_tables u), ae_schedule_run = sr\<rparr>"

lemma file_env_backend [simp]: "ae_backend (file_env prep u sr) = file_backend prep (empty_tables u)"
  by (simp add: file_env_def)

lemma critical_latched: "sq_critical (snd (on_critical_error e s)) = sq_critical s"
  by (simp add: on_critical_error_def mem_def Let_def split: option.split)

lemma actor_caches [simp]:
  "caches (set_implicit i f m) = caches m" "caches (set_explicit j g m) = caches m" "caches (set_commit c k m) = caches m"
  "caches (add_lock l m) = caches m" "caches (add_commit kind m) = caches m"
  by (simp_all add: caches_def set_implicit_def set_explicit_def set_commit_def add_lock_def add_commit_def)

lemma caches_fields [simp]:
  "caches (m\<lparr>am_implicit := a1\<rparr>) = caches m" "caches (m\<lparr>am_current := a2\<rparr>) = caches m"
  "caches (m\<lparr>am_last_commit := a3\<rparr>) = caches m" "caches (m\<lparr>am_broken := a4\<rparr>) = caches m"
  "caches (m\<lparr>am_no_later := a5\<rparr>) = caches m" "caches (m\<lparr>am_requests := a6\<rparr>) = caches m"
  "caches (m\<lparr>am_pending_later := a7\<rparr>) = caches m" "caches (m\<lparr>am_later_is_in_flight := a8\<rparr>) = caches m"
  "caches (m\<lparr>am_later_in_flight := a9\<rparr>) = caches m" "caches (m\<lparr>am_later_handler := b1\<rparr>) = caches m"
  "caches (m\<lparr>am_pending_commit := b2\<rparr>) = caches m" "caches (m\<lparr>am_confirmed := b3\<rparr>) = caches m"
  "caches (m\<lparr>am_delete_all_scheduled := b4\<rparr>) = caches m" "caches (m\<lparr>am_version := b5\<rparr>) = caches m"
  "caches (m\<lparr>am_deferred_delete := b6\<rparr>) = caches m" "caches (m\<lparr>am_in_handler := b7\<rparr>) = caches m"
  "caches (m\<lparr>am_deleters := b8\<rparr>) = caches m" "caches (m\<lparr>am_sync_depth := b9\<rparr>) = caches m"
  "caches (m\<lparr>am_explicit := c1\<rparr>) = caches m"
  by (simp_all add: caches_def)

interpretation control: store_hooks_ok control_hooks prep "empty_tables u" for prep u
  by unfold_locales
    (simp_all add: control_hooks_def empty_tables_def critical_latched op_return_def)

text \<open>Beginning the implicit transaction.\<close>

lemma begin_frame:
  assumes "store_ok s" "sq_critical s = None" "run_control (file_env prep u sr) STMT_BEGIN s = (Inr v, t)"
  shows "sq_critical t = None" "db_data t = db_data s" "sq_mem t = sq_mem s" "sq_in_txn t"
proof -
  obtain r where "db_run1 control_hooks (file_backend prep (empty_tables u)) STMT_BEGIN [] False s = (Inr r, t)"
    using assms(3) by (auto simp: run_control_def op_bind_eq_Inr op_return_def)
  then have "exec_statement control_hooks (file_backend prep (empty_tables u)) STMT_BEGIN [] False s = (Inr r, t)"
    using assms(2) by (simp add: db_run1_def op_bind_def assert_usable_def)
  then show "sq_critical t = None" "db_data t = db_data s" "sq_mem t = sq_mem s" "sq_in_txn t"
    using control_texts(1) control_not_write [OF control_texts(1)] assms(2)
    by (auto simp: exec_statement_def STMT_BEGIN_def control_stmt_def op_simps apply_change_def apply_begin_def js_assert_def
        scripted_def control_def Let_def split: outcome.splits if_splits sum.splits prod.splits)
qed

lemma begin_stops:
  assumes "store_ok s" "sq_critical s = None" "run_control (file_env prep u sr) STMT_BEGIN s = (Inl e, t)"
  shows "db_data t = db_data s \<or> sq_critical t \<noteq> None"
proof -
  let ?b = "file_backend prep (empty_tables u)"
  have x: "st_execute STMT_BEGIN [] (sq_file s) = scripted (control (BeginTxn None)) (sq_file s)" by (simp add: STMT_BEGIN_def control_stmt_def)
  have ex: "exec_statement control_hooks ?b STMT_BEGIN [] False s = (Inl e, t)"
    using assms(2,3) by (auto simp: run_control_def db_run1_def op_simps assert_usable_def split: sum.splits prod.splits)
  have h: "hk_callback control_hooks = store_callback" "sq_critical v \<noteq> None \<Longrightarrow> sq_critical (snd (hk_on_critical control_hooks y v)) \<noteq> None" for y v
    by (simp_all add: control_hooks_def critical_latched)
  obtain q g where g: "scripted (control (BeginTxn None)) (sq_file s) = (q, g)" by fastforce
  show ?thesis
  proof (cases q)
    case (Inl e')
    have *: "sf_stack g = db_stack s \<and> sf_data g = db_data s \<or> db_stack s \<noteq> [] \<and> sf_stack g = []"
      by (rule scripted_cases [of "control (BeginTxn None)" "sq_file s"])
        (use g Inl in \<open>auto simp: control_def split: if_splits\<close>)
    have bad: "op_bind (check_for_auto_rollback control_hooks ?b) (\<lambda>_. op_throw e') (s\<lparr>sq_file := g\<rparr>) = (Inl e :: js_exn + sql_result, t)"
      using ex x g Inl
      by (simp add: exec_statement_def op_bind_def op_return_def control_texts(1) control_not_write [OF control_texts(1)])
    show ?thesis by (rule failed_data [OF _ h(2) * bad], unfold h(1)) (rule store_okD(1) [OF assms(1,2)])
  next
    case (Inr v)
    have "sf_data g = db_data s"
      by (rule scripted_cases [of "control (BeginTxn None)" "sq_file s"])
        (use g Inr in \<open>auto simp: control_def split: if_splits\<close>)
    moreover have "op_bind (apply_begin None) (\<lambda>_. op_return v) (s\<lparr>sq_file := g\<rparr>) = (Inl e, t)"
      using ex x g Inr
      by (simp add: exec_statement_def op_bind_def op_return_def apply_change_def control_texts(1) control_not_write [OF control_texts(1)])
    then have "sq_file t = g" by (auto simp: apply_begin_def js_assert_def op_simps split: if_splits)
    ultimately show ?thesis by simp
  qed
qed

lemma control_keeps_begin: "control.keeps (run_control (file_env prep u sr) STMT_BEGIN)"
  unfolding run_control_def file_env_backend
  using control.run_control [OF control_texts(1), of prep u "[]" False]
  by (intro control.keeps_bind control.keeps_pure) (simp add: STMT_BEGIN_def control_stmt_def)

section \<open>Control statements\<close>

lemma change_effect:
  assumes "apply_change control_hooks c s = (q, u)"
  shows "sq_critical u = sq_critical s" "outside (sq_mem u) = outside (sq_mem s)"
    "case q of Inl _ \<Rightarrow> sq_in_txn u = sq_in_txn s
      | Inr _ \<Rightarrow> sq_in_txn u = (if c = BeginTxn None then True else if c \<in> {CommitTxn None, RollbackTxn None} then False else sq_in_txn s)"
proof -
  have cb: "hk_callback control_hooks = store_callback" by (simp add: control_hooks_def)
  show "sq_critical u = sq_critical s" "outside (sq_mem u) = outside (sq_mem s)"
    "case q of Inl _ \<Rightarrow> sq_in_txn u = sq_in_txn s
      | Inr _ \<Rightarrow> sq_in_txn u = (if c = BeginTxn None then True else if c \<in> {CommitTxn None, RollbackTxn None} then False else sq_in_txn s)"
    using assms
    by (auto simp: apply_change_def apply_begin_def apply_commit_def apply_rollback_def run_callbacks_down_to_def
        js_assert_def op_simps cb drop_callbacks_def unwind_eq split: state_change.splits option.splits if_splits)
qed

lemma run_control_cases:
  assumes cl: "classify (st_sql st) = Inr c" "c \<noteq> NoChange" and run: "run_control E st s = (r, t)"
  obtains (stopped) e where "r = Inl e" "sq_in_txn t = sq_in_txn s" "sq_critical t = sq_critical s"
      "outside (sq_mem t) = outside (sq_mem s)"
  | (rolled_back) e e' f where "r = Inl e" "t = snd (on_critical_error e' (s\<lparr>sq_file := f, sq_in_txn := False,
      sq_savepoints := [], sq_callbacks := [], sq_critical := Some e'\<rparr>))"
  | (ran) "r = Inr ()" "sq_critical s = None" "sq_critical t = None" "outside (sq_mem t) = outside (sq_mem s)"
      "sq_in_txn t = (if c = BeginTxn None then True else if c \<in> {CommitTxn None, RollbackTxn None} then False else sq_in_txn s)"
proof (cases "sq_critical s")
  case (Some e)
  then show thesis using run by (intro stopped [of e]) (simp_all add: run_control_def db_run1_def op_bind_def assert_usable_def)
next
  case None
  let ?b = "ae_backend E"
  have w: "\<not> is_write (st_sql st)" by (rule control_not_write [OF cl])
  obtain q f where q: "st_execute st [] (sq_file s) = (q, f)" by fastforce
  have ex: "run_control E st s = (case q of
      Inl e \<Rightarrow> op_bind (op_bind (check_for_auto_rollback control_hooks ?b) (\<lambda>_. op_throw e)) (\<lambda>_. op_return ()) (s\<lparr>sq_file := f\<rparr>)
    | Inr v \<Rightarrow> op_bind (apply_change control_hooks c) (\<lambda>_. op_return ()) (s\<lparr>sq_file := f\<rparr>))"
    using None w cl(1) q by (simp add: run_control_def db_run1_def exec_statement_def op_simps assert_usable_def
        split: sum.split prod.split)
  show thesis
  proof (cases q)
    case (Inl e)
    show thesis
    proof (cases "txn_open s \<and> \<not> be_in_transaction ?b f")
      case True
      let ?u = "s\<lparr>sq_file := f, sq_in_txn := False, sq_savepoints := [], sq_callbacks := [], sq_critical := Some CRITICAL_MESSAGE\<rparr>"
      obtain w where crit: "on_critical_error CRITICAL_MESSAGE ?u = (Inr (), w)"
        by (cases "am_broken (sq_mem s)") (simp_all add: on_critical_error_def Let_def)
      then have "check_for_auto_rollback control_hooks ?b (s\<lparr>sq_file := f\<rparr>) = (Inl CRITICAL_MESSAGE, w)"
        using True by (simp add: check_for_auto_rollback_def txn_open_def op_bind_def op_modify_def op_throw_def control_hooks_def)
      then have "r = Inl CRITICAL_MESSAGE \<and> t = snd (on_critical_error CRITICAL_MESSAGE ?u)"
        using run ex Inl crit by (simp add: op_bind_def)
      then show thesis by (intro rolled_back) simp_all
    next
      case False
      then have "check_for_auto_rollback control_hooks ?b (s\<lparr>sq_file := f\<rparr>) = (Inr (), s\<lparr>sq_file := f\<rparr>)"
        by (auto simp: check_for_auto_rollback_def txn_open_def)
      then have "r = Inl e \<and> t = s\<lparr>sq_file := f\<rparr>" using run ex Inl by (simp add: op_bind_def op_throw_def)
      then show thesis by (intro stopped) simp_all
    qed
  next
    case (Inr v)
    obtain q' u where u: "apply_change control_hooks c (s\<lparr>sq_file := f\<rparr>) = (q', u)" by fastforce
    note same = change_effect [OF u]
    show thesis
    proof (cases q')
      case (Inl e)
      then have "r = Inl e \<and> t = u" using run ex Inr u \<open>q = Inr v\<close> by (simp add: op_bind_def)
      then show thesis using same Inl by (intro stopped) simp_all
    next
      case (Inr w)
      then have "r = Inr () \<and> t = u" using run ex u \<open>q = Inr v\<close> by (simp add: op_bind_def op_return_def)
      then show thesis using same Inr None by (intro ran) simp_all
    qed
  qed
qed

section \<open>Transactions and their commits\<close>

text \<open>The part of the memory the transactions live in.\<close>

definition txn_view :: "actor_mem \<Rightarrow> current_txn \<times> implicit_txn list \<times> commit list \<times> promise \<times> gate_lock list" where
  "txn_view m = (am_current m, am_implicit m, am_commits m, am_last_commit m, am_locks m)"

lemma view_outside: "outside m = outside m' \<Longrightarrow> txn_view m = txn_view m'"
proof -
  have "txn_view (outside m) = txn_view m" for m :: actor_mem by (simp add: txn_view_def outside_def)
  then show "outside m = outside m' \<Longrightarrow> txn_view m = txn_view m'" by metis
qed

abbreviation impl :: "actor_mem \<Rightarrow> nat \<Rightarrow> implicit_txn" where "impl m i \<equiv> am_implicit m ! i"
abbreviation comm :: "actor_mem \<Rightarrow> nat \<Rightarrow> commit" where "comm m c \<equiv> am_commits m ! c"

definition underway :: "phase \<Rightarrow> bool" where
  "underway p = (case p of Merged _ \<Rightarrow> True | AwaitRequest _ \<Rightarrow> True | Persisting _ _ \<Rightarrow> True | Finished \<Rightarrow> True | _ \<Rightarrow> False)"

text \<open>The open implicit transaction will be flushed by the last commit, which its confirmed writes hold the gate on.\<close>

definition flush_scheduled :: "actor_mem \<Rightarrow> nat \<Rightarrow> bool" where
  "flush_scheduled m i \<longleftrightarrow> i < length (am_implicit m) \<and> \<not> it_dropped (impl m i) \<and>
     (\<exists>c < length (am_commits m). am_last_commit m = CommitOf c \<and> cm_kind (comm m c) = FlushImplicit i \<and>
        cm_phase (comm m c) = Scheduled \<and> (it_confirmed (impl m i) \<longrightarrow> LockOn (CommitOf c) \<in> set (am_locks m)))"

definition commit_sane :: "nat set \<Rightarrow> actor_mem \<Rightarrow> nat \<Rightarrow> bool" where
  "commit_sane X m c \<longleftrightarrow> (\<forall>i. cm_kind (comm m c) = FlushImplicit i \<longrightarrow> i < length (am_implicit m) \<and>
     (cm_phase (comm m c) \<noteq> Scheduled \<longrightarrow> it_dropped (impl m i)) \<and>
     (underway (cm_phase (comm m c)) \<longrightarrow> it_committed (impl m i)) \<and>
     (cm_phase (comm m c) = Scheduled \<longrightarrow> \<not> it_dropped (impl m i) \<or> i \<in> X))"

text \<open>The invariant inside an operation: \<open>X\<close> are the transactions it is about to leave.\<close>

definition commits_ok :: "nat set \<Rightarrow> actor_mem \<Rightarrow> bool" where
  "commits_ok X m \<longleftrightarrow> (\<forall>i. am_current m = ImplicitTxn i \<longrightarrow> flush_scheduled m i \<and> (it_committed (impl m i) \<longrightarrow> i \<in> X)) \<and>
     (\<forall>c < length (am_commits m). commit_sane X m c) \<and>
     (\<forall>i < length (am_implicit m). \<exists>c < length (am_commits m). cm_kind (comm m c) = FlushImplicit i) \<and>
     (\<forall>c < length (am_commits m). \<forall>c' < length (am_commits m). \<forall>i. cm_kind (comm m c) = FlushImplicit i \<longrightarrow>
        cm_kind (comm m c') = FlushImplicit i \<longrightarrow> c = c')"

definition holder_ok :: "bool \<Rightarrow> actor_mem \<Rightarrow> bool" where
  "holder_ok intxn m \<longleftrightarrow> (\<forall>i < length (am_implicit m). \<not> it_committed (impl m i) \<longrightarrow> \<not> it_dropped (impl m i) \<longrightarrow>
       am_current m = ImplicitTxn i \<and> intxn) \<and>
     (intxn \<longrightarrow> (\<exists>i < length (am_implicit m). \<not> it_committed (impl m i) \<and> (am_current m = ImplicitTxn i \<or> it_dropped (impl m i))))"

definition txn_inv :: "nat set \<Rightarrow> 'u actor \<Rightarrow> bool" where
  "txn_inv X s \<longleftrightarrow> commits_ok X (sq_mem s) \<and> (sq_critical s = None \<longrightarrow> holder_ok (sq_in_txn s) (sq_mem s))"

text \<open>A commit whose transaction, if it flushes one, is out of the way.\<close>

definition implicit_settled :: "nat \<Rightarrow> 'u actor \<Rightarrow> bool" where
  "implicit_settled c s \<longleftrightarrow> c < length (am_commits (sq_mem s)) \<and> (\<forall>i. cm_kind (comm (sq_mem s) c) = FlushImplicit i \<longrightarrow>
     i < length (am_implicit (sq_mem s)) \<and> it_dropped (impl (sq_mem s) i) \<and> it_committed (impl (sq_mem s) i))"

lemma view_fields: "txn_view m' = txn_view m \<Longrightarrow> am_current m' = am_current m \<and> am_implicit m' = am_implicit m \<and>
    am_commits m' = am_commits m \<and> am_last_commit m' = am_last_commit m \<and> am_locks m' = am_locks m"
  by (simp add: txn_view_def)

lemma ok_lock:
  assumes "am_current m' = am_current m" "am_implicit m' = am_implicit m" "am_commits m' = am_commits m"
    "am_last_commit m' = am_last_commit m"
  shows "set (am_locks m) \<subseteq> set (am_locks m') \<Longrightarrow> commits_ok X m \<Longrightarrow> commits_ok X m'"
    "holder_ok b m' = holder_ok b m"
proof -
  have fs: "set (am_locks m) \<subseteq> set (am_locks m') \<Longrightarrow> flush_scheduled m i \<Longrightarrow> flush_scheduled m' i" for i
    unfolding flush_scheduled_def assms by blast
  have cs: "commit_sane X m' c = commit_sane X m c" for c unfolding commit_sane_def assms ..
  show "set (am_locks m) \<subseteq> set (am_locks m') \<Longrightarrow> commits_ok X m \<Longrightarrow> commits_ok X m'"
    unfolding commits_ok_def cs assms using fs by blast
  show "holder_ok b m' = holder_ok b m" unfolding holder_ok_def assms ..
qed

lemma txn_inv_lock:
  assumes "txn_inv X s" "am_current (sq_mem t) = am_current (sq_mem s)" "am_implicit (sq_mem t) = am_implicit (sq_mem s)"
    "am_commits (sq_mem t) = am_commits (sq_mem s)" "am_last_commit (sq_mem t) = am_last_commit (sq_mem s)"
    "set (am_locks (sq_mem s)) \<subseteq> set (am_locks (sq_mem t))"
    "sq_critical t = None \<Longrightarrow> sq_critical s = None \<and> sq_in_txn t = sq_in_txn s"
  shows "txn_inv X t"
  using assms(1,6,7) ok_lock [OF assms(2-5)] by (auto simp: txn_inv_def)

lemma txn_inv_view:
  assumes "txn_inv X s" "txn_view (sq_mem t) = txn_view (sq_mem s)"
    "sq_critical t = None \<Longrightarrow> sq_critical s = None \<and> sq_in_txn t = sq_in_txn s"
  shows "txn_inv X t"
  using view_fields [OF assms(2)] by (intro txn_inv_lock [OF assms(1)] assms(3)) simp_all

lemma settled_view: "implicit_settled c s \<Longrightarrow> txn_view (sq_mem t) = txn_view (sq_mem s) \<Longrightarrow> implicit_settled c t"
  using view_fields [of "sq_mem t" "sq_mem s"] by (simp add: implicit_settled_def)

lemma on_critical_inv:
  assumes "txn_inv X s"
  shows "txn_inv X (snd (on_critical_error e (s\<lparr>sq_file := f, sq_in_txn := False, sq_savepoints := [], sq_callbacks := [],
      sq_critical := Some e'\<rparr>)))"
  by (rule txn_inv_lock [OF assms]; cases "am_broken (sq_mem s)")
    (auto simp: on_critical_error_def mem_def add_lock_def Let_def)

lemma on_critical_settled: "implicit_settled c s \<Longrightarrow> implicit_settled c (snd (on_critical_error e (s\<lparr>sq_file := f, sq_in_txn := False,
    sq_savepoints := [], sq_callbacks := [], sq_critical := Some e'\<rparr>)))"
  by (auto simp: implicit_settled_def on_critical_error_def mem_def add_lock_def Let_def split: option.split)

text \<open>What the operations do to the memory.\<close>

definition fresh_implicit :: "actor_mem \<Rightarrow> actor_mem" where
  "fresh_implicit m = (add_commit (FlushImplicit (length (am_implicit m)))
     (m\<lparr>am_implicit := am_implicit m @ [\<lparr>it_committed = False, it_dropped = False, it_confirmed = False\<rparr>],
        am_current := ImplicitTxn (length (am_implicit m))\<rparr>))\<lparr>am_last_commit := CommitOf (length (am_commits m))\<rparr>"

lemma fresh_implicit_ok:
  assumes ok: "commits_ok X m" and none: "am_current m = NoTxn"
  shows "commits_ok X (fresh_implicit m)" "holder_ok b m \<Longrightarrow> holder_ok True (fresh_implicit m)"
proof -
  let ?m = "fresh_implicit m" and ?i = "length (am_implicit m)" and ?c = "length (am_commits m)"
  have im: "am_implicit ?m = am_implicit m @ [\<lparr>it_committed = False, it_dropped = False, it_confirmed = False\<rparr>]"
    and cm: "am_commits ?m = am_commits m @ [\<lparr>cm_kind = FlushImplicit ?i, cm_phase = Scheduled, cm_shared = None\<rparr>]"
    and cur: "am_current ?m = ImplicitTxn ?i" "am_last_commit ?m = CommitOf ?c" "am_locks ?m = am_locks m"
    by (simp_all add: fresh_implicit_def add_commit_def)
  have "flush_scheduled ?m ?i" unfolding flush_scheduled_def im cm cur
    by (auto simp: nth_append intro!: exI [of _ ?c])
  moreover have "commit_sane X ?m c" if "c < length (am_commits ?m)" for c
  proof (cases "c < ?c")
    case True
    then have "commit_sane X m c" using ok by (simp add: commits_ok_def)
    then show ?thesis using True by (auto simp: commit_sane_def im cm nth_append)
  next
    case False
    then have "c = ?c" using that cm by simp
    then show ?thesis by (simp add: commit_sane_def im cm nth_append underway_def)
  qed
  moreover have "\<exists>c < length (am_commits ?m). cm_kind (comm ?m c) = FlushImplicit i" if i: "i < length (am_implicit ?m)" for i
  proof (cases "i < ?i")
    case True
    then obtain c where "c < ?c" "cm_kind (comm m c) = FlushImplicit i" using ok by (auto simp: commits_ok_def)
    then show ?thesis by (intro exI [of _ c]) (simp add: cm nth_append)
  next
    case False
    then show ?thesis using i by (intro exI [of _ ?c]) (simp add: im cm nth_append)
  qed
  moreover have "\<not> it_committed (impl ?m ?i)" by (simp add: im nth_append)
  moreover have "c = c'" if "c < length (am_commits ?m)" "c' < length (am_commits ?m)"
    "cm_kind (comm ?m c) = FlushImplicit i" "cm_kind (comm ?m c') = FlushImplicit i" for c c' i
  proof -
    have old: "cm_kind (comm m k) \<noteq> FlushImplicit ?i" if "k < ?c" for k
      using ok that by (auto simp: commits_ok_def commit_sane_def)
    show ?thesis using that old ok by (auto simp: cm nth_append less_Suc_eq commits_ok_def)
  qed
  ultimately show "commits_ok X ?m" using cur(1) by (simp add: commits_ok_def)
  show "holder_ok True ?m" if "holder_ok b m"
    using that none by (auto simp: holder_ok_def im cur nth_append less_Suc_eq intro!: exI [of _ ?i])
qed

lemma nth_update_any: "xs[i := v] ! j = (if i = j \<and> i < length xs then v else xs ! j)"
  by (cases "i < length xs") (auto simp: nth_list_update list_update_beyond)

text \<open>A transaction becoming confirmed, with the lock on its commit.\<close>

lemma confirm_ok:
  assumes ok: "commits_ok X m" and cur: "am_current m = ImplicitTxn i"
  shows "commits_ok X (add_lock (LockOn (am_last_commit m)) (set_implicit i (\<lambda>t. t\<lparr>it_confirmed := True\<rparr>) m))"
    "holder_ok b m \<Longrightarrow> holder_ok b (add_lock (LockOn (am_last_commit m)) (set_implicit i (\<lambda>t. t\<lparr>it_confirmed := True\<rparr>) m))"
proof -
  let ?m = "add_lock (LockOn (am_last_commit m)) (set_implicit i (\<lambda>t. t\<lparr>it_confirmed := True\<rparr>) m)"
  have im: "length (am_implicit ?m) = length (am_implicit m)" "\<And>j. it_committed (impl ?m j) = it_committed (impl m j)"
    "\<And>j. it_dropped (impl ?m j) = it_dropped (impl m j)"
    by (simp_all add: add_lock_def set_implicit_def nth_update_any)
  have rest: "am_commits ?m = am_commits m" "am_current ?m = am_current m" "am_last_commit ?m = am_last_commit m"
    "am_locks ?m = am_locks m @ [LockOn (am_last_commit m)]"
    by (simp_all add: add_lock_def set_implicit_def)
  have "flush_scheduled m i" using ok cur by (simp add: commits_ok_def)
  then have "flush_scheduled ?m i" unfolding flush_scheduled_def im rest by auto
  moreover have "commit_sane X ?m c = commit_sane X m c" for c unfolding commit_sane_def im rest ..
  ultimately show "commits_ok X ?m" using ok cur unfolding commits_ok_def im rest by simp
  show "holder_ok b ?m" if "holder_ok b m" using that unfolding holder_ok_def im rest .
qed

definition guarded :: "nat set \<Rightarrow> nat set \<Rightarrow> 'u actor \<Rightarrow> bool" where
  "guarded X C s \<longleftrightarrow> txn_inv X s \<and> (\<forall>c \<in> C. implicit_settled c s)"

lemma guardedD: "guarded X C s \<Longrightarrow> txn_inv X s" "guarded X C s \<Longrightarrow> c \<in> C \<Longrightarrow> implicit_settled c s"
  by (simp_all add: guarded_def)

lemma guarded_view:
  assumes "guarded X C s" "txn_view (sq_mem t) = txn_view (sq_mem s)"
    "sq_critical t = None \<Longrightarrow> sq_critical s = None \<and> sq_in_txn t = sq_in_txn s"
  shows "guarded X C t"
  using assms txn_inv_view [of X s t] settled_view [of _ s t] by (auto simp: guarded_def)

lemma guarded_critical:
  "guarded X C s \<Longrightarrow> guarded X C (snd (on_critical_error e (s\<lparr>sq_file := f, sq_in_txn := False, sq_savepoints := [],
     sq_callbacks := [], sq_critical := Some e'\<rparr>)))"
  unfolding guarded_def using on_critical_inv on_critical_settled by blast

lemma settled_fresh: "implicit_settled c s \<Longrightarrow> sq_mem t = fresh_implicit (sq_mem s) \<Longrightarrow> implicit_settled c t"
  by (auto simp: implicit_settled_def fresh_implicit_def add_commit_def nth_append)

lemma settled_confirm: "implicit_settled c s \<Longrightarrow>
    sq_mem t = add_lock l (set_implicit i (\<lambda>t. t\<lparr>it_confirmed := True\<rparr>) (sq_mem s)) \<Longrightarrow> implicit_settled c t"
  by (auto simp: implicit_settled_def set_implicit_def add_lock_def nth_update_any)

lemma start_implicit_guarded:
  assumes g: "guarded X C s" and none: "am_current (sq_mem s) = NoTxn"
  shows "guarded X C (snd (start_implicit_txn E s))"
proof -
  obtain r t where run: "run_control E STMT_BEGIN s = (r, t)" by fastforce
  have st: "start_implicit_txn E s = (case r of Inl e \<Rightarrow> (Inl e, t) | Inr _ \<Rightarrow> (Inr (), mem fresh_implicit t))"
    using none run by (simp add: start_implicit_txn_def implicit_new_def op_bind_def op_modify_def mem_def Let_def
        fresh_implicit_def add_commit_def split: sum.split)
  show ?thesis
  proof (rule run_control_cases [OF control_texts(1) _ run], goal_cases)
    case 1 show ?case by simp
  next
    case (2 e)
    then show ?case using st by (auto intro: guarded_view [OF g] view_outside)
  next
    case (3 e e' f)
    then show ?case using st guarded_critical [OF g] by auto
  next
    case 4
    have gt: "commits_ok X (sq_mem t)" "holder_ok (sq_in_txn s) (sq_mem t)" "am_current (sq_mem t) = NoTxn" "\<forall>c \<in> C. implicit_settled c t"
    proof -
      have v: "txn_view (sq_mem t) = txn_view (sq_mem s)" by (rule view_outside) (use 4 in simp)
      note vf = view_fields [OF v]
      show "commits_ok X (sq_mem t)" "holder_ok (sq_in_txn s) (sq_mem t)"
        using g 4(2) ok_lock [of "sq_mem t" "sq_mem s"] vf by (simp_all add: guarded_def txn_inv_def)
      show "am_current (sq_mem t) = NoTxn" using none vf by simp
      show "\<forall>c \<in> C. implicit_settled c t" using g settled_view [OF _ v] by (simp add: guarded_def)
    qed
    have "txn_inv X (mem fresh_implicit t)" using fresh_implicit_ok [OF gt(1,3)] gt(2) 4(5)
      by (simp add: txn_inv_def mem_def)
    moreover have "\<forall>c \<in> C. implicit_settled c (mem fresh_implicit t)" using gt(4) settled_fresh [of _ t "mem fresh_implicit t"] by (simp add: mem_def)
    ultimately show ?case using st 4(1) by (simp add: guarded_def)
  qed
qed

lemma on_write_guarded:
  assumes g: "guarded X C s"
  shows "guarded X C (snd (on_write E au s))"
proof (cases "am_broken (sq_mem s)")
  case (Some e)
  then show ?thesis using g by (simp add: on_write_def require_not_broken_def op_bind_def)
next
  case None
  obtain r t where rt: "(if am_current (sq_mem s) = NoTxn then start_implicit_txn E s else (Inr (), s)) = (r, t)" by fastforce
  have gt: "guarded X C t" using rt g start_implicit_guarded [OF g, of E] by (cases "am_current (sq_mem s) = NoTxn") auto
  let ?lock = "\<lambda>i. mem (\<lambda>m. add_lock (LockOn (am_last_commit m)) (set_implicit i (\<lambda>t. t\<lparr>it_confirmed := True\<rparr>) m)) t"
  have "guarded X C (?lock i)" if "am_current (sq_mem t) = ImplicitTxn i" for i
  proof -
    have "txn_inv X (?lock i)" using confirm_ok [of X "sq_mem t" i] that gt by (simp add: guarded_def txn_inv_def mem_def)
    then show ?thesis using gt settled_confirm [of _ t "?lock i"] by (auto simp: guarded_def mem_def)
  qed
  moreover have "guarded X C (mem (set_explicit j f) t)" for j f
    by (rule guarded_view [OF gt]) (simp_all add: mem_def set_explicit_def txn_view_def)
  ultimately show ?thesis using None rt gt
    by (cases r) (auto simp: on_write_def require_not_broken_def op_bind_def split: current_txn.split)
qed

interpretation actor_outer: outer_kept "guarded X C" "actor_hooks E" be for E be X C
proof unfold_locales
  show "guarded X C (snd (hk_on_critical (actor_hooks E) e (s\<lparr>sq_file := f, sq_in_txn := False, sq_savepoints := [],
      sq_callbacks := [], sq_critical := Some e\<rparr>)))" if "guarded X C s" for s e f
    using guarded_critical [OF that] by (simp add: actor_hooks_def)
  show "guarded X C t" if "guarded X C s" "sq_in_txn t = sq_in_txn s" "sq_critical t = sq_critical s"
    "outside (sq_mem t) = outside (sq_mem s)" for s t
    by (rule guarded_view [OF that(1) view_outside [OF that(4)]]) (use that in simp)
qed (simp_all add: actor_hooks_def on_write_guarded)

text \<open>The write callback keeps the stores' own invariant.\<close>

lemma upd_keeps: "(\<And>m. caches (f m) = caches m) \<Longrightarrow> control.keeps (upd f)"
  by (rule control.keeps_mem)

lemma keeps_memory: "(\<And>s m. caches (f s m) = caches m) \<Longrightarrow> control.keeps (\<lambda>s. (r s, mem (f s) s))"
  by (auto simp: control.keeps_def intro!: store_ok_mem)

lemma start_implicit_keeps: "control.keeps (start_implicit_txn (file_env prep u sr))"
proof -
  have "control.keeps (implicit_new (file_env prep u sr))" unfolding implicit_new_def Let_def
    by (intro control.keeps_if control.keeps_result control.keeps_bind control_keeps_begin keeps_memory) simp
  then show ?thesis unfolding start_implicit_txn_def
    by (rule control.keeps_bind) (rule upd_keeps, simp)
qed

lemma require_keeps: "control.keeps require_not_broken"
  by (simp add: control.keeps_def require_not_broken_def split: option.split)

lemma on_write_keeps: "control.keeps (on_write (file_env prep u sr) au)"
proof -
  have "control.keeps (\<lambda>s. case am_current (sq_mem s) of
        NoTxn \<Rightarrow> (Inl e, s)
      | ImplicitTxn i \<Rightarrow> (if \<not> it_confirmed (am_implicit (sq_mem s) ! i) \<and> \<not> au
           then (Inr (), mem (\<lambda>m. add_lock (LockOn (am_last_commit m)) (set_implicit i (\<lambda>t. t\<lparr>it_confirmed := True\<rparr>) m)) s)
           else (Inr (), s))
      | ExplicitTxn j \<Rightarrow> (if \<not> et_confirmed (am_explicit (sq_mem s) ! j) \<and> \<not> au
           then (Inr (), mem (set_explicit j (\<lambda>t. t\<lparr>et_confirmed := True\<rparr>)) s)
           else (Inr (), s)))" for e
    by (auto simp: control.keeps_def intro!: store_ok_mem split: current_txn.split)
  then show ?thesis unfolding on_write_def
    by (intro control.keeps_bind require_keeps control.keeps_if start_implicit_keeps control.keeps_result)
qed

lemma on_write_ok: "store_ok s \<Longrightarrow> store_ok (snd (on_write (file_env prep u sr) au s))"
  using on_write_keeps [of prep u sr au] by (simp add: control.keeps_def)

lemma on_write_frame:
  assumes "store_ok s" "sq_critical s = None" "on_write (file_env prep u sr) au s = (Inr (), t)"
  shows "sq_critical t = None" "db_data t = db_data s" "db_caches t = db_caches s"
proof -
  let ?E = "file_env prep u sr"
  have "sq_critical t = None \<and> db_data t = db_data s \<and> db_caches t = db_caches s"
  proof (cases "am_current (sq_mem s) = NoTxn")
    case False
    then show ?thesis using assms(2,3)
      by (auto simp: on_write_def op_bind_def require_not_broken_def mem_def
          split: option.splits current_txn.splits if_splits)
  next
    case True
    then obtain t0 where t0: "run_control ?E STMT_BEGIN s = (Inr (), t0)"
      using assms(3) by (auto simp: on_write_def op_bind_def require_not_broken_def start_implicit_txn_def implicit_new_def
          split: option.splits sum.splits prod.splits)
    note B = begin_frame [OF assms(1,2) t0]
    show ?thesis using assms(3) True t0 B
      by (auto simp: on_write_def op_simps require_not_broken_def start_implicit_txn_def implicit_new_def mem_def Let_def
          split: option.splits current_txn.splits if_splits)
  qed
  then show "sq_critical t = None" "db_data t = db_data s" "db_caches t = db_caches s" by simp_all
qed

lemma on_write_stops:
  assumes ok: "store_ok s" "sq_critical s = None" and w: "on_write (file_env prep u sr) au s = (Inl e, t)"
  shows "db_data t = db_data s \<or> sq_critical t \<noteq> None"
proof (cases "am_broken (sq_mem s) \<noteq> None \<or> am_current (sq_mem s) \<noteq> NoTxn")
  case True
  then show ?thesis using w
    by (auto simp: on_write_def op_bind_def require_not_broken_def split: option.splits current_txn.splits if_splits)
next
  case False
  obtain r x where rx: "run_control (file_env prep u sr) STMT_BEGIN s = (r, x)" by fastforce
  show ?thesis
  proof (cases r)
    case (Inl e')
    then have "t = x" using False w rx
      by (auto simp: on_write_def op_simps require_not_broken_def start_implicit_txn_def implicit_new_def)
    then show ?thesis using begin_stops [OF ok] rx Inl by simp
  next
    case (Inr v)
    then have "sq_file t = sq_file x" using False w rx
      by (auto simp: on_write_def op_simps require_not_broken_def start_implicit_txn_def implicit_new_def mem_def Let_def
          split: if_splits current_txn.splits)
    then show ?thesis using begin_frame(2) [OF ok] rx Inr by simp
  qed
qed

interpretation actor: store_hooks_ok "actor_hooks (file_env prep u sr)" prep "empty_tables u" for prep u sr
proof unfold_locales
  show "db_data t = db_data s \<or> sq_critical t \<noteq> None"
    if "store_ok s" "sq_critical s = None" "hk_on_write (actor_hooks (file_env prep u sr)) au s = (Inl e, t)" for s t au e
    by (rule on_write_stops [OF that(1,2)]) (use that(3) in \<open>simp add: actor_hooks_def\<close>)
qed (use on_write_ok on_write_frame in \<open>auto simp: actor_hooks_def empty_tables_def critical_latched\<close>)

end
