(* ===== verification/Actor_Steps.thy ===== *)
theory Actor_Steps
  imports Actor_Inv
begin

text \<open>
  Every operation of \<open>ActorSqlite\<close> keeps the invariants of the stores and of the transactions, whatever
  statements fail and whatever calls of the alarm outlet throw; and the states an actor can reach.
\<close>

lemma op_bind_InrE: "op_bind m f s = (Inr v, u) \<Longrightarrow> (\<And>w t. m s = (Inr w, t) \<Longrightarrow> f w t = (Inr v, u) \<Longrightarrow> P) \<Longrightarrow> P"
  by (auto simp: op_bind_eq_Inr)

section \<open>Operations that are good in the middle of another\<close>

text \<open>\<open>X\<close> are the transactions being left, \<open>C\<close> the commits being worked on.\<close>

definition good :: "nat set \<Rightarrow> nat set \<Rightarrow> ('u, 'a) aop \<Rightarrow> bool" where
  "good X C m \<longleftrightarrow> (\<forall>s. store_ok s \<longrightarrow> guarded X C s \<longrightarrow> store_ok (snd (m s)) \<and> guarded X C (snd (m s)))"

lemma goodD: "good X C m \<Longrightarrow> m s = (r, t) \<Longrightarrow> store_ok s \<Longrightarrow> guarded X C s \<Longrightarrow> store_ok t \<and> guarded X C t"
  unfolding good_def by (metis snd_conv)

lemma goodI:
  assumes "control.keeps m" "actor_outer.outer X C m"
  shows "good X C m"
  using assms by (auto simp: good_def control.keeps_def actor_outer.outer_def)

lemma good_pure: "good X C (op_return v)" "good X C (op_throw e)" "good X C (\<lambda>s. (r s, s))" "good X C require_not_broken"
  by (auto simp: good_def op_return_def op_throw_def require_not_broken_def split: option.split)

lemma good_bind:
  assumes "good X C m" "\<And>v. good X C (f v)"
  shows "good X C (op_bind m f)"
  unfolding good_def
proof (intro allI impI)
  fix s :: "'a actor" assume "store_ok s" "guarded X C s"
  then have "store_ok (snd (m s)) \<and> guarded X C (snd (m s))" using assms(1) by (simp add: good_def)
  then show "store_ok (snd (op_bind m f s)) \<and> guarded X C (snd (op_bind m f s))" using assms(2)
    by (cases "m s"; cases "fst (m s)") (simp_all add: good_def op_bind_def)
qed

lemma good_catch:
  assumes "good X C m" "\<And>e. good X C (g e)"
  shows "good X C (op_catch m g)"
  unfolding good_def
proof (intro allI impI)
  fix s :: "'a actor" assume "store_ok s" "guarded X C s"
  then have "store_ok (snd (m s)) \<and> guarded X C (snd (m s))" using assms(1) by (simp add: good_def)
  then show "store_ok (snd (op_catch m g s)) \<and> guarded X C (snd (op_catch m g s))" using assms(2)
    by (cases "m s"; cases "fst (m s)") (simp_all add: good_def op_catch_def)
qed

lemma good_finally:
  assumes "good X C m" "good X C f"
  shows "good X C (op_finally m f)"
  unfolding good_def
proof (intro allI impI)
  fix s :: "'a actor" assume "store_ok s" "guarded X C s"
  then have t: "store_ok (snd (m s)) \<and> guarded X C (snd (m s))" using assms(1) by (simp add: good_def)
  obtain r t u q where e: "m s = (r, t)" "f t = (q, u)" by fastforce
  then have "store_ok u \<and> guarded X C u" using t goodD [OF assms(2) e(2)] by simp
  then show "store_ok (snd (op_finally m f s)) \<and> guarded X C (snd (op_finally m f s))"
    using e by (cases q) (simp_all add: op_finally_def)
qed

lemma good_if: "good X C m \<Longrightarrow> good X C n \<Longrightarrow> good X C (\<lambda>s. if P s then m s else n s)"
  by (simp add: good_def)

lemma good_cond: "(b \<Longrightarrow> good X C m) \<Longrightarrow> (\<not> b \<Longrightarrow> good X C n) \<Longrightarrow> good X C (if b then m else n)"
  by simp

lemma good_state: "(\<And>s. good X C (f s)) \<Longrightarrow> good X C (\<lambda>s. f s s)"
  by (simp add: good_def)

lemma good_memory:
  assumes "\<And>s. caches (f s (sq_mem s)) = db_caches s" "\<And>s. txn_view (f s (sq_mem s)) = txn_view (sq_mem s)"
  shows "good X C (\<lambda>s. (r s, mem (f s) s))"
  unfolding good_def
proof (intro allI impI)
  fix s :: "'a actor" assume s: "store_ok s" "guarded X C s"
  then show "store_ok (snd (r s, mem (f s) s)) \<and> guarded X C (snd (r s, mem (f s) s))"
    using store_ok_mem [OF s(1), of "f s"] guarded_view [OF s(2), of "mem (f s) s"] assms by (simp add: mem_def)
qed

lemma good_upd: "(\<And>m. caches (f m) = caches m) \<Longrightarrow> (\<And>m. txn_view (f m) = txn_view m) \<Longrightarrow> good X C (upd f)"
  unfolding op_modify_def by (rule good_memory) simp_all

lemma view_simps [simp]:
  "txn_view (m\<lparr>am_broken := a4\<rparr>) = txn_view m" "txn_view (m\<lparr>am_no_later := a5\<rparr>) = txn_view m" "txn_view (m\<lparr>am_requests := a6\<rparr>) = txn_view m"
  "txn_view (m\<lparr>am_pending_later := a7\<rparr>) = txn_view m" "txn_view (m\<lparr>am_later_is_in_flight := a8\<rparr>) = txn_view m"
  "txn_view (m\<lparr>am_later_in_flight := a9\<rparr>) = txn_view m" "txn_view (m\<lparr>am_later_handler := b1\<rparr>) = txn_view m"
  "txn_view (m\<lparr>am_pending_commit := b2\<rparr>) = txn_view m" "txn_view (m\<lparr>am_confirmed := b3\<rparr>) = txn_view m"
  "txn_view (m\<lparr>am_delete_all_scheduled := b4\<rparr>) = txn_view m" "txn_view (m\<lparr>am_version := b5\<rparr>) = txn_view m"
  "txn_view (m\<lparr>am_deferred_delete := b6\<rparr>) = txn_view m" "txn_view (m\<lparr>am_in_handler := b7\<rparr>) = txn_view m"
  "txn_view (m\<lparr>am_deleters := b8\<rparr>) = txn_view m" "txn_view (m\<lparr>am_sync_depth := b9\<rparr>) = txn_view m"
  "txn_view (m\<lparr>am_explicit := c1\<rparr>) = txn_view m" "txn_view (set_explicit j g m) = txn_view m"
  by (simp_all add: txn_view_def set_explicit_def)

lemma good_case_option:
  "good X C m \<Longrightarrow> (\<And>x. good X C (n x)) \<Longrightarrow> good X C (\<lambda>s. case f s of None \<Rightarrow> m s | Some x \<Rightarrow> n x s)"
  by (auto simp: good_def split: option.split)

section \<open>The stores, and alarm scheduling\<close>

lemma store_good:
  fixes prep u sr
  defines "E \<equiv> file_env prep u sr"
  shows "good X C (kv_get (actor_hooks E) (ae_backend E) k)" "good X C (stored_alarm E)"
    "good X C (kv_put (actor_hooks E) (ae_backend E) k v au)" "good X C (kv_delete (actor_hooks E) (ae_backend E) k au)"
    "good X C (kv_put_multiple (actor_hooks E) (ae_backend E) ps au)"
    "good X C (meta_set_alarm (actor_hooks E) (ae_backend E) a au)"
    "good X C (get_bookmark (actor_hooks E) (ae_backend E))" "good X C (set_bookmark (actor_hooks E) (ae_backend E) n)"
    "good X C (kv_delete_all (actor_hooks E) (ae_backend E))" "good X C (on_write E au)"
  unfolding E_def file_env_backend
  by (rule goodI; (rule actor.kv_get_keeps actor_outer.outer_get actor.meta_get_alarm_keeps actor_outer.outer_get_alarm
      actor.kv_put_keeps actor_outer.outer_put actor.kv_delete_keeps actor_outer.outer_delete
      actor.kv_put_multiple_keeps actor_outer.outer_put_multiple actor.meta_set_alarm_keeps actor_outer.outer_set_alarm
      actor.bookmark_keeps actor_outer.outer_bookmark actor.kv_delete_all_keeps actor_outer.outer_delete_all
      on_write_keeps | simp add: actor_outer.outer_def on_write_guarded))+

lemma list_good:
  assumes "\<And>k v a. call k v a = op_return (g k v a)"
  shows "good X C (kv_list (actor_hooks (file_env prep u sr)) (file_backend prep (empty_tables u)) b e n ord call a)"
  by (rule goodI; (rule actor.kv_list_keeps actor_outer.outer_list)) (simp_all add: assms)

lemma control_good:
  fixes prep u sr
  defines "E \<equiv> file_env prep u sr"
  assumes "classify sql = Inr (BeginTxn (Some n)) \<and> c = BeginTxn (Some n) \<or> classify sql = Inr (CommitTxn (Some n)) \<and> c = CommitTxn (Some n) \<or>
    classify sql = Inr (RollbackTxn (Some n)) \<and> c = RollbackTxn (Some n)"
  shows "good X C (actor_run E (control_stmt sql c))"
proof -
  have c: "classify sql = Inr c" "c \<noteq> NoChange" "c \<notin> {CommitTxn None, RollbackTxn None}" "c \<notin> unnamed"
    using assms(2) by (auto simp: unnamed_def)
  have "good X C (db_run1 (actor_hooks E) (ae_backend E) (control_stmt sql c) [] False)"
    unfolding E_def file_env_backend
    by (rule goodI [OF actor.run_control [OF c(1-3)] actor_outer.outer_run])
      (use c in \<open>simp_all add: control_stmt_def\<close>)
  then show ?thesis by (intro good_bind good_pure)
qed

lemma savepoint_good:
  assumes "n = sync_savepoint d \<or> n = txn_savepoint d"
  shows "good X C (actor_run (file_env prep u sr) (STMT_SAVEPOINT n))"
    "good X C (actor_run (file_env prep u sr) (STMT_RELEASE n))"
    "good X C (actor_run (file_env prep u sr) (STMT_ROLLBACK_TO n))"
  unfolding STMT_SAVEPOINT_def STMT_RELEASE_def STMT_ROLLBACK_TO_def
  by (rule control_good; use savepoint_texts [OF assms] in
    \<open>simp add: STMT_SAVEPOINT_def STMT_RELEASE_def STMT_ROLLBACK_TO_def control_stmt_def\<close>)+

lemma request_good: "good X C (request_scheduled_alarm E t prior)"
proof -
  let ?f = "\<lambda>s m. m\<lparr>am_no_later := (if will_fire_earlier (am_no_later (sq_mem s)) t then t else am_no_later m),
     am_requests := am_requests m @ [\<lparr>rq_time = t, rq_prior = prior, rq_later = will_fire_earlier (am_no_later (sq_mem s)) t,
       rq_result = (case ae_schedule_run E (length (am_requests (sq_mem s))) t of None \<Rightarrow> None | Some e \<Rightarrow> Some (Inl e))\<rparr>]\<rparr>"
  let ?r = "\<lambda>s. case ae_schedule_run E (length (am_requests (sq_mem s))) t of None \<Rightarrow> Inr (length (am_requests (sq_mem s)))
     | Some e \<Rightarrow> Inl e"
  have "request_scheduled_alarm E t prior = (\<lambda>s. (?r s, mem (?f s) s))"
    by (rule ext) (simp add: request_scheduled_alarm_def Let_def split: option.split)
  moreover have "good X C (\<lambda>s. (?r s, mem (?f s) s))" by (rule good_memory) simp_all
  ultimately show ?thesis by simp
qed

lemma schedule_later_good: "good X C (schedule_later_alarm E t)"
proof -
  have "good X C (op_bind (upd (\<lambda>m. m\<lparr>am_later_is_in_flight := True\<rparr>)) (\<lambda>_. op_bind (request_scheduled_alarm E t p)
      (\<lambda>k. upd (\<lambda>m. m\<lparr>am_later_in_flight := RequestOf k, am_later_handler := Some k\<rparr>))))" for p
    by (intro good_bind good_upd request_good) simp_all
  moreover have "good X C (\<lambda>s. (Inr (), mem (\<lambda>m. m\<lparr>am_pending_later := Some t\<rparr>) s))" by (rule good_memory) simp_all
  ultimately show ?thesis by (auto simp: good_def schedule_later_alarm_def)
qed

lemma later_done_good: "good X C (later_done (file_env prep u sr))"
  unfolding later_done_def
  by (intro good_catch good_bind good_upd good_case_option good_pure store_good good_cond schedule_later_good) simp_all

lemma precommit_good: "good X C (start_precommit_alarm_scheduling (file_env prep u sr))"
proof -
  let ?E = "file_env prep u sr"
  have "good X C (op_bind (upd (\<lambda>m. m\<lparr>am_pending_later := None\<rparr>)) (\<lambda>_. op_bind (stored_alarm ?E)
      (\<lambda>a. op_bind (request_scheduled_alarm ?E a p) (\<lambda>k. op_return (Some k)))))" for p
    by (intro good_bind good_upd store_good request_good good_pure) simp_all
  then have "good X C (\<lambda>s. (if will_fire_earlier a (am_no_later (sq_mem s)) then
      op_bind (upd (\<lambda>m. m\<lparr>am_pending_later := None\<rparr>)) (\<lambda>_. op_bind (stored_alarm ?E)
        (\<lambda>a. op_bind (request_scheduled_alarm ?E a (am_later_in_flight (sq_mem s))) (\<lambda>k. op_return (Some k)))) s
      else (Inr None, s)))" for a
    by (auto simp: good_def)
  from good_if [OF good_pure(3) good_bind [OF store_good(2) this]] show ?thesis
    unfolding start_precommit_alarm_scheduling_def .
qed

section \<open>Commits\<close>

lemma set_commit_ok:
  assumes ok: "commits_ok X m" and kind: "\<And>k. cm_kind (f k) = cm_kind k" and c: "c < length (am_commits m)"
    and new: "cm_phase (f (comm m c)) \<noteq> Scheduled"
    and out: "\<And>i. cm_kind (comm m c) = FlushImplicit i \<Longrightarrow> it_dropped (impl m i) \<and>
      (underway (cm_phase (f (comm m c))) \<longrightarrow> it_committed (impl m i))"
  shows "commits_ok X (set_commit c f m)" "holder_ok b (set_commit c f m) = holder_ok b m"
proof -
  let ?m = "set_commit c f m"
  have same: "am_implicit ?m = am_implicit m" "am_current ?m = am_current m" "am_last_commit ?m = am_last_commit m"
    "am_locks ?m = am_locks m" "length (am_commits ?m) = length (am_commits m)"
    by (simp_all add: set_commit_def)
  have cm: "comm ?m k = (if k = c then f (comm m c) else comm m k)" for k
    using c by (simp add: set_commit_def nth_update_any)
  have kinds: "cm_kind (comm ?m k) = cm_kind (comm m k)" for k by (simp add: cm kind)
  have fs: "flush_scheduled ?m i" if fm: "flush_scheduled m i" for i
  proof -
    obtain k where k: "k < length (am_commits m)" "am_last_commit m = CommitOf k" "cm_kind (comm m k) = FlushImplicit i"
      "cm_phase (comm m k) = Scheduled" "it_confirmed (impl m i) \<longrightarrow> LockOn (CommitOf k) \<in> set (am_locks m)"
      "\<not> it_dropped (impl m i)" "i < length (am_implicit m)"
      using fm by (auto simp: flush_scheduled_def)
    then have "k \<noteq> c" using out by auto
    then show ?thesis using k unfolding flush_scheduled_def same cm by (auto intro!: exI [of _ k])
  qed
  have cs: "commit_sane X ?m k" if "k < length (am_commits m)" for k
  proof -
    have "commit_sane X m k" using ok that by (simp add: commits_ok_def)
    then show ?thesis unfolding commit_sane_def kinds same using out new by (auto simp: cm)
  qed
  show "commits_ok X ?m" using ok fs cs unfolding commits_ok_def kinds same by blast
  show "holder_ok b ?m = holder_ok b m" unfolding holder_ok_def same ..
qed

lemma set_commit_guarded:
  assumes g: "guarded X C s" and s: "implicit_settled c s" and kind: "\<And>k. cm_kind (f k) = cm_kind k"
    and new: "cm_phase (f (comm (sq_mem s) c)) \<noteq> Scheduled"
  shows "guarded X C (mem (set_commit c f) s)"
proof -
  have c: "c < length (am_commits (sq_mem s))"
    "\<And>i. cm_kind (comm (sq_mem s) c) = FlushImplicit i \<Longrightarrow> it_dropped (impl (sq_mem s) i) \<and>
      (underway (cm_phase (f (comm (sq_mem s) c))) \<longrightarrow> it_committed (impl (sq_mem s) i))"
    using s by (auto simp: implicit_settled_def)
  note R = set_commit_ok [of X "sq_mem s" f c, OF _ kind c(1) new c(2)]
  have "implicit_settled k (mem (set_commit c f) s)" if "implicit_settled k s" for k
    using that by (auto simp: implicit_settled_def mem_def set_commit_def nth_update_any kind)
  then show ?thesis using g R by (auto simp: guarded_def txn_inv_def mem_def)
qed

lemma set_commit_good:
  assumes "c \<in> C" "\<And>k. cm_kind (f k) = cm_kind k" "\<And>k. cm_phase (f k) \<noteq> Scheduled"
  shows "good X C (upd (set_commit c f))"
  unfolding good_def op_modify_def snd_conv
proof (intro allI impI conjI)
  fix s :: "'a actor" assume s: "store_ok s" "guarded X C s"
  show "store_ok (mem (set_commit c f) s)" by (rule store_ok_mem [OF s(1)]) simp
  show "guarded X C (mem (set_commit c f) s)"
    by (rule set_commit_guarded [OF s(2) guardedD(2) [OF s(2) assms(1)]]) (use assms in simp_all)
qed

lemma commit_good:
  fixes u :: 'u
  assumes "c \<in> C"
  shows "p \<noteq> Scheduled \<Longrightarrow> good X C (enter c p :: ('u, unit) aop)" "good X C (commit_failed c e :: ('u, unit) aop)"
    "good X C (commit_loop (file_env prep u sr) c)" "good X C (commit_impl (file_env prep u sr) c pre)"
proof -
  let ?E = "file_env prep u sr"
  show enter: "good X C (enter c p :: ('u, unit) aop)" if "p \<noteq> Scheduled" for p
    unfolding enter_def by (rule set_commit_good) (use assms that in simp_all)
  show failed: "good X C (commit_failed c e :: ('u, unit) aop)" for e
    unfolding commit_failed_def by (rule set_commit_good) (use assms in simp_all)
  have "good X C (op_bind (upd (\<lambda>m. m\<lparr>am_pending_commit := None\<rparr>)) (\<lambda>_. enter c (Persisting a v)) :: ('u, unit) aop)" for a v
    by (intro good_bind good_upd enter) simp_all
  note persist = this
  have "good X C (\<lambda>s :: 'u actor. op_bind (upd (\<lambda>m. m\<lparr>am_pending_commit := None\<rparr>)) (\<lambda>_. enter c (Persisting a (am_version (sq_mem s)))) s)" for a
    by (rule good_state, rule persist)
  then show loop: "good X C (commit_loop ?E c)" unfolding commit_loop_def
    by (intro good_bind good_if store_good request_good enter) simp_all
  have "good X C (op_bind (upd (\<lambda>m. m\<lparr>am_pending_commit := Some c\<rparr>)) (\<lambda>_. case pre of
      Some k \<Rightarrow> enter c (AwaitRequest k) | None \<Rightarrow> op_catch (commit_loop ?E c) (commit_failed c)))"
    by (intro good_bind good_upd) (auto intro!: enter good_catch loop failed split: option.split)
  then show "good X C (commit_impl ?E c pre)" using enter unfolding commit_impl_def
    by (intro good_case_option) simp_all
qed

section \<open>Leaving an implicit transaction\<close>

lemma guarded_fields:
  assumes "guarded X C s" "commits_ok X (sq_mem s) \<Longrightarrow> commits_ok X' (sq_mem t)"
    "sq_critical t = None \<Longrightarrow> sq_critical s = None"
    "sq_critical t = None \<Longrightarrow> holder_ok (sq_in_txn s) (sq_mem s) \<Longrightarrow> holder_ok (sq_in_txn t) (sq_mem t)"
    "\<And>c. implicit_settled c s \<Longrightarrow> implicit_settled c t"
  shows "guarded X' C t"
  using assms by (auto simp: guarded_def txn_inv_def)

text \<open>The two flags of a transaction only ever go up.\<close>

definition raised :: "(implicit_txn \<Rightarrow> implicit_txn) \<Rightarrow> bool" where
  "raised f \<longleftrightarrow> (\<forall>t. (it_committed t \<longrightarrow> it_committed (f t)) \<and> (it_dropped t \<longrightarrow> it_dropped (f t)))"

lemma settled_raised:
  assumes "raised f" "implicit_settled c s" "am_implicit (sq_mem t) = (am_implicit (sq_mem s))[i := f (impl (sq_mem s) i)]"
    "am_commits (sq_mem t) = am_commits (sq_mem s)"
  shows "implicit_settled c t"
  using assms(1,2) unfolding implicit_settled_def assms(3,4) by (auto simp: raised_def nth_update_any)

lemma committed_ok:
  assumes ok: "commits_ok X m"
  shows "commits_ok (insert i X) (set_implicit i (\<lambda>t. t\<lparr>it_committed := True\<rparr>) m)"
proof -
  let ?m = "set_implicit i (\<lambda>t. t\<lparr>it_committed := True\<rparr>) m"
  have im: "length (am_implicit ?m) = length (am_implicit m)" "\<And>j. it_dropped (impl ?m j) = it_dropped (impl m j)"
    "\<And>j. it_confirmed (impl ?m j) = it_confirmed (impl m j)"
    "\<And>j. it_committed (impl m j) \<Longrightarrow> it_committed (impl ?m j)"
    "\<And>j. it_committed (impl ?m j) \<Longrightarrow> j = i \<or> it_committed (impl m j)"
    by (auto simp: set_implicit_def nth_update_any split: if_splits)
  have rest: "am_commits ?m = am_commits m" "am_current ?m = am_current m" "am_last_commit ?m = am_last_commit m"
    "am_locks ?m = am_locks m"
    by (simp_all add: set_implicit_def)
  have fs: "flush_scheduled ?m j = flush_scheduled m j" for j unfolding flush_scheduled_def im rest ..
  have cs: "commit_sane X m c \<Longrightarrow> commit_sane (insert i X) ?m c" for c
    unfolding commit_sane_def im rest using im(4) by blast
  show ?thesis using ok cs im(5) unfolding commits_ok_def fs rest im(1) by blast
qed

lemma holder_committed:
  assumes "holder_ok b m" "i < length (am_implicit m)" "\<not> it_committed (impl m i)" "\<not> it_dropped (impl m i)"
  shows "holder_ok False (set_implicit i (\<lambda>t. t\<lparr>it_committed := True\<rparr>) m)"
proof -
  let ?m = "set_implicit i (\<lambda>t. t\<lparr>it_committed := True\<rparr>) m"
  have "am_current m = ImplicitTxn i" using assms by (auto simp: holder_ok_def)
  moreover have "am_current m = ImplicitTxn j" if "j < length (am_implicit m)" "\<not> it_committed (impl m j)" "\<not> it_dropped (impl m j)" for j
    using assms(1) that by (auto simp: holder_ok_def)
  ultimately have "j = i" if "j < length (am_implicit m)" "\<not> it_committed (impl m j)" "\<not> it_dropped (impl m j)" for j
    using that by fastforce
  then show ?thesis using assms(2) by (auto simp: holder_ok_def set_implicit_def nth_update_any)
qed

text \<open>Ending the transaction with a statement that ends it.\<close>

lemma end_implicit:
  fixes prep u sr
  defines "E \<equiv> file_env prep u sr"
  assumes st: "st = STMT_COMMIT \<or> st = STMT_ROLLBACK"
    and s: "store_ok s" "guarded X C s" "i < length (am_implicit (sq_mem s))" "\<not> it_dropped (impl (sq_mem s) i)"
      "\<not> it_committed (impl (sq_mem s) i)"
    and run: "op_bind (run_control E st) (\<lambda>_. upd (set_implicit i (\<lambda>t. t\<lparr>it_committed := True\<rparr>))) s = (r, t)"
  shows "store_ok t" "r = Inr () \<Longrightarrow> guarded (insert i X) C t \<and> it_committed (impl (sq_mem t) i) \<and> \<not> it_dropped (impl (sq_mem t) i)"
    "r = Inl e \<Longrightarrow> guarded X C t"
    "am_current (sq_mem t) = am_current (sq_mem s)" "am_commits (sq_mem t) = am_commits (sq_mem s)"
    "length (am_implicit (sq_mem t)) = length (am_implicit (sq_mem s))"
    "r = Inl e \<Longrightarrow> am_implicit (sq_mem t) = am_implicit (sq_mem s)"
proof -
  obtain q v where q: "run_control E st s = (q, v)" by fastforce
  have cl: "classify (st_sql st) = Inr (CommitTxn None) \<and> st = control_stmt (st_sql st) (CommitTxn None) \<or>
      classify (st_sql st) = Inr (RollbackTxn None) \<and> st = control_stmt (st_sql st) (RollbackTxn None)"
    using st control_texts by (auto simp: STMT_COMMIT_def STMT_ROLLBACK_def control_stmt_def)
  have intxn: "sq_in_txn s" if "sq_critical s = None"
    using s that by (auto simp: guarded_def txn_inv_def holder_ok_def)
  have "store_ok (snd (db_run1 control_hooks (file_backend prep (empty_tables u)) st [] False s))"
    using cl control.run_control_at [OF s(1), of "st_sql st" _ prep u "[]" False] intxn by fastforce
  then have okv: "store_ok v" using q unfolding run_control_def E_def file_env_backend
    by (auto simp: op_simps split: prod.splits sum.splits)
  have rt: "(r, t) = (case q of Inl e \<Rightarrow> (Inl e, v) | Inr _ \<Rightarrow> (Inr (), mem (set_implicit i (\<lambda>t. t\<lparr>it_committed := True\<rparr>)) v))"
    unfolding run [symmetric] using q by (cases q) (simp_all add: op_bind_def op_modify_def)
  obtain c where c: "classify (st_sql st) = Inr c" "c \<in> {CommitTxn None, RollbackTxn None}" using cl by blast
  have "store_ok t \<and> (r = Inr () \<longrightarrow> guarded (insert i X) C t \<and> it_committed (impl (sq_mem t) i) \<and> \<not> it_dropped (impl (sq_mem t) i)) \<and>
      (\<forall>e. r = Inl e \<longrightarrow> guarded X C t \<and> am_implicit (sq_mem t) = am_implicit (sq_mem s)) \<and>
      am_current (sq_mem t) = am_current (sq_mem s) \<and> am_commits (sq_mem t) = am_commits (sq_mem s) \<and>
      length (am_implicit (sq_mem t)) = length (am_implicit (sq_mem s))"
  proof (rule run_control_cases [OF c(1) _ q], goal_cases)
    case 1 show ?case using c(2) by auto
  next
    case (2 e)
    have v: "txn_view (sq_mem v) = txn_view (sq_mem s)" by (rule view_outside) (use 2 in simp)
    then show ?case using 2 rt okv guarded_view [OF s(2) v] view_fields [OF v] by simp
  next
    case (3 e e' f)
    have "am_implicit (sq_mem v) = am_implicit (sq_mem s) \<and> am_current (sq_mem v) = am_current (sq_mem s) \<and>
        am_commits (sq_mem v) = am_commits (sq_mem s)"
      unfolding 3(2) by (cases "am_broken (sq_mem s)") (simp_all add: on_critical_error_def mem_def add_lock_def Let_def)
    then show ?case using 3 rt okv guarded_critical [OF s(2)] by simp
  next
    case 4
    have v: "txn_view (sq_mem v) = txn_view (sq_mem s)" by (rule view_outside) (use 4 in simp)
    note vf = view_fields [OF v]
    have t: "r = Inr ()" "t = mem (set_implicit i (\<lambda>t. t\<lparr>it_committed := True\<rparr>)) v" using rt 4 by simp_all
    have "guarded (insert i X) C t"
    proof (rule guarded_fields [OF s(2)])
      show "commits_ok (insert i X) (sq_mem t)" if "commits_ok X (sq_mem s)"
      proof -
        have "commits_ok X (sq_mem v)" using that ok_lock(1) [of "sq_mem v" "sq_mem s"] vf by simp
        then show ?thesis using committed_ok t(2) by (simp add: mem_def)
      qed
      show "holder_ok (sq_in_txn t) (sq_mem t)" if "holder_ok (sq_in_txn s) (sq_mem s)"
      proof -
        have "holder_ok (sq_in_txn s) (sq_mem v)" using that ok_lock(2) [of "sq_mem v" "sq_mem s"] vf by simp
        from holder_committed [OF this, of i] show ?thesis using s(3-5) vf t(2) 4 c(2) by (auto simp: mem_def)
      qed
      show "implicit_settled k t" if "implicit_settled k s" for k
        by (rule settled_raised [OF _ that, where i = i and f = "\<lambda>t. t\<lparr>it_committed := True\<rparr>"])
          (use t(2) vf in \<open>simp_all add: raised_def mem_def set_implicit_def\<close>)
    qed (use 4 t(2) in \<open>simp add: mem_def\<close>)
    moreover have "store_ok t" unfolding t(2) by (rule store_ok_mem [OF okv]) simp
    ultimately show ?case using t s(3,4) vf by (simp add: mem_def set_implicit_def nth_update_any)
  qed
  then show "store_ok t" "r = Inr () \<Longrightarrow> guarded (insert i X) C t \<and> it_committed (impl (sq_mem t) i) \<and> \<not> it_dropped (impl (sq_mem t) i)"
    "r = Inl e \<Longrightarrow> guarded X C t"
    "am_current (sq_mem t) = am_current (sq_mem s)" "am_commits (sq_mem t) = am_commits (sq_mem s)"
    "length (am_implicit (sq_mem t)) = length (am_implicit (sq_mem s))"
    "r = Inl e \<Longrightarrow> am_implicit (sq_mem t) = am_implicit (sq_mem s)"
    by blast+
qed

lemma implicit_ends:
  fixes prep u sr
  defines "E \<equiv> file_env prep u sr"
  assumes op: "op = implicit_commit E i \<or> op = implicit_rollback E i"
    and s: "store_ok s" "guarded X C s" "i < length (am_implicit (sq_mem s))" "\<not> it_dropped (impl (sq_mem s) i)"
    and run: "op s = (r, t)"
  shows "store_ok t" "r = Inr () \<Longrightarrow> guarded (insert i X) C t \<and> it_committed (impl (sq_mem t) i) \<and> \<not> it_dropped (impl (sq_mem t) i)"
    "r = Inl e \<Longrightarrow> guarded X C t"
    "am_current (sq_mem t) = am_current (sq_mem s)" "am_commits (sq_mem t) = am_commits (sq_mem s)"
    "length (am_implicit (sq_mem t)) = length (am_implicit (sq_mem s))"
    "r = Inl e \<Longrightarrow> am_implicit (sq_mem t) = am_implicit (sq_mem s)"
proof -
  have more: "guarded (insert i X) C s" using s(2) unfolding guarded_def txn_inv_def commits_ok_def commit_sane_def by blast
  have all: "store_ok t \<and> (r = Inr () \<longrightarrow> guarded (insert i X) C t \<and> it_committed (impl (sq_mem t) i) \<and> \<not> it_dropped (impl (sq_mem t) i)) \<and>
      (\<forall>e. r = Inl e \<longrightarrow> guarded X C t \<and> am_implicit (sq_mem t) = am_implicit (sq_mem s)) \<and>
      am_current (sq_mem t) = am_current (sq_mem s) \<and> am_commits (sq_mem t) = am_commits (sq_mem s) \<and>
      length (am_implicit (sq_mem t)) = length (am_implicit (sq_mem s))"
  proof (cases "it_committed (impl (sq_mem s) i)")
    case True
    then have "r = Inr ()" "t = s" using run op by (auto simp: implicit_commit_def implicit_rollback_def)
    then show ?thesis using s True more by simp
  next
    case False
    then have "op_bind (run_control E STMT_COMMIT) (\<lambda>_. upd (set_implicit i (\<lambda>t. t\<lparr>it_committed := True\<rparr>))) s = (r, t) \<or>
      op_bind (run_control E STMT_ROLLBACK) (\<lambda>_. upd (set_implicit i (\<lambda>t. t\<lparr>it_committed := True\<rparr>))) s = (r, t)"
      using run op by (auto simp: implicit_commit_def implicit_rollback_def)
    then obtain st where st: "st = STMT_COMMIT \<or> st = STMT_ROLLBACK"
      "op_bind (run_control E st) (\<lambda>_. upd (set_implicit i (\<lambda>t. t\<lparr>it_committed := True\<rparr>))) s = (r, t)"
      by blast
    show ?thesis using end_implicit [OF st(1) s False st(2) [unfolded E_def]] by blast
  qed
  then show "store_ok t" "r = Inr () \<Longrightarrow> guarded (insert i X) C t \<and> it_committed (impl (sq_mem t) i) \<and> \<not> it_dropped (impl (sq_mem t) i)"
    "r = Inl e \<Longrightarrow> guarded X C t"
    "am_current (sq_mem t) = am_current (sq_mem s)" "am_commits (sq_mem t) = am_commits (sq_mem s)"
    "length (am_implicit (sq_mem t)) = length (am_implicit (sq_mem s))"
    "r = Inl e \<Longrightarrow> am_implicit (sq_mem t) = am_implicit (sq_mem s)"
    by blast+
qed

text \<open>Marking it dropped.\<close>

definition drop_mark :: "nat \<Rightarrow> actor_mem \<Rightarrow> actor_mem" where
  "drop_mark i m = (set_implicit i (\<lambda>t. t\<lparr>it_dropped := True\<rparr>) m)\<lparr>am_current :=
     (if am_current m = ImplicitTxn i then NoTxn else am_current m)\<rparr>"

lemma drop_mark_ok:
  assumes "i \<in> X"
  shows "commits_ok X m \<Longrightarrow> commits_ok X (drop_mark i m)" "holder_ok b m \<Longrightarrow> holder_ok b (drop_mark i m)"
proof -
  let ?m = "drop_mark i m"
  have im: "length (am_implicit ?m) = length (am_implicit m)" "\<And>j. it_committed (impl ?m j) = it_committed (impl m j)"
    "\<And>j. it_confirmed (impl ?m j) = it_confirmed (impl m j)"
    "\<And>j. it_dropped (impl m j) \<Longrightarrow> it_dropped (impl ?m j)"
    "\<And>j. it_dropped (impl ?m j) \<Longrightarrow> j = i \<or> it_dropped (impl m j)"
    "i < length (am_implicit m) \<Longrightarrow> it_dropped (impl ?m i)"
    by (auto simp: drop_mark_def set_implicit_def nth_update_any split: if_splits)
  have rest: "am_commits ?m = am_commits m" "am_last_commit ?m = am_last_commit m" "am_locks ?m = am_locks m"
    by (simp_all add: drop_mark_def set_implicit_def)
  have cur: "am_current ?m = ImplicitTxn j \<longleftrightarrow> am_current m = ImplicitTxn j \<and> j \<noteq> i" for j
    by (auto simp: drop_mark_def set_implicit_def)
  have fs: "flush_scheduled m j \<Longrightarrow> j \<noteq> i \<Longrightarrow> flush_scheduled ?m j" for j
    unfolding flush_scheduled_def im(1,3) rest using im(5) by blast
  have cs: "commit_sane X m c \<Longrightarrow> commit_sane X ?m c" for c
    unfolding commit_sane_def im(1,2) rest using im(4,5) assms by blast
  show "commits_ok X m \<Longrightarrow> commits_ok X ?m" unfolding commits_ok_def cur rest im(1,2) using fs cs by blast
  show "holder_ok b m \<Longrightarrow> holder_ok b ?m" unfolding holder_ok_def cur im(1,2) using im(4,5,6) by blast
qed

lemma drop_mark_guarded: "guarded X C s \<Longrightarrow> i \<in> X \<Longrightarrow> guarded X C (mem (drop_mark i) s)"
proof (rule guarded_fields [of X C s])
  show "implicit_settled c (mem (drop_mark i) s)" if "implicit_settled c s" for c
    by (rule settled_raised [OF _ that, of "\<lambda>t. t\<lparr>it_dropped := True\<rparr>" _ i])
      (simp_all add: raised_def mem_def drop_mark_def set_implicit_def)
qed (simp_all add: mem_def drop_mark_ok)

lemma guarded_more: "guarded X C s \<Longrightarrow> guarded (insert i X) C s"
  unfolding guarded_def txn_inv_def commits_ok_def commit_sane_def by blast

lemma implicit_drop_ok:
  fixes prep u sr
  defines "E \<equiv> file_env prep u sr"
  assumes s: "store_ok s" "guarded (insert i X) C s" "i < length (am_implicit (sq_mem s))"
    and run: "implicit_drop E i s = (r, t)"
  shows "store_ok t" "guarded (insert i X) C t" "it_dropped (impl (sq_mem t) i)" "am_commits (sq_mem t) = am_commits (sq_mem s)"
    "length (am_implicit (sq_mem t)) = length (am_implicit (sq_mem s))"
    "it_committed (impl (sq_mem s) i) \<Longrightarrow> r = Inr () \<and> it_committed (impl (sq_mem t) i)"
proof -
  let ?v = "mem (drop_mark i) s"
  have gv: "guarded (insert i X) C ?v" by (rule drop_mark_guarded [OF s(2)]) simp
  have okv: "store_ok ?v" by (rule store_ok_mem [OF s(1)]) (simp add: drop_mark_def)
  have v: "it_dropped (impl (sq_mem ?v) i)" "am_commits (sq_mem ?v) = am_commits (sq_mem s)"
    "length (am_implicit (sq_mem ?v)) = length (am_implicit (sq_mem s))"
    "it_committed (impl (sq_mem ?v) i) = it_committed (impl (sq_mem s) i)"
    using s(3) by (simp_all add: mem_def drop_mark_def set_implicit_def nth_update_any)
  have "store_ok t \<and> guarded (insert i X) C t \<and> it_dropped (impl (sq_mem t) i) \<and> am_commits (sq_mem t) = am_commits (sq_mem s) \<and>
      length (am_implicit (sq_mem t)) = length (am_implicit (sq_mem s)) \<and>
      (it_committed (impl (sq_mem s) i) \<longrightarrow> r = Inr () \<and> it_committed (impl (sq_mem t) i))"
  proof (cases "it_dropped (impl (sq_mem s) i)")
    case True
    then show ?thesis using run s by (simp add: implicit_drop_def)
  next
    case undropped: False
    have ru: "(r, t) = (if \<not> it_committed (impl (sq_mem s) i) \<and> am_broken (sq_mem s) = None then run_control E STMT_ROLLBACK ?v
        else (Inr (), ?v))"
      unfolding run [symmetric] using undropped v(4)
      by (simp add: implicit_drop_def op_bind_def op_modify_def drop_mark_def mem_def set_implicit_def)
    show ?thesis
    proof (cases "\<not> it_committed (impl (sq_mem s) i) \<and> am_broken (sq_mem s) = None")
      case False
      then have "r = Inr ()" "t = ?v" using ru by (auto split: if_splits)
      then show ?thesis using gv okv v by simp
    next
      case True
      then have q: "run_control E STMT_ROLLBACK ?v = (r, t)" using ru by simp
      have hold: "sq_critical s = None \<Longrightarrow> holder_ok (sq_in_txn s) (sq_mem s)" using s(2) by (simp add: guarded_def txn_inv_def)
      have intxn: "sq_in_txn s" if "sq_critical s = None"
        using hold [OF that] True undropped s(3) by (auto simp: holder_ok_def)
      have "store_ok (snd (db_run1 control_hooks (file_backend prep (empty_tables u)) STMT_ROLLBACK [] False ?v))"
        using control.run_control_at [OF okv, of "st_sql STMT_ROLLBACK" "RollbackTxn None" prep u "[]" False] control_texts(3) intxn
        by (simp add: STMT_ROLLBACK_def control_stmt_def mem_def)
      then have okt: "store_ok t" using q unfolding run_control_def E_def file_env_backend
        by (auto simp: op_simps split: prod.splits sum.splits)
      show ?thesis
      proof (rule run_control_cases [OF control_texts(3) _ q], goal_cases)
        case (2 e)
        have w: "txn_view (sq_mem t) = txn_view (sq_mem ?v)" by (rule view_outside) (use 2 in simp)
        then show ?case using okt guarded_view [OF gv w] 2 v True view_fields [OF w] by simp
      next
        case (3 e e' f)
        have "am_implicit (sq_mem t) = am_implicit (sq_mem ?v) \<and> am_commits (sq_mem t) = am_commits (sq_mem ?v)"
          unfolding 3(2) by (cases "am_broken (sq_mem ?v)") (simp_all add: on_critical_error_def mem_def add_lock_def Let_def)
        then show ?case using okt guarded_critical [OF gv] 3(2) v True by simp
      next
        case 4
        have w: "txn_view (sq_mem t) = txn_view (sq_mem ?v)" by (rule view_outside) (use 4 in simp)
        note wf = view_fields [OF w]
        have "guarded (insert i X) C t"
        proof (rule guarded_fields [OF gv])
          show "commits_ok (insert i X) (sq_mem t)" if "commits_ok (insert i X) (sq_mem ?v)"
            using that ok_lock(1) [of "sq_mem t" "sq_mem ?v"] wf by simp
          show "implicit_settled c t" if "implicit_settled c ?v" for c by (rule settled_view [OF that w])
          show "holder_ok (sq_in_txn t) (sq_mem t)"
          proof -
            have "am_current (sq_mem s) = ImplicitTxn i"
              using hold 4(2) True undropped s(3) by (auto simp: holder_ok_def mem_def)
            moreover have "am_current (sq_mem s) = ImplicitTxn j" if "j < length (am_implicit (sq_mem s))"
              "\<not> it_committed (impl (sq_mem s) j)" "\<not> it_dropped (impl (sq_mem s) j)" for j
              using hold 4(2) that by (auto simp: holder_ok_def mem_def)
            ultimately have only: "j = i" if "j < length (am_implicit (sq_mem s))"
              "\<not> it_committed (impl (sq_mem s) j)" "\<not> it_dropped (impl (sq_mem s) j)" for j using that by fastforce
            then have "holder_ok False (sq_mem ?v)" using s(3)
              by (auto simp: holder_ok_def mem_def drop_mark_def set_implicit_def nth_update_any split: if_splits)
            then show ?thesis using ok_lock(2) [of "sq_mem t" "sq_mem ?v"] wf 4(5) by simp
          qed
        qed (use 4 in simp)
        then show ?case using okt v True wf by simp
      qed simp
    qed
  qed
  then show "store_ok t" "guarded (insert i X) C t" "it_dropped (impl (sq_mem t) i)" "am_commits (sq_mem t) = am_commits (sq_mem s)"
    "length (am_implicit (sq_mem t)) = length (am_implicit (sq_mem s))"
    "it_committed (impl (sq_mem s) i) \<Longrightarrow> r = Inr () \<and> it_committed (impl (sq_mem t) i)"
    by blast+
qed

text \<open>Nothing of the transaction is left.\<close>

lemma left:
  assumes g: "guarded (insert i X) C s" and cur: "am_current (sq_mem s) \<noteq> ImplicitTxn i \<or> \<not> it_committed (impl (sq_mem s) i)"
    and sched: "\<And>c. c < length (am_commits (sq_mem s)) \<Longrightarrow> cm_kind (comm (sq_mem s) c) = FlushImplicit i \<Longrightarrow>
      cm_phase (comm (sq_mem s) c) = Scheduled \<Longrightarrow> \<not> it_dropped (impl (sq_mem s) i)"
  shows "guarded X C s"
proof -
  have ok: "commits_ok (insert i X) (sq_mem s)" using g by (simp add: guarded_def txn_inv_def)
  have "commit_sane X (sq_mem s) c" if "c < length (am_commits (sq_mem s))" for c
    using ok that sched [OF that] unfolding commits_ok_def commit_sane_def by blast
  then have "commits_ok X (sq_mem s)" using ok cur unfolding commits_ok_def by blast
  then show ?thesis using g by (simp add: guarded_def txn_inv_def)
qed

section \<open>The steps of a commit\<close>

text \<open>
  A property of the memory that a write keeps: starting a transaction, confirming one and locking the
  gate keep it, and it looks at nothing but the transactions. Every operation of the stores keeps it, and
  so does the scheduling of alarms.
\<close>

locale memory_property =
  fixes P :: "actor_mem \<Rightarrow> bool" and E :: "'u actor_env"
  assumes seen: "txn_view m' = txn_view m \<Longrightarrow> P m \<Longrightarrow> P m'"
    and started: "am_current m = NoTxn \<Longrightarrow> P m \<Longrightarrow> P (fresh_implicit m)"
    and confirmed: "P m \<Longrightarrow> P (add_lock l (set_implicit i (\<lambda>t. t\<lparr>it_confirmed := True\<rparr>) m))"
    and locked: "P m \<Longrightarrow> P (add_lock l m)"
begin

lemma critical_kept: "P (sq_mem s) \<Longrightarrow> P (sq_mem (snd (on_critical_error e (s :: 'u actor))))"
  using locked [of "(sq_mem s)\<lparr>am_broken := b\<rparr>" for b] seen [of "(sq_mem s)\<lparr>am_broken := b\<rparr>" "sq_mem s" for b]
  by (cases "am_broken (sq_mem s)") (simp_all add: on_critical_error_def mem_def Let_def txn_view_def)

lemma start_kept:
  assumes p: "P (sq_mem s)"
  shows "P (sq_mem (snd (start_implicit_txn E s)))"
proof (cases "am_current (sq_mem s) = NoTxn")
  case False
  then show ?thesis using p by (simp add: start_implicit_txn_def implicit_new_def op_bind_def)
next
  case True
  obtain r t where run: "run_control E STMT_BEGIN s = (r, t)" by fastforce
  have st: "start_implicit_txn E s = (case r of Inl e \<Rightarrow> (Inl e, t) | Inr _ \<Rightarrow> (Inr (), mem fresh_implicit t))"
    using True run by (simp add: start_implicit_txn_def implicit_new_def op_bind_def op_modify_def mem_def Let_def
        fresh_implicit_def add_commit_def split: sum.split)
  have "P (sq_mem t) \<and> (\<forall>v. r = Inr v \<longrightarrow> am_current (sq_mem t) = NoTxn)"
  proof (rule run_control_cases [OF control_texts(1) _ run], goal_cases)
    case (2 e)
    then show ?case using p seen [OF view_outside, of "sq_mem t" "sq_mem s"] by simp
  next
    case (3 e e' f)
    then show ?case using p critical_kept [of "s\<lparr>sq_file := f, sq_in_txn := False, sq_savepoints := [],
        sq_callbacks := [], sq_critical := Some e'\<rparr>" e'] by simp
  next
    case 4
    have v: "txn_view (sq_mem t) = txn_view (sq_mem s)" by (rule view_outside) (use 4 in simp)
    then show ?case using p seen [OF v] view_fields [OF v] True by simp
  qed simp
  then show ?thesis unfolding st using started by (cases r) (auto simp: mem_def)
qed

lemma write_kept:
  assumes p: "P (sq_mem s)"
  shows "P (sq_mem (snd (on_write E au s)))"
proof (cases "am_broken (sq_mem s)")
  case (Some e)
  then show ?thesis using p by (simp add: on_write_def require_not_broken_def op_bind_def)
next
  case None
  obtain r t where rt: "(if am_current (sq_mem s) = NoTxn then start_implicit_txn E s else (Inr (), s)) = (r, t)" by fastforce
  have t: "P (sq_mem t)" using rt p start_kept [OF p] by (cases "am_current (sq_mem s) = NoTxn") auto
  have "P (set_explicit j f (sq_mem t))" for j f
    by (rule seen [OF _ t]) (simp add: txn_view_def set_explicit_def)
  then show ?thesis using None rt t confirmed [OF t]
    by (cases r) (auto simp: on_write_def require_not_broken_def op_bind_def mem_def split: current_txn.split)
qed

sublocale outer_kept "\<lambda>s :: 'u actor. P (sq_mem s)" "actor_hooks E" be for be
proof unfold_locales
  show "P (sq_mem (snd (hk_on_critical (actor_hooks E) e (s\<lparr>sq_file := f, sq_in_txn := False, sq_savepoints := [],
      sq_callbacks := [], sq_critical := Some e\<rparr>))))" if "P (sq_mem s)" for s e f
    using critical_kept [of "s\<lparr>sq_file := f, sq_in_txn := False, sq_savepoints := [], sq_callbacks := [],
      sq_critical := Some e\<rparr>" e] that by (simp add: actor_hooks_def)
  show "P (sq_mem t)" if "P (sq_mem s)" "outside (sq_mem t) = outside (sq_mem s)" for s t :: "'u actor"
    using seen [OF view_outside] that by blast
qed (simp_all add: actor_hooks_def write_kept)

lemma upd_kept: "(\<And>m. txn_view (f m) = txn_view m) \<Longrightarrow> outer (upd f)"
  using seen by (auto simp: outer_def op_modify_def mem_def)

lemma request_kept: "outer (request_scheduled_alarm E' t p)"
  using seen by (fastforce simp: outer_def request_scheduled_alarm_def Let_def mem_def split: option.splits)

lemma precommit_kept: "outer (start_precommit_alarm_scheduling E)"
proof -
  have "outer (op_bind (upd (\<lambda>m. m\<lparr>am_pending_later := None\<rparr>)) (\<lambda>_. op_bind (stored_alarm E)
      (\<lambda>a. op_bind (request_scheduled_alarm E a p) (\<lambda>k. op_return (Some k)))))" for p
    by (intro outer_bind upd_kept request_kept outer_get_alarm outer_pure) simp
  then have "outer (\<lambda>s. (if will_fire_earlier a (am_no_later (sq_mem s)) then
      op_bind (upd (\<lambda>m. m\<lparr>am_pending_later := None\<rparr>)) (\<lambda>_. op_bind (stored_alarm E)
        (\<lambda>a. op_bind (request_scheduled_alarm E a (am_later_in_flight (sq_mem s))) (\<lambda>k. op_return (Some k)))) s
      else (Inr None, s)))" for a
    by (auto simp: outer_def)
  from outer_if [OF outer_pure(3) outer_bind [OF outer_get_alarm this]]
  show ?thesis unfolding start_precommit_alarm_scheduling_def .
qed

lemma loop_kept:
  assumes "\<And>p. outer (enter c p)"
  shows "outer (commit_loop E c)"
proof -
  have "outer (op_bind (upd (\<lambda>m. m\<lparr>am_pending_commit := None\<rparr>)) (\<lambda>_. enter c (Persisting a v)))" for a v
    by (intro outer_bind upd_kept assms) simp
  note persist = this
  have "outer (\<lambda>s. op_bind (upd (\<lambda>m. m\<lparr>am_pending_commit := None\<rparr>)) (\<lambda>_. enter c (Persisting a (am_version (sq_mem s)))) s)" for a
    by (rule outer_state, rule persist)
  then show ?thesis unfolding commit_loop_def
    by (intro outer_bind outer_if outer_get_alarm request_kept assms)
qed

lemma impl_kept:
  assumes "\<And>p. outer (enter c p)" "\<And>e. outer (commit_failed c e)"
  shows "outer (commit_impl E c pre)"
proof -
  have "outer (op_bind (upd (\<lambda>m. m\<lparr>am_pending_commit := Some c\<rparr>)) (\<lambda>_. case pre of
      Some k \<Rightarrow> enter c (AwaitRequest k) | None \<Rightarrow> op_catch (commit_loop E c) (commit_failed c)))"
    by (intro outer_bind upd_kept) (auto intro!: assms outer_catch loop_kept split: option.split)
  then show ?thesis using assms(1) by (auto simp: outer_def commit_impl_def split: option.split)
qed

end

text \<open>The flush of a transaction, and one that is still to run.\<close>

definition flushes :: "nat \<Rightarrow> nat \<Rightarrow> actor_mem \<Rightarrow> bool" where
  "flushes c i m \<longleftrightarrow> c < length (am_commits m) \<and> cm_kind (comm m c) = FlushImplicit i \<and> i < length (am_implicit m)"

definition pend :: "nat \<Rightarrow> nat \<Rightarrow> actor_mem \<Rightarrow> bool" where
  "pend c i m \<longleftrightarrow> flushes c i m \<and> cm_phase (comm m c) = Scheduled \<and> \<not> it_dropped (impl m i)"

interpretation pend: memory_property "pend c i" E for c i E
  by unfold_locales (auto simp: pend_def flushes_def fresh_implicit_def add_commit_def add_lock_def set_implicit_def
      nth_append nth_update_any dest!: view_fields)

interpretation flushing: memory_property "flushes c i" E for c i E
  by unfold_locales (auto simp: flushes_def fresh_implicit_def add_commit_def add_lock_def set_implicit_def
      nth_append nth_update_any dest!: view_fields)

lemma flushes_impl: "flushing.outer c i (commit_impl E k pre)"
proof -
  have "flushes c i (set_commit k f m)" if "flushes c i m" "\<And>q. cm_kind (f q) = cm_kind q" for f m
    using that by (auto simp: flushes_def set_commit_def nth_update_any)
  then show ?thesis
    by (intro flushing.impl_kept) (auto simp: flushing.outer_def enter_def commit_failed_def op_modify_def mem_def)
qed

text \<open>What \<open>commitImpl\<close> leaves: the commit has been taken up.\<close>

lemma enter_phase: "enter c p s = (r, t) \<Longrightarrow> c < length (am_commits (sq_mem s)) \<Longrightarrow>
    cm_phase (comm (sq_mem t) c) = p \<and> r = Inr ()"
  by (auto simp: enter_def op_modify_def mem_def set_commit_def)

definition actor_inv :: "'u actor \<Rightarrow> bool" where
  "actor_inv s \<longleftrightarrow> store_ok s \<and> guarded {} {} s"

definition step_ok :: "('u, 'a) aop \<Rightarrow> bool" where
  "step_ok m \<longleftrightarrow> (\<forall>s. actor_inv s \<longrightarrow> actor_inv (snd (m s)))"

lemma good_step: "good {} {} m \<Longrightarrow> step_ok m"
  by (simp add: good_def step_ok_def actor_inv_def)

lemma guarded_settled: "guarded X C s \<Longrightarrow> implicit_settled c s \<Longrightarrow> guarded X (insert c C) s"
  by (simp add: guarded_def)

lemma guarded_less: "guarded X (insert c C) s \<Longrightarrow> guarded X C s"
  by (simp add: guarded_def)

text \<open>A commit in the middle of its work, continued.\<close>

lemma underway_settled:
  assumes "guarded {} C s" "c < length (am_commits (sq_mem s))" "underway (cm_phase (comm (sq_mem s) c))"
  shows "implicit_settled c s"
proof -
  have "commit_sane {} (sq_mem s) c" using assms(1,2) by (simp add: guarded_def txn_inv_def commits_ok_def)
  moreover have "cm_phase (comm (sq_mem s) c) \<noteq> Scheduled" using assms(3) by (auto simp: underway_def)
  ultimately show ?thesis using assms(2,3) by (simp add: commit_sane_def implicit_settled_def)
qed

lemma step_underway:
  assumes m: "good {} {c} m" and s: "actor_inv s" "c < length (am_commits (sq_mem s))" "underway (cm_phase (comm (sq_mem s) c))"
  shows "actor_inv (snd (m s))"
proof -
  have g: "store_ok s" "guarded {} {} s" using s(1) by (simp_all add: actor_inv_def)
  have "guarded {} {c} s" by (rule guarded_settled [OF g(2) underway_settled [OF g(2) s(2,3)]])
  then have "store_ok (snd (m s)) \<and> guarded {} {c} (snd (m s))" using m g(1) by (simp add: good_def)
  then show ?thesis using guarded_less [of "{}" c "{}" "snd (m s)"] by (simp add: actor_inv_def)
qed

lemma commit_resume_inv:
  assumes "actor_inv s" "c < length (am_commits (sq_mem s))"
  shows "actor_inv (snd (commit_resume (file_env prep u sr) c s))"
proof (cases "cm_phase (comm (sq_mem s) c)")
  case (AwaitRequest k)
  note go = step_underway [OF _ assms]
  have "actor_inv (snd (op_catch (commit_loop (file_env prep u sr) c) (commit_failed c) s))" "actor_inv (snd (commit_failed c e s))" for e
    by (rule go; use AwaitRequest in \<open>auto simp: underway_def intro!: good_catch commit_good\<close>)+
  then show ?thesis using AwaitRequest assms(1)
    by (cases "rq_result (am_requests (sq_mem s) ! k)"; cases "the (rq_result (am_requests (sq_mem s) ! k))")
      (simp_all add: commit_resume_def)
next
  case (Merged p)
  note go = step_underway [OF _ assms]
  have "actor_inv (snd (enter c Finished s))" "actor_inv (snd (enter c (Failed e) s))" for e
    by (rule go; use Merged in \<open>auto simp: underway_def intro!: commit_good\<close>)+
  then show ?thesis using Merged assms(1)
    by (cases "cm_shared (comm (sq_mem s) p)"; cases "the (cm_shared (comm (sq_mem s) p))")
      (simp_all add: commit_resume_def)
qed (use assms in \<open>simp_all add: commit_resume_def\<close>)

lemma commit_persisted_inv:
  assumes "actor_inv s" "c < length (am_commits (sq_mem s))"
  shows "actor_inv (snd (commit_persisted (file_env prep u sr) c res s))"
proof (cases "cm_phase (comm (sq_mem s) c)")
  case (Persisting a v)
  let ?E = "file_env prep u sr"
  let ?m = "op_bind (\<lambda>s. (if am_version (sq_mem s) = v \<and> will_fire_earlier (am_no_later (sq_mem s)) a
                      then schedule_later_alarm ?E a s else (Inr (), s))) (\<lambda>_. enter c Finished)"
  let ?s0 = "mem (\<lambda>m. m\<lparr>am_confirmed := a\<rparr>) s"
  let ?s1 = "mem (\<lambda>m. set_commit c (\<lambda>k. k\<lparr>cm_shared := Some (Inr ())\<rparr>) (m\<lparr>am_confirmed := a\<rparr>)) s"
  have g: "store_ok s" "guarded {} {} s" using assms(1) by (simp_all add: actor_inv_def)
  have fail: "actor_inv (snd (commit_failed c e s))" for e
    by (rule step_underway [OF _ assms]; use Persisting in \<open>auto simp: underway_def intro!: commit_good\<close>)
  have "implicit_settled c s" by (rule underway_settled [OF g(2) assms(2)]) (simp add: Persisting underway_def)
  then have "guarded {} {c} s" by (rule guarded_settled [OF g(2)])
  then have s0: "guarded {} {c} ?s0" by (rule guarded_view) (simp_all add: mem_def)
  have "guarded {} {c} (mem (set_commit c (\<lambda>k. k\<lparr>cm_shared := Some (Inr ())\<rparr>)) ?s0)"
    by (rule set_commit_guarded [OF s0 guardedD(2) [OF s0]]) (use Persisting in \<open>simp_all add: mem_def\<close>)
  then have s1: "guarded {} {c} ?s1" by (simp add: mem_def)
  have "store_ok ?s1" by (rule store_ok_mem [OF g(1)]) simp
  moreover have "good {} {c} (op_catch ?m (commit_failed c))"
    by (intro good_catch good_bind good_if schedule_later_good good_pure commit_good) simp_all
  ultimately have "actor_inv (snd (op_catch ?m (commit_failed c) ?s1))"
    using s1 guarded_less [of "{}" c "{}" "snd (op_catch ?m (commit_failed c) ?s1)"] by (simp add: good_def actor_inv_def)
  then show ?thesis using fail Persisting
    by (cases res) (simp_all add: commit_persisted_def op_bind_def op_catch_def op_modify_def)
qed (use assms in \<open>simp_all add: commit_persisted_def\<close>)

lemma add_lock_guarded:
  assumes "guarded X C s"
  shows "guarded X C (mem (add_lock l) s)"
proof (rule guarded_fields [OF assms])
  show "commits_ok X (sq_mem (mem (add_lock l) s))" if "commits_ok X (sq_mem s)"
    by (rule ok_lock(1) [OF _ _ _ _ _ that]) (auto simp: mem_def add_lock_def)
  show "holder_ok (sq_in_txn (mem (add_lock l) s)) (sq_mem (mem (add_lock l) s))" if "holder_ok (sq_in_txn s) (sq_mem s)"
    using that by (simp add: mem_def add_lock_def holder_ok_def)
qed (simp_all add: mem_def add_lock_def implicit_settled_def)

lemma phase_guarded:
  assumes g: "guarded {} {} s" and c: "c < length (am_commits (sq_mem s))" "cm_phase (comm (sq_mem s) c) \<noteq> Scheduled"
    and p: "p \<noteq> Scheduled" "\<not> underway p"
  shows "guarded {} {} (mem (set_commit c (\<lambda>k. k\<lparr>cm_phase := p\<rparr>)) s)"
proof -
  let ?f = "\<lambda>k. k\<lparr>cm_phase := p\<rparr>"
  have "commit_sane {} (sq_mem s) c" using g c(1) by (simp add: guarded_def txn_inv_def commits_ok_def)
  then have out: "it_dropped (impl (sq_mem s) i)" if "cm_kind (comm (sq_mem s) c) = FlushImplicit i" for i
    using c(2) that by (simp add: commit_sane_def)
  show ?thesis
  proof (rule guarded_fields [OF g])
    show "commits_ok {} (sq_mem (mem (set_commit c ?f) s))" if "commits_ok {} (sq_mem s)"
      using set_commit_ok(1) [OF that, of ?f c] c(1) p out by (simp add: mem_def)
    show "holder_ok (sq_in_txn (mem (set_commit c ?f) s)) (sq_mem (mem (set_commit c ?f) s))" if "holder_ok (sq_in_txn s) (sq_mem s)"
      using that by (simp add: mem_def set_commit_def holder_ok_def)
    show "implicit_settled k (mem (set_commit c ?f) s)" if "implicit_settled k s" for k
      using that by (auto simp: implicit_settled_def mem_def set_commit_def nth_update_any)
  qed (simp add: mem_def)
qed

lemma commit_ends_inv:
  assumes "actor_inv s" "c < length (am_commits (sq_mem s))"
  shows "actor_inv (mem (commit_caught c) s)" "actor_inv (mem (commit_task_failed c) s)"
proof -
  have g: "store_ok s" "guarded {} {} s" using assms(1) by (simp_all add: actor_inv_def)
  have caches: "caches (commit_caught c m) = caches m" "caches (commit_task_failed c m) = caches m" for m
    by (simp_all add: commit_caught_def commit_task_failed_def split: phase.split)
  show "actor_inv (mem (commit_caught c) s)"
  proof (cases "\<exists>e. cm_phase (comm (sq_mem s) c) = Failed e")
    case True
    then obtain e where e: "cm_phase (comm (sq_mem s) c) = Failed e" by blast
    let ?l = "\<lambda>m. if cm_kind (comm (sq_mem s) c) = FlushDeleteAll then m else add_lock (LockError e) m"
    have "guarded {} {} (mem ?l s)"
      by (cases "cm_kind (comm (sq_mem s) c) = FlushDeleteAll") (use g(2) add_lock_guarded [OF g(2)] in \<open>simp_all add: mem_def\<close>)
    then have "guarded {} {} (mem (set_commit c (\<lambda>k. k\<lparr>cm_phase := Caught e\<rparr>)) (mem ?l s))"
      by (rule phase_guarded) (use assms(2) e in \<open>simp_all add: mem_def add_lock_def underway_def\<close>)
    then show ?thesis using e store_ok_mem [OF g(1), of "commit_caught c"] caches
      by (simp add: actor_inv_def mem_def commit_caught_def)
  next
    case False
    then show ?thesis using assms(1) by (cases "cm_phase (comm (sq_mem s) c)") (auto simp: mem_def commit_caught_def)
  qed
  show "actor_inv (mem (commit_task_failed c) s)"
  proof (cases "\<exists>e. cm_phase (comm (sq_mem s) c) = Caught e")
    case True
    then obtain e where e: "cm_phase (comm (sq_mem s) c) = Caught e" by blast
    let ?b = "\<lambda>m. m\<lparr>am_broken := (case am_broken m of None \<Rightarrow> Some e | Some b \<Rightarrow> Some b)\<rparr>"
    have "guarded {} {} (mem ?b s)" by (rule guarded_view [OF g(2)]) (simp_all add: mem_def)
    then have "guarded {} {} (mem (set_commit c (\<lambda>k. k\<lparr>cm_phase := Dead\<rparr>)) (mem ?b s))"
      by (rule phase_guarded) (use assms(2) e in \<open>simp_all add: mem_def underway_def\<close>)
    then show ?thesis using e store_ok_mem [OF g(1), of "commit_task_failed c"] caches
      by (simp add: actor_inv_def mem_def commit_task_failed_def)
  next
    case False
    then show ?thesis using assms(1) by (cases "cm_phase (comm (sq_mem s) c)") (auto simp: mem_def commit_task_failed_def)
  qed
qed

text \<open>The flush of an implicit transaction.\<close>

definition moves :: "nat \<Rightarrow> ('u, 'a) aop \<Rightarrow> bool" where
  "moves c m \<longleftrightarrow> (\<forall>s. c < length (am_commits (sq_mem (snd (m s)))) \<longrightarrow> cm_phase (comm (sq_mem (snd (m s))) c) \<noteq> Scheduled)"

lemma enter_moves: "p \<noteq> Scheduled \<Longrightarrow> moves c (enter c p)" and failed_moves: "moves c (commit_failed c e)"
  by (auto simp: moves_def enter_def commit_failed_def op_modify_def mem_def set_commit_def)

lemma loop_moves: "moves c (op_catch (commit_loop E c) (commit_failed c))"
proof -
  have "cm_phase (comm (sq_mem t) c) \<noteq> Scheduled"
    if "commit_loop E c s = (Inr v, t)" "c < length (am_commits (sq_mem t))" for s v t
  proof -
    have d: "AwaitRequest k \<noteq> Scheduled" "Persisting a n \<noteq> Scheduled" for k a n by simp_all
    have "\<exists>p w. enter c p w = (Inr v, t) \<and> p \<noteq> Scheduled"
    proof (rule op_bind_InrE [OF that(1) [unfolded commit_loop_def]], goal_cases)
      case (1 a t1)
      show ?case
      proof (cases "will_fire_earlier a (am_no_later (sq_mem t1))")
        case True
        then obtain b t2 k t3 where "enter c (AwaitRequest k) t3 = (Inr v, t)" using 1(2) by (auto simp: op_bind_eq_Inr)
        then show ?thesis using d by blast
      next
        case False
        then obtain b t2 n t3 where "enter c (Persisting b n) t3 = (Inr v, t)" using 1(2) by (auto simp: op_bind_eq_Inr)
        then show ?thesis using d by blast
      qed
    qed
    then obtain p w where "enter c p w = (Inr v, t)" "p \<noteq> Scheduled" by blast
    then show ?thesis using enter_moves [of p c] that(2) by (auto simp: moves_def dest: spec [of _ w])
  qed
  then show ?thesis using failed_moves by (auto simp: moves_def op_catch_def split: prod.splits sum.splits) blast
qed

lemma commit_impl_moves: "moves c (commit_impl E c pre)"
proof -
  have "moves c (case pre of Some k \<Rightarrow> enter c (AwaitRequest k) | None \<Rightarrow> op_catch (commit_loop E c) (commit_failed c))"
    using loop_moves enter_moves by (auto split: option.split)
  then show ?thesis using enter_moves [of "Merged _" c]
    by (auto simp: moves_def commit_impl_def op_bind_def op_modify_def split: option.split)
qed

lemma commit_impl_returns: "fst (commit_impl E c pre s) = Inr ()"
  by (auto simp: commit_impl_def op_simps enter_def commit_failed_def split: option.split prod.split sum.split)

text \<open>The end of the flush, normal or not.\<close>

lemma flush_end:
  fixes prep u sr
  defines "E \<equiv> file_env prep u sr"
  assumes s: "store_ok s" "guarded {i} {} s" "i < length (am_implicit (sq_mem s))" "c < length (am_commits (sq_mem s))"
      "cm_kind (comm (sq_mem s) c) = FlushImplicit i"
    and r: "r = Inr () \<Longrightarrow> implicit_settled c s \<and> cm_phase (comm (sq_mem s) c) \<noteq> Scheduled"
  shows "actor_inv (snd (op_catch (op_finally (\<lambda>_. (r, s)) (implicit_drop E i)) (\<lambda>e. enter c (Failed e)) s0))"
proof -
  obtain q v where q: "implicit_drop E i s = (q, v)" by fastforce
  note D = implicit_drop_ok [OF s(1) _ s(3) q [unfolded E_def], of "{}", simplified, OF s(2)]
  have uniq: "k = c" if "k < length (am_commits (sq_mem v))" "cm_kind (comm (sq_mem v) k) = FlushImplicit i" for k
    using s(2,4,5) that D(4) by (auto simp: guarded_def txn_inv_def commits_ok_def)
  have cur: "am_current (sq_mem w) \<noteq> ImplicitTxn i" if "guarded {i} {} w" "it_dropped (impl (sq_mem w) i)" for w
    using that by (auto simp: guarded_def txn_inv_def commits_ok_def flush_scheduled_def)
  have failed: "actor_inv (snd (enter c (Failed e) v))" for e
  proof -
    let ?f = "\<lambda>k. k\<lparr>cm_phase := Failed e\<rparr>" and ?w = "mem (set_commit c (\<lambda>k. k\<lparr>cm_phase := Failed e\<rparr>)) v"
    have w: "am_commits (sq_mem ?w) = (am_commits (sq_mem v))[c := ?f (comm (sq_mem v) c)]" "am_implicit (sq_mem ?w) = am_implicit (sq_mem v)"
      by (simp_all add: mem_def set_commit_def)
    have gw: "guarded {i} {} ?w"
    proof (rule guarded_fields [OF D(2)])
      show "commits_ok {i} (sq_mem ?w)" if "commits_ok {i} (sq_mem v)"
        using set_commit_ok(1) [OF that, of ?f c] s(4,5) D(3,4) by (simp add: mem_def underway_def)
      show "holder_ok (sq_in_txn ?w) (sq_mem ?w)" if "holder_ok (sq_in_txn v) (sq_mem v)"
        using that by (simp add: mem_def set_commit_def holder_ok_def)
      show "implicit_settled k ?w" if "implicit_settled k v" for k
        using that by (auto simp: implicit_settled_def mem_def set_commit_def nth_update_any)
    qed (simp add: mem_def)
    have "guarded {} {} ?w"
    proof (rule left [OF gw [simplified]])
      show "am_current (sq_mem ?w) \<noteq> ImplicitTxn i \<or> \<not> it_committed (impl (sq_mem ?w) i)" using cur [OF gw] D(3) w(2) by simp
      show "\<not> it_dropped (impl (sq_mem ?w) i)" if "k < length (am_commits (sq_mem ?w))"
        "cm_kind (comm (sq_mem ?w) k) = FlushImplicit i" "cm_phase (comm (sq_mem ?w) k) = Scheduled" for k
        using that uniq [of k] s(4) D(4) w(1) by (auto simp: nth_update_any split: if_splits)
    qed
    moreover have "store_ok ?w" by (rule store_ok_mem [OF D(1)]) simp
    ultimately show ?thesis by (simp add: actor_inv_def enter_def op_modify_def)
  qed
  show ?thesis
  proof (cases "\<exists>e. r = Inl e \<or> q = Inl e")
    case True
    then obtain e where "op_catch (op_finally (\<lambda>_. (r, s)) (implicit_drop E i)) (\<lambda>e. enter c (Failed e)) s0 = enter c (Failed e) v"
      using q by (cases q) (auto simp: op_catch_def op_finally_def)
    then show ?thesis using failed by simp
  next
    case False
    then have rq: "r = Inr ()" "q = Inr ()" by (metis sum.exhaust unit.exhaust old.unit.exhaust)+
    have "it_dropped (impl (sq_mem s) i)" using r [OF rq(1)] s(5) by (simp add: implicit_settled_def)
    then have "v = s" using q by (simp add: implicit_drop_def)
    have "guarded {} {} s"
    proof (rule left [OF s(2) [simplified]])
      show "am_current (sq_mem s) \<noteq> ImplicitTxn i \<or> \<not> it_committed (impl (sq_mem s) i)"
        using cur [OF s(2)] \<open>it_dropped (impl (sq_mem s) i)\<close> by simp
      show "\<not> it_dropped (impl (sq_mem s) i)" if "k < length (am_commits (sq_mem s))"
        "cm_kind (comm (sq_mem s) k) = FlushImplicit i" "cm_phase (comm (sq_mem s) k) = Scheduled" for k
        using that uniq [of k] r [OF rq(1)] \<open>v = s\<close> by simp
    qed
    then show ?thesis using rq q s(1) \<open>v = s\<close> by (simp add: op_catch_def op_finally_def actor_inv_def)
  qed
qed

lemma op_finally_const: "op_finally m f s = op_finally (\<lambda>_. m s) f s0"
  by (simp add: op_finally_def)

lemma op_catch_const: "op_catch m g s = op_catch (\<lambda>_. m s) g s0"
  by (simp add: op_catch_def)

lemma flush_implicit_inv:
  fixes prep u sr
  defines "E \<equiv> file_env prep u sr"
  assumes inv: "actor_inv s" and p: "pend c i (sq_mem s)"
  shows "actor_inv (snd (flush_implicit E c i s))"
proof -
  let ?body = "op_bind require_not_broken (\<lambda>_. op_bind (start_precommit_alarm_scheduling E)
        (\<lambda>pre. op_bind (op_catch (implicit_commit E i) (\<lambda>e. op_bind require_not_broken (\<lambda>_. op_throw e)))
        (\<lambda>_. op_bind (implicit_drop E i) (\<lambda>_. commit_impl E c pre))))"
  have s: "store_ok s" "guarded {} {} s" using inv by (simp_all add: actor_inv_def)
  obtain r t where rt: "?body s = (r, t)" by fastforce
  have "store_ok t \<and> guarded {i} {} t \<and> i < length (am_implicit (sq_mem t)) \<and> c < length (am_commits (sq_mem t)) \<and>
      cm_kind (comm (sq_mem t) c) = FlushImplicit i \<and> (r = Inr () \<longrightarrow> implicit_settled c t \<and> cm_phase (comm (sq_mem t) c) \<noteq> Scheduled)"
  proof (cases "am_broken (sq_mem s)")
    case (Some e)
    then have "r = Inl e" "t = s" using rt by (simp_all add: op_bind_def require_not_broken_def)
    then show ?thesis using s p guarded_more [OF s(2), of i] by (simp add: pend_def flushes_def)
  next
    case None
    obtain q1 s1 where s1: "start_precommit_alarm_scheduling E s = (q1, s1)" by fastforce
    have ok1: "store_ok s1" "guarded {} {} s1" using goodD [OF precommit_good s1 [unfolded E_def] s] by simp_all
    have p1: "pend c i (sq_mem s1)" using pend.outerD [OF pend.precommit_kept s1 p] .
    show ?thesis
    proof (cases q1)
      case (Inl e)
      then have "r = Inl e" "t = s1" using rt None s1 by (simp_all add: op_bind_def require_not_broken_def)
      then show ?thesis using ok1 p1 guarded_more [OF ok1(2), of i] by (simp add: pend_def flushes_def)
    next
      case (Inr pre)
      obtain q2 s2 where s2: "implicit_commit E i s1 = (q2, s2)" by fastforce
      have p1': "i < length (am_implicit (sq_mem s1))" "\<not> it_dropped (impl (sq_mem s1) i)" using p1 by (simp_all add: pend_def flushes_def)
      note I = implicit_ends [where op = "implicit_commit E i" and prep = prep and u = u and sr = sr, folded E_def,
          OF disjI1 [OF refl] ok1 p1' s2]
      show ?thesis
      proof (cases q2)
        case (Inl e)
        then have "t = s2 \<and> (\<exists>e. r = Inl e)" using rt None s1 Inr s2
          by (auto simp: op_simps require_not_broken_def split: option.splits)
        then show ?thesis using I(1) I(3) [OF Inl] I(5,6) p1 guarded_more [of "{}" "{}" s2 i] by (auto simp: pend_def flushes_def)
      next
        case q2: (Inr v)
        obtain q3 s3 where s3: "implicit_drop E i s2 = (q3, s3)" by fastforce
        have g2: "guarded {i} {} s2" "it_committed (impl (sq_mem s2) i)" "i < length (am_implicit (sq_mem s2))"
          using I(2) q2 I(6) p1' by simp_all
        note D = implicit_drop_ok [OF I(1) g2(1) g2(3) s3 [unfolded E_def]]
        have st3: "implicit_settled c s3" using D(3,4,5,6) g2 I(5) p1 by (auto simp: implicit_settled_def pend_def flushes_def)
        obtain q4 s4 where s4: "commit_impl E c pre s3 = (q4, s4)" by fastforce
        have "good {i} {c} (commit_impl E c pre)" unfolding E_def by (rule commit_good) simp
        from goodD [OF this s4 D(1) guarded_settled [OF D(2) st3]] have "store_ok s4 \<and> guarded {i} {c} s4" .
        moreover have "r = q4 \<and> t = s4" using rt None s1 Inr s2 q2 s3 D(6) [OF g2(2)] s4
          by (simp add: op_bind_def op_catch_def require_not_broken_def)
        moreover have "cm_phase (comm (sq_mem s4) c) \<noteq> Scheduled" if "implicit_settled c s4"
          using commit_impl_moves [of c E pre] s4 that by (auto simp: moves_def implicit_settled_def dest: spec [of _ s3])
        moreover have "cm_kind (comm (sq_mem s4) c) = FlushImplicit i"
        proof -
          have "flushes c i (sq_mem s3)" using D(4,5) g2(3) I(5) p1 by (simp add: pend_def flushes_def)
          from flushing.outerD [OF flushes_impl s4 this] show ?thesis by (simp add: flushes_def)
        qed
        ultimately show ?thesis using guardedD(2) [of "{i}" "{c}" s4 c] guarded_less [of "{i}" c "{}" s4]
          by (auto simp: implicit_settled_def)
      qed
    qed
  qed
  note T = this
  have "flush_implicit E c i s = op_catch (op_finally (\<lambda>_. (r, t)) (implicit_drop E i)) (\<lambda>e. enter c (Failed e)) t"
    using rt by (simp add: flush_implicit_def op_catch_def op_finally_def)
  then show ?thesis using flush_end [of t i c r prep u sr t] T by (simp add: E_def)
qed

end
