(* ===== verification/Actor_Ops.thy ===== *)
theory Actor_Ops
  imports Actor_Steps
begin

text \<open>
  The operations of the storage interface and of explicit transactions keep the invariants, wherever
  they are called.
\<close>

section \<open>Changing the current transaction\<close>

lemma guarded_current:
  assumes "guarded X C s" "am_current (sq_mem s) = ImplicitTxn i"
  shows "i < length (am_implicit (sq_mem s))" "\<not> it_dropped (impl (sq_mem s) i)"
  using assms by (auto simp: guarded_def txn_inv_def commits_ok_def flush_scheduled_def)

text \<open>An implicit transaction is left only once it has been committed or rolled back.\<close>

lemma switch_guarded:
  assumes g: "guarded X C s"
    and cur: "\<And>i. am_current (sq_mem s) = ImplicitTxn i \<Longrightarrow> it_committed (impl (sq_mem s) i)"
    and new: "\<And>i. am_current (sq_mem t) \<noteq> ImplicitTxn i"
    and same: "am_implicit (sq_mem t) = am_implicit (sq_mem s)" "am_commits (sq_mem t) = am_commits (sq_mem s)"
      "sq_critical t = sq_critical s" "sq_in_txn t = sq_in_txn s"
  shows "guarded X C t"
proof (rule guarded_fields [OF g])
  show "commits_ok X (sq_mem t)" if "commits_ok X (sq_mem s)"
  proof -
    have "commit_sane X (sq_mem t) c = commit_sane X (sq_mem s) c" for c unfolding commit_sane_def same ..
    then show ?thesis using that new unfolding commits_ok_def same by blast
  qed
  show "holder_ok (sq_in_txn t) (sq_mem t)" if "holder_ok (sq_in_txn s) (sq_mem s)"
    using that cur new unfolding holder_ok_def same by metis
  show "implicit_settled c t" if "implicit_settled c s" for c using that unfolding implicit_settled_def same .
qed (simp add: same)

lemma guarded_gone:
  assumes "guarded (insert i X) C s" "am_current (sq_mem s) \<noteq> ImplicitTxn i" "\<not> it_dropped (impl (sq_mem s) i)"
  shows "guarded X C s"
  by (rule left [OF assms(1)]) (use assms in auto)

lemma leave_implicit:
  assumes op: "op = implicit_commit (file_env prep u sr) i \<or> op = implicit_rollback (file_env prep u sr) i"
    and s: "store_ok s" "guarded X C s" "am_current (sq_mem s) = ImplicitTxn i" "op s = (r, t)"
  shows "store_ok t" "r = Inl e \<Longrightarrow> guarded X C t"
    "r = Inr () \<Longrightarrow> am_current (f (sq_mem t)) \<noteq> ImplicitTxn i \<Longrightarrow> (\<And>k. am_current (f (sq_mem t)) \<noteq> ImplicitTxn k) \<Longrightarrow>
      am_implicit (f (sq_mem t)) = am_implicit (sq_mem t) \<Longrightarrow> am_commits (f (sq_mem t)) = am_commits (sq_mem t) \<Longrightarrow>
      guarded X C (mem f t)"
proof -
  note I = implicit_ends [OF op s(1,2) guarded_current [OF s(2,3)] s(4)]
  show "store_ok t" by (rule I(1))
  show "guarded X C t" if "r = Inl e" by (rule I(3) [OF that])
  assume r: "r = Inr ()" and f: "am_current (f (sq_mem t)) \<noteq> ImplicitTxn i" "\<And>k. am_current (f (sq_mem t)) \<noteq> ImplicitTxn k"
    "am_implicit (f (sq_mem t)) = am_implicit (sq_mem t)" "am_commits (f (sq_mem t)) = am_commits (sq_mem t)"
  have g: "guarded (insert i X) C t" "it_committed (impl (sq_mem t) i)" "\<not> it_dropped (impl (sq_mem t) i)" using I(2) r by simp_all
  have "guarded (insert i X) C (mem f t)"
    by (rule switch_guarded [OF g(1)]) (use f g I(4) s(3) in \<open>auto simp: mem_def\<close>)
  then show "guarded X C (mem f t)" by (rule guarded_gone) (use f g in \<open>simp_all add: mem_def\<close>)
qed

section \<open>Adding commits\<close>

lemma add_commit_ok:
  assumes k: "\<And>i. k \<noteq> FlushImplicit i" and ok: "commits_ok X m"
  shows "commits_ok X (add_commit k m)"
proof -
  let ?m = "add_commit k m" and ?c = "length (am_commits m)"
  have cm: "am_commits ?m = am_commits m @ [\<lparr>cm_kind = k, cm_phase = Scheduled, cm_shared = None\<rparr>]" by (simp add: add_commit_def)
  have same: "am_implicit ?m = am_implicit m" "am_current ?m = am_current m" "am_last_commit ?m = am_last_commit m"
    "am_locks ?m = am_locks m"
    by (simp_all add: add_commit_def)
  have old: "comm ?m c = comm m c" if "c < ?c" for c using that by (simp add: cm nth_append)
  have lt: "c < length (am_commits ?m) \<longleftrightarrow> c < ?c \<or> c = ?c" for c by (auto simp: cm)
  have new: "cm_kind (comm ?m ?c) \<noteq> FlushImplicit i" for i using k by (simp add: cm nth_append)
  have fs: "flush_scheduled ?m i" if "flush_scheduled m i" for i
    using that old unfolding flush_scheduled_def same lt by metis
  have cs: "commit_sane X ?m c" if c: "c < length (am_commits ?m)" for c
  proof (cases "c = ?c")
    case True
    then show ?thesis using new by (simp add: commit_sane_def)
  next
    case False
    then have "c < ?c" using c lt by blast
    moreover then have "commit_sane X m c" using ok by (simp add: commits_ok_def)
    ultimately show ?thesis unfolding commit_sane_def same using old by simp
  qed
  have ex: "\<exists>c < length (am_commits ?m). cm_kind (comm ?m c) = FlushImplicit i" if "i < length (am_implicit m)" for i
    using ok that old lt unfolding commits_ok_def by metis
  have uniq: "c = c'" if "c < length (am_commits ?m)" "c' < length (am_commits ?m)"
    "cm_kind (comm ?m c) = FlushImplicit i" "cm_kind (comm ?m c') = FlushImplicit i" for c c' i
  proof -
    have "c < ?c" "c' < ?c" using that new lt by metis+
    then show ?thesis using that old ok unfolding commits_ok_def by metis
  qed
  show ?thesis using ok fs cs ex uniq unfolding commits_ok_def same by metis
qed

lemma add_commit_guarded:
  assumes k: "\<And>i. k \<noteq> FlushImplicit i" and g: "guarded X C s"
  shows "guarded X (insert (length (am_commits (sq_mem s))) C) (mem (add_commit k) s)"
proof -
  have "guarded X C (mem (add_commit k) s)"
  proof (rule guarded_fields [OF g])
    show "commits_ok X (sq_mem (mem (add_commit k) s))" if "commits_ok X (sq_mem s)"
      using add_commit_ok [OF k that] by (simp add: mem_def)
    show "holder_ok (sq_in_txn (mem (add_commit k) s)) (sq_mem (mem (add_commit k) s))" if "holder_ok (sq_in_txn s) (sq_mem s)"
      using that by (simp add: mem_def add_commit_def holder_ok_def)
    show "implicit_settled c (mem (add_commit k) s)" if "implicit_settled c s" for c
      using that by (auto simp: implicit_settled_def mem_def add_commit_def nth_append)
  qed (simp add: mem_def)
  moreover have "implicit_settled (length (am_commits (sq_mem s))) (mem (add_commit k) s)"
    using k by (simp add: implicit_settled_def mem_def add_commit_def)
  ultimately show ?thesis by (rule guarded_settled)
qed

lemma last_commit_guarded:
  assumes g: "guarded X C s" and cur: "\<And>i. am_current (sq_mem s) \<noteq> ImplicitTxn i"
  shows "guarded X C (mem (\<lambda>m. m\<lparr>am_last_commit := p\<rparr>) s)"
  by (rule switch_guarded [OF g]) (use cur in \<open>auto simp: mem_def\<close>)

section \<open>Reads, writes and alarms\<close>

lemma good_locals:
  assumes "\<And>v. good X C (f v)"
  shows "good X C (\<lambda>s. f (g s) s)"
  using assms by (simp add: good_def)

lemma change_alarm_good: "good X C (change_alarm (file_env prep u sr) a au)"
  unfolding change_alarm_def by (intro good_bind store_good good_cond good_upd good_pure) simp_all

lemma start_good: "good X C (\<lambda>s. if am_current (sq_mem s) = NoTxn then start_implicit_txn (file_env prep u sr) s else (Inr (), s))"
  using start_implicit_keeps [of prep u sr] start_implicit_guarded by (auto simp: good_def control.keeps_def)

lemma access_good:
  fixes prep u sr
  defines "E \<equiv> file_env prep u sr"
  shows "good X C (actor_get E k)" "good X C (actor_get_multiple E ks)" "good X C (actor_get_alarm E)"
    "good X C (actor_put E k v au)" "good X C (actor_delete E k au)" "good X C (actor_delete_multiple E ks au)"
    "good X C (actor_set_alarm E a au)" "good X C (get_current_bookmark E)"
proof -
  have get: "good X C (get_each E ks)" for ks
  proof (induction ks)
    case (Cons k ks)
    show ?case unfolding get_each.simps by (intro good_bind good_pure Cons) (unfold E_def, rule store_good)
  qed (simp add: good_pure)
  have del: "good X C (delete_each E au n ks)" for n
  proof (induction ks arbitrary: n)
    case (Cons k ks)
    show ?case unfolding delete_each.simps by (intro good_bind Cons) (unfold E_def, rule store_good)
  qed (simp add: good_pure)
  show "good X C (actor_get E k)" "good X C (actor_put E k v au)" "good X C (actor_delete E k au)"
    unfolding actor_get_def actor_put_def actor_delete_def E_def by (intro good_bind good_pure store_good)+
  show "good X C (actor_get_multiple E ks)" "good X C (actor_delete_multiple E ks au)"
    unfolding actor_get_multiple_def actor_delete_multiple_def by (intro good_bind good_pure get del)+
  have "good X C (\<lambda>s. if am_deferred_delete (sq_mem s) \<and> \<not> (dirty s) then (Inr None, s) else stored_alarm E s)" for dirty
    unfolding E_def by (intro good_if good_pure store_good)
  then show "good X C (actor_get_alarm E)" unfolding actor_get_alarm_def Let_def by (intro good_bind good_pure)
  have "good X C (upd (\<lambda>m. case am_current m of ExplicitTxn j \<Rightarrow> set_explicit j (\<lambda>t. t\<lparr>et_dirty := True\<rparr>) m
      | _ \<Rightarrow> m\<lparr>am_deferred_delete := False\<rparr>))"
    by (rule good_upd) (simp_all split: current_txn.split)
  then show "good X C (actor_set_alarm E a au)" unfolding actor_set_alarm_def E_def
    by (intro good_bind good_pure change_alarm_good)
  show "good X C (get_current_bookmark E)" unfolding get_current_bookmark_def Let_def E_def
    by (intro good_bind good_pure store_good)
qed

lemma lists_good:
  fixes prep u sr
  defines "E \<equiv> file_env prep u sr"
  shows "good X C (actor_list E b e n)" "good X C (actor_list_reverse E b e n)"
proof -
  have list: "good X C (kv_list (actor_hooks E) (ae_backend E) b e n ord (\<lambda>k v rs. op_return (rs @ [(k, v)])) [])" for ord
    unfolding E_def file_env_backend by (rule list_good) simp
  have pair: "good X C (case p of (_, rs) \<Rightarrow> op_return rs)" for p :: "nat \<times> (js_string \<times> bytes) list"
    by (cases p) (simp add: good_pure)
  show "good X C (actor_list E b e n)" "good X C (actor_list_reverse E b e n)"
    unfolding actor_list_def actor_list_reverse_def by (intro good_bind good_pure list pair)+
qed

lemma put_multiple_good: "good X C (actor_put_multiple (file_env prep u sr) ps au)"
  unfolding actor_put_multiple_def by (intro good_bind good_pure start_good good_if store_good)

lemma schedule_delete_all_good: "good X C (upd schedule_delete_all_commit)"
  unfolding good_def op_modify_def snd_conv
proof (intro allI impI conjI)
  fix s :: "'a actor" assume s: "store_ok s" "guarded X C s"
  show "store_ok (mem schedule_delete_all_commit s)"
    by (rule store_ok_mem [OF s(1)]) (simp add: schedule_delete_all_commit_def)
  have "guarded X C (mem (add_commit FlushDeleteAll) s)" using add_commit_guarded [of FlushDeleteAll, OF _ s(2)] guarded_less by simp
  then have g: "guarded X C (mem (add_lock (LockOn (CommitOf (length (am_commits (sq_mem s)))))) (mem (add_commit FlushDeleteAll) s))"
    by (rule add_lock_guarded)
  have "guarded X C (mem (\<lambda>m. m\<lparr>am_delete_all_scheduled := True\<rparr>)
      (mem (add_lock (LockOn (CommitOf (length (am_commits (sq_mem s)))))) (mem (add_commit FlushDeleteAll) s)))"
    by (rule guarded_view [OF g]) (simp_all add: mem_def)
  then show "guarded X C (mem schedule_delete_all_commit s)" using s(2)
    by (cases "am_delete_all_scheduled (sq_mem s)") (simp_all add: schedule_delete_all_commit_def mem_def)
qed

lemma delete_all_good: "good X C (actor_delete_all (file_env prep u sr) da)"
proof -
  let ?E = "file_env prep u sr"
  have "good X C (\<lambda>s. (case am_current (sq_mem s) of
           NoTxn \<Rightarrow> (Inr (), s)
         | ImplicitTxn i \<Rightarrow> op_bind (implicit_rollback ?E i) (\<lambda>_. upd (\<lambda>m. m\<lparr>am_current := NoTxn\<rparr>)) s
         | ExplicitTxn _ \<Rightarrow> (Inl (Failure ''Cannot call deleteAll() within a transaction''), s)))"
    unfolding good_def
  proof (intro allI impI)
    fix s :: "'a actor" assume s: "store_ok s" "guarded X C s"
    let ?m = "\<lambda>s. (case am_current (sq_mem s) of
           NoTxn \<Rightarrow> (Inr (), s)
         | ImplicitTxn i \<Rightarrow> op_bind (implicit_rollback ?E i) (\<lambda>_. upd (\<lambda>m. m\<lparr>am_current := NoTxn\<rparr>)) s
         | ExplicitTxn _ \<Rightarrow> (Inl (Failure ''Cannot call deleteAll() within a transaction''), s))"
    show "store_ok (snd (?m s)) \<and> guarded X C (snd (?m s))"
    proof (cases "am_current (sq_mem s)")
      case (ImplicitTxn i)
      obtain r t where rt: "implicit_rollback ?E i s = (r, t)" by fastforce
      note L = leave_implicit [OF disjI2 [OF refl] s ImplicitTxn rt]
      have "store_ok (mem (\<lambda>m. m\<lparr>am_current := NoTxn\<rparr>) t)" by (rule store_ok_mem [OF L(1)]) simp
      then show ?thesis using ImplicitTxn rt L(1,2) L(3) [of "\<lambda>m. m\<lparr>am_current := NoTxn\<rparr>"]
        by (cases r) (simp_all add: op_bind_def op_modify_def)
    qed (use s in simp_all)
  qed
  then show ?thesis unfolding actor_delete_all_def
    by (intro good_bind good_pure store_good schedule_delete_all_good good_cond good_upd change_alarm_good) simp_all
qed

section \<open>The alarm handler\<close>

lemma alarm_handler_good:
  fixes prep u sr
  defines "E \<equiv> file_env prep u sr"
  shows "good X C (arm_alarm_handler E scheduled now)" "good X C (deleter_drop E d)" "good X C (abandon_alarm E scheduled)"
proof -
  have stored: "good X C (stored_alarm E)" unfolding E_def by (rule store_good)
  have new: "good X C (new_deferred_alarm_deleter :: (_, arm_result) aop)"
    unfolding new_deferred_alarm_deleter_def by (rule good_memory) simp_all
  have run: "good X C (op_bind (upd (\<lambda>m. m\<lparr>am_deferred_delete := b, am_in_handler := True\<rparr>)) (\<lambda>_. new_deferred_alarm_deleter))" for b
    by (intro good_bind good_upd new) simp_all
  have later: "good X C (op_bind (request_scheduled_alarm E a p)
      (\<lambda>k. op_bind (upd (\<lambda>m. m\<lparr>am_pending_later := None, am_later_in_flight := RequestOf k\<rparr>)) (\<lambda>_. op_return (CancelRun k))))" for a p
    by (intro good_bind good_upd good_pure request_good) simp_all
  have earlier: "good X C (op_bind (request_scheduled_alarm E a p) (\<lambda>k. op_return (CancelRun k)))" for a p
    by (intro good_bind good_pure request_good)
  have "good X C (\<lambda>s. if local = Some scheduled then (op_bind (upd (\<lambda>m. m\<lparr>am_deferred_delete := True, am_in_handler := True\<rparr>)) (\<lambda>_. new_deferred_alarm_deleter)) s
      else if \<not> (local = am_confirmed (sq_mem s)) then (op_bind (upd (\<lambda>m. m\<lparr>am_deferred_delete := False, am_in_handler := True\<rparr>)) (\<lambda>_. new_deferred_alarm_deleter)) s
      else if will_fire_earlier local (Some now) then (op_bind (upd (\<lambda>m. m\<lparr>am_deferred_delete := True, am_in_handler := True\<rparr>)) (\<lambda>_. new_deferred_alarm_deleter)) s
      else if will_fire_earlier (Some scheduled) local then
        op_bind (request_scheduled_alarm E local (am_later_in_flight (sq_mem s)))
          (\<lambda>k. op_bind (upd (\<lambda>m. m\<lparr>am_pending_later := None, am_later_in_flight := RequestOf k\<rparr>)) (\<lambda>_. op_return (CancelRun k))) s
      else op_bind (request_scheduled_alarm E local Ready) (\<lambda>k. op_return (CancelRun k)) s)" for local
    by (intro good_if run earlier good_locals [where g = "\<lambda>s. am_later_in_flight (sq_mem s)", OF later])
  from good_if [OF good_pure(3) good_bind [OF stored this]] show "good X C (arm_alarm_handler E scheduled now)"
    unfolding arm_alarm_handler_def Let_def .
  have "good X C (if am_broken (sq_mem s) = None then change_alarm E None False else op_return ())" for s
    unfolding E_def by (intro good_cond change_alarm_good good_pure)
  note deferred = this
  have "good X C (op_bind (if am_broken (sq_mem s) = None then change_alarm E None False else op_return ())
      (\<lambda>_. upd (\<lambda>m. m\<lparr>am_deferred_delete := False\<rparr>)))" for s
    by (rule good_bind [OF deferred good_upd]) simp_all
  from good_if [OF good_state [OF this] good_pure(3)]
  have inner: "good X C (\<lambda>s. if am_deferred_delete (sq_mem s)
      then op_bind (if am_broken (sq_mem s) = None then change_alarm E None False else op_return ())
        (\<lambda>_. upd (\<lambda>m. m\<lparr>am_deferred_delete := False\<rparr>)) s
      else (Inr (), s))" .
  have "good X C (maybe_delete_deferred_alarm E)" unfolding maybe_delete_deferred_alarm_def
    by (rule good_bind [OF good_upd inner]) simp_all
  then show "good X C (deleter_drop E d)" unfolding deleter_drop_def
    by (intro good_if good_pure good_bind good_upd) simp_all
  have "good X C (case stored of None \<Rightarrow> op_return None
        | Some t \<Rightarrow> (if t = scheduled then op_bind (actor_set_alarm E None False) (\<lambda>_. op_return None) else op_return (Some t)))" for stored
    using good_bind [OF access_good(7) good_pure(1)] unfolding E_def by (auto intro!: good_pure split: option.split)
  from good_if [OF good_pure(3) good_bind [OF stored this]] show "good X C (abandon_alarm E scheduled)"
    unfolding abandon_alarm_def .
qed

end
