(* ===== verification/Actor_Txn.thy ===== *)
theory Actor_Txn
  imports Actor_Ops
begin

text \<open>
  \<open>transactionSync\<close> and explicit transactions keep the invariants of \<^const>\<open>actor_inv\<close>.
\<close>

section \<open>transactionSync\<close>

lemmas sync_good = savepoint_good [OF disjI1 [OF refl]] and txn_good = savepoint_good [OF disjI2 [OF refl]]

lemma sync_rollback_good: "good X C (sync_rollback (file_env prep u sr) d)"
  unfolding sync_rollback_def by (rule good_if [OF good_bind [OF sync_good(3) sync_good(2)] good_pure(3)])

lemma transaction_sync_good:
  fixes callback :: "('u, 'a \<times> bool) aop"
  assumes "good X C callback"
  shows "good X C (transaction_sync (file_env prep u sr) callback)"
proof -
  let ?E = "file_env prep u sr"
  have check: "good X C (\<lambda>s. if thenable then (Inl a, s) else if sq_critical s \<noteq> None then (Inl b, s) else (Inr (), s))"
    for thenable and a b :: js_exn
    by (intro good_if good_pure)
  have "good X C (case p of (result, thenable) \<Rightarrow> op_bind
        (\<lambda>s. (if thenable then (Inl (Failure ''transactionSync() callback returned a promise.''), s)
            else if sq_critical s \<noteq> None
            then (Inl (Failure ''Cannot commit transaction due to an earlier SQL critical error''), s)
            else (Inr (), s)))
        (\<lambda>_. op_bind (actor_run ?E (STMT_RELEASE (sync_savepoint d))) (\<lambda>_. op_return result)))" for d and p :: "'a \<times> bool"
    by (cases p) (simp only: prod.case, rule good_bind [OF check good_bind [OF sync_good(2) good_pure(1)]])
  note body = this
  have "good X C (op_bind (upd (\<lambda>m. m\<lparr>am_sync_depth := Suc d\<rparr>)) (\<lambda>_. op_finally
         (op_bind (actor_run ?E (STMT_SAVEPOINT (sync_savepoint d))) (\<lambda>_. op_catch
            (op_bind callback (\<lambda>(result, thenable). op_bind
              (\<lambda>s. (if thenable then (Inl (Failure ''transactionSync() callback returned a promise.''), s)
                  else if sq_critical s \<noteq> None
                  then (Inl (Failure ''Cannot commit transaction due to an earlier SQL critical error''), s)
                  else (Inr (), s)))
              (\<lambda>_. op_bind (actor_run ?E (STMT_RELEASE (sync_savepoint d))) (\<lambda>_. op_return result))))
            (\<lambda>e. op_bind (sync_rollback ?E d) (\<lambda>_. op_throw e))))
         (upd (\<lambda>m. m\<lparr>am_sync_depth := am_sync_depth m - 1\<rparr>))))" for d
    by (rule good_bind [OF good_upd good_finally [OF good_bind [OF sync_good(1)
        good_catch [OF good_bind [OF assms body] good_bind [OF sync_rollback_good good_pure(2)]]] good_upd]]) simp_all
  from good_bind [OF store_good(10) good_locals [where g = "\<lambda>s. am_sync_depth (sq_mem s)", OF this]]
  show ?thesis unfolding transaction_sync_def Let_def .
qed

section \<open>Explicit transactions\<close>

lemma explicit_new_good: "good X C (explicit_new (file_env prep u sr))"
  unfolding good_def
proof (intro allI impI)
  fix s :: "'a actor" assume s: "store_ok s" "guarded X C s"
  let ?E = "file_env prep u sr"
  let ?made = "\<lambda>t x. mem (\<lambda>m. m\<lparr>am_explicit := am_explicit m @ [x], am_current := ExplicitTxn (length (am_explicit (sq_mem t)))\<rparr>) t"
  obtain r t where rt: "explicit_open ?E s = (r, t)" by fastforce
  have "store_ok t \<and> (\<forall>e. r = Inl e \<longrightarrow> guarded X C t) \<and> (\<forall>x. r = Inr x \<longrightarrow> guarded X C (?made t x))"
  proof (cases "am_current (sq_mem s)")
    case NoTxn
    then have t: "t = s" using rt by (simp add: explicit_open_def Let_def)
    have "guarded X C (?made s x)" for x by (rule switch_guarded [OF s(2)]) (simp_all add: NoTxn mem_def)
    then show ?thesis using s t NoTxn rt by simp
  next
    case (ImplicitTxn i)
    obtain q v where q: "implicit_commit ?E i s = (q, v)" by fastforce
    note L = leave_implicit [OF disjI1 [OF refl] s ImplicitTxn q]
    have v: "t = v" "\<And>e. r = Inl e \<Longrightarrow> q = Inl e" "\<And>x. r = Inr x \<Longrightarrow> q = Inr ()" using rt q ImplicitTxn
      by (cases q; simp add: explicit_open_def Let_def op_bind_def op_return_def)+
    have "guarded X C (?made t x)" if "r = Inr x" for x using L(3) [OF v(3) [OF that]] unfolding v(1) by simp
    then show ?thesis using L(1,2) v by blast
  next
    case (ExplicitTxn p)
    let ?v = "mem (set_explicit p (\<lambda>t. t\<lparr>et_child := True\<rparr>)) s"
    have t: "t = s \<and> (\<exists>e. r = Inl e) \<or> t = ?v" using rt ExplicitTxn by (auto simp: explicit_open_def Let_def split: if_splits)
    have gv: "guarded X C ?v" by (rule guarded_view [OF s(2)]) (simp_all add: mem_def)
    have okv: "store_ok ?v" by (rule store_ok_mem [OF s(1)]) simp
    have "guarded X C (?made ?v x)" for x
      by (rule switch_guarded [OF gv]) (simp_all add: ExplicitTxn mem_def set_explicit_def)
    then show ?thesis using t s gv okv by auto
  qed
  note O = this
  show "store_ok (snd (explicit_new ?E s)) \<and> guarded X C (snd (explicit_new ?E s))"
  proof (cases r)
    case (Inl e)
    then show ?thesis using O rt by (simp add: explicit_new_def op_bind_def)
  next
    case (Inr x)
    have "store_ok (?made t x)" by (rule store_ok_mem) (use O in simp_all)
    moreover have "good X C (op_bind (actor_run ?E (STMT_SAVEPOINT (txn_savepoint (et_depth x)))) (\<lambda>_. op_return j))" for j :: nat
      by (rule good_bind [OF txn_good(1) good_pure(1)])
    ultimately show ?thesis using O Inr rt
      by (simp add: explicit_new_def op_bind_Inr op_bind_def [of "upd _"] op_modify_def Let_def good_def)
  qed
qed

lemma start_transaction_good: "good X C (start_transaction (file_env prep u sr))"
  unfolding start_transaction_def by (intro good_bind good_pure explicit_new_good)

lemma rollback_impl_good: "good X C (explicit_rollback_impl (file_env prep u sr) j)"
proof -
  have "good X C (op_bind (actor_run (file_env prep u sr) (STMT_ROLLBACK_TO (txn_savepoint d)))
      (\<lambda>_. op_bind (actor_run (file_env prep u sr) (STMT_RELEASE (txn_savepoint d)))
      (\<lambda>_. upd (\<lambda>m. (case et_parent (am_explicit m ! j) of
         Some p \<Rightarrow> set_explicit j (\<lambda>t. t\<lparr>et_dirty := et_dirty (am_explicit m ! p), et_confirmed := et_confirmed (am_explicit m ! p)\<rparr>) m
       | None \<Rightarrow> set_explicit j (\<lambda>t. t\<lparr>et_dirty := False, et_confirmed := False\<rparr>) m)))))" for d
    by (rule good_bind [OF txn_good(3) good_bind [OF txn_good(2) good_upd]]) (simp_all split: option.split)
  from good_locals [where g = "\<lambda>s. et_depth (am_explicit (sq_mem s) ! j)", OF this]
  show ?thesis unfolding explicit_rollback_impl_def Let_def .
qed

lemma explicit_rollback_good: "good X C (explicit_rollback (file_env prep u sr) j)"
  unfolding explicit_rollback_def
  by (intro good_bind good_if good_pure rollback_impl_good good_upd) simp_all

lemma explicit_leave_good: "good X C (explicit_leave j)"
  unfolding good_def
proof (intro allI impI)
  fix s :: "'a actor" assume s: "store_ok s" "guarded X C s"
  let ?t = "am_explicit (sq_mem s) ! j"
  show "store_ok (snd (explicit_leave j s)) \<and> guarded X C (snd (explicit_leave j s))"
  proof (cases "et_child ?t \<or> am_current (sq_mem s) \<noteq> ExplicitTxn j")
    case True
    then show ?thesis using s by (auto simp: explicit_leave_def Let_def)
  next
    case False
    have "guarded X C (mem (\<lambda>m. (set_explicit p f m)\<lparr>am_current := ExplicitTxn p\<rparr>) s)" for p f
      by (rule switch_guarded [OF s(2)]) (use False in \<open>simp_all add: mem_def set_explicit_def\<close>)
    moreover have "guarded X C (mem (\<lambda>m. m\<lparr>am_current := NoTxn\<rparr>) s)"
      by (rule switch_guarded [OF s(2)]) (use False in \<open>simp_all add: mem_def\<close>)
    moreover have "store_ok (mem (\<lambda>m. (set_explicit p f m)\<lparr>am_current := ExplicitTxn p\<rparr>) s)" for p f
      by (rule store_ok_mem [OF s(1)]) simp
    moreover have "store_ok (mem (\<lambda>m. m\<lparr>am_current := NoTxn\<rparr>) s)" by (rule store_ok_mem [OF s(1)]) simp
    ultimately show ?thesis using False by (auto simp: explicit_leave_def Let_def split: option.split)
  qed
qed

lemma explicit_drop_good: "good X C (explicit_drop (file_env prep u sr) j)"
proof -
  have "good X C (if b then explicit_rollback_impl (file_env prep u sr) j else op_return ())" for b
    by (intro good_cond rollback_impl_good good_pure)
  from good_locals [where f = "\<lambda>b. op_finally (if b then explicit_rollback_impl (file_env prep u sr) j else op_return ()) (explicit_leave j)"
      and g = "\<lambda>s. \<not> et_committed (am_explicit (sq_mem s) ! j) \<and> am_broken (sq_mem s) = None", OF good_finally [OF this explicit_leave_good]]
  show ?thesis unfolding explicit_drop_def
    by (intro good_if good_pure good_bind good_upd) simp_all
qed

text \<open>Committing; only the current transaction is, which the critical sections of the callers ensure.\<close>

interpretation explicit: memory_property "\<lambda>m. am_current m = ExplicitTxn j" E for j E
  by unfold_locales (auto simp: add_lock_def set_implicit_def dest!: view_fields)

lemma explicit_current:
  "explicit.outer j (start_precommit_alarm_scheduling E)" "explicit.outer j (actor_run E (STMT_RELEASE (txn_savepoint d)))"
  "explicit.outer j (upd (set_explicit k f))" "explicit.outer j (commit_impl E c pre)"
proof -
  show "explicit.outer j (start_precommit_alarm_scheduling E)" by (rule explicit.precommit_kept)
  show "explicit.outer j (actor_run E (STMT_RELEASE (txn_savepoint d)))"
    by (intro explicit.outer_bind explicit.outer_pure explicit.outer_run [of _ "CommitTxn (Some (txn_savepoint d))"])
      (use savepoint_texts(2) in \<open>auto simp: unnamed_def\<close>)
  show "explicit.outer j (upd (set_explicit k f))" by (rule explicit.upd_kept) simp
  show "explicit.outer j (commit_impl E c pre)"
    by (intro explicit.impl_kept) (auto simp: explicit.outer_def enter_def commit_failed_def op_modify_def mem_def set_commit_def)
qed

lemma commit_root_ok:
  fixes prep u sr
  defines "E \<equiv> file_env prep u sr"
  assumes s: "store_ok s" "guarded X C s" "am_current (sq_mem s) = ExplicitTxn j"
  shows "store_ok (snd (explicit_commit_root E j pre s)) \<and> guarded X C (snd (explicit_commit_root E j pre s))"
proof -
  let ?c = "length (am_commits (sq_mem s))" and ?t = "am_explicit (sq_mem s) ! j"
  let ?s1 = "mem (\<lambda>m. (add_commit CommitExplicit m)\<lparr>am_deferred_delete := (if et_dirty ?t then False else am_deferred_delete m)\<rparr>) s"
  have "guarded X (insert ?c C) (mem (add_commit CommitExplicit) s)" by (rule add_commit_guarded [OF _ s(2)]) simp
  then have g1: "guarded X (insert ?c C) ?s1" by (rule guarded_view) (simp_all add: mem_def)
  have ok1: "store_ok ?s1" by (rule store_ok_mem [OF s(1)]) simp
  have cur1: "am_current (sq_mem ?s1) = ExplicitTxn j" using s(3) by (simp add: mem_def add_commit_def)
  obtain t where t: "commit_impl E ?c pre ?s1 = (Inr (), t)"
    by (cases "commit_impl E ?c pre ?s1") (use commit_impl_returns [of E ?c pre ?s1] in simp)
  have "good X (insert ?c C) (commit_impl E ?c pre)" unfolding E_def by (rule commit_good) simp
  from goodD [OF this t ok1 g1] have gt: "store_ok t" "guarded X (insert ?c C) t" by simp_all
  have curt: "am_current (sq_mem t) = ExplicitTxn j" by (rule explicit.outerD [OF explicit_current(4) t cur1])
  let ?l = "\<lambda>m. if et_confirmed ?t then add_lock (LockOn (CommitOf ?c)) m else m"
  have "guarded X (insert ?c C) (mem ?l t)"
    by (cases "et_confirmed ?t") (use gt(2) add_lock_guarded [OF gt(2)] in \<open>simp_all add: mem_def\<close>)
  then have "guarded X (insert ?c C) (mem (\<lambda>m. m\<lparr>am_last_commit := CommitOf ?c\<rparr>) (mem ?l t))"
    by (rule last_commit_guarded) (use curt in \<open>simp add: mem_def add_lock_def\<close>)
  from guarded_less [OF this] have "guarded X C (mem (\<lambda>m. (?l m)\<lparr>am_last_commit := CommitOf ?c\<rparr>) t)"
    by (simp add: mem_def split del: if_split)
  moreover have "store_ok (mem (\<lambda>m. (?l m)\<lparr>am_last_commit := CommitOf ?c\<rparr>) t)" by (rule store_ok_mem [OF gt(1)]) simp
  moreover have "explicit_commit_root E j pre s = (Inr (), mem (\<lambda>m. (?l m)\<lparr>am_last_commit := CommitOf ?c\<rparr>) t)"
    by (simp only: explicit_commit_root_def Let_def op_bind_def op_modify_def prod.case sum.case t)
  ultimately show ?thesis by (simp only: snd_conv simp_thms)
qed

lemma explicit_commit_ok:
  fixes prep u sr
  defines "E \<equiv> file_env prep u sr"
  assumes s: "store_ok s" "guarded X C s" "am_current (sq_mem s) = ExplicitTxn j"
  shows "store_ok (snd (explicit_commit E j s)) \<and> guarded X C (snd (explicit_commit E j s))"
proof -
  let ?t = "am_explicit (sq_mem s) ! j"
  let ?P = "\<lambda>s. store_ok s \<and> guarded X C s \<and> am_current (sq_mem s) = ExplicitTxn j"
  have chain: "store_ok (snd (op_bind m f s)) \<and> guarded X C (snd (op_bind m f s))"
    if "?P s" "good X C m" "explicit.outer j m" "\<And>v t. ?P t \<Longrightarrow> store_ok (snd (f v t)) \<and> guarded X C (snd (f v t))"
    for m :: "('a, 'b) aop" and f :: "'b \<Rightarrow> ('a, unit) aop" and s
  proof -
    obtain r t where rt: "m s = (r, t)" by fastforce
    have "?P t" using goodD [OF that(2) rt] explicit.outerD [OF that(3) rt] that(1) by simp
    then show ?thesis using rt that(4) by (cases r) (simp_all add: op_bind_def)
  qed
  have last: "store_ok (snd ((case et_parent ?t of
           Some p \<Rightarrow> upd (\<lambda>m. set_explicit p (\<lambda>q. q\<lparr>et_dirty := et_dirty ?t \<or> et_dirty q,
                       et_confirmed := et_confirmed ?t \<or> et_confirmed q\<rparr>) m)
         | None \<Rightarrow> explicit_commit_root E j pre) t)) \<and> guarded X C (snd ((case et_parent ?t of
           Some p \<Rightarrow> upd (\<lambda>m. set_explicit p (\<lambda>q. q\<lparr>et_dirty := et_dirty ?t \<or> et_dirty q,
                       et_confirmed := et_confirmed ?t \<or> et_confirmed q\<rparr>) m)
         | None \<Rightarrow> explicit_commit_root E j pre) t))" if p: "?P t" for t pre
  proof (cases "et_parent ?t")
    case None
    then show ?thesis using commit_root_ok [of t X C j prep u sr pre] p by (simp add: E_def)
  next
    case (Some q)
    have "good X C (upd (set_explicit q f) :: ('a, unit) aop)" for f by (rule good_upd) simp_all
    then show ?thesis using Some p by (simp add: good_def)
  qed
  have pre: "good X C (if et_parent ?t = None then start_precommit_alarm_scheduling E else op_return None)"
    unfolding E_def by (intro good_cond precommit_good good_pure)
  have pre': "explicit.outer j (if et_parent ?t = None then start_precommit_alarm_scheduling E else op_return None)"
    by (simp add: explicit_current explicit.outer_pure)
  have rel: "good X C (actor_run E (STMT_RELEASE (txn_savepoint (et_depth ?t))))"
    unfolding E_def by (rule txn_good)
  have set: "good X C (upd (set_explicit j f) :: ('a, unit) aop)" for f by (rule good_upd) simp_all
  show ?thesis
  proof (cases "am_broken (sq_mem s) = None \<and> \<not> et_child ?t")
    case False
    then show ?thesis using s by (auto simp: explicit_commit_def op_bind_def require_not_broken_def Let_def split: option.split)
  next
    case True
    have eq: "explicit_commit E j s = op_bind (if et_parent ?t = None then start_precommit_alarm_scheduling E else op_return None)
        (\<lambda>pre. op_bind (actor_run E (STMT_RELEASE (txn_savepoint (et_depth ?t))))
        (\<lambda>_. op_bind (upd (set_explicit j (\<lambda>t. t\<lparr>et_committed := True\<rparr>)))
        (\<lambda>_. case et_parent ?t of
           Some p \<Rightarrow> upd (\<lambda>m. set_explicit p (\<lambda>q. q\<lparr>et_dirty := et_dirty ?t \<or> et_dirty q,
                       et_confirmed := et_confirmed ?t \<or> et_confirmed q\<rparr>) m)
         | None \<Rightarrow> explicit_commit_root E j pre))) s"
      using True by (simp add: explicit_commit_def op_bind_def [of require_not_broken] require_not_broken_def Let_def)
    show ?thesis unfolding eq
      by (intro chain pre pre' rel set explicit_current last) (use s in simp_all)
  qed
qed

end
