(* ===== verification/Actor_Reach.thy ===== *)
theory Actor_Reach
  imports Actor_Txn
begin

text \<open>
  The states an actor can reach, and what holds in all of them. Application code runs synchronously
  between awaits (\<open>sync_code\<close>); every other step is the continuation of something awaited: a commit, a call
  of the alarm outlet, or the end of an alarm handler. Any statement may fail and any call may throw.
\<close>

section \<open>The work of a commit\<close>

lemma flush_delete_all_inv:
  assumes inv: "actor_inv s" and c: "c < length (am_commits (sq_mem s))" "cm_kind (comm (sq_mem s) c) = FlushDeleteAll"
  shows "actor_inv (snd (flush_delete_all (file_env prep u sr) c s))"
proof -
  let ?E = "file_env prep u sr"
  have e: "good {} {c} (enter c p :: ('a, unit) aop)" if "p \<noteq> Scheduled" for p by (rule commit_good) (use that in simp_all)
  have "good {} {c} (op_bind (start_precommit_alarm_scheduling ?E) (commit_impl ?E c))"
    by (intro good_bind precommit_good commit_good) simp
  then have "good {} {c} (\<lambda>s. case am_current (sq_mem s) of ImplicitTxn _ \<Rightarrow> enter c Finished s
      | _ \<Rightarrow> op_bind (start_precommit_alarm_scheduling ?E) (commit_impl ?E c) s)"
    using e [of Finished] by (auto simp: good_def split: current_txn.split)
  then have g: "good {} {c} (flush_delete_all ?E c)" unfolding flush_delete_all_def
    by (intro good_catch good_bind good_pure good_upd e) simp_all
  have s: "store_ok s" "guarded {} {} s" using inv by (simp_all add: actor_inv_def)
  have "guarded {} {c} s" by (rule guarded_settled [OF s(2)]) (use c in \<open>simp add: implicit_settled_def\<close>)
  then have "store_ok (snd (flush_delete_all ?E c s)) \<and> guarded {} {c} (snd (flush_delete_all ?E c s))"
    using g s(1) by (simp add: good_def)
  then show ?thesis using guarded_less [of "{}" c "{}" "snd (flush_delete_all ?E c s)"] by (simp add: actor_inv_def)
qed

lemma commit_start_inv:
  assumes inv: "actor_inv s" and c: "c < length (am_commits (sq_mem s))"
  shows "actor_inv (snd (commit_start (file_env prep u sr) c s))"
proof (cases "cm_phase (comm (sq_mem s) c) = Scheduled")
  case True
  show ?thesis
  proof (cases "cm_kind (comm (sq_mem s) c)")
    case (FlushImplicit i)
    have "commit_sane {} (sq_mem s) c" using inv c by (simp add: actor_inv_def guarded_def txn_inv_def commits_ok_def)
    then have "pend c i (sq_mem s)" using True FlushImplicit c by (simp add: pend_def flushes_def commit_sane_def)
    from flush_implicit_inv [OF inv this] show ?thesis using True FlushImplicit by (simp add: commit_start_def)
  next
    case FlushDeleteAll
    from flush_delete_all_inv [OF inv c this] show ?thesis using True FlushDeleteAll by (simp add: commit_start_def)
  next
    case CommitExplicit
    then show ?thesis using inv True by (simp add: commit_start_def)
  qed
next
  case False
  then show ?thesis using inv by (cases "cm_phase (comm (sq_mem s) c)") (simp_all add: commit_start_def)
qed

section \<open>A new actor\<close>

lemma new_store_agrees:
  assumes "new_store_mem d = Inr m"
  shows "init_actor_mem m \<in> agree d" "txn_view (init_actor_mem m) = (NoTxn, [], [], Ready, [])"
  using assms by (auto simp: new_store_mem_def init_actor_mem_def agree_def txn_view_def store_mem.extend_def actor_mem.defs
      split: if_splits)

lemma new_actor_inv:
  assumes new: "new_actor (file_env prep u sr) file = Inr s" and closed: "sf_stack file = []"
  shows "actor_inv s"
proof -
  let ?E = "file_env prep u sr"
  let ?read = "op_bind (stored_alarm ?E) (\<lambda>a. op_bind (upd (\<lambda>m. m\<lparr>am_confirmed := a\<rparr>)) (\<lambda>_. op_bind (stored_alarm ?E)
               (\<lambda>a. upd (\<lambda>m. m\<lparr>am_no_later := a\<rparr>))))"
  obtain m where m: "new_store_mem (sf_data file) = Inr m" using new by (cases "new_store_mem (sf_data file)") (simp_all add: new_actor_def)
  let ?s0 = "\<lparr>sq_file = file, sq_callbacks = [], sq_savepoints = [], sq_in_txn = False, sq_critical = None,
              sq_mem = init_actor_mem m\<rparr>"
  have s: "s = snd (?read ?s0)" using new m unfolding new_actor_def by (auto split: prod.splits sum.splits)
  note v = new_store_agrees [OF m]
  have "frames_ok agree store_callback ?s0"
    by (simp add: frames_ok_def marks_def frame_names_def txn_open_def closed)
  then have ok: "store_ok ?s0" by (rule store_okI) (use v in simp)
  have g: "guarded {} {} ?s0" using v(2)
    by (simp add: guarded_def txn_inv_def commits_ok_def holder_ok_def txn_view_def)
  have "good {} {} ?read" by (intro good_bind store_good good_upd) simp_all
  then show ?thesis using ok g unfolding s by (simp add: good_def actor_inv_def)
qed

section \<open>Steps\<close>

text \<open>
  Code that runs without awaiting: the calls it makes, whatever it decides from what it sees, and the
  exceptions it catches. \<open>sql\<close> is a statement on the tables of the application.
\<close>

inductive sync_code :: "'u actor_env \<Rightarrow> ('u, unit) aop \<Rightarrow> bool" for E where
  returns: "sync_code E (op_return ())"
| throws: "sync_code E (op_throw e)"
| gets: "sync_code E (op_bind (actor_get E k) (\<lambda>_. op_return ()))"
| gets_multiple: "sync_code E (op_bind (actor_get_multiple E ks) (\<lambda>_. op_return ()))"
| gets_alarm: "sync_code E (op_bind (actor_get_alarm E) (\<lambda>_. op_return ()))"
| lists: "sync_code E (op_bind (actor_list E b e n) (\<lambda>_. op_return ()))"
| lists_reverse: "sync_code E (op_bind (actor_list_reverse E b e n) (\<lambda>_. op_return ()))"
| puts: "sync_code E (actor_put E k v au)"
| puts_multiple: "sync_code E (actor_put_multiple E ps au)"
| deletes: "sync_code E (op_bind (actor_delete E k au) (\<lambda>_. op_return ()))"
| deletes_multiple: "sync_code E (op_bind (actor_delete_multiple E ks au) (\<lambda>_. op_return ()))"
| sets_alarm: "sync_code E (actor_set_alarm E a au)"
| deletes_all: "sync_code E (op_bind (actor_delete_all E da) (\<lambda>_. op_return ()))"
| bookmark: "sync_code E (op_bind (get_current_bookmark E) (\<lambda>_. op_return ()))"
| sql: "leading_keyword sql \<notin> CONTROL_KEYWORDS \<Longrightarrow> (\<And>d e d'. f bs d = (Inl e, d') \<Longrightarrow> d' = d) \<Longrightarrow>
    (\<And>d v d'. f bs d = (Inr v, d') \<Longrightarrow> tb_kv d' = tb_kv d \<and> tb_meta d' = tb_meta d) \<Longrightarrow>
    sync_code E (op_bind (db_run1 (actor_hooks E) (ae_backend E) (data_stmt sql n f) bs False) (\<lambda>_. op_return ()))"
| begins: "sync_code E (op_bind (start_transaction E) (\<lambda>_. op_return ()))"
| rolls_back: "sync_code E (explicit_rollback E j)"
| drops: "sync_code E (explicit_drop E j)"
| seq: "sync_code E m \<Longrightarrow> sync_code E n \<Longrightarrow> sync_code E (op_bind m (\<lambda>_. n))"
| choose: "(\<And>s. sync_code E (f s)) \<Longrightarrow> sync_code E (\<lambda>s. f s s)"
| catches: "sync_code E m \<Longrightarrow> (\<And>e. sync_code E (g e)) \<Longrightarrow> sync_code E (op_catch m g)"
| nested: "sync_code E m \<Longrightarrow> sync_code E (transaction_sync E (op_bind m (\<lambda>_. op_return ((), thenable))))"

lemma sql_good:
  fixes prep u sr
  defines "E \<equiv> file_env prep u sr"
  assumes "leading_keyword sql \<notin> CONTROL_KEYWORDS" "\<And>d e d'. f bs d = (Inl e, d') \<Longrightarrow> d' = d"
    "\<And>d v d'. f bs d = (Inr v, d') \<Longrightarrow> tb_kv d' = tb_kv d \<and> tb_meta d' = tb_meta d"
  shows "good X C (db_run1 (actor_hooks E) (ae_backend E) (data_stmt sql n f) bs False)"
  unfolding E_def file_env_backend
proof (rule goodI)
  show "control.keeps (db_run1 (actor_hooks (file_env prep u sr)) (file_backend prep (empty_tables u)) (data_stmt sql n f) bs False)"
    by (rule actor.run_same) (use assms(2-4) in \<open>fastforce simp: unseen_def alarm_in_def\<close>)+
  show "actor_outer.outer X C (db_run1 (actor_hooks (file_env prep u sr)) (file_backend prep (empty_tables u)) (data_stmt sql n f) bs False)"
    by (rule actor_outer.outer_data, rule is_dataI [OF _ refl]) (simp add: data_stmt_def assms(2))
qed

lemma sync_code_good:
  assumes "sync_code (file_env prep u sr) m"
  shows "good X C m"
  using assms
proof (induction m rule: sync_code.induct)
  case (sql sql f bs n)
  show ?case by (rule good_bind [OF sql_good [OF sql(1)] good_pure(1)]) (use sql in auto)
next
  case (nested m thenable)
  show ?case by (rule transaction_sync_good [OF good_bind [OF nested.IH good_pure(1)]])
next
  case (choose f)
  show ?case by (rule good_state [OF choose.IH])
qed (intro good_bind good_pure good_catch access_good lists_good put_multiple_good delete_all_good start_transaction_good
    explicit_rollback_good explicit_drop_good | assumption)+

inductive actor_step :: "'u actor_env \<Rightarrow> 'u actor \<Rightarrow> 'u actor \<Rightarrow> bool" for E where
  code: "sync_code E m \<Longrightarrow> actor_step E s (snd (m s))"
| commits: "am_current (sq_mem s) = ExplicitTxn j \<Longrightarrow> actor_step E s (snd (explicit_commit E j s))"
| starts: "c < length (am_commits (sq_mem s)) \<Longrightarrow> actor_step E s (snd (commit_start E c s))"
| resumes: "c < length (am_commits (sq_mem s)) \<Longrightarrow> actor_step E s (snd (commit_resume E c s))"
| persisted: "c < length (am_commits (sq_mem s)) \<Longrightarrow> actor_step E s (snd (commit_persisted E c res s))"
| caught: "c < length (am_commits (sq_mem s)) \<Longrightarrow> actor_step E s (mem (commit_caught c) s)"
| task_fails: "c < length (am_commits (sq_mem s)) \<Longrightarrow> actor_step E s (mem (commit_task_failed c) s)"
| settles: "k < length (am_requests (sq_mem s)) \<Longrightarrow> rq_result (am_requests (sq_mem s) ! k) = None \<Longrightarrow>
    actor_step E s (mem (request_settled k res) s)"
| later: "am_later_handler (sq_mem s) = Some k \<Longrightarrow> rq_result (am_requests (sq_mem s) ! k) \<noteq> None \<Longrightarrow>
    actor_step E s (snd (later_done E s))"
| arms: "actor_step E s (snd (arm_alarm_handler E scheduled now s))"
| handled: "d < length (am_deleters (sq_mem s)) \<Longrightarrow> actor_step E s (snd (deleter_drop E d s))"
| cancels: "actor_step E s (mem cancel_deferred_alarm_deletion s)"
| abandons: "actor_step E s (snd (abandon_alarm E scheduled s))"
| shuts_down: "actor_step E s (mem (actor_shutdown e) s)"

inductive actor_reachable :: "'u actor_env \<Rightarrow> 'u actor \<Rightarrow> bool" for E where
  opened: "new_actor E file = Inr s \<Longrightarrow> sf_stack file = [] \<Longrightarrow> actor_reachable E s"
| stepped: "actor_reachable E s \<Longrightarrow> actor_step E s t \<Longrightarrow> actor_reachable E t"

inductive_cases actor_stepE: "actor_step E s t"

lemma stepD: "good {} {} m \<Longrightarrow> actor_inv s \<Longrightarrow> actor_inv (snd (m s))"
  by (simp add: good_def actor_inv_def)

lemma memory_step: "(\<And>m. caches (f m) = caches m) \<Longrightarrow> (\<And>m. txn_view (f m) = txn_view m) \<Longrightarrow> actor_inv s \<Longrightarrow> actor_inv (mem f s)"
  by (rule stepD [OF good_upd, of f s, unfolded op_modify_def snd_conv])

lemma actor_step_inv:
  assumes "actor_step (file_env prep u sr) s t" "actor_inv s"
  shows "actor_inv t"
  using assms(1)
proof cases
  case (code m)
  show ?thesis unfolding code(1) by (rule stepD [OF sync_code_good [OF code(2)] assms(2)])
next
  case (commits j)
  show ?thesis unfolding commits(1) actor_inv_def by (rule explicit_commit_ok) (use commits(2) assms(2) in \<open>simp_all add: actor_inv_def\<close>)
next
  case (settles k res)
  show ?thesis unfolding settles by (rule memory_step [OF _ _ assms(2)]) (simp_all add: request_settled_def Let_def)
next
  case (later k)
  show ?thesis unfolding later(1) by (rule stepD [OF later_done_good assms(2)])
next
  case (arms scheduled now)
  show ?thesis unfolding arms by (rule stepD [OF alarm_handler_good(1) assms(2)])
next
  case (handled d)
  show ?thesis unfolding handled by (rule stepD [OF alarm_handler_good(2) assms(2)])
next
  case cancels
  show ?thesis unfolding cancels by (rule memory_step [OF _ _ assms(2)]) (simp_all add: cancel_deferred_alarm_deletion_def)
next
  case (abandons scheduled)
  show ?thesis unfolding abandons by (rule stepD [OF alarm_handler_good(3) assms(2)])
next
  case (shuts_down e)
  show ?thesis unfolding shuts_down
    by (rule memory_step [OF _ _ assms(2)]) (simp_all add: actor_shutdown_def split: option.split)
qed (use assms(2) commit_start_inv commit_resume_inv commit_persisted_inv commit_ends_inv in auto)

lemma reachable_inv: "actor_reachable (file_env prep u sr) s \<Longrightarrow> actor_inv s"
  by (induction rule: actor_reachable.induct) (auto intro: new_actor_inv actor_step_inv)

end
