(* ===== verification/Actor_Demo.thy ===== *)
theory Actor_Demo
  imports Actor_Reach
begin

text \<open>
  One actor on an empty file on which every statement runs, evaluated by hand: it sets an alarm. The
  properties are instantiated at its states.
\<close>

section \<open>Statements that run\<close>

lemma eval_data:
  assumes st: "st = data_stmt sql k f"
    and run: "sq_critical s = None" "leading_keyword (st_sql st) \<notin> CONTROL_KEYWORDS"
    "(if is_write (st_sql st) then on_write E au else op_return ()) s = (Inr (), t)"
    "sf_script (sq_file t) (sf_n (sq_file t)) = Runs" "f b (db_data t) = (Inr v, d)"
  shows "db_run1 (actor_hooks E) (file_backend p d0) st b au s =
    (Inr v, t\<lparr>sq_file := (sq_file t)\<lparr>sf_n := Suc (sf_n (sq_file t)), sf_data := d\<rparr>\<rparr>)"
  using run classify_data [OF run(2)] unfolding st
  by (simp add: db_run1_def exec_statement_def assert_usable_def data_stmt_def op_bind_def notify_write_def actor_hooks_def
      scripted_def Let_def apply_change_def op_return_def split: if_splits)

lemma eval_begin:
  fixes s :: "'u actor"
  assumes "sq_critical s = None" "sq_savepoints s = []" "\<not> sq_in_txn s" "sq_callbacks s = []" "sf_stack (sq_file s) = []"
    "sf_script (sq_file s) (sf_n (sq_file s)) = Runs"
  shows "run_control (file_env prep u sr) STMT_BEGIN s = (Inr (), s\<lparr>sq_in_txn := True,
    sq_file := (sq_file s)\<lparr>sf_n := Suc (sf_n (sq_file s)), sf_stack := [(None, db_data s)]\<rparr>\<rparr>)"
  using assms control_texts(1) control_not_write [OF control_texts(1)]
  by (simp add: run_control_def db_run1_def exec_statement_def assert_usable_def STMT_BEGIN_def control_stmt_def op_simps
      scripted_def control_def Let_def apply_change_def apply_begin_def js_assert_def)

lemma eval_first_write:
  fixes s :: "'u actor"
  assumes "sq_critical s = None" "sq_savepoints s = []" "\<not> sq_in_txn s" "sq_callbacks s = []" "sf_stack (sq_file s) = []"
    "sf_script (sq_file s) (sf_n (sq_file s)) = Runs" "am_broken (sq_mem s) = None" "am_current (sq_mem s) = NoTxn"
    "length (am_implicit (sq_mem s)) = i" "length (am_commits (sq_mem s)) = c"
  shows "on_write (file_env prep u sr) False s = (Inr (), s\<lparr>sq_in_txn := True,
    sq_file := (sq_file s)\<lparr>sf_n := Suc (sf_n (sq_file s)), sf_stack := [(None, db_data s)]\<rparr>,
    sq_mem := (sq_mem s)\<lparr>am_current := ImplicitTxn i,
      am_implicit := am_implicit (sq_mem s) @ [\<lparr>it_committed = False, it_dropped = False, it_confirmed = True\<rparr>],
      am_commits := am_commits (sq_mem s) @ [\<lparr>cm_kind = FlushImplicit i, cm_phase = Scheduled, cm_shared = None\<rparr>],
      am_last_commit := CommitOf c, am_locks := am_locks (sq_mem s) @ [LockOn (CommitOf c)]\<rparr>\<rparr>)"
  using assms eval_begin [OF assms(1-6), of prep u sr]
  by (simp add: on_write_def require_not_broken_def start_implicit_txn_def implicit_new_def op_simps Let_def mem_def
      add_commit_def add_lock_def set_implicit_def nth_append list_update_append)

lemma eval_next_write:
  assumes "am_broken (sq_mem s) = None" "am_current (sq_mem s) = ImplicitTxn i" "it_confirmed (am_implicit (sq_mem s) ! i)"
  shows "on_write E au s = (Inr (), s)"
  using assms by (simp add: on_write_def require_not_broken_def op_bind_def)

section \<open>The actor\<close>

definition demo_env :: "unit actor_env" where
  "demo_env = file_env (\<lambda>_ _. Inl SQL_ERROR) () (\<lambda>_ _. None)"

definition demo_file :: "unit tables sql_file" where
  "demo_file = \<lparr>sf_data = empty_tables (), sf_stack = [], sf_script = (\<lambda>_. Runs), sf_n = 0\<rparr>"

definition demo_new :: "unit actor" where
  "demo_new = \<lparr>sq_file = demo_file, sq_callbacks = [], sq_savepoints = [], sq_in_txn = False, sq_critical = None,
     sq_mem = (init_actor_mem \<lparr>km_created = False, km_current = None, km_cursors = [], mm_created = False, mm_cache = Some None\<rparr>)\<rparr>"

definition demo_alarm :: "unit actor" where
  "demo_alarm = snd (actor_set_alarm demo_env (Some 9) False demo_new)"

lemma demo_new: "new_actor demo_env demo_file = Inr demo_new"
  by (simp add: new_actor_def new_store_mem_def demo_file_def empty_tables_def meta_get_alarm_def get_alarm_uncached_def
      assert_usable_def op_simps mem_def demo_new_def init_actor_mem_def store_mem.extend_def actor_mem.defs)

lemma demo_new_fields:
  "sq_critical demo_new = None" "sq_savepoints demo_new = []" "\<not> sq_in_txn demo_new" "sq_callbacks demo_new = []"
  "sq_file demo_new = demo_file" "mm_created (sq_mem demo_new) = False" "mm_cache (sq_mem demo_new) = Some None"
  "am_broken (sq_mem demo_new) = None" "am_current (sq_mem demo_new) = NoTxn" "am_implicit (sq_mem demo_new) = []"
  "am_commits (sq_mem demo_new) = []" "am_locks (sq_mem demo_new) = []" "am_no_later (sq_mem demo_new) = None"
  "am_pending_commit (sq_mem demo_new) = None" "am_requests (sq_mem demo_new) = []" "am_version (sq_mem demo_new) = 0"
  by (simp_all add: demo_new_def init_actor_mem_def store_mem.extend_def actor_mem.defs)

lemma demo_file_fields: "sf_stack demo_file = []" "sf_script demo_file n = Runs" "sf_data demo_file = empty_tables ()" "sf_n demo_file = 0"
  by (simp_all add: demo_file_def)

text \<open>Its first write begins a transaction.\<close>

definition demo_began :: "unit actor" where
  "demo_began = demo_new\<lparr>sq_in_txn := True,
    sq_file := demo_file\<lparr>sf_n := 1, sf_stack := [(None, empty_tables ())]\<rparr>,
    sq_mem := (sq_mem demo_new)\<lparr>am_current := ImplicitTxn 0, am_implicit := [\<lparr>it_committed = False, it_dropped = False, it_confirmed = True\<rparr>],
      am_commits := [\<lparr>cm_kind = FlushImplicit 0, cm_phase = Scheduled, cm_shared = None\<rparr>],
      am_last_commit := CommitOf 0, am_locks := [LockOn (CommitOf 0)]\<rparr>\<rparr>"

lemma demo_first_write: "on_write demo_env False demo_new = (Inr (), demo_began)"
  unfolding demo_began_def demo_env_def
  by (subst eval_first_write [where i = 0 and c = 0]) (simp_all add: demo_new_fields demo_file_fields)

lemma demo_alarm_set:
  "actor_set_alarm demo_env (Some 9) False demo_new = (Inr (), demo_alarm)"
  "sq_critical demo_alarm = None" "am_current (sq_mem demo_alarm) = ImplicitTxn 0"
  "mm_cache (sq_mem demo_alarm) = Some (Some 9)" "am_no_later (sq_mem demo_alarm) = None"
  "length (am_commits (sq_mem demo_alarm)) = 1" "am_requests (sq_mem demo_alarm) = []" "am_broken (sq_mem demo_alarm) = None"
  "am_pending_commit (sq_mem demo_alarm) = None" "sq_in_txn demo_alarm" "sf_stack (sq_file demo_alarm) \<noteq> []"
  "sf_script (sq_file demo_alarm) n = Runs"
  "am_implicit (sq_mem demo_alarm) = [\<lparr>it_committed = False, it_dropped = False, it_confirmed = True\<rparr>]"
  "am_commits (sq_mem demo_alarm) = [\<lparr>cm_kind = FlushImplicit 0, cm_phase = Scheduled, cm_shared = None\<rparr>]"
  "am_locks (sq_mem demo_alarm) = [LockOn (CommitOf 0)]"
proof -
  have w: "is_write (st_sql (META_CREATE_TABLE :: unit stmt))" "is_write (st_sql (STMT_setAlarm :: unit stmt))"
    by (simp_all add: is_write_def stmt_text NON_WRITE_KEYWORDS_def of_chars_def)
  have kw: "leading_keyword (st_sql (META_CREATE_TABLE :: unit stmt)) \<notin> CONTROL_KEYWORDS"
    "leading_keyword (st_sql (STMT_setAlarm :: unit stmt)) \<notin> CONTROL_KEYWORDS"
    by (simp_all add: stmt_text data_keywords)
  let ?E = "file_env (\<lambda>_ _. Inl SQL_ERROR) () (\<lambda>_ _. None) :: unit actor_env"
  let ?be = "file_backend (\<lambda>_ _. Inl SQL_ERROR) (empty_tables ()) :: unit tables sql_file sql_backend"
  define s1 where "s1 = demo_began"
  note s1_def = s1_def demo_began_def
  have first: "on_write ?E False demo_new = (Inr (), s1)" using demo_first_write by (simp add: s1_def(1) demo_env_def)
  define s2 where "s2 = s1\<lparr>sq_file := (sq_file s1)\<lparr>sf_n := 2, sf_data := (empty_tables ())\<lparr>tb_meta := Some []\<rparr>\<rparr>\<rparr>"
  have run1: "db_run1 (actor_hooks ?E) ?be META_CREATE_TABLE [] False demo_new = (Inr (no_rows 0), s2)"
    unfolding s2_def
    by (subst eval_data [OF META_CREATE_TABLE_def demo_new_fields(1) kw(1), where t = s1])
      (use w(1) first in \<open>simp_all add: s1_def demo_file_fields empty_tables_def numeral_2_eq_2\<close>)
  define s3 where "s3 = on_rollback MetaCreated (mem (\<lambda>m. m\<lparr>mm_created := True\<rparr>) s2)"
  have s3: "sq_critical s3 = None" "am_broken (sq_mem s3) = None" "am_current (sq_mem s3) = ImplicitTxn 0"
    "it_confirmed (am_implicit (sq_mem s3) ! 0)" "sf_script (sq_file s3) n = Runs" "tb_meta (db_data s3) = Some []" for n
    by (simp_all add: s3_def on_rollback_def mem_def s2_def s1_def demo_new_fields demo_file_fields txn_open_def)
  define s4 where "s4 = s3\<lparr>sq_file := (sq_file s3)\<lparr>sf_n := Suc (sf_n (sq_file s3)),
    sf_data := (db_data s3)\<lparr>tb_meta := Some [(1, SNum 9)]\<rparr>\<rparr>\<rparr>"
  have run2: "db_run1 (actor_hooks ?E) ?be STMT_setAlarm [SNum 9] False s3 = (Inr (no_rows 1), s4)"
    unfolding s4_def
    by (subst eval_data [OF STMT_setAlarm_def s3(1) kw(2), where t = s3])
      (use w(2) eval_next_write [OF s3(2-4)] in \<open>simp_all add: s3(5,6) on_meta_def\<close>)
  define s5 where "s5 = mem (\<lambda>m. m\<lparr>mm_cache := Some (Some 9)\<rparr>) (on_rollback (MetaCache (Some None)) s4)"
  have s5: "sq_critical s5 = None" "am_current (sq_mem s5) = ImplicitTxn 0" "mm_cache (sq_mem s5) = Some (Some 9)"
    "am_no_later (sq_mem s5) = None" "length (am_commits (sq_mem s5)) = 1" "am_requests (sq_mem s5) = []"
    "am_broken (sq_mem s5) = None" "am_pending_commit (sq_mem s5) = None" "sq_in_txn s5" "sf_stack (sq_file s5) \<noteq> []"
    "sf_script (sq_file s5) n = Runs"
    "am_implicit (sq_mem s5) = [\<lparr>it_committed = False, it_dropped = False, it_confirmed = True\<rparr>]"
    "am_commits (sq_mem s5) = [\<lparr>cm_kind = FlushImplicit 0, cm_phase = Scheduled, cm_shared = None\<rparr>]"
    "am_locks (sq_mem s5) = [LockOn (CommitOf 0)]" for n
    by (simp_all add: s5_def s4_def s3_def on_rollback_def mem_def s2_def s1_def demo_new_fields demo_file_fields txn_open_def)
  have "meta_set_alarm (actor_hooks ?E) ?be (Some 9) False demo_new = (Inr True, s5)"
    using run1 run2 by (simp add: meta_set_alarm_def set_alarm_uncached_def meta_ensure_initialized_def demo_new_fields
        op_simps alarm_value_def s3_def s5_def)
  then have eq: "actor_set_alarm ?E (Some 9) False demo_new = (Inr (), mem (\<lambda>m. m\<lparr>am_version := Suc (am_version m),
      am_deferred_delete := False\<rparr>) s5)"
    using s5(2) by (simp add: actor_set_alarm_def change_alarm_def require_not_broken_def demo_new_fields op_simps mem_def)
  have eq': "demo_alarm = mem (\<lambda>m. m\<lparr>am_version := Suc (am_version m), am_deferred_delete := False\<rparr>) s5"
    unfolding demo_alarm_def demo_env_def eq by simp
  show "actor_set_alarm demo_env (Some 9) False demo_new = (Inr (), demo_alarm)"
    unfolding eq' unfolding demo_env_def eq by simp
  show "sq_critical demo_alarm = None" "am_current (sq_mem demo_alarm) = ImplicitTxn 0"
    "mm_cache (sq_mem demo_alarm) = Some (Some 9)" "am_no_later (sq_mem demo_alarm) = None"
    "length (am_commits (sq_mem demo_alarm)) = 1" "am_requests (sq_mem demo_alarm) = []" "am_broken (sq_mem demo_alarm) = None"
    "am_pending_commit (sq_mem demo_alarm) = None" "sq_in_txn demo_alarm" "sf_stack (sq_file demo_alarm) \<noteq> []"
    "sf_script (sq_file demo_alarm) n = Runs"
    "am_implicit (sq_mem demo_alarm) = [\<lparr>it_committed = False, it_dropped = False, it_confirmed = True\<rparr>]"
    "am_commits (sq_mem demo_alarm) = [\<lparr>cm_kind = FlushImplicit 0, cm_phase = Scheduled, cm_shared = None\<rparr>]"
    "am_locks (sq_mem demo_alarm) = [LockOn (CommitOf 0)]"
    unfolding eq' by (simp_all add: mem_def s5)
qed

lemma demo_reachable: "actor_reachable demo_env demo_new" "actor_reachable demo_env demo_alarm"
proof -
  show new: "actor_reachable demo_env demo_new" by (rule opened [OF demo_new]) (simp add: demo_file_fields)
  show "actor_reachable demo_env demo_alarm"
    using stepped [OF new code [OF sets_alarm]] demo_alarm_set(1) by (metis snd_conv)
qed

text \<open>Its transaction is flushed: it asks for the alarm, commits, and waits for the scheduler.\<close>

definition demo_flushed :: "unit actor" where
  "demo_flushed = snd (commit_start demo_env 0 demo_alarm)"

lemma eval_commit:
  fixes s :: "'u actor"
  assumes "sq_critical s = None" "sq_in_txn s" "sf_stack (sq_file s) \<noteq> []" "sf_script (sq_file s) (sf_n (sq_file s)) = Runs"
  shows "run_control (file_env prep u sr) STMT_COMMIT s = (Inr (), drop_callbacks (s\<lparr>sq_file := (sq_file s)\<lparr>sf_n := Suc (sf_n (sq_file s)), sf_stack := []\<rparr>,
    sq_savepoints := [], sq_in_txn := False\<rparr>))"
  using assms control_texts(2) control_not_write [OF control_texts(2)]
  by (simp add: run_control_def db_run1_def exec_statement_def assert_usable_def STMT_COMMIT_def control_stmt_def op_simps
      scripted_def control_def Let_def apply_change_def apply_commit_def js_assert_def)

lemma demo_flushed: "am_commits (sq_mem demo_flushed) = [\<lparr>cm_kind = FlushImplicit 0, cm_phase = AwaitRequest 0, cm_shared = None\<rparr>]"
  "actor_reachable demo_env demo_flushed" "sq_critical demo_flushed = None" "mm_cache (sq_mem demo_flushed) = Some (Some 9)"
  "length (am_requests (sq_mem demo_flushed)) = 1" "rq_result (am_requests (sq_mem demo_flushed) ! 0) = None"
  "rq_time (am_requests (sq_mem demo_flushed) ! 0) = Some 9" "\<not> rq_later (am_requests (sq_mem demo_flushed) ! 0)"
  "am_locks (sq_mem demo_flushed) = [LockOn (CommitOf 0)]"
proof -
  note D = demo_alarm_set
  have st: "stored_alarm demo_env s = (Inr (Some 9), s)" if "sq_critical s = None" "mm_cache (sq_mem s) = Some (Some 9)" for s
    using that by (simp add: meta_get_alarm_def op_bind_def assert_usable_def)
  define s1 where "s1 = mem (\<lambda>m. m\<lparr>am_pending_later := None, am_requests := [\<lparr>rq_time = Some 9, rq_prior = am_later_in_flight (sq_mem demo_alarm),
    rq_later = False, rq_result = None\<rparr>]\<rparr>) demo_alarm"
  have pre: "start_precommit_alarm_scheduling demo_env demo_alarm = (Inr (Some 0), s1)"
    using D st by (simp add: start_precommit_alarm_scheduling_def op_simps will_fire_earlier_def request_scheduled_alarm_def
        Let_def demo_env_def file_env_def s1_def mem_def)
  have s1: "sq_critical s1 = None" "sq_in_txn s1" "sf_stack (sq_file s1) \<noteq> []" "sf_script (sq_file s1) n = Runs"
    "am_implicit (sq_mem s1) = am_implicit (sq_mem demo_alarm)" "am_commits (sq_mem s1) = am_commits (sq_mem demo_alarm)"
    "am_pending_commit (sq_mem s1) = None" for n
    by (simp_all add: s1_def mem_def D)
  define s2 where "s2 = drop_callbacks (s1\<lparr>sq_file := (sq_file s1)\<lparr>sf_n := Suc (sf_n (sq_file s1)), sf_stack := []\<rparr>,
    sq_savepoints := [], sq_in_txn := False\<rparr>)"
  have co: "run_control demo_env STMT_COMMIT s1 = (Inr (), s2)" unfolding s2_def demo_env_def by (rule eval_commit) (rule s1)+
  have m2: "sq_mem s2 = sq_mem s1" by (simp add: s2_def)
  have fl: "am_locks (sq_mem s1) = [LockOn (CommitOf 0)]" "sq_critical s2 = None" "mm_cache (sq_mem s1) = Some (Some 9)" "am_requests (sq_mem s1) = [\<lparr>rq_time = Some 9,
      rq_prior = am_later_in_flight (sq_mem demo_alarm), rq_later = False, rq_result = None\<rparr>]"
    by (simp_all add: s2_def s1_def mem_def D)
  have eq: "demo_flushed = snd (flush_implicit demo_env 0 0 demo_alarm)"
    by (simp add: demo_flushed_def commit_start_def D)
  have f: "am_commits (sq_mem demo_flushed) = [\<lparr>cm_kind = FlushImplicit 0, cm_phase = AwaitRequest 0, cm_shared = None\<rparr>] \<and>
      sq_critical demo_flushed = None \<and> mm_cache (sq_mem demo_flushed) = Some (Some 9) \<and>
      am_requests (sq_mem demo_flushed) = [\<lparr>rq_time = Some 9, rq_prior = am_later_in_flight (sq_mem demo_alarm), rq_later = False, rq_result = None\<rparr>] \<and>
      am_locks (sq_mem demo_flushed) = [LockOn (CommitOf 0)]"
    unfolding eq using pre co D s1 m2 fl
    by (simp add: flush_implicit_def op_simps require_not_broken_def implicit_commit_def implicit_drop_def mem_def set_implicit_def
        commit_impl_def enter_def set_commit_def)
  show "am_commits (sq_mem demo_flushed) = [\<lparr>cm_kind = FlushImplicit 0, cm_phase = AwaitRequest 0, cm_shared = None\<rparr>]"
    "sq_critical demo_flushed = None" "mm_cache (sq_mem demo_flushed) = Some (Some 9)"
    "length (am_requests (sq_mem demo_flushed)) = 1" "rq_result (am_requests (sq_mem demo_flushed) ! 0) = None"
    "rq_time (am_requests (sq_mem demo_flushed) ! 0) = Some 9" "\<not> rq_later (am_requests (sq_mem demo_flushed) ! 0)"
    "am_locks (sq_mem demo_flushed) = [LockOn (CommitOf 0)]"
    using f by simp_all
  show "actor_reachable demo_env demo_flushed" unfolding demo_flushed_def
    by (rule stepped [OF demo_reachable(2) starts]) (simp add: D)
qed

end
