(* ===== verification/Actor_Props.thy ===== *)
theory Actor_Props
  imports Actor_Demo
begin

text \<open>What holds of every actor: its caches, the flush of its writes, and the order of alarm and commit.\<close>

section \<open>Caches\<close>



section \<open>Writes are flushed\<close>

lemma on_write_confirms:
  assumes "on_write E False s = (Inr (), t)"
  shows "am_current (sq_mem t) \<noteq> NoTxn"
    "am_current (sq_mem t) = ImplicitTxn i \<Longrightarrow> i < length (am_implicit (sq_mem t)) \<Longrightarrow> it_confirmed (am_implicit (sq_mem t) ! i)"
    "am_current (sq_mem t) = ExplicitTxn j \<Longrightarrow> j < length (am_explicit (sq_mem t)) \<Longrightarrow> et_confirmed (am_explicit (sq_mem t) ! j)"
proof -
  obtain v where v: "(case am_current (sq_mem v) of
        NoTxn \<Rightarrow> (Inl (Failure ''we must have a transaction at this point''), v)
      | ImplicitTxn i \<Rightarrow>
          (if \<not> it_confirmed (am_implicit (sq_mem v) ! i) \<and> \<not> False
           then (Inr (), mem (\<lambda>m. add_lock (LockOn (am_last_commit m)) (set_implicit i (\<lambda>t. t\<lparr>it_confirmed := True\<rparr>) m)) v)
           else (Inr (), v))
      | ExplicitTxn j \<Rightarrow>
          (if \<not> et_confirmed (am_explicit (sq_mem v) ! j) \<and> \<not> False
           then (Inr (), mem (set_explicit j (\<lambda>t. t\<lparr>et_confirmed := True\<rparr>)) v)
           else (Inr (), v))) = (Inr (), t)"
  proof (rule op_bind_InrE [OF assms [unfolded on_write_def]], goal_cases)
    case (1 w s1)
    show ?case by (rule op_bind_InrE [OF 1(3)]) (rule 1(1))
  qed
  let ?i = "\<lambda>i. mem (\<lambda>m. add_lock (LockOn (am_last_commit m)) (set_implicit i (\<lambda>t. t\<lparr>it_confirmed := True\<rparr>) m)) v"
  let ?e = "\<lambda>j. mem (set_explicit j (\<lambda>t. t\<lparr>et_confirmed := True\<rparr>)) v"
  have ti: "t = (if it_confirmed (am_implicit (sq_mem v) ! i) then v else ?i i)" if "am_current (sq_mem v) = ImplicitTxn i" for i
    using v that by (auto split: if_splits)
  have te: "t = (if et_confirmed (am_explicit (sq_mem v) ! j) then v else ?e j)" if "am_current (sq_mem v) = ExplicitTxn j" for j
    using v that by (auto split: if_splits)
  have cur: "am_current (sq_mem v) \<noteq> NoTxn" using v by (auto split: if_splits)
  have same: "am_current (sq_mem t) = am_current (sq_mem v)"
  proof (cases "am_current (sq_mem v)")
    case (ImplicitTxn i)
    then show ?thesis using ti by (simp add: mem_def add_lock_def set_implicit_def)
  next
    case (ExplicitTxn j)
    then show ?thesis using te by (simp add: mem_def set_explicit_def)
  qed (use cur in simp)
  show "am_current (sq_mem t) \<noteq> NoTxn" using cur same by simp
  show "it_confirmed (am_implicit (sq_mem t) ! i)" if "am_current (sq_mem t) = ImplicitTxn i" "i < length (am_implicit (sq_mem t))"
  proof -
    have "am_current (sq_mem v) = ImplicitTxn i" using same that(1) by simp
    from ti [OF this] that(2) show ?thesis
      by (cases "it_confirmed (am_implicit (sq_mem v) ! i)") (simp_all add: mem_def add_lock_def set_implicit_def)
  qed
  show "et_confirmed (am_explicit (sq_mem t) ! j)" if "am_current (sq_mem t) = ExplicitTxn j" "j < length (am_explicit (sq_mem t))"
  proof -
    have "am_current (sq_mem v) = ExplicitTxn j" using same that(1) by simp
    from te [OF this] that(2) show ?thesis
      by (cases "et_confirmed (am_explicit (sq_mem v) ! j)") (simp_all add: mem_def set_explicit_def)
  qed
qed

text \<open>
  C27. A write that must be confirmed holds the output gate until it is. After the write callback of such a
  write the current transaction is open in SQLite; if it is implicit, the commit that will flush it is the
  last one formed, has not begun, and the gate is locked on it, and if it is explicit it remembers
  that its commit must lock the gate.
\<close>

theorem confirmed_write_holds_gate:
  assumes "actor_reachable (file_env prep u sr) s" "on_write (file_env prep u sr) False s = (Inr (), t)"
  shows "case am_current (sq_mem t) of
      NoTxn \<Rightarrow> False
    | ImplicitTxn i \<Rightarrow> \<not> it_committed (am_implicit (sq_mem t) ! i) \<and> \<not> it_dropped (am_implicit (sq_mem t) ! i) \<and>
        (sq_critical t = None \<longrightarrow> sq_in_txn t) \<and>
        list_ex (\<lambda>c. am_last_commit (sq_mem t) = CommitOf c \<and> LockOn (CommitOf c) \<in> set (am_locks (sq_mem t)) \<and>
          cm_kind (am_commits (sq_mem t) ! c) = FlushImplicit i \<and> cm_phase (am_commits (sq_mem t) ! c) = Scheduled)
          [0..<length (am_commits (sq_mem t))]
    | ExplicitTxn j \<Rightarrow> j < length (am_explicit (sq_mem t)) \<longrightarrow> et_confirmed (am_explicit (sq_mem t) ! j)"
proof -
  have inv: "guarded {} {} s" using reachable_inv [OF assms(1)] by (simp add: actor_inv_def)
  have g: "guarded {} {} t" using on_write_guarded [OF inv, of "file_env prep u sr" False] assms(2) by simp
  have ok: "commits_ok {} (sq_mem t)" "sq_critical t = None \<Longrightarrow> holder_ok (sq_in_txn t) (sq_mem t)"
    using g by (simp_all add: guarded_def txn_inv_def)
  note W = on_write_confirms [OF assms(2)]
  show ?thesis
  proof (cases "am_current (sq_mem t)")
    case (ImplicitTxn i)
    note gi = guarded_current [OF g ImplicitTxn]
    have un: "\<not> it_committed (am_implicit (sq_mem t) ! i)" and fs: "flush_scheduled (sq_mem t) i"
      using ok(1) ImplicitTxn by (simp_all add: commits_ok_def)
    obtain c where c: "c < length (am_commits (sq_mem t))" "am_last_commit (sq_mem t) = CommitOf c"
      "LockOn (CommitOf c) \<in> set (am_locks (sq_mem t))" "cm_kind (am_commits (sq_mem t) ! c) = FlushImplicit i"
      "cm_phase (am_commits (sq_mem t) ! c) = Scheduled"
      using fs W(2) [OF ImplicitTxn gi(1)] by (auto simp: flush_scheduled_def)
    have "list_ex (\<lambda>c. am_last_commit (sq_mem t) = CommitOf c \<and> LockOn (CommitOf c) \<in> set (am_locks (sq_mem t)) \<and>
          cm_kind (am_commits (sq_mem t) ! c) = FlushImplicit i \<and> cm_phase (am_commits (sq_mem t) ! c) = Scheduled)
          [0..<length (am_commits (sq_mem t))]"
      unfolding list_ex_iff by (rule bexI [of _ c]) (simp_all add: c)
    moreover have "sq_in_txn t" if "sq_critical t = None" using ok(2) [OF that] gi un unfolding holder_ok_def by blast
    ultimately show ?thesis using ImplicitTxn gi(2) un by simp
  qed (use W in auto)
qed

lemma confirmed_write_holds_gate_witness:
  "\<exists>t. on_write demo_env False demo_new = (Inr (), t) \<and> am_current (sq_mem t) \<noteq> NoTxn"
proof -
  obtain t where t: "on_write demo_env False demo_new = (Inr (), t)"
    unfolding demo_env_def using eval_first_write [of demo_new 0 0] by (simp add: demo_new_fields demo_file_fields)
  from confirmed_write_holds_gate [OF demo_reachable(1) [unfolded demo_env_def] t [unfolded demo_env_def]] t
  show ?thesis by auto
qed



section \<open>The alarm comes first\<close>






end
