(* ===== verification/Store_Stack.thy ===== *)
theory Store_Stack
  imports Actor_Reach
begin

text \<open>
  What operations do to the stack of transactions of the database file, short of a critical error: those on
  data leave it alone, a savepoint is pushed and popped. Assertions are sets of stacks, none of them
  empty, together with the depth of \<open>transactionSync\<close>; an operation moves from one to another, which
  depends on whether it returns or throws.
\<close>

section \<open>Statements on the file\<close>

lemma on_critical_file: "sq_file (snd (on_critical_error e s)) = sq_file s"
  by (simp add: on_critical_error_def mem_def Let_def split: option.split)

lemma apply_change_file: "sq_file (snd (apply_change h c s)) = sq_file s" "sq_critical (snd (apply_change h c s)) = sq_critical s"
  by (cases c; simp add: apply_change_def apply_begin_def apply_commit_def apply_rollback_def run_callbacks_down_to_def
      js_assert_def op_simps drop_callbacks_def split: option.split prod.split sum.split)+

lemma auto_rollback_file:
  assumes "hk_on_critical h = on_critical_error"
    "op_bind (check_for_auto_rollback h (file_backend p d0)) (\<lambda>_. op_throw e) s = (r, t)"
  shows "sq_file t = sq_file s" "\<exists>e. r = Inl e" "t = s \<or> sq_critical t \<noteq> None"
    "txn_open s \<Longrightarrow> sf_stack (sq_file s) = [] \<Longrightarrow> sq_critical t \<noteq> None"
proof -
  let ?u = "s\<lparr>sq_in_txn := False, sq_savepoints := [], sq_callbacks := [], sq_critical := Some CRITICAL_MESSAGE\<rparr>"
  have "sq_file (snd (on_critical_error CRITICAL_MESSAGE ?u)) = sq_file s" "sq_critical (snd (on_critical_error CRITICAL_MESSAGE ?u)) \<noteq> None"
    by (simp_all add: on_critical_file critical_latched)
  then show "sq_file t = sq_file s" "\<exists>e. r = Inl e" "t = s \<or> sq_critical t \<noteq> None"
    "txn_open s \<Longrightarrow> sf_stack (sq_file s) = [] \<Longrightarrow> sq_critical t \<noteq> None"
    using assms by (auto simp: check_for_auto_rollback_def op_simps file_backend_def split: if_splits prod.splits sum.splits)
qed

lemma scripted_eq:
  "sf_script f (sf_n f) = Runs \<Longrightarrow> scripted g f = g (f\<lparr>sf_n := Suc (sf_n f)\<rparr>)"
  "sf_script f (sf_n f) = Refused \<Longrightarrow> scripted g f = (Inl SQL_ERROR, f\<lparr>sf_n := Suc (sf_n f)\<rparr>)"
  "sf_script f (sf_n f) = RolledBack \<Longrightarrow> sf_stack f \<noteq> [] \<Longrightarrow>
    scripted g f = (Inl SQL_ERROR, f\<lparr>sf_n := Suc (sf_n f), sf_data := snd (last (sf_stack f)), sf_stack := []\<rparr>)"
  "sf_script f (sf_n f) = RolledBack \<Longrightarrow> sf_stack f = [] \<Longrightarrow> scripted g f = (Inl SQL_ERROR, f\<lparr>sf_n := Suc (sf_n f)\<rparr>)"
  by (simp_all add: scripted_def Let_def)

text \<open>A transaction statement: refused, or applied to the file.\<close>

definition not_run :: "state_change \<Rightarrow> 'u tables sql_file \<Rightarrow> bool" where
  "not_run c f \<longleftrightarrow> sf_script f (sf_n f) = Refused \<or> sf_stack f = [] \<or>
     (\<exists>e. fst (control c (f\<lparr>sf_n := Suc (sf_n f)\<rparr>)) = Inl e)"

lemma control_error: "control c g = (Inl e, g') \<Longrightarrow> g' = g"
  by (auto simp: control_def split: state_change.splits option.splits if_splits)

lemma control_run:
  assumes h: "hk_on_critical h = on_critical_error" and cl: "classify (st_sql st) = Inr c" "c \<noteq> NoChange" and st: "st = control_stmt sql c"
    and s: "sq_critical s = None" and run: "db_run1 h (file_backend p d0) st b au s = (r, t)"
  obtains (refused) e where "r = Inl e" "sq_critical t = None \<Longrightarrow> (sf_stack (sq_file s) = [] \<or> txn_open s) \<Longrightarrow>
        t = s\<lparr>sq_file := (sq_file s)\<lparr>sf_n := Suc (sf_n (sq_file s))\<rparr>\<rparr> \<and> not_run c (sq_file s)"
  | (applied) v where "control c ((sq_file s)\<lparr>sf_n := Suc (sf_n (sq_file s))\<rparr>) = (Inr v, sq_file t)" "sq_critical t = None"
      "r = (case fst (apply_change h c (s\<lparr>sq_file := sq_file t\<rparr>)) of Inl e \<Rightarrow> Inl e | Inr _ \<Rightarrow> Inr v)"
proof -
  let ?g = "(sq_file s)\<lparr>sf_n := Suc (sf_n (sq_file s))\<rparr>"
  obtain q g where q: "scripted (control c) (sq_file s) = (q, g)" by fastforce
  have nw: "\<not> is_write (st_sql st)" using control_not_write [OF cl] .
  have ex: "(r, t) = (case q of Inl e \<Rightarrow> op_bind (check_for_auto_rollback h (file_backend p d0)) (\<lambda>_. op_throw e) (s\<lparr>sq_file := g\<rparr>)
      | Inr v \<Rightarrow> op_bind (apply_change h c) (\<lambda>_. op_return v) (s\<lparr>sq_file := g\<rparr>))"
    using run s nw cl(1) q
    by (simp add: db_run1_def assert_usable_def exec_statement_def op_bind_def [of assert_usable] op_bind_def [of "op_return ()"] op_return_def
        st control_stmt_def split: sum.split)
  show thesis
  proof (cases q)
    case (Inr v)
    then have "sf_script (sq_file s) (sf_n (sq_file s)) = Runs" using q
      by (cases "sf_script (sq_file s) (sf_n (sq_file s))") (auto simp: scripted_def Let_def)
    then have "control c ?g = (Inr v, g)" using q Inr by (simp add: scripted_eq(1))
    moreover have "sq_file t = g \<and> sq_critical t = None \<and>
        r = (case fst (apply_change h c (s\<lparr>sq_file := g\<rparr>)) of Inl e \<Rightarrow> Inl e | Inr _ \<Rightarrow> Inr v)"
      using ex Inr apply_change_file [of h c "s\<lparr>sq_file := g\<rparr>"] s
      by (cases "apply_change h c (s\<lparr>sq_file := g\<rparr>)") (auto simp: op_simps split: sum.splits)
    ultimately show thesis by (intro applied [of v]) simp_all
  next
    case (Inl e)
    then have ex': "op_bind (check_for_auto_rollback h (file_backend p d0)) (\<lambda>_. op_throw e) (s\<lparr>sq_file := g\<rparr>) = (r, t)" using ex by simp
    note A = auto_rollback_file [OF h ex']
    have "g = ?g \<and> not_run c (sq_file s)" if t: "sq_critical t = None" and o: "sf_stack (sq_file s) = [] \<or> txn_open s"
    proof (cases "sf_script (sq_file s) (sf_n (sq_file s))")
      case Runs
      then have "control c ?g = (Inl e, g)" using q Inl by (simp add: scripted_eq(1))
      then show ?thesis using control_error [of c ?g e g] by (auto simp: not_run_def)
    next
      case Refused
      then show ?thesis using q by (auto simp: scripted_eq(2) not_run_def)
    next
      case RolledBack
      show ?thesis
      proof (cases "sf_stack (sq_file s) = []")
        case True
        then show ?thesis using RolledBack q by (auto simp: scripted_eq(4) not_run_def)
      next
        case False
        then have "sf_stack g = []" using RolledBack q by (auto simp: scripted_def Let_def)
        moreover have "txn_open (s\<lparr>sq_file := g\<rparr>)" using o False by (simp add: txn_open_def)
        ultimately show ?thesis using A(4) t by simp
      qed
    qed
    moreover obtain e' where "r = Inl e'" using A(2) by blast
    ultimately show thesis using A(3) by (intro refused [of e']) auto
  qed
qed

section \<open>Data leaves the stack alone\<close>

text \<open>The stack is \<open>S\<close>, and the runtime knows that something is open.\<close>

definition held :: "(js_string option \<times> 'u tables) list \<Rightarrow> 'u actor \<Rightarrow> bool" where
  "held S s \<longleftrightarrow> S \<noteq> [] \<and> (sq_critical s = None \<longrightarrow> sf_stack (sq_file s) = S \<and> txn_open s)"

lemma begin_held:
  assumes s: "held S s" and run: "run_control (file_env prep u sr) STMT_BEGIN s = (r, t)"
  shows "held S t \<and> (\<exists>e. r = Inl e)"
proof -
  obtain q where q: "db_run1 control_hooks (file_backend prep (empty_tables u)) STMT_BEGIN [] False s = (q, t)"
    and rq: "\<And>e. q = Inl e \<Longrightarrow> r = Inl e"
    using run by (auto simp: run_control_def op_simps split: prod.splits sum.splits)
  have h: "hk_on_critical control_hooks = on_critical_error" by (simp add: control_hooks_def)
  show ?thesis
  proof (cases "sq_critical s")
    case (Some e)
    then show ?thesis using q rq s by (auto simp: db_run1_def op_bind_def assert_usable_def)
  next
    case None
    then have S: "sf_stack (sq_file s) = S" "S \<noteq> []" "txn_open s" using s by (simp_all add: held_def)
    show ?thesis
    proof (rule control_run [OF h control_texts(1) _ STMT_BEGIN_def None q], goal_cases)
      case (2 e)
      then show ?case using S rq by (auto simp: held_def txn_open_def)
    next
      case (3 v)
      then show ?case using S by (simp add: control_def)
    qed simp
  qed
qed

lemma held_write:
  assumes s: "held S s"
  shows "held S (snd (on_write (file_env prep u sr) au s))"
proof -
  let ?E = "file_env prep u sr"
  have none: "held S (snd (start_implicit_txn ?E s)) \<and> (\<exists>e. fst (start_implicit_txn ?E s) = Inl e)" if "am_current (sq_mem s) = NoTxn"
    using begin_held [OF s, of prep u sr] that
    by (cases "run_control ?E STMT_BEGIN s") (auto simp: start_implicit_txn_def implicit_new_def op_simps)
  have memory: "held S (mem f s)" for f using s by (simp add: held_def mem_def txn_open_def)
  show ?thesis
  proof (cases "am_broken (sq_mem s) = None")
    case False
    then show ?thesis using s by (auto simp: on_write_def op_bind_def require_not_broken_def)
  next
    case True
    show ?thesis
    proof (cases "am_current (sq_mem s) = NoTxn")
      case no: True
      then show ?thesis using none True
        by (cases "start_implicit_txn ?E s") (auto simp: on_write_def op_bind_def require_not_broken_def)
    next
      case False
      then show ?thesis using True s memory
        by (auto simp: on_write_def op_bind_def require_not_broken_def split: current_txn.split)
    qed
  qed
qed

lemma held_exec:
  assumes cl: "classify sql = Inr NoChange" and s: "held S s"
  shows "held S (snd (exec_statement (actor_hooks (file_env prep u sr)) (file_backend prep (empty_tables u)) (data_stmt sql k f) b au s))"
proof -
  let ?h = "actor_hooks (file_env prep u sr)"
  have h: "hk_on_critical ?h = on_critical_error" by (simp add: actor_hooks_def)
  have n: "held S s1" if "(if is_write sql then notify_write ?h au else op_return ()) s = (v, s1)" for v s1
    using that s held_write [OF s, of prep u sr au] by (auto simp: notify_write_def actor_hooks_def op_return_def split: if_splits)
  have bad: "held S (snd (op_bind (check_for_auto_rollback ?h (file_backend prep (empty_tables u)))
      (\<lambda>_. op_throw e :: _ \<Rightarrow> (js_exn + sql_result) \<times> _) (s1\<lparr>sq_file := g\<rparr>)))"
    if s1: "held S s1" and g: "sf_stack g = sf_stack (sq_file s1) \<or> sf_stack (sq_file s1) \<noteq> [] \<and> sf_stack g = []" for s1 e g
  proof -
    obtain r t where rt: "op_bind (check_for_auto_rollback ?h (file_backend prep (empty_tables u)))
        (\<lambda>_. op_throw e :: _ \<Rightarrow> (js_exn + sql_result) \<times> _) (s1\<lparr>sq_file := g\<rparr>) = (r, t)"
      by fastforce
    note A = auto_rollback_file [OF h rt]
    have "held S t"
    proof (cases "sq_critical t = None")
      case True
      then have t: "t = s1\<lparr>sq_file := g\<rparr>" using A(3) by simp
      then have c: "sq_critical s1 = None" using True by simp
      have "sf_stack g \<noteq> []" using A(4) True s1 c by (auto simp: held_def txn_open_def)
      then show ?thesis using t g s1 c by (auto simp: held_def txn_open_def)
    qed (use s1 in \<open>auto simp: held_def\<close>)
    then show ?thesis unfolding rt by simp
  qed
  show ?thesis
  proof (rule exec_data_cases [OF cl, of ?h au s prep "empty_tables u" k f b], goal_cases)
    case (1 e s1)
    then show ?thesis using n by simp
  next
    case (2 s1 e g)
    then show ?thesis using bad [OF n [OF 2(1)]] by auto
  next
    case (3 s1 e d)
    then show ?thesis using bad [OF n [OF 3(1)]] by simp
  next
    case (4 s1 q d)
    then show ?thesis using n [OF 4(1)] by (simp add: held_def txn_open_def)
  qed
qed

lemma held_run:
  assumes d: "st = data_stmt sql k f" and cl: "classify sql = Inr NoChange" and s: "held S s"
  shows "held S (snd (db_run1 (actor_hooks (file_env prep u sr)) (file_backend prep (empty_tables u)) st b au s))"
  using held_exec [OF cl s] s by (auto simp: db_run1_def op_bind_def assert_usable_def d split: option.split)

lemma held_data:
  assumes st: "is_data st" and s: "held S s"
  shows "held S (snd (db_run1 (actor_hooks (file_env prep u sr)) (file_backend prep (empty_tables u)) st b au s))"
proof -
  obtain sql k f where d: "st = data_stmt sql k f" and kw: "leading_keyword (st_sql st) \<notin> CONTROL_KEYWORDS"
    using st by (auto simp: is_data_def)
  show ?thesis by (rule held_run [OF d _ s]) (use classify_data [OF kw] in \<open>simp add: d data_stmt_def\<close>)
qed

interpretation held: store_kept "held S" "actor_hooks (file_env prep u sr)" "file_backend prep (empty_tables u)" for S prep u sr
proof unfold_locales
  show "held S (snd (db_run1 (actor_hooks (file_env prep u sr)) (file_backend prep (empty_tables u)) st b au s))"
    if "is_data st" "held S s" for st b au and s :: "'a actor"
    by (rule held_data [OF that])
qed (auto simp: held_def txn_open_def on_rollback_def)

text \<open>And every operation leaves the depth alone, but \<open>transactionSync\<close>.\<close>

lemma outside_depth:
  assumes "outside m = outside m'"
  shows "am_sync_depth m = am_sync_depth m'"
  using arg_cong [OF assms, of am_sync_depth] by (simp add: outside_def)

lemma critical_depth: "am_sync_depth (sq_mem (snd (on_critical_error e s))) = am_sync_depth (sq_mem s)"
  by (simp add: on_critical_error_def mem_def add_lock_def Let_def split: option.split)

lemma start_depth: "am_sync_depth (sq_mem (snd (start_implicit_txn E s))) = am_sync_depth (sq_mem s)"
proof (cases "am_current (sq_mem s) = NoTxn")
  case True
  obtain r t where run: "run_control E STMT_BEGIN s = (r, t)" by fastforce
  have "am_sync_depth (sq_mem t) = am_sync_depth (sq_mem s)"
    by (rule run_control_cases [OF control_texts(1) _ run]) (auto simp: critical_depth dest: outside_depth)
  then show ?thesis using True run
    by (cases r) (simp_all add: start_implicit_txn_def implicit_new_def op_simps Let_def mem_def add_commit_def)
qed (simp add: start_implicit_txn_def implicit_new_def op_bind_def)

lemma write_depth: "am_sync_depth (sq_mem (snd (on_write E au s))) = am_sync_depth (sq_mem s)"
proof -
  obtain r t where rt: "(if am_current (sq_mem s) = NoTxn then start_implicit_txn E s else (Inr (), s)) = (r, t)" by fastforce
  have t: "am_sync_depth (sq_mem t) = am_sync_depth (sq_mem s)" using rt start_depth [of E s] by (auto split: if_splits)
  show ?thesis
  proof (cases "am_broken (sq_mem s)")
    case None
    then show ?thesis using rt t
      by (cases r) (auto simp: on_write_def require_not_broken_def op_bind_def mem_def add_lock_def set_implicit_def set_explicit_def
          split: current_txn.split)
  qed (simp add: on_write_def require_not_broken_def op_bind_def)
qed

interpretation depth: outer_kept "\<lambda>s. am_sync_depth (sq_mem s) = k" "actor_hooks E" be for k E be
proof unfold_locales
  fix s t :: "'a actor" and e f au
  show "am_sync_depth (sq_mem t) = k" if "am_sync_depth (sq_mem s) = k" "outside (sq_mem t) = outside (sq_mem s)"
    using outside_depth [OF that(2)] that(1) by simp
qed (simp_all add: actor_hooks_def write_depth critical_depth)

section \<open>Savepoints\<close>

text \<open>The last statement the database was given was refused.\<close>

definition last_refused :: "'u actor \<Rightarrow> bool" where
  "last_refused t \<longleftrightarrow> (\<exists>k. sf_n (sq_file t) = Suc k \<and> sf_script (sq_file t) k = Refused)"

definition stopped_at :: "'u actor \<Rightarrow> 'u actor \<Rightarrow> bool" where
  "stopped_at s t \<longleftrightarrow> sq_critical t \<noteq> None \<or>
     sq_critical s = None \<and> db_data t = db_data s \<and> db_stack t = db_stack s \<and> am_sync_depth (sq_mem t) = am_sync_depth (sq_mem s)"

lemma control_stopped:
  assumes ok: "store_ok s" and cl: "classify (st_sql st) = Inr c" "c \<noteq> NoChange" and st: "st = control_stmt sql c"
    and run: "db_run1 (actor_hooks E) (file_backend p d0) st b au s = (r, t)"
  obtains (stopped) e where "r = Inl e" "stopped_at s t"
      "sq_critical t = None \<Longrightarrow> not_run c (sq_file s) \<and> sq_file t = (sq_file s)\<lparr>sf_n := Suc (sf_n (sq_file s))\<rparr>"
  | (applied) v where "sq_critical s = None" "control c ((sq_file s)\<lparr>sf_n := Suc (sf_n (sq_file s))\<rparr>) = (Inr v, sq_file t)"
      "sq_critical t = None"
      "r = (case fst (apply_change (actor_hooks E) c (s\<lparr>sq_file := sq_file t\<rparr>)) of Inl e \<Rightarrow> Inl e | Inr _ \<Rightarrow> Inr v)"
proof (cases "sq_critical s")
  case (Some e)
  then show thesis using run by (intro stopped [of e]) (simp_all add: db_run1_def op_bind_def assert_usable_def stopped_at_def)
next
  case None
  have h: "hk_on_critical (actor_hooks E) = on_critical_error" by (simp add: actor_hooks_def)
  have o: "sf_stack (sq_file s) = [] \<or> txn_open s" using stack_open [OF store_okD(1) [OF ok None]] by blast
  show thesis
  proof (rule control_run [OF h cl st None run], goal_cases)
    case (1 e)
    then show thesis using o None by (intro stopped [of e]) (auto simp: stopped_at_def)
  next
    case (2 v)
    then show thesis using None by (intro applied [of v]) simp_all
  qed
qed

lemma savepoint_ok:
  fixes s :: "'u actor"
  assumes "store_ok s" "classify (st_sql st) = Inr c" "c \<in> {BeginTxn (Some n), CommitTxn (Some n), RollbackTxn (Some n)}"
    "st = control_stmt sql c" "db_run1 (actor_hooks (file_env prep u sr)) (file_backend prep (empty_tables u)) st b au s = (r, t)"
  shows "store_ok t"
proof -
  have "classify sql = Inr c" using assms(2,4) by (simp add: control_stmt_def)
  then have "actor.keeps (db_run1 (actor_hooks (file_env prep u sr)) (file_backend prep (empty_tables u)) (control_stmt sql c) b au)"
    by (rule actor.run_control) (use assms(3) in auto)
  from actor.keepsD [OF this assms(5) [unfolded assms(4)] assms(1)] show ?thesis .
qed

lemma push_savepoint:
  fixes s :: "'u actor"
  assumes ok: "store_ok s" and cl: "classify (st_sql st) = Inr (BeginTxn (Some n))" and st: "st = control_stmt sql (BeginTxn (Some n))"
    and run: "db_run1 (actor_hooks E) (file_backend p d0) st b au s = (r, t)"
  obtains (stopped) e where "r = Inl e" "stopped_at s t"
  | (pushed) v where "r = Inr v" "sq_critical s = None" "sq_critical t = None" "db_data t = db_data s"
      "db_stack t = (Some n, db_data s) # db_stack s"
proof -
  show thesis
  proof (rule control_stopped [OF ok cl _ st run], goal_cases)
  case (3 v)
  then have "sq_file t = (sq_file s)\<lparr>sf_n := Suc (sf_n (sq_file s)), sf_stack := (Some n, db_data s) # db_stack s\<rparr>"
    by (simp add: control_def)
  then show thesis using 3 by (intro pushed [of v]) (simp_all add: apply_change_def apply_begin_def)
qed (use stopped in simp_all)
qed

lemma control_named_runs:
  assumes "stack_to n (sf_stack f) = Some st"
  shows "control (CommitTxn (Some n)) f = (Inr (no_rows 0), f\<lparr>sf_stack := tl st\<rparr>)"
    "control (RollbackTxn (Some n)) f = (Inr (no_rows 0), f\<lparr>sf_data := snd (hd st), sf_stack := st\<rparr>)"
  using assms by (simp_all add: control_def)

lemma commit_runs:
  assumes "frames_ok M f s" "stack_to n (db_stack s) = Some st"
  shows "fst (apply_commit (Some n) (s\<lparr>sq_file := g\<rparr>)) = Inr ()"
  using release_to_stack [OF _ _ assms(2), of "sq_savepoints s" "if sq_in_txn s then [None] else []"] frames_okD(1) [OF assms(1)]
  by (auto simp: frame_names_def apply_commit_def)

lemma not_run_refused:
  assumes "not_run c f" "c = CommitTxn (Some n) \<or> c = RollbackTxn (Some n)" "stack_to n (sf_stack f) = Some st"
  shows "sf_script f (sf_n f) = Refused"
  using assms control_named_runs [of n "f\<lparr>sf_n := Suc (sf_n f)\<rparr>" st] by (auto simp: not_run_def)

lemma pop_savepoint:
  fixes s :: "'u actor"
  assumes ok: "store_ok s" and cl: "classify (st_sql st) = Inr (CommitTxn (Some n))" and st: "st = control_stmt sql (CommitTxn (Some n))"
    and run: "db_run1 (actor_hooks E) (file_backend p d0) st b au s = (r, t)"
    and top: "sq_critical s = None \<Longrightarrow> stack_to n (db_stack s) = Some (x # S)"
  obtains (stopped) e where "r = Inl e" "stopped_at s t" "sq_critical t = None \<Longrightarrow> last_refused t"
  | (popped) v where "r = Inr v" "sq_critical s = None" "sq_critical t = None" "db_data t = db_data s" "db_stack t = S"
proof -
  show thesis
  proof (rule control_stopped [OF ok cl _ st run], goal_cases)
  case (2 e)
  have "last_refused t" if c: "sq_critical t = None"
  proof -
    have n: "not_run (CommitTxn (Some n)) (sq_file s)" "sq_file t = (sq_file s)\<lparr>sf_n := Suc (sf_n (sq_file s))\<rparr>" using 2(3) c by simp_all
    have "sq_critical s = None"
      using run c by (cases "sq_critical s") (auto simp: db_run1_def op_bind_def assert_usable_def)
    from not_run_refused [OF n(1) _ top [OF this]] show ?thesis using n(2) by (auto simp: last_refused_def)
  qed
  with 2 show thesis by (intro stopped) simp_all
next
  case (3 v)
  note T = top [OF 3(1)]
  have "fst (apply_commit (Some n) (s\<lparr>sq_file := sq_file t\<rparr>)) = Inr ()" by (rule commit_runs [OF store_okD(1) [OF ok 3(1)] T])
  moreover have "sq_file t = (sq_file s)\<lparr>sf_n := Suc (sf_n (sq_file s)), sf_stack := S\<rparr>"
    using 3(2) control_named_runs(1) [of n "(sq_file s)\<lparr>sf_n := Suc (sf_n (sq_file s))\<rparr>"] T by simp
  ultimately show thesis using 3 by (intro popped [of v]) (simp_all add: apply_change_def)
qed simp
qed

lemma roll_back_to_savepoint:
  fixes s :: "'u actor"
  assumes ok: "store_ok s" and cl: "classify (st_sql st) = Inr (RollbackTxn (Some n))" and st: "st = control_stmt sql (RollbackTxn (Some n))"
    and run: "db_run1 (actor_hooks E) (file_backend p d0) st b au s = (r, t)"
    and top: "sq_critical s = None \<Longrightarrow> stack_to n (db_stack s) = Some (x # S)"
  obtains (stopped) e where "r = Inl e" "stopped_at s t" "sq_critical t = None \<Longrightarrow> last_refused t"
  | (restored) "sq_critical s = None" "sq_critical t = None" "db_data t = snd x" "db_stack t = x # S"
proof -
  show thesis
  proof (rule control_stopped [OF ok cl _ st run], goal_cases)
  case (2 e)
  have "last_refused t" if c: "sq_critical t = None"
  proof -
    have n: "not_run (RollbackTxn (Some n)) (sq_file s)" "sq_file t = (sq_file s)\<lparr>sf_n := Suc (sf_n (sq_file s))\<rparr>" using 2(3) c by simp_all
    have "sq_critical s = None"
      using run c by (cases "sq_critical s") (auto simp: db_run1_def op_bind_def assert_usable_def)
    from not_run_refused [OF n(1) _ top [OF this]] show ?thesis using n(2) by (auto simp: last_refused_def)
  qed
  with 2 show thesis by (intro stopped) simp_all
next
  case (3 v)
  note T = top [OF 3(1)]
  have "sq_file t = (sq_file s)\<lparr>sf_n := Suc (sf_n (sq_file s)), sf_data := snd x, sf_stack := x # S\<rparr>"
    using 3(2) control_named_runs(2) [of n "(sq_file s)\<lparr>sf_n := Suc (sf_n (sq_file s))\<rparr>"] T by simp
  then show thesis using 3 by (intro restored) simp_all
qed simp
qed

end
