(* ===== verification/Actor_Kv.thy ===== *)
theory Actor_Kv
  imports Actor_Demo
begin

text \<open>
  An actor's storage refines a map: the calls of \<open>ActorSqlite\<close> that read and write one entry or list a
  range, against the same calls on a map from the UTF-8 bytes of keys to values.
\<close>

section \<open>The specification\<close>

datatype kv_call =
    GetCall js_string
  | PutCall js_string bytes
  | DeleteCall js_string
  | ListCall js_string "js_string option" "int option" order

datatype kv_answer = Value "bytes option" | Stored | Deleted bool | Entries "(js_string \<times> bytes) list"

fun kv_spec :: "kv_call \<Rightarrow> (bytes \<Rightarrow> bytes option) \<Rightarrow> kv_answer \<times> (bytes \<Rightarrow> bytes option)" where
  "kv_spec (GetCall k) m = (Value (m (utf8_encode k)), m)"
| "kv_spec (PutCall k v) m = (Stored, m(utf8_encode k \<mapsto> v))"
| "kv_spec (DeleteCall k) m = (Deleted (m (utf8_encode k) \<noteq> None), m(utf8_encode k := None))"
| "kv_spec (ListCall b e n ord) m = (Entries (map_list b e n ord m), m)"

fun kv_exec :: "'u actor_env \<Rightarrow> bool \<Rightarrow> kv_call \<Rightarrow> ('u, kv_answer) aop" where
  "kv_exec E au (GetCall k) = op_bind (actor_get E k) (\<lambda>v. op_return (Value v))"
| "kv_exec E au (PutCall k v) = op_bind (actor_put E k v au) (\<lambda>_. op_return Stored)"
| "kv_exec E au (DeleteCall k) = op_bind (actor_delete E k au) (\<lambda>b. op_return (Deleted b))"
| "kv_exec E au (ListCall b e n ord) =
     op_bind (if ord = REVERSE then actor_list_reverse E b e n else actor_list E b e n) (\<lambda>rs. op_return (Entries rs))"

section \<open>The refinement\<close>

lemma not_broken_run:
  assumes "op_bind require_not_broken (\<lambda>_. m) s = (r, t)"
  obtains (broken) e where "r = Inl e" "t = s" | (runs) "m s = (r, t)"
  using assms by (auto simp: op_bind_def require_not_broken_def split: option.splits)

lemma call_refines:
  assumes ok: "store_ok s" and run: "kv_exec (file_env prep u sr) au c s = (r, t)"
  shows "(\<forall>a. r = Inr a \<longrightarrow> (a, kv_map t) = kv_spec c (kv_map s)) \<and> (\<forall>e. r = Inl e \<longrightarrow> unchanged s t)"
proof (cases c)
  case (GetCall k)
  obtain q x where q: "actor_get (file_env prep u sr) k s = (q, x)" by fastforce
  show ?thesis
  proof (rule not_broken_run [OF q [unfolded actor_get_def]], goal_cases)
    case 2
    note G = actor.get_map [OF ok 2 [unfolded file_env_backend]]
    show ?case using run q G(2,3) by (cases q) (auto simp: GetCall op_bind_def op_return_def)
  qed (use run q in \<open>auto simp: GetCall op_bind_def\<close>)
next
  case (PutCall k v)
  obtain q x where q: "actor_put (file_env prep u sr) k v au s = (q, x)" by fastforce
  show ?thesis
  proof (rule not_broken_run [OF q [unfolded actor_put_def]], goal_cases)
    case 2
    note G = actor.put_map [OF ok 2 [unfolded file_env_backend]]
    show ?case using run q G(2,3) by (cases q) (auto simp: PutCall op_bind_def op_return_def)
  qed (use run q in \<open>auto simp: PutCall op_bind_def\<close>)
next
  case (DeleteCall k)
  obtain q x where q: "actor_delete (file_env prep u sr) k au s = (q, x)" by fastforce
  show ?thesis
  proof (rule not_broken_run [OF q [unfolded actor_delete_def]], goal_cases)
    case 2
    note G = actor.delete_map [OF ok 2 [unfolded file_env_backend]]
    show ?case using run q G(2,3) by (cases q) (auto simp: DeleteCall op_bind_def op_return_def)
  qed (use run q in \<open>auto simp: DeleteCall op_bind_def\<close>)
next
  case (ListCall b e n ord)
  let ?list = "op_bind (kv_list (actor_hooks (file_env prep u sr)) (file_backend prep (empty_tables u)) b e n ord
     (\<lambda>k v rs. op_return (rs @ [(k, v)])) []) (\<lambda>(_, rs). op_return rs)"
  have l: "(if ord = REVERSE then actor_list_reverse (file_env prep u sr) b e n else actor_list (file_env prep u sr) b e n) =
      op_bind require_not_broken (\<lambda>_. ?list)"
    by (cases ord) (simp_all add: actor_list_def actor_list_reverse_def file_env_backend)
  obtain q x where q: "op_bind require_not_broken (\<lambda>_. ?list) s = (q, x)" by fastforce
  show ?thesis
  proof (rule not_broken_run [OF q], goal_cases)
    case 2
    obtain p y where p: "kv_list (actor_hooks (file_env prep u sr)) (file_backend prep (empty_tables u)) b e n ord
        (\<lambda>k v rs. op_return (rs @ [(k, v)])) [] s = (p, y)" by fastforce
    note G = actor.list_map [OF ok p]
    show ?case using run q 2 p G by (cases p) (auto simp: ListCall l op_bind_def op_return_def)
  qed (use run q in \<open>auto simp: ListCall l op_bind_def\<close>)
qed

text \<open>
  C30. In every reachable state a call of get, put, delete or list on an actor's storage that returns
  gives the answer the call gives on a map from the UTF-8 bytes of keys to values, and leaves the map
  that call leaves: in particular a list is exactly the entries of its range in the order of the
  bytes, reversed and limited as asked. A call that throws leaves the map as it was, unless SQLite
  rolled a transaction back and the actor is broken.
\<close>

theorem kv_refines_map:
  assumes "actor_reachable (file_env prep u sr) s" "kv_exec (file_env prep u sr) au c s = (r, t)"
  shows "case r of Inr a \<Rightarrow> (a, kv_map t) = kv_spec c (kv_map s)
    | Inl e \<Rightarrow> kv_map t = kv_map s \<or> sq_critical t \<noteq> None"
  using call_refines [OF _ assms(2)] reachable_inv [OF assms(1)]
  by (auto simp: actor_inv_def unchanged_def split: sum.split)

lemma demo_put: "fst (kv_exec demo_env False (PutCall [0x61] [1]) demo_new) = Inr Stored"
proof -
  have w: "is_write (st_sql (KV_CREATE_TABLE :: unit stmt))" "is_write (st_sql (STMT_put :: unit stmt))"
    by (simp_all add: is_write_def stmt_text NON_WRITE_KEYWORDS_def of_chars_def)
  have kw: "leading_keyword (st_sql (KV_CREATE_TABLE :: unit stmt)) \<notin> CONTROL_KEYWORDS"
    "leading_keyword (st_sql (STMT_put :: unit stmt)) \<notin> CONTROL_KEYWORDS"
    by (simp_all add: stmt_text data_keywords)
  let ?E = "file_env (\<lambda>_ _. Inl SQL_ERROR) () (\<lambda>_ _. None) :: unit actor_env"
  let ?be = "file_backend (\<lambda>_ _. Inl SQL_ERROR) (empty_tables ()) :: unit tables sql_file sql_backend"
  have first: "on_write ?E False demo_new = (Inr (), demo_began)" using demo_first_write by (simp add: demo_env_def)
  have s1: "sq_critical demo_began = None" "am_broken (sq_mem demo_began) = None" "am_current (sq_mem demo_began) = ImplicitTxn 0"
    "it_confirmed (am_implicit (sq_mem demo_began) ! 0)" "sf_script (sq_file demo_began) n = Runs" "tb_kv (db_data demo_began) = None" for n
    by (simp_all add: demo_began_def demo_new_fields demo_file_fields empty_tables_def)
  define s2 where "s2 = demo_began\<lparr>sq_file := (sq_file demo_began)\<lparr>sf_n := Suc (sf_n (sq_file demo_began)),
    sf_data := (db_data demo_began)\<lparr>tb_kv := Some kv_empty\<rparr>\<rparr>\<rparr>"
  have run1: "db_run1 (actor_hooks ?E) ?be KV_CREATE_TABLE [] False demo_new = (Inr (no_rows 0), s2)" unfolding s2_def
    by (rule eval_data [OF KV_CREATE_TABLE_def demo_new_fields(1) kw(1)]) (use w(1) first s1 in simp_all)
  define s3 where "s3 = on_rollback KvCreated (mem (\<lambda>m. m\<lparr>km_created := True\<rparr>) s2)"
  have s3: "sq_critical s3 = None" "am_broken (sq_mem s3) = None" "am_current (sq_mem s3) = ImplicitTxn 0"
    "it_confirmed (am_implicit (sq_mem s3) ! 0)" "sf_script (sq_file s3) n = Runs" "tb_kv (db_data s3) = Some kv_empty" for n
    using s1 by (simp_all add: s3_def on_rollback_def mem_def s2_def)
  obtain s4 where run2: "db_run1 (actor_hooks ?E) ?be STMT_put [SText [0x61], SBlob [1]] False s3 = (Inr (no_rows 1), s4)"
    by (rule that, rule eval_data [OF STMT_put_def s3(1) kw(2), where t = s3])
      (use w(2) eval_next_write [OF s3(2-4)] in \<open>simp_all add: s3(5,6) on_kv_def\<close>)
  have km: "\<not> km_created (sq_mem demo_new)"
    by (simp add: demo_new_def init_actor_mem_def store_mem.extend_def actor_mem.defs)
  show ?thesis using run1 run2 km
    by (simp add: demo_env_def kv_put_def kv_ensure_initialized_def actor_put_def require_not_broken_def demo_new_fields
        op_simps s3_def file_env_backend)
qed

text \<open>A first put on an empty actor.\<close>

lemma kv_refines_map_witness:
  "case kv_exec demo_env False (PutCall [0x61] [1]) demo_new of (r, t) \<Rightarrow>
     r = Inr Stored \<and> kv_map t = (kv_map demo_new)(utf8_encode [0x61] \<mapsto> [1])"
proof -
  obtain t where t: "kv_exec demo_env False (PutCall [0x61] [1]) demo_new = (Inr Stored, t)"
    using demo_put by (metis prod.collapse)
  from kv_refines_map [OF demo_reachable(1) [unfolded demo_env_def] t [unfolded demo_env_def]] t show ?thesis by simp
qed

end
