(* ===== verification/Actor_Atomic.thy ===== *)
theory Actor_Atomic
  imports Store_Stack Actor_Kv
begin

text \<open>
  \<open>transactionSync\<close> and a put of many entries are atomic. Both are a savepoint, the writes, and a
  release or a rollback to the savepoint: what is shown first is that the savepoint is still there,
  below what the writes may have left on the stack.
\<close>

section \<open>Names of savepoints\<close>

lemma js_decimal_value: "foldl (\<lambda>a c. a * 10 + (unat c - 48)) 0 (js_decimal n) = n"
proof (induction n rule: js_decimal.induct)
  case (1 n)
  have digit: "unat (of_nat (48 + d) :: 16 word) - 48 = d" if "d < 10" for d
    using that by (subst unat_of_nat) simp
  show ?case
  proof (cases "n < 10")
    case True
    then show ?thesis using digit [OF True] by (simp add: js_decimal.simps [of n])
  next
    case False
    then show ?thesis using 1 digit [of "n mod 10"] by (simp add: js_decimal.simps [of n])
  qed
qed

lemma sync_savepoint_inj: "sync_savepoint i = sync_savepoint j \<Longrightarrow> i = j"
  by (metis sync_savepoint_def append_same_eq same_append_eq js_decimal_value)

lemma sync_not_put: "sync_savepoint i \<noteq> PUT_SAVEPOINT"
proof
  assume "sync_savepoint i = PUT_SAVEPOINT"
  then have "take 5 (sync_savepoint i) = take 5 PUT_SAVEPOINT" by simp
  then show False by (simp add: sync_savepoint_def PUT_SAVEPOINT_def of_chars_def)
qed

text \<open>What writes at a depth of at least \<open>k\<close> may leave on the stack.\<close>

definition leftover :: "nat \<Rightarrow> js_string option set" where
  "leftover k = insert (Some PUT_SAVEPOINT) {Some (sync_savepoint j) | j. k \<le> j}"

lemma leftover_mono: "k \<le> l \<Longrightarrow> leftover l \<subseteq> leftover k"
  by (auto simp: leftover_def)

lemma fresh_savepoint: "Some (sync_savepoint k) \<notin> leftover (Suc k)"
  using sync_savepoint_inj [of k] sync_not_put [of k] by (fastforce simp: leftover_def)

lemma stack_to_leftover: "fst ` set P \<subseteq> A \<Longrightarrow> Some n \<notin> A \<Longrightarrow> stack_to n (P @ (Some n, d) # S) = Some ((Some n, d) # S)"
  by (induction P) auto

definition atop :: "nat \<Rightarrow> (js_string option \<times> 'u tables) list \<Rightarrow> 'u actor \<Rightarrow> bool" where
  "atop k S s \<longleftrightarrow> S \<noteq> [] \<and> am_sync_depth (sq_mem s) = k \<and>
     (sq_critical s = None \<longrightarrow> (\<exists>P. db_stack s = P @ S \<and> fst ` set P \<subseteq> leftover k))"

lemma atopI: "S \<noteq> [] \<Longrightarrow> am_sync_depth (sq_mem s) = k \<Longrightarrow> sq_critical s = None \<longrightarrow> db_stack s = P @ S \<and> fst ` set P \<subseteq> leftover k \<Longrightarrow> atop k S s"
  by (auto simp: atop_def)

lemma atop_stopped: "atop k S s \<Longrightarrow> stopped_at s t \<Longrightarrow> am_sync_depth (sq_mem t) = k \<Longrightarrow> sq_critical s = None \<Longrightarrow> atop k S t"
  by (auto simp: atop_def stopped_at_def)

section \<open>Operations on the data\<close>

definition stays :: "('u, 'a) aop \<Rightarrow> bool" where
  "stays m \<longleftrightarrow> (\<forall>k S s. store_ok s \<longrightarrow> guarded {} {} s \<longrightarrow> atop k S s \<longrightarrow> atop k S (snd (m s)))"

definition solid :: "('u, 'a) aop \<Rightarrow> bool" where
  "solid m \<longleftrightarrow> good {} {} m \<and> stays m"

text \<open>Operations that leave the stack as it is, wherever it is.\<close>

definition calm :: "('u, 'a) aop \<Rightarrow> bool" where
  "calm m \<longleftrightarrow> (\<forall>S. kept.outer (held S) m) \<and> (\<forall>k. kept.outer (\<lambda>s. am_sync_depth (sq_mem s) = k) m)"

lemma calm_held: "calm m \<Longrightarrow> m s = (r, t) \<Longrightarrow> held S s \<Longrightarrow> held S t"
  by (metis calm_def kept.outerD)

lemma calm_stays:
  assumes "calm m"
  shows "stays m"
  unfolding stays_def
proof (intro allI impI)
  fix k S and s :: "'a actor" assume ok: "store_ok s" and at: "atop k S s"
  obtain t where t: "snd (m s) = t" by simp
  have depth: "am_sync_depth (sq_mem t) = k" using assms at t by (auto simp: calm_def kept.outer_def atop_def)
  have h: "held R s \<Longrightarrow> held R t" for R using assms t by (auto simp: calm_def kept.outer_def)
  show "atop k S (snd (m s))" unfolding t
  proof (cases "sq_critical s")
    case (Some e)
    then have "held S s" using at by (simp add: held_def atop_def)
    from h [OF this] show "atop k S t" using depth by (auto simp: held_def atop_def)
  next
    case None
    then obtain P where P: "db_stack s = P @ S" "fst ` set P \<subseteq> leftover k" "S \<noteq> []" using at by (auto simp: atop_def)
    then have "held (P @ S) s" using stack_open [OF store_okD(1) [OF ok None]] None by (auto simp: held_def)
    from h [OF this] show "atop k S t" using depth P by (auto simp: held_def atop_def)
  qed
qed

lemma calm_bind: "calm m \<Longrightarrow> (\<And>v. calm (f v)) \<Longrightarrow> calm (op_bind m f)"
  by (auto simp: calm_def intro!: kept.outer_bind)

lemma calm_pure: "calm (op_return v)" "calm (op_throw e)" "calm (\<lambda>s. (r s, s))" "calm require_not_broken"
  by (auto simp: calm_def require_not_broken_def kept.outer_def op_return_def op_throw_def split: option.split)

lemma calm_if: "calm m \<Longrightarrow> calm n \<Longrightarrow> calm (\<lambda>s. if P s then m s else n s)"
  by (auto simp: calm_def kept.outer_def)

lemma calm_case: "(case x of None \<Rightarrow> calm m | Some y \<Rightarrow> calm (n y)) \<Longrightarrow> calm (case x of None \<Rightarrow> m | Some y \<Rightarrow> n y)"
  by (auto split: option.splits)

lemma calm_upd: "(\<And>m. am_sync_depth (f m) = am_sync_depth m) \<Longrightarrow> calm (upd f)"
  by (auto simp: calm_def kept.outer_def op_modify_def mem_def held_def txn_open_def)

lemma calm_store:
  fixes prep u sr
  defines "E \<equiv> file_env prep u sr"
  shows "calm (kv_get (actor_hooks E) (ae_backend E) k)" "calm (kv_put (actor_hooks E) (ae_backend E) k v au)"
    "calm (kv_delete (actor_hooks E) (ae_backend E) k au)" "calm (kv_ensure_initialized (actor_hooks E) (ae_backend E) au)"
    "calm (put_each (actor_hooks E) (ae_backend E) au ps)" "calm (stored_alarm E)"
    "calm (meta_set_alarm (actor_hooks E) (ae_backend E) a au)" "calm (get_bookmark (actor_hooks E) (ae_backend E))"
    "calm (set_bookmark (actor_hooks E) (ae_backend E) n)"
    "(\<And>k v a. calm (call k v a)) \<Longrightarrow> calm (kv_list (actor_hooks E) (ae_backend E) b e l ord call x)"
    "is_data st \<Longrightarrow> calm (db_run1 (actor_hooks E) (ae_backend E) st b' au)"
  unfolding calm_def E_def file_env_backend
  by (auto intro!: held.outer_get held.outer_put held.outer_delete held.outer_ensure held.outer_put_each held.outer_get_alarm
      held.outer_set_alarm held.outer_bookmark held.outer_list held.outer_data
      depth.outer_get depth.outer_put depth.outer_delete depth.outer_ensure depth.outer_put_each depth.outer_get_alarm
      depth.outer_set_alarm depth.outer_bookmark depth.outer_list depth.outer_data)

section \<open>A put of many entries\<close>

text \<open>
  From a stack \<open>R\<close> the writes of \<open>SqliteKv.#putMultiple\<close> return with all entries put and the stack as it
  was, or throw; then the map is as it was, unless the statement that failed is the last one.
\<close>

definition put_all :: "(js_string \<times> bytes) list \<Rightarrow> (bytes \<Rightarrow> bytes option) \<Rightarrow> bytes \<Rightarrow> bytes option" where
  "put_all ps m = fold (\<lambda>(k, v) m. m(utf8_encode k \<mapsto> v)) ps m"

lemma put_each_map:
  assumes "store_ok s" "put_each (actor_hooks (file_env prep u sr)) (file_backend prep (empty_tables u)) au ps s = (Inr v, t)"
  shows "kv_map t = put_all ps (kv_map s)"
  using assms
proof (induction ps arbitrary: s)
  case (Cons p ps)
  obtain k x where p: "p = (k, x)" by fastforce
  obtain w y where put: "kv_put (actor_hooks (file_env prep u sr)) (file_backend prep (empty_tables u)) k x au s = (Inr w, y)"
    and rest: "put_each (actor_hooks (file_env prep u sr)) (file_backend prep (empty_tables u)) au ps y = (Inr v, t)"
    using Cons.prems(2) by (auto simp: p op_bind_eq_Inr)
  note P = actor.put_map [OF Cons.prems(1) put]
  have "kv_map y = (kv_map s)(utf8_encode k \<mapsto> x)" by (rule P(3)) simp
  then show ?case using Cons.IH [OF P(1) rest] by (simp only: p put_all_def fold_simps prod.case)
qed (simp add: op_return_def put_all_def)

lemma put_texts:
  "(STMT_multiPutSavepoint :: 'u stmt) = control_stmt (st_sql (STMT_multiPutSavepoint :: 'u stmt)) (BeginTxn (Some PUT_SAVEPOINT))"
  "(STMT_multiPutRelease :: 'u stmt) = control_stmt (st_sql (STMT_multiPutRelease :: 'u stmt)) (CommitTxn (Some PUT_SAVEPOINT))"
  "(STMT_multiPutRollback :: 'u stmt) = control_stmt (st_sql (STMT_multiPutRollback :: 'u stmt)) (RollbackTxn (Some PUT_SAVEPOINT))"
  by (simp_all add: STMT_multiPutSavepoint_def STMT_multiPutRelease_def STMT_multiPutRollback_def control_stmt_def)

lemma rollback_multi_put_effect:
  assumes ok: "store_ok s" and top: "sq_critical s = None \<Longrightarrow> db_stack s = (Some PUT_SAVEPOINT, d) # R"
    and run: "rollback_multi_put (actor_hooks (file_env prep u sr)) (file_backend prep (empty_tables u)) au s = (r, t)"
  shows "sq_critical t \<noteq> None \<or> (db_data t = d \<or> last_refused t) \<and> (db_stack t = R \<or> db_stack t = (Some PUT_SAVEPOINT, d) # R)"
proof -
  let ?h = "actor_hooks (file_env prep u sr)" and ?b = "file_backend prep (empty_tables u)"
  obtain q y where q: "db_run1 ?h ?b STMT_multiPutRollback [] au s = (q, y)" by fastforce
  have ok': "store_ok y" by (rule savepoint_ok [OF ok put_savepoint_texts(3) _ put_texts(3) q]) simp
  have top': "sq_critical s = None \<Longrightarrow> stack_to PUT_SAVEPOINT (db_stack s) = Some ((Some PUT_SAVEPOINT, d) # R)"
    using top by simp
  show ?thesis
  proof (rule roll_back_to_savepoint [OF ok put_savepoint_texts(3) put_texts(3) q top'], goal_cases)
    case (2 e)
    have "t = y" using run q 2(1) by (simp add: rollback_multi_put_def op_catch_def op_bind_def op_throw_def)
    moreover have "sq_critical y = None \<Longrightarrow> sq_critical s = None"
      using q by (cases "sq_critical s") (auto simp: db_run1_def op_bind_def assert_usable_def)
    ultimately show ?thesis using 2(2,3) top by (auto simp: stopped_at_def)
  next
    case 3
    show ?thesis
    proof (cases q)
      case (Inl e)
      then have "t = y" using run q by (simp add: rollback_multi_put_def op_catch_def op_bind_def op_throw_def)
      then show ?thesis using 3 by simp
    next
      case (Inr v)
      obtain w z where w: "db_run1 ?h ?b STMT_multiPutRelease [] au y = (w, z)" by fastforce
      have t: "t = z" using run q w Inr
        by (cases w) (auto simp: rollback_multi_put_def op_catch_def op_bind_def op_throw_def op_return_def)
      have top'': "sq_critical y = None \<Longrightarrow> stack_to PUT_SAVEPOINT (db_stack y) = Some ((Some PUT_SAVEPOINT, d) # R)"
        using 3 by simp
      show ?thesis
      proof (rule pop_savepoint [OF ok' put_savepoint_texts(2) put_texts(2) w top''], goal_cases)
        case (2 e)
        then show ?thesis using 3 t by (auto simp: stopped_at_def)
      next
        case (3 x)
        then show ?thesis using t \<open>db_data y = _\<close> by simp
      qed
    qed
  qed (use top in simp)
qed

lemma put_multiple_effect:
  assumes ok: "store_ok s" and run: "kv_put_multiple (actor_hooks (file_env prep u sr)) (file_backend prep (empty_tables u)) ps au s = (r, t)"
  shows "sq_critical t \<noteq> None \<or>
    (\<exists>R d. (db_stack s \<noteq> [] \<longrightarrow> R = db_stack s) \<and> (db_stack t = R \<or> db_stack t = (Some PUT_SAVEPOINT, d) # R)) \<and>
    (case r of Inr _ \<Rightarrow> kv_map t = put_all ps (kv_map s) | Inl e \<Rightarrow> kv_map t = kv_map s \<or> last_refused t)"
proof -
  let ?h = "actor_hooks (file_env prep u sr)" and ?b = "file_backend prep (empty_tables u)"
  obtain q y where q: "kv_ensure_initialized ?h ?b au s = (q, y)" by fastforce
  note E = actor.ensure_map [OF ok q]
  have stack: "db_stack y = db_stack s" if "sq_critical y = None" "db_stack s \<noteq> []"
  proof -
    have "held (db_stack s) s" using stack_open [OF store_okD(1) [OF ok]] that(2) by (auto simp: held_def)
    from calm_held [OF calm_store(4) [unfolded file_env_backend] q this] have "held (db_stack s) y" .
    then show ?thesis using that by (simp add: held_def)
  qed
  show ?thesis
  proof (cases q)
    case (Inl e)
    then have "t = y" "r = Inl e" using run q by (simp_all add: kv_put_multiple_def op_bind_def)
    then show ?thesis using E(2) stack by (auto simp: unchanged_def)
  next
    case (Inr v)
    obtain p x where p: "db_run1 ?h ?b STMT_multiPutSavepoint [] au y = (p, x)" by fastforce
    have x: "store_ok x" by (rule savepoint_ok [OF E(1) put_savepoint_texts(1) _ put_texts(1) p]) simp
    show ?thesis
    proof (rule push_savepoint [OF E(1) put_savepoint_texts(1) put_texts(1) p], goal_cases)
      case (1 e)
      then have "t = x" "r = Inl e" using run q p Inr by (simp_all add: kv_put_multiple_def op_bind_def)
      then show ?thesis using 1(2) E(3) [OF Inr] stack by (auto simp: stopped_at_def)
    next
      case (2 w)
      let ?R = "(Some PUT_SAVEPOINT, db_data y) # db_stack y"
      obtain l z where l: "put_each ?h ?b au ps x = (l, z)" by fastforce
      have z: "store_ok z" using actor.keepsD [OF actor.put_each_keeps l x] .
      have "held ?R x" using 2 stack_open [OF store_okD(1) [OF x 2(3)]] by (simp add: held_def)
      from calm_held [OF calm_store(5) [unfolded file_env_backend] l this] have "held ?R z" .
      then have top: "sq_critical z = None \<Longrightarrow> db_stack z = ?R" by (simp add: held_def)
      have sy: "sq_critical y = None" "kv_map y = kv_map s" "db_stack s \<noteq> [] \<Longrightarrow> db_stack y = db_stack s"
        using 2 E(3) [OF Inr] stack by simp_all
      show ?thesis
      proof (cases l)
        case (Inl e)
        obtain g f where g: "rollback_multi_put ?h ?b au z = (g, f)" by fastforce
        have "t = f \<and> (\<exists>e. r = Inl e)" using run q p Inr 2(1) l Inl g
          by (cases g) (auto simp: kv_put_multiple_def op_bind_def op_catch_def op_throw_def)
        then show ?thesis using rollback_multi_put_effect [OF z top g] sy by (auto simp: contents_def)
      next
        case (Inr b)
        obtain g f where g: "db_run1 ?h ?b STMT_multiPutRelease [] au z = (g, f)" by fastforce
        have t: "t = f" "r = (case g of Inl e \<Rightarrow> Inl e | Inr _ \<Rightarrow> Inr ())" using run q p \<open>q = _\<close> 2(1) l Inr g
          by (cases g; simp add: kv_put_multiple_def op_bind_def op_catch_def op_return_def)+
        have top': "sq_critical z = None \<Longrightarrow> stack_to PUT_SAVEPOINT (db_stack z) = Some ?R" using top by simp
        have all: "kv_map z = put_all ps (kv_map s)"
          using put_each_map [OF x l [unfolded Inr]] 2(4) sy(2) by simp
        show ?thesis
        proof (rule pop_savepoint [OF z put_savepoint_texts(2) put_texts(2) g top'], goal_cases)
          case (2 e)
          then show ?thesis using t sy(3) top by (auto simp: stopped_at_def intro!: exI [of _ "db_stack y"])
        next
          case (3 a)
          then show ?thesis using t all sy(3) by auto
        qed
      qed
    qed
  qed
qed

lemma put_multiple_critical:
  assumes "sq_critical s \<noteq> None" "kv_put_multiple (actor_hooks E) be ps au s = (r, t)"
  shows "t = s"
  using assms
  by (auto simp: kv_put_multiple_def kv_ensure_initialized_def db_run1_def op_bind_def assert_usable_def split: if_splits)

lemma kv_put_multiple_depth: "kept.outer (\<lambda>s. am_sync_depth (sq_mem s) = k) (kv_put_multiple (actor_hooks E) be ps au)"
  by (rule depth.outer_put_multiple)

lemma put_multiple_stays: "stays (kv_put_multiple (actor_hooks (file_env prep u sr)) (ae_backend (file_env prep u sr)) ps au)"
  unfolding stays_def file_env_backend
proof (intro allI impI)
  fix k S and s :: "'a actor" assume ok: "store_ok s" and at: "atop k S s"
  obtain r t where run: "kv_put_multiple (actor_hooks (file_env prep u sr)) (file_backend prep (empty_tables u)) ps au s = (r, t)" by fastforce
  have depth: "am_sync_depth (sq_mem t) = k"
    by (rule kept.outerD [OF kv_put_multiple_depth run]) (use at in \<open>simp add: atop_def\<close>)
  have "sq_critical t = None \<Longrightarrow> \<exists>P. db_stack t = P @ S \<and> fst ` set P \<subseteq> leftover k"
  proof -
    assume c: "sq_critical t = None"
    have n: "sq_critical s = None"
      using put_multiple_critical [OF _ run] c by blast
    then obtain P where P: "db_stack s = P @ S" "fst ` set P \<subseteq> leftover k" "S \<noteq> []" using at by (auto simp: atop_def)
    then obtain d where "db_stack t = P @ S \<or> db_stack t = (Some PUT_SAVEPOINT, d) # P @ S"
      using put_multiple_effect [OF ok run] c by auto
    then show ?thesis
    proof
      assume "db_stack t = (Some PUT_SAVEPOINT, d) # P @ S"
      then show ?thesis using P(2) by (intro exI [of _ "(Some PUT_SAVEPOINT, d) # P"]) (simp add: leftover_def)
    qed (use P(2) in blast)
  qed
  then show "atop k S (snd (kv_put_multiple (actor_hooks (file_env prep u sr)) (file_backend prep (empty_tables u)) ps au s))"
    using at depth by (simp add: run atop_def)
qed

section \<open>transactionSync\<close>

lemma calm_critical:
  assumes "calm m" "m s = (r, t)" "sq_critical s \<noteq> None"
  shows "sq_critical t \<noteq> None"
proof
  assume c: "sq_critical t = None"
  have "held [x] t" for x by (rule calm_held [OF assms(1,2)]) (use assms(3) in \<open>auto simp: held_def\<close>)
  from this [of "(None, undefined)"] this [of "(Some [], undefined)"] show False using c by (simp add: held_def)
qed

lemma calm_write: "calm (on_write (file_env prep u sr) au)"
  by (simp add: calm_def kept.outer_def held_write write_depth)

lemma savepoint_stmts:
  "(STMT_SAVEPOINT n :: 'u stmt) = control_stmt (st_sql (STMT_SAVEPOINT n :: 'u stmt)) (BeginTxn (Some n))"
  "(STMT_RELEASE n :: 'u stmt) = control_stmt (st_sql (STMT_RELEASE n :: 'u stmt)) (CommitTxn (Some n))"
  "(STMT_ROLLBACK_TO n :: 'u stmt) = control_stmt (st_sql (STMT_ROLLBACK_TO n :: 'u stmt)) (RollbackTxn (Some n))"
  by (simp_all add: STMT_SAVEPOINT_def STMT_RELEASE_def STMT_ROLLBACK_TO_def control_stmt_def)

lemma named: "BeginTxn (Some n) \<notin> unnamed" "CommitTxn (Some n) \<notin> unnamed" "RollbackTxn (Some n) \<notin> unnamed"
  by (simp_all add: unnamed_def)

lemmas sync_texts = savepoint_texts [OF disjI1 [OF refl]]

lemma run_depth:
  assumes "classify (st_sql st) = Inr c" "c \<notin> unnamed" "db_run1 (actor_hooks E) be st b au s = (r, t)"
  shows "am_sync_depth (sq_mem t) = am_sync_depth (sq_mem s)"
  by (rule kept.outerD [OF depth.outer_run [OF assms(1,2)] assms(3) refl])

text \<open>The savepoint of depth \<open>k\<close>, with what is above it.\<close>

definition marked :: "nat \<Rightarrow> 'u tables \<Rightarrow> (js_string option \<times> 'u tables) list \<Rightarrow> 'u actor \<Rightarrow> bool" where
  "marked k d R s \<longleftrightarrow> (\<exists>P. db_stack s = P @ (Some (sync_savepoint k), d) # R \<and> fst ` set P \<subseteq> leftover (Suc k))"

lemma marked_top: "marked k d R s \<Longrightarrow> stack_to (sync_savepoint k) (db_stack s) = Some ((Some (sync_savepoint k), d) # R)"
  using stack_to_leftover [OF _ fresh_savepoint] by (auto simp: marked_def)

lemma sync_rollback_effect:
  assumes ok: "store_ok s" and top: "sq_critical s = None \<Longrightarrow> marked k d R s"
    and run: "sync_rollback (file_env prep u sr) k s = (r, t)"
  shows "am_sync_depth (sq_mem t) = am_sync_depth (sq_mem s)"
    "sq_critical t \<noteq> None \<or> (db_data t = d \<or> last_refused t) \<and> (db_stack t = R \<or> marked k d R t)"
proof -
  let ?h = "actor_hooks (file_env prep u sr)" and ?b = "file_backend prep (empty_tables u)"
  have "am_sync_depth (sq_mem t) = am_sync_depth (sq_mem s) \<and>
    (sq_critical t \<noteq> None \<or> (db_data t = d \<or> last_refused t) \<and> (db_stack t = R \<or> marked k d R t))"
  proof (cases "sq_critical s = None")
    case False
    then show ?thesis using run by (auto simp: sync_rollback_def)
  next
    case True
    obtain q y where q: "db_run1 ?h ?b (STMT_ROLLBACK_TO (sync_savepoint k)) [] False s = (q, y)" by fastforce
    have ok': "store_ok y" by (rule savepoint_ok [OF ok sync_texts(3) _ savepoint_stmts(3) q]) simp
    note D = run_depth [OF sync_texts(3) named(3) q]
    show ?thesis
    proof (rule roll_back_to_savepoint [OF ok sync_texts(3) savepoint_stmts(3) q marked_top [OF top [OF True]]], goal_cases)
      case (1 e)
      have "t = y" using run q 1(1) True by (simp add: sync_rollback_def op_bind_def)
      then show ?thesis using 1(2,3) top D by (auto simp: stopped_at_def marked_def)
    next
      case 2
      note undone = 2
      have y: "marked k d R y" using undone by (auto simp: marked_def intro!: exI [of _ "[]"])
      show ?thesis
      proof (cases q)
        case (Inl e)
        then have "t = y" using run q True by (simp add: sync_rollback_def op_bind_def)
        then show ?thesis using undone D y by simp
      next
        case (Inr v)
        obtain w z where w: "db_run1 ?h ?b (STMT_RELEASE (sync_savepoint k)) [] False y = (w, z)" by fastforce
        have t: "t = z" using run q w Inr True by (cases w) (auto simp: sync_rollback_def op_bind_def op_return_def)
        note D' = run_depth [OF sync_texts(2) named(2) w]
        show ?thesis
        proof (rule pop_savepoint [OF ok' sync_texts(2) savepoint_stmts(2) w marked_top [OF y]], goal_cases)
          case (1 e)
          then show ?thesis using undone t y D D' by (auto simp: stopped_at_def marked_def)
        next
          case (2 x)
          then show ?thesis using t D D' undone(3) by simp
        qed
      qed
    qed
  qed
  then show "am_sync_depth (sq_mem t) = am_sync_depth (sq_mem s)"
    "sq_critical t \<noteq> None \<or> (db_data t = d \<or> last_refused t) \<and> (db_stack t = R \<or> marked k d R t)" by simp_all
qed

text \<open>What runs between the savepoint and its end.\<close>

definition sync_body :: "'u actor_env \<Rightarrow> nat \<Rightarrow> ('u, 'a \<times> bool) aop \<Rightarrow> ('u, 'a) aop" where
  "sync_body E d callback = op_catch
            (op_bind callback (\<lambda>(result, thenable). op_bind
              (\<lambda>s. (if thenable then (Inl (Failure ''transactionSync() callback returned a promise.''), s)
                  else if sq_critical s \<noteq> None
                  then (Inl (Failure ''Cannot commit transaction due to an earlier SQL critical error''), s)
                  else (Inr (), s)))
              (\<lambda>_. op_bind (actor_run E (STMT_RELEASE (sync_savepoint d))) (\<lambda>_. op_return result))))
            (\<lambda>e. op_bind (sync_rollback E d) (\<lambda>_. op_throw e))"

lemma transaction_sync_body: "transaction_sync E callback = op_bind (on_write E False) (\<lambda>_ s. (let d = am_sync_depth (sq_mem s) in
    op_bind (upd (\<lambda>m. m\<lparr>am_sync_depth := Suc d\<rparr>)) (\<lambda>_. op_finally
      (op_bind (actor_run E (STMT_SAVEPOINT (sync_savepoint d))) (\<lambda>_. sync_body E d callback))
      (upd (\<lambda>m. m\<lparr>am_sync_depth := am_sync_depth m - 1\<rparr>))) s))"
  by (simp add: transaction_sync_def sync_body_def)

lemma sync_body_effect:
  fixes callback :: "('u, 'a \<times> bool) aop"
  assumes cb: "solid callback" and s: "store_ok s" "guarded {} {} s" "db_stack s = (Some (sync_savepoint k), d) # R"
    "am_sync_depth (sq_mem s) = Suc k" and run: "sync_body (file_env prep u sr) k callback s = (r, t)"
  shows "am_sync_depth (sq_mem t) = Suc k"
    "sq_critical t \<noteq> None \<or> (db_stack t = R \<or> marked k d R t) \<and> (\<forall>e. r = Inl e \<longrightarrow> db_data t = d \<or> last_refused t)"
proof -
  let ?E = "file_env prep u sr" and ?S = "(Some (sync_savepoint k), d) # R"
  let ?goal = "am_sync_depth (sq_mem t) = Suc k \<and>
    (sq_critical t \<noteq> None \<or> (db_stack t = R \<or> marked k d R t) \<and> (\<forall>e. r = Inl e \<longrightarrow> db_data t = d \<or> last_refused t))"
  obtain b y where b: "callback s = (b, y)" by fastforce
  have "atop (Suc k) ?S s" using s(3,4) by (auto simp: atop_def intro!: exI [of _ "[]"])
  then have "store_ok (snd (callback s)) \<and> atop (Suc k) ?S (snd (callback s))"
    using cb s(1,2) by (simp add: solid_def good_def stays_def)
  then have y: "store_ok y" "atop (Suc k) ?S y" by (simp_all add: b)
  then have my: "sq_critical y = None \<Longrightarrow> marked k d R y" and dy: "am_sync_depth (sq_mem y) = Suc k"
    by (auto simp: atop_def marked_def)
  have rolled: ?goal if z: "store_ok z" "sq_critical z = None \<Longrightarrow> marked k d R z" "am_sync_depth (sq_mem z) = Suc k"
    and w: "op_bind (sync_rollback ?E k) (\<lambda>_. op_throw e) z = (r, t)" for z e
  proof -
    obtain q x where q: "sync_rollback ?E k z = (q, x)" by fastforce
    have "t = x" using w q by (cases q) (auto simp: op_bind_def op_throw_def)
    then show ?thesis using sync_rollback_effect [OF z(1,2) q] z(3) by auto
  qed
  have ?goal
  proof -
    consider (fails) e where "op_bind (sync_rollback ?E k) (\<lambda>_. op_throw e) y = (r, t)"
      | (release) v where "b = Inr (v, False)" "sq_critical y = None"
          "op_catch (op_bind (actor_run ?E (STMT_RELEASE (sync_savepoint k))) (\<lambda>_. op_return v))
            (\<lambda>e. op_bind (sync_rollback ?E k) (\<lambda>_. op_throw e)) y = (r, t)"
      using run b by (cases b) (auto simp: sync_body_def op_catch_def op_bind_def split: prod.splits if_splits)
    then show ?thesis
    proof cases
      case (fails e)
      show ?thesis by (rule rolled [OF y(1) my dy fails])
    next
      case (release v)
      obtain w z where w: "db_run1 (actor_hooks ?E) (file_backend prep (empty_tables u)) (STMT_RELEASE (sync_savepoint k)) [] False y = (w, z)"
        by fastforce
      have z: "store_ok z" by (rule savepoint_ok [OF y(1) sync_texts(2) _ savepoint_stmts(2) w]) simp
      note D = run_depth [OF sync_texts(2) named(2) w]
      show ?thesis
      proof (rule pop_savepoint [OF y(1) sync_texts(2) savepoint_stmts(2) w marked_top [OF my [OF release(2)]]], goal_cases)
        case (1 e)
        have "op_bind (sync_rollback ?E k) (\<lambda>_. op_throw e) z = (r, t)"
          using release(3) w 1(1) by (simp add: op_catch_def op_bind_def)
        moreover have "sq_critical z = None \<Longrightarrow> marked k d R z" using 1(2) my by (auto simp: stopped_at_def marked_def)
        ultimately show ?thesis using rolled [OF z] dy D by simp
      next
        case (2 x)
        then have "r = Inr v" "t = z" using release(3) w by (simp_all add: op_catch_def op_bind_def op_return_def)
        then show ?thesis using 2 dy D by simp
      qed
    qed
  qed
  then show "am_sync_depth (sq_mem t) = Suc k"
    "sq_critical t \<noteq> None \<or> (db_stack t = R \<or> marked k d R t) \<and> (\<forall>e. r = Inl e \<longrightarrow> db_data t = d \<or> last_refused t)"
    by simp_all
qed

lemma transaction_sync_effect:
  fixes callback :: "('u, 'a \<times> bool) aop"
  assumes cb: "solid callback" and s: "store_ok s" "guarded {} {} s" and k: "am_sync_depth (sq_mem s) = k"
    and run: "transaction_sync (file_env prep u sr) callback s = (r, t)"
  shows "am_sync_depth (sq_mem t) = k"
    "sq_critical t \<noteq> None \<or> sq_critical s = None \<and>
      (\<exists>R d. (db_stack s \<noteq> [] \<longrightarrow> R = db_stack s) \<and> (db_stack t = R \<or> marked k d R t)) \<and>
      (\<forall>e. r = Inl e \<longrightarrow> db_data t = db_data s \<or> last_refused t)"
proof -
  let ?E = "file_env prep u sr" and ?b = "file_backend prep (empty_tables u)"
  let ?goal = "am_sync_depth (sq_mem t) = k \<and> (sq_critical t \<noteq> None \<or> sq_critical s = None \<and>
      (\<exists>R d. (db_stack s \<noteq> [] \<longrightarrow> R = db_stack s) \<and> (db_stack t = R \<or> marked k d R t)) \<and>
      (\<forall>e. r = Inl e \<longrightarrow> db_data t = db_data s \<or> last_refused t))"
  obtain w x where w: "on_write ?E False s = (w, x)" by fastforce
  have x: "store_ok x" "guarded {} {} x" using on_write_ok [OF s(1), of prep u sr False] store_good(10) [of "{}" "{}" prep u sr False] s w
    by (auto simp: good_def)
  have dx: "am_sync_depth (sq_mem x) = k" using write_depth [of ?E False s] w k by simp
  have cx: "sq_critical x = None \<Longrightarrow> sq_critical s = None" using calm_critical [OF calm_write w] by blast
  have stack: "sq_critical x = None \<Longrightarrow> db_stack s \<noteq> [] \<Longrightarrow> db_stack x = db_stack s"
    using calm_held [OF calm_write w, of "db_stack s"] stack_open [OF store_okD(1) [OF s(1)]] cx by (auto simp: held_def)
  have ?goal
  proof (cases w)
    case (Inl e)
    then have "t = x" using run w by (simp add: transaction_sync_body op_bind_def)
    then show ?thesis using on_write_stops [OF s(1) _ w [unfolded Inl]] cx stack dx by auto
  next
    case (Inr v)
    let ?x = "mem (\<lambda>m. m\<lparr>am_sync_depth := Suc k\<rparr>) x" and ?out = "mem (\<lambda>m. m\<lparr>am_sync_depth := am_sync_depth m - 1\<rparr>)"
    have fx: "db_data ?x = db_data x" "db_stack ?x = db_stack x" "sq_critical ?x = sq_critical x" by (simp_all add: mem_def)
    have okx: "store_ok ?x" by (rule store_ok_mem [OF x(1)]) simp
    have gx: "guarded {} {} ?x" by (rule guarded_view [OF x(2)]) (simp_all add: mem_def)
    have data: "sq_critical x = None \<Longrightarrow> db_data x = db_data s" using on_write_frame(2) [OF s(1) cx] w Inr by simp
    obtain p y where p: "db_run1 (actor_hooks ?E) ?b (STMT_SAVEPOINT (sync_savepoint k)) [] False ?x = (p, y)" by fastforce
    have run': "(case op_bind (actor_run ?E (STMT_SAVEPOINT (sync_savepoint k))) (\<lambda>_. sync_body ?E k callback) ?x of
        (r, z) \<Rightarrow> (r, ?out z)) = (r, t)"
      using run w Inr dx by (simp add: transaction_sync_body op_bind_def [of "on_write ?E False"] op_bind_def [of "upd _"]
          op_modify_def op_finally_def Let_def)
    note D = run_depth [OF sync_texts(1) named(1) p]
    show ?thesis
    proof (rule push_savepoint [OF okx sync_texts(1) savepoint_stmts(1) p], goal_cases)
      case (1 e)
      then have "t = ?out y" using run' p by (simp add: op_bind_def)
      then show ?thesis using 1(2) fx data cx stack D by (auto simp: stopped_at_def mem_def marked_def)
    next
      case (2 a)
      obtain z where z: "sync_body ?E k callback y = (r, z)" "t = ?out z"
        using run' p 2(1) by (auto simp: op_bind_def op_return_def split: prod.splits)
      have oky: "store_ok y" by (rule savepoint_ok [OF okx sync_texts(1) _ savepoint_stmts(1) p]) simp
      have "good {} {} (actor_run ?E (STMT_SAVEPOINT (sync_savepoint k)))" by (rule sync_good(1))
      then have "guarded {} {} (snd (actor_run ?E (STMT_SAVEPOINT (sync_savepoint k)) ?x))" using okx gx by (simp add: good_def)
      then have gy: "guarded {} {} y" using p 2(1) by (simp add: op_bind_def op_return_def)
      have cs: "sq_critical x = None" using 2(2) fx by simp
      have stk: "db_stack y = (Some (sync_savepoint k), db_data s) # db_stack x" "am_sync_depth (sq_mem y) = Suc k"
        using 2 fx data [OF cs] D by (simp_all add: mem_def)
      note B = sync_body_effect [OF cb oky gy stk z(1)]
      have "marked k (db_data s) (db_stack x) z \<Longrightarrow> marked k (db_data s) (db_stack x) t" using z(2) by (simp add: marked_def mem_def)
      then show ?thesis using B z(2) cx [OF cs] stack [OF cs] by (auto simp: mem_def last_refused_def)
    qed
  qed
  then show "am_sync_depth (sq_mem t) = k"
    "sq_critical t \<noteq> None \<or> sq_critical s = None \<and>
      (\<exists>R d. (db_stack s \<noteq> [] \<longrightarrow> R = db_stack s) \<and> (db_stack t = R \<or> marked k d R t)) \<and>
      (\<forall>e. r = Inl e \<longrightarrow> db_data t = db_data s \<or> last_refused t)" by simp_all
qed

lemma sync_stays:
  fixes callback :: "('u, 'a \<times> bool) aop"
  assumes "solid callback"
  shows "stays (transaction_sync (file_env prep u sr) callback)"
  unfolding stays_def
proof (intro allI impI)
  fix k S and s :: "'u actor" assume s: "store_ok s" "guarded {} {} s" and at: "atop k S s"
  obtain r t where run: "transaction_sync (file_env prep u sr) callback s = (r, t)" by fastforce
  have k: "am_sync_depth (sq_mem s) = k" using at by (simp add: atop_def)
  note T = transaction_sync_effect [OF assms s k run]
  have "sq_critical t = None \<Longrightarrow> \<exists>P. db_stack t = P @ S \<and> fst ` set P \<subseteq> leftover k"
  proof -
    assume c: "sq_critical t = None"
    then obtain P where P: "db_stack s = P @ S" "fst ` set P \<subseteq> leftover k" "S \<noteq> []" using T(2) at by (auto simp: atop_def)
    then obtain d where "db_stack t = P @ S \<or> marked k d (P @ S) t" using T(2) c by auto
    then show ?thesis
    proof
      assume "marked k d (P @ S) t"
      then obtain Q where Q: "db_stack t = Q @ (Some (sync_savepoint k), d) # P @ S" "fst ` set Q \<subseteq> leftover (Suc k)"
        by (auto simp: marked_def)
      moreover have "Some (sync_savepoint k) \<in> leftover k" "leftover (Suc k) \<subseteq> leftover k"
        using leftover_mono [of k "Suc k"] by (auto simp: leftover_def)
      ultimately show ?thesis using P(2) by (intro exI [of _ "Q @ (Some (sync_savepoint k), d) # P"]) auto
    qed (use P(2) in blast)
  qed
  then show "atop k S (snd (transaction_sync (file_env prep u sr) callback s))" using at T(1) by (simp add: run atop_def)
qed

section \<open>Code without deletions of everything\<close>

lemma solid_bind: "solid m \<Longrightarrow> (\<And>v. solid (f v)) \<Longrightarrow> solid (op_bind m f)"
  unfolding solid_def
proof (intro conjI)
  assume m: "good {} {} m \<and> stays m" and f: "\<And>v. good {} {} (f v) \<and> stays (f v)"
  show "good {} {} (op_bind m f)" by (rule good_bind) (use m f in auto)
  show "stays (op_bind m f)" unfolding stays_def
  proof (intro allI impI)
    fix k S and s :: "'a actor" assume s: "store_ok s" "guarded {} {} s" "atop k S s"
    then have t: "store_ok (snd (m s)) \<and> guarded {} {} (snd (m s)) \<and> atop k S (snd (m s))"
      using m by (simp add: good_def stays_def)
    then show "atop k S (snd (op_bind m f s))" using f
      by (cases "m s"; cases "fst (m s)") (simp_all add: op_bind_def good_def stays_def)
  qed
qed

lemma solid_catch: "solid m \<Longrightarrow> (\<And>e. solid (f e)) \<Longrightarrow> solid (op_catch m f)"
  unfolding solid_def
proof (intro conjI)
  assume m: "good {} {} m \<and> stays m" and f: "\<And>v. good {} {} (f v) \<and> stays (f v)"
  show "good {} {} (op_catch m f)" by (rule good_catch) (use m f in auto)
  show "stays (op_catch m f)" unfolding stays_def
  proof (intro allI impI)
    fix k S and s :: "'a actor" assume s: "store_ok s" "guarded {} {} s" "atop k S s"
    then have t: "store_ok (snd (m s)) \<and> guarded {} {} (snd (m s)) \<and> atop k S (snd (m s))"
      using m by (simp add: good_def stays_def)
    then show "atop k S (snd (op_catch m f s))" using f
      by (cases "m s"; cases "fst (m s)") (simp_all add: op_catch_def good_def stays_def)
  qed
qed

lemma solid_state: "(\<And>s. solid (f s)) \<Longrightarrow> solid (\<lambda>s. f s s)"
  by (simp add: solid_def good_def stays_def)

lemma solid_if: "solid m \<Longrightarrow> solid n \<Longrightarrow> solid (\<lambda>s. if P s then m s else n s)"
  by (simp add: solid_def good_def stays_def)

lemma solid_calm: "good {} {} m \<Longrightarrow> calm m \<Longrightarrow> solid m"
  by (simp add: solid_def calm_stays)

lemma solid_pure: "solid (op_return v)" "solid (op_throw e)" "solid (\<lambda>s. (r s, s))" "solid require_not_broken"
  by (intro solid_calm good_pure calm_pure)+

lemma calm_start: "calm (start_implicit_txn (file_env prep u sr))"
proof -
  have "held S (snd (start_implicit_txn (file_env prep u sr) s))" if s: "held S s" for S and s :: "'a actor"
    using begin_held [OF s, of prep u sr] s
    by (cases "run_control (file_env prep u sr) STMT_BEGIN s") (auto simp: start_implicit_txn_def implicit_new_def op_simps)
  then show ?thesis by (simp add: calm_def kept.outer_def start_depth)
qed

lemma access_calm:
  fixes prep u sr
  defines "E \<equiv> file_env prep u sr"
  shows "calm (actor_get E k)" "calm (actor_get_multiple E ks)" "calm (actor_get_alarm E)" "calm (actor_list E b e n)"
    "calm (actor_list_reverse E b e n)" "calm (actor_put E k v au)" "calm (actor_delete E k au)"
    "calm (actor_delete_multiple E ks au)" "calm (actor_set_alarm E a au)" "calm (get_current_bookmark E)"
proof -
  have get: "calm (get_each E ks)" for ks
  proof (induction ks)
    case (Cons k ks)
    show ?case unfolding get_each.simps by (intro calm_bind calm_pure Cons) (unfold E_def, rule calm_store)
  qed (simp add: calm_pure)
  have delete: "calm (delete_each E au n ks)" for n ks
  proof (induction ks arbitrary: n)
    case (Cons k ks)
    show ?case unfolding delete_each.simps by (intro calm_bind Cons) (unfold E_def, rule calm_store)
  qed (simp add: calm_pure)
  have list: "calm (kv_list (actor_hooks E) (ae_backend E) b e n ord (\<lambda>k v rs. op_return (rs @ [(k, v)])) [])" for ord
    unfolding E_def by (rule calm_store(10)) (rule calm_pure)
  show "calm (actor_get E k)" "calm (actor_put E k v au)" "calm (actor_delete E k au)"
    unfolding actor_get_def actor_put_def actor_delete_def E_def by (intro calm_bind calm_pure calm_store)+
  show "calm (actor_get_multiple E ks)" "calm (actor_delete_multiple E ks au)"
    unfolding actor_get_multiple_def actor_delete_multiple_def by (intro calm_bind calm_pure get delete)+
  show "calm (actor_list E b e n)" "calm (actor_list_reverse E b e n)" unfolding actor_list_def actor_list_reverse_def
    by (auto intro!: calm_bind calm_pure list)
  show "calm (actor_get_alarm E)" unfolding actor_get_alarm_def Let_def E_def by (intro calm_bind calm_pure calm_if calm_store)
  show "calm (get_current_bookmark E)" unfolding get_current_bookmark_def Let_def E_def by (intro calm_bind calm_pure calm_store)
  have "calm (change_alarm E a au)" unfolding change_alarm_def E_def
    by (intro calm_bind calm_store) (simp add: calm_upd calm_pure)
  moreover have "calm (upd (\<lambda>m. case am_current m of
        ExplicitTxn j \<Rightarrow> set_explicit j (\<lambda>t. t\<lparr>et_dirty := True\<rparr>) m
      | _ \<Rightarrow> m\<lparr>am_deferred_delete := False\<rparr>) :: (_, unit) aop)"
    by (rule calm_upd) (simp add: set_explicit_def split: current_txn.split)
  ultimately show "calm (actor_set_alarm E a au)" unfolding actor_set_alarm_def by (intro calm_bind calm_pure)
qed

lemma put_multiple_solid: "solid (actor_put_multiple (file_env prep u sr) ps au)"
proof -
  let ?E = "file_env prep u sr"
  have start: "solid (\<lambda>s. if am_current (sq_mem s) = NoTxn then start_implicit_txn ?E s else (Inr (), s))"
    by (rule solid_calm [OF start_good calm_if [OF calm_start calm_pure(3)]])
  have put: "solid (kv_put_multiple (actor_hooks ?E) (ae_backend ?E) ps au)"
    unfolding solid_def by (intro conjI store_good put_multiple_stays)
  show ?thesis unfolding actor_put_multiple_def by (intro solid_bind solid_pure solid_if start put)
qed

text \<open>
  Synchronous code that neither deletes everything nor touches explicit transactions: the reads and
  writes of the storage interface, statements on the application's tables, nested calls of
  \<open>transactionSync\<close>, and exceptions thrown and caught on the way.
\<close>

inductive sync_write :: "'u actor_env \<Rightarrow> ('u, unit) aop \<Rightarrow> bool" for E where
  returns: "sync_write E (op_return ())"
| throws: "sync_write E (op_throw e)"
| gets: "sync_write E (op_bind (actor_get E k) (\<lambda>_. op_return ()))"
| gets_multiple: "sync_write E (op_bind (actor_get_multiple E ks) (\<lambda>_. op_return ()))"
| gets_alarm: "sync_write E (op_bind (actor_get_alarm E) (\<lambda>_. op_return ()))"
| lists: "sync_write E (op_bind (actor_list E b e n) (\<lambda>_. op_return ()))"
| lists_reverse: "sync_write E (op_bind (actor_list_reverse E b e n) (\<lambda>_. op_return ()))"
| puts: "sync_write E (actor_put E k v au)"
| puts_multiple: "sync_write E (actor_put_multiple E ps au)"
| deletes: "sync_write E (op_bind (actor_delete E k au) (\<lambda>_. op_return ()))"
| deletes_multiple: "sync_write E (op_bind (actor_delete_multiple E ks au) (\<lambda>_. op_return ()))"
| sets_alarm: "sync_write E (actor_set_alarm E a au)"
| bookmark: "sync_write E (op_bind (get_current_bookmark E) (\<lambda>_. op_return ()))"
| sql: "leading_keyword sql \<notin> CONTROL_KEYWORDS \<Longrightarrow> (\<And>d e d'. f bs d = (Inl e, d') \<Longrightarrow> d' = d) \<Longrightarrow>
    (\<And>d v d'. f bs d = (Inr v, d') \<Longrightarrow> tb_kv d' = tb_kv d \<and> tb_meta d' = tb_meta d) \<Longrightarrow>
    sync_write E (op_bind (db_run1 (actor_hooks E) (ae_backend E) (data_stmt sql n f) bs False) (\<lambda>_. op_return ()))"
| seq: "sync_write E m \<Longrightarrow> sync_write E n \<Longrightarrow> sync_write E (op_bind m (\<lambda>_. n))"
| choose: "(\<And>s. sync_write E (f s)) \<Longrightarrow> sync_write E (\<lambda>s. f s s)"
| catches: "sync_write E m \<Longrightarrow> (\<And>e. sync_write E (g e)) \<Longrightarrow> sync_write E (op_catch m g)"
| nested: "sync_write E m \<Longrightarrow> sync_write E (transaction_sync E (op_bind m (\<lambda>_. op_return ((), thenable))))"

lemma sync_write_solid:
  assumes "sync_write (file_env prep u sr) m"
  shows "solid m"
  using assms
proof (induction m rule: sync_write.induct)
  case (sql sql f bs n)
  show ?case
  proof (rule solid_bind [OF solid_calm [OF sql_good [OF sql(1)]] solid_pure(1)])
    show "calm (db_run1 (actor_hooks (file_env prep u sr)) (ae_backend (file_env prep u sr)) (data_stmt sql n f) bs False)"
      by (rule calm_store(11), rule is_dataI [OF _ refl]) (simp add: data_stmt_def sql(1))
  qed (use sql in auto)
next
  case (nested m thenable)
  have "solid (op_bind m (\<lambda>_. op_return ((), thenable)))" by (rule solid_bind [OF nested.IH solid_pure(1)])
  then show ?case by (simp add: solid_def sync_stays transaction_sync_good)
next
  case (choose f)
  show ?case by (rule solid_state [OF choose.IH])
next
  case (puts_multiple ps au)
  show ?case by (rule put_multiple_solid)
next
  case (seq m n)
  show ?case by (rule solid_bind [OF seq.IH])
next
  case (catches m g)
  show ?case by (rule solid_catch [OF catches.IH])
qed (intro solid_bind solid_pure solid_calm access_good lists_good access_calm | assumption)+

lemma start_data:
  assumes ok: "store_ok s" and q: "(if am_current (sq_mem s) = NoTxn then start_implicit_txn (file_env prep u sr) s else (Inr (), s)) = (q, y)"
  shows "store_ok y" "sq_critical y = None \<Longrightarrow> db_data y = db_data s"
proof -
  let ?m = "\<lambda>s. if am_current (sq_mem s) = NoTxn then start_implicit_txn (file_env prep u sr) s else (Inr (), s)"
  have "control.keeps ?m" by (rule control.keeps_if [OF start_implicit_keeps control.keeps_result])
  from control.keepsD [OF this q ok] show "store_ok y" .
  assume c: "sq_critical y = None"
  have "calm ?m" by (rule calm_if [OF calm_start calm_pure(3)])
  from calm_critical [OF this q] have s: "sq_critical s = None" using c by blast
  obtain r x where rx: "run_control (file_env prep u sr) STMT_BEGIN s = (r, x)" by fastforce
  show "db_data y = db_data s"
  proof (cases "am_current (sq_mem s) = NoTxn")
    case True
    show ?thesis
    proof (cases r)
      case (Inl e)
      then have "y = x" using q rx True by (simp add: start_implicit_txn_def implicit_new_def op_bind_def)
      then show ?thesis using begin_stops [OF ok s rx [unfolded Inl]] c by simp
    next
      case (Inr v)
      then have "sq_file y = sq_file x" using q rx True
        by (auto simp: start_implicit_txn_def implicit_new_def op_simps Let_def mem_def)
      then show ?thesis using begin_frame(2) [OF ok s rx [unfolded Inr]] by simp
    qed
  qed (use q in simp)
qed

end
