(* ===== verification/Atomic_Props.thy ===== *)
theory Atomic_Props
  imports Actor_Atomic
begin

text \<open>
  One actor whose file holds one entry, evaluated by hand inside \<open>transactionSync\<close>: the theorems on
  atomicity are instantiated at it, and \<open>deleteAll\<close> shows why they exclude it.
\<close>

section \<open>Control statements that run\<close>

lemma eval_control:
  assumes "sq_critical s = None" "classify (st_sql st) = Inr c" "c \<noteq> NoChange" "st = control_stmt sql c"
    "sf_script (sq_file s) (sf_n (sq_file s)) = Runs"
    "control c ((sq_file s)\<lparr>sf_n := Suc (sf_n (sq_file s))\<rparr>) = (Inr v, g)" "apply_change h c (s\<lparr>sq_file := g\<rparr>) = (Inr (), t)"
  shows "db_run1 h (file_backend p d0) st b au s = (Inr v, t)"
  using assms control_not_write [OF assms(2,3)]
  by (simp add: db_run1_def assert_usable_def exec_statement_def op_bind_def op_return_def control_stmt_def scripted_eq(1))

lemma eval_missing:
  assumes "sq_critical s = None" "classify (st_sql st) = Inr c" "c = CommitTxn (Some n) \<or> c = RollbackTxn (Some n)"
    "st = control_stmt sql c" "sf_script (sq_file s) (sf_n (sq_file s)) = Runs" "sf_stack (sq_file s) = []" "\<not> txn_open s"
  shows "db_run1 h (file_backend p d0) st b au s = (Inl SQL_ERROR, s\<lparr>sq_file := (sq_file s)\<lparr>sf_n := Suc (sf_n (sq_file s))\<rparr>\<rparr>)"
proof -
  have "c \<noteq> NoChange" using assms(3) by auto
  moreover have "control c ((sq_file s)\<lparr>sf_n := Suc (sf_n (sq_file s))\<rparr>) = (Inl SQL_ERROR, (sq_file s)\<lparr>sf_n := Suc (sf_n (sq_file s))\<rparr>)"
    using assms(3,6) by (auto simp: control_def)
  ultimately show ?thesis using assms control_not_write [OF assms(2)]
    by (simp add: db_run1_def assert_usable_def exec_statement_def op_simps control_stmt_def scripted_eq(1)
        check_for_auto_rollback_def txn_open_def)
qed

section \<open>The actor\<close>

definition row_data :: "unit tables" where
  "row_data = (empty_tables ())\<lparr>tb_kv := Some (kv_insert (utf8_encode [0x61]) [7] kv_empty)\<rparr>"

definition row_new :: "unit actor" where
  "row_new = demo_new\<lparr>sq_file := demo_file\<lparr>sf_data := row_data\<rparr>, sq_mem := (sq_mem demo_new)\<lparr>km_created := True\<rparr>\<rparr>"

definition row_began :: "unit actor" where
  "row_began = row_new\<lparr>sq_in_txn := True,
    sq_file := demo_file\<lparr>sf_data := row_data, sf_n := 1, sf_stack := [(None, row_data)]\<rparr>,
    sq_mem := (sq_mem row_new)\<lparr>am_current := ImplicitTxn 0, am_implicit := [\<lparr>it_committed = False, it_dropped = False, it_confirmed = True\<rparr>],
      am_commits := [\<lparr>cm_kind = FlushImplicit 0, cm_phase = Scheduled, cm_shared = None\<rparr>],
      am_last_commit := CommitOf 0, am_locks := [LockOn (CommitOf 0)]\<rparr>\<rparr>"

text \<open>Inside \<open>transactionSync\<close>, after its savepoint.\<close>

definition row_saved :: "unit actor" where
  "row_saved = row_began\<lparr>sq_mem := (sq_mem row_began)\<lparr>am_sync_depth := 1\<rparr>,
    sq_file := demo_file\<lparr>sf_data := row_data, sf_n := 2, sf_stack := [(Some (sync_savepoint 0), row_data), (None, row_data)]\<rparr>,
    sq_savepoints := [(sync_savepoint 0, 0)]\<rparr>"

lemma row_new: "new_actor demo_env (demo_file\<lparr>sf_data := row_data\<rparr>) = Inr row_new"
  by (simp add: new_actor_def new_store_mem_def demo_file_def empty_tables_def meta_get_alarm_def get_alarm_uncached_def
      assert_usable_def op_simps mem_def demo_new_def row_new_def row_data_def init_actor_mem_def store_mem.extend_def actor_mem.defs)

lemma row_new_fields:
  "sq_critical row_new = None" "sq_savepoints row_new = []" "\<not> sq_in_txn row_new" "sq_callbacks row_new = []"
  "sq_file row_new = demo_file\<lparr>sf_data := row_data\<rparr>" "mm_cache (sq_mem row_new) = Some None" "km_created (sq_mem row_new)"
  "am_broken (sq_mem row_new) = None" "am_current (sq_mem row_new) = NoTxn" "am_implicit (sq_mem row_new) = []"
  "am_commits (sq_mem row_new) = []" "am_locks (sq_mem row_new) = []" "am_sync_depth (sq_mem row_new) = 0"
  "km_current (sq_mem row_new) = None" "am_delete_all_scheduled (sq_mem row_new) = False"
  by (simp_all add: row_new_def demo_new_def init_actor_mem_def store_mem.extend_def actor_mem.defs)

lemma row_reachable: "actor_reachable demo_env row_new"
  by (rule opened [OF row_new]) (simp add: demo_file_fields)

lemma row_first_write: "on_write demo_env False row_new = (Inr (), row_began)"
  unfolding row_began_def demo_env_def
  by (subst eval_first_write [where i = 0 and c = 0]) (simp_all add: row_new_fields demo_file_fields)

lemma row_fields:
  "sq_critical row_began = None" "sq_critical row_saved = None" "am_broken (sq_mem row_saved) = None"
  "am_current (sq_mem row_saved) = ImplicitTxn 0" "am_implicit (sq_mem row_saved) = [\<lparr>it_committed = False, it_dropped = False, it_confirmed = True\<rparr>]"
  "sq_file row_saved = demo_file\<lparr>sf_data := row_data, sf_n := 2, sf_stack := [(Some (sync_savepoint 0), row_data), (None, row_data)]\<rparr>"
  "sq_callbacks row_saved = []" "sq_savepoints row_saved = [(sync_savepoint 0, 0)]" "sq_in_txn row_saved"
  "am_sync_depth (sq_mem row_saved) = 1" "km_created (sq_mem row_saved)" "mm_cache (sq_mem row_saved) = Some None"
  "km_current (sq_mem row_saved) = None" "am_delete_all_scheduled (sq_mem row_saved) = False"
  by (simp_all add: row_saved_def row_began_def row_new_fields)

lemma row_sync:
  "transaction_sync demo_env callback row_new =
     (case sync_body demo_env 0 callback row_saved of (r, t) \<Rightarrow> (r, mem (\<lambda>m. m\<lparr>am_sync_depth := am_sync_depth m - 1\<rparr>) t))"
proof -
  let ?x = "mem (\<lambda>m. m\<lparr>am_sync_depth := Suc 0\<rparr>) row_began"
  have "db_run1 (actor_hooks demo_env) (ae_backend demo_env) (STMT_SAVEPOINT (sync_savepoint 0)) [] False ?x = (Inr (no_rows 0), row_saved)"
    unfolding demo_env_def file_env_backend
    by (rule eval_control [OF _ sync_texts(1) _ savepoint_stmts(1)])
      (simp_all add: mem_def row_began_def row_saved_def row_new_fields demo_file_fields control_def apply_change_def
        apply_begin_def numeral_2_eq_2)
  then show ?thesis using row_first_write
    by (simp add: transaction_sync_body op_bind_def op_return_def op_modify_def op_finally_def Let_def row_began_def row_new_fields mem_def)
qed

section \<open>A callback that throws\<close>




section \<open>transactionSync\<close>



section \<open>A put of many entries\<close>







section \<open>deleteAll within transactionSync\<close>

definition row_delete_all :: "(unit, unit \<times> bool) aop" where
  "row_delete_all = op_bind (actor_delete_all demo_env True) (\<lambda>_. op_return ((), False))"

lemma row_erased:
  obtains t where "actor_delete_all demo_env True row_saved = (Inr 1, t)" "sq_critical t = None" "\<not> txn_open t"
    "\<And>n. sf_script (sq_file t) n = Runs" "sf_stack (sq_file t) = []" "db_data t = empty_tables ()"
proof -
  let ?be = "file_backend (\<lambda>_ _. Inl SQL_ERROR) (empty_tables ()) :: unit tables sql_file sql_backend"
  let ?h = "actor_hooks (file_env (\<lambda>_ _. Inl SQL_ERROR) () (\<lambda>_ _. None) :: unit actor_env)"
  define x where "x = row_saved\<lparr>sq_file := (sq_file row_saved)\<lparr>sf_n := 3, sf_stack := []\<rparr>, sq_savepoints := [], sq_in_txn := False\<rparr>"
  have "db_run1 control_hooks ?be STMT_ROLLBACK [] False row_saved = (Inr (no_rows 0), x)"
    by (rule eval_control [OF row_fields(2) control_texts(3) _ STMT_ROLLBACK_def, where g = "sq_file x"])
      (simp_all add: row_fields demo_file_fields x_def control_def apply_change_def apply_rollback_def run_callbacks_down_to_def
        js_assert_def op_simps numeral_2_eq_2 numeral_3_eq_3)
  then have rb: "run_control demo_env STMT_ROLLBACK row_saved = (Inr (), x)"
    by (simp add: run_control_def demo_env_def op_bind_def op_return_def)
  define y where "y = mem schedule_delete_all_commit (mem (\<lambda>m. m\<lparr>am_current := NoTxn\<rparr>) (mem (set_implicit 0 (\<lambda>t. t\<lparr>it_committed := True\<rparr>)) x))"
  have y: "sq_critical y = None" "\<not> txn_open y" "sf_script (sq_file y) n = Runs" "sf_stack (sq_file y) = []" "db_data y = row_data"
    "km_created (sq_mem y)" for n
    by (simp_all add: y_def x_def mem_def row_fields demo_file_fields txn_open_def set_implicit_def schedule_delete_all_commit_def
        add_lock_def add_commit_def)
  have w: "\<not> is_write (st_sql (STMT_countKeys :: unit stmt))" "leading_keyword (st_sql (STMT_countKeys :: unit stmt)) \<notin> CONTROL_KEYWORDS"
    by (simp add: is_write_def stmt_text NON_WRITE_KEYWORDS_def of_chars_def, simp add: stmt_text data_keywords)
  define z where "z = y\<lparr>sq_file := (sq_file y)\<lparr>sf_n := Suc (sf_n (sq_file y)), sf_data := row_data\<rparr>\<rparr>"
  have count: "db_run1 ?h ?be STMT_countKeys [] False y = (Inr (rows [[SNum 1]]), z)" unfolding z_def
    by (rule eval_data [OF STMT_countKeys_def y(1) w(2), where t = y])
      (use w(1) y in \<open>simp_all add: op_return_def on_kv_def row_data_def kv_insert.rep_eq kv_empty.rep_eq\<close>)
  define t where "t = z\<lparr>sq_file := (sq_file z)\<lparr>sf_data := empty_tables ()\<rparr>, sq_mem := store_before_reset (sq_mem z)\<rparr>"
  have "kv_delete_all ?h ?be y = (Inr 1, t)"
    using count y by (simp add: kv_delete_all_def op_bind_def op_return_def rows_def get_int64_def column_def MAX_SAFE_def
        db_reset_def assert_usable_def z_def t_def txn_open_def file_backend_def actor_hooks_def)
  then have "actor_delete_all demo_env True row_saved = (Inr 1, t)"
    using rb by (simp add: actor_delete_all_def require_not_broken_def meta_get_alarm_def assert_usable_def row_fields op_simps
        implicit_rollback_def y_def demo_env_def x_def mem_def)
  then show thesis by (rule that) (use y in \<open>simp_all add: t_def z_def txn_open_def\<close>)
qed

text \<open>
  C33. \<open>deleteAll\<close> called within \<open>transactionSync\<close> is not refused, although it cannot be undone: it passes
  the guard against transactions, because the current transaction is an implicit one, and rolls that
  one back with the savepoint in it. The database is erased and \<open>transactionSync\<close> then throws, since its
  savepoint is gone: there is a reachable state with one entry in which that call throws, no statement
  was refused by the script, the database is usable, and all is lost.
\<close>

theorem delete_all_not_atomic:
  "\<exists>e t. actor_reachable demo_env row_new \<and> kv_map row_new (utf8_encode [0x61]) = Some [7] \<and>
     transaction_sync demo_env row_delete_all row_new = (Inl e, t) \<and> sq_critical t = None \<and> \<not> last_refused t \<and>
     db_data t = empty_tables ()"
proof (rule row_erased)
  fix t assume d: "actor_delete_all demo_env True row_saved = (Inr 1, t)" and t: "sq_critical t = None" "\<not> txn_open t"
    "\<And>n. sf_script (sq_file t) n = Runs" "sf_stack (sq_file t) = []" "db_data t = empty_tables ()"
  let ?u = "t\<lparr>sq_file := (sq_file t)\<lparr>sf_n := Suc (sf_n (sq_file t))\<rparr>\<rparr>" and ?s = "sync_savepoint 0"
  let ?v = "?u\<lparr>sq_file := (sq_file ?u)\<lparr>sf_n := Suc (sf_n (sq_file ?u))\<rparr>\<rparr>"
  let ?w = "mem (\<lambda>m. m\<lparr>am_sync_depth := am_sync_depth m - 1\<rparr>) ?v"
  have rel: "db_run1 (actor_hooks demo_env) (ae_backend demo_env) (STMT_RELEASE ?s) [] False t = (Inl SQL_ERROR, ?u)"
    unfolding demo_env_def file_env_backend
    by (rule eval_missing [OF t(1) sync_texts(2) _ savepoint_stmts(2)]) (use t in simp_all)
  have back_to: "db_run1 (actor_hooks demo_env) (ae_backend demo_env) (STMT_ROLLBACK_TO ?s) [] False ?u = (Inl SQL_ERROR, ?v)"
    unfolding demo_env_def file_env_backend
    by (rule eval_missing [OF _ sync_texts(3) _ savepoint_stmts(3)]) (use t in \<open>simp_all add: txn_open_def\<close>)
  have "sync_rollback demo_env 0 ?u = (Inl SQL_ERROR, ?v)" using back_to t(1) by (simp add: sync_rollback_def op_bind_def)
  then have "sync_body demo_env 0 row_delete_all row_saved = (Inl SQL_ERROR, ?v)"
    using d t(1) rel by (simp add: sync_body_def row_delete_all_def op_bind_def op_return_def op_catch_def)
  then have "transaction_sync demo_env row_delete_all row_new = (Inl SQL_ERROR, ?w)"
    by (simp add: row_sync)
  moreover have "kv_map row_new (utf8_encode [0x61]) = Some [7]"
    by (simp add: row_new_fields row_data_def contents_def map_of_insert)
  moreover have "sq_critical ?w = None" "\<not> last_refused ?w" "db_data ?w = empty_tables ()"
    by (simp_all add: mem_def t last_refused_def)
  ultimately show ?thesis using row_reachable by blast
qed

end
