(* ===== verification/Output_Gate.thy ===== *)
theory Output_Gate
  imports Input_Gate
begin

text \<open>
  The output gate, \<open>OutputGate\<close> of \<open>src/src/io/io-gate.ts\<close>: a chain of promises on which nothing that
  leaves the actor is sent before the writes it may depend on are confirmed.

  A call of \<open>lockWhile\<close> is numbered by the order of the calls. It makes one link, the promise inside its
  fulfiller, and one promise of the chain, which joins the one before it with the link; promise \<open>k\<close> of
  the chain is the one \<open>#pastLocksPromise\<close> held when \<open>k\<close> locks had been taken. A promise is \<open>None\<close> while
  it is pending. The reactions of promises are steps of their own (\<open>og_job\<close>): those of the chain and of
  the waits, which the engine runs in some order, and \<open>lock_settled\<close>, the reaction of the promise the
  lock was given or of the timeout raced with it.
\<close>

section \<open>State\<close>

datatype link = Waiting | Fulfilled | LockFailed js_exn

datatype output_gate_hook = OutputLocked | OutputReleased | OutputWaiterAdded | OutputWaiterRemoved

type_synonym 'v outcome = "(js_exn + 'v) option"

record 'v output_lock =
  ol_link :: link
  ol_listening :: bool
  ol_result :: "'v outcome"

record output_waiter =
  ow_chain :: nat
  ow_result :: "unit outcome"

record 'v output_gate =
  og_locks :: "'v output_lock list"
  og_chain :: "unit outcome list"
  og_waiters :: "output_waiter list"
  og_broken :: broken_state
  og_promise :: "js_exn option option"
  og_hooks :: "output_gate_hook list"

definition new_output_gate :: "'v output_gate" where
  "new_output_gate = \<lparr>og_locks = [], og_chain = [Some (Inr ())], og_waiters = [], og_broken = NoBroken,
     og_promise = None, og_hooks = []\<rparr>"

abbreviation og_links :: "'v output_gate \<Rightarrow> link list" where
  "og_links s \<equiv> map ol_link (og_locks s)"

definition output_hook :: "output_gate_hook \<Rightarrow> 'v output_gate \<Rightarrow> 'v output_gate" where
  "output_hook h s = s\<lparr>og_hooks := og_hooks s @ [h]\<rparr>"

definition upd_lock :: "nat \<Rightarrow> ('v output_lock \<Rightarrow> 'v output_lock) \<Rightarrow> 'v output_gate \<Rightarrow> 'v output_gate" where
  "upd_lock i f s = s\<lparr>og_locks := (og_locks s)[i := f (og_locks s ! i)]\<rparr>"

section \<open>Operations\<close>

text \<open>\<open>#setBroken\<close>: a promise that \<open>onBroken\<close> has handed out is rejected once.\<close>

definition output_set_broken :: "js_exn \<Rightarrow> 'v output_gate \<Rightarrow> 'v output_gate" where
  "output_set_broken e s =
     (if og_broken s = Fulfiller then s\<lparr>og_promise := Some (Some e), og_broken := Exception e\<rparr>
      else s\<lparr>og_broken := Exception e\<rparr>)"

definition is_waiting :: "nat \<Rightarrow> 'v output_gate \<Rightarrow> bool" where
  "is_waiting i s \<longleftrightarrow> ol_link (og_locks s ! i) = Waiting"

definition UNFULFILLED :: js_exn where
  "UNFULFILLED = Failure ''output lock was canceled before completion''"

text \<open>The abort listener of lock \<open>i\<close>.\<close>

definition lock_canceled :: "nat \<Rightarrow> 'v output_gate \<Rightarrow> 'v output_gate" where
  "lock_canceled i s =
     (if \<not> is_waiting i s then s
      else upd_lock i (\<lambda>l. l\<lparr>ol_link := LockFailed UNFULFILLED, ol_result := Some (Inl UNFULFILLED)\<rparr>)
             (output_set_broken UNFULFILLED (output_hook OutputReleased s)))"

definition lock_abort :: "nat \<Rightarrow> 'v output_gate \<Rightarrow> 'v output_gate" where
  "lock_abort i s =
     (if ol_listening (og_locks s ! i)
      then lock_canceled i (upd_lock i (\<lambda>l. l\<lparr>ol_listening := False\<rparr>) s) else s)"

text \<open>\<open>#lock\<close> and \<open>lockWhile\<close>, with \<open>signal\<close> the state of the abort signal: absent, or aborted or not.\<close>

definition take_link :: "'v output_gate \<Rightarrow> nat \<times> 'v output_gate" where
  "take_link s = (length (og_locks s),
     s\<lparr>og_locks := og_locks s @ [\<lparr>ol_link = Waiting, ol_listening = False, ol_result = None\<rparr>],
       og_chain := og_chain s @ [None]\<rparr>)"

definition lock_while :: "bool option \<Rightarrow> 'v output_gate \<Rightarrow> nat \<times> 'v output_gate" where
  "lock_while signal s =
     (case take_link s of (i, t) \<Rightarrow>
        (let u = output_hook OutputLocked t
         in (i, case signal of
              None \<Rightarrow> u
            | Some True \<Rightarrow> lock_canceled i u
            | Some False \<Rightarrow> upd_lock i (\<lambda>l. l\<lparr>ol_listening := True\<rparr>) u)))"

text \<open>The reactions to the raced promise, both of which take the abort listener away first.\<close>

definition lock_settled :: "nat \<Rightarrow> js_exn + 'v \<Rightarrow> 'v output_gate \<Rightarrow> 'v output_gate" where
  "lock_settled i r s =
     (let t = upd_lock i (\<lambda>l. l\<lparr>ol_listening := False\<rparr>) s
      in if \<not> is_waiting i t then t
         else (case r of
             Inr v \<Rightarrow> upd_lock i (\<lambda>l. l\<lparr>ol_result := Some (Inr v)\<rparr>)
               (output_hook OutputReleased (upd_lock i (\<lambda>l. l\<lparr>ol_link := Fulfilled\<rparr>) t))
           | Inl e \<Rightarrow> upd_lock i (\<lambda>l. l\<lparr>ol_result := Some (Inl e)\<rparr>)
               (output_hook OutputReleased (upd_lock i (\<lambda>l. l\<lparr>ol_link := LockFailed e\<rparr>) (output_set_broken e t)))))"

text \<open>\<open>wait\<close> adds its reaction to the newest promise of the chain.\<close>

definition output_wait :: "'v output_gate \<Rightarrow> nat \<times> 'v output_gate" where
  "output_wait s = (length (og_waiters s),
     (output_hook OutputWaiterAdded s)\<lparr>og_waiters := og_waiters s @
        [\<lparr>ow_chain = length (og_chain s) - 1, ow_result = None\<rparr>]\<rparr>)"

text \<open>\<open>onBroken\<close>: \<open>Inl e\<close> is a promise rejected with \<open>e\<close>, \<open>Inr ()\<close> the shared promise of the gate.\<close>

definition output_on_broken :: "'v output_gate \<Rightarrow> (js_exn + unit) \<times> 'v output_gate" where
  "output_on_broken s =
     (case og_broken s of
        Exception e \<Rightarrow> (Inl e, s)
      | _ \<Rightarrow> (Inr (), if og_promise s \<noteq> None then s
                      else s\<lparr>og_promise := Some None, og_broken := Fulfiller\<rparr>))"

definition output_is_broken :: "'v output_gate \<Rightarrow> bool" where
  "output_is_broken s \<longleftrightarrow> (\<exists>e. og_broken s = Exception e)"

lemma output_is_broken_code [code]:
  "output_is_broken s \<longleftrightarrow> (case og_broken s of Exception e \<Rightarrow> True | _ \<Rightarrow> False)"
  by (auto simp: output_is_broken_def split: broken_state.split)

text \<open>
  The reactions of the chain: \<open>Promise.allSettled\<close> of the promise before and the link, whose first
  rejection is thrown again; and the reaction of a wait.
\<close>

definition link_result :: "link \<Rightarrow> unit outcome" where
  "link_result l = (case l of Waiting \<Rightarrow> None | Fulfilled \<Rightarrow> Some (Inr ()) | LockFailed e \<Rightarrow> Some (Inl e))"

fun join_results :: "unit outcome \<Rightarrow> unit outcome \<Rightarrow> unit outcome" where
  "join_results (Some (Inl e)) (Some _) = Some (Inl e)"
| "join_results (Some (Inr _)) (Some r) = Some r"
| "join_results _ _ = None"

definition chain_react :: "nat \<Rightarrow> 'v output_gate \<Rightarrow> 'v output_gate" where
  "chain_react i s =
     s\<lparr>og_chain := (og_chain s)[Suc i := join_results (og_chain s ! i) (link_result (ol_link (og_locks s ! i)))]\<rparr>"

definition wait_react :: "nat \<Rightarrow> 'v output_gate \<Rightarrow> 'v output_gate" where
  "wait_react w s =
     (output_hook OutputWaiterRemoved s)\<lparr>og_waiters :=
        (og_waiters s)[w := (og_waiters s ! w)\<lparr>ow_result := og_chain s ! ow_chain (og_waiters s ! w)\<rparr>]\<rparr>"

section \<open>Steps\<close>

text \<open>A reaction runs when the promises it waits for have settled, once.\<close>

inductive og_job :: "'v output_gate \<Rightarrow> 'v output_gate \<Rightarrow> bool" where
  chain_job: "i < length (og_locks s) \<Longrightarrow> og_chain s ! Suc i = None \<Longrightarrow> og_chain s ! i \<noteq> None \<Longrightarrow>
    ol_link (og_locks s ! i) \<noteq> Waiting \<Longrightarrow> og_job s (chain_react i s)"
| wait_job: "w < length (og_waiters s) \<Longrightarrow> ow_result (og_waiters s ! w) = None \<Longrightarrow>
    og_chain s ! ow_chain (og_waiters s ! w) \<noteq> None \<Longrightarrow> og_job s (wait_react w s)"

inductive og_jobs :: "'v output_gate \<Rightarrow> 'v output_gate \<Rightarrow> bool" where
  no_jobs: "og_jobs s s"
| more_jobs: "og_job s t \<Longrightarrow> og_jobs t u \<Longrightarrow> og_jobs s u"

inductive og_step :: "'v output_gate \<Rightarrow> 'v output_gate \<Rightarrow> bool" where
  step_lock: "og_step s (snd (lock_while signal s))"
| step_settled: "i < length (og_locks s) \<Longrightarrow> og_step s (lock_settled i r s)"
| step_abort: "i < length (og_locks s) \<Longrightarrow> og_step s (lock_abort i s)"
| step_wait: "og_step s (snd (output_wait s))"
| step_on_broken: "og_step s (snd (output_on_broken s))"
| step_job: "og_job s t \<Longrightarrow> og_step s t"

inductive og_reach :: "'v output_gate \<Rightarrow> bool" where
  reach_new: "og_reach new_output_gate"
| reach_step: "og_reach s \<Longrightarrow> og_step s t \<Longrightarrow> og_reach t"


section \<open>What a wait promises\<close>

text \<open>
  The specification: a wait taken after the locks \<open>ls\<close> is pending while one of them is, and then
  rejected with the exception of the earliest one that failed, or fulfilled.
\<close>

definition joined :: "link list \<Rightarrow> unit outcome" where
  "joined ls =
     (if Waiting \<in> set ls then None
      else (case filter (\<lambda>l. l \<noteq> Fulfilled) ls of
              LockFailed e # _ \<Rightarrow> Some (Inl e) | _ \<Rightarrow> Some (Inr ())))"




lemma joined_Some_no_waiting: "joined ls = Some r \<Longrightarrow> l \<in> set ls \<Longrightarrow> l \<noteq> Waiting"
  by (auto simp: joined_def split: if_splits)

lemma joined_fulfilled: "joined ls = Some (Inr ()) \<Longrightarrow> l \<in> set ls \<Longrightarrow> l = Fulfilled"
proof (rule ccontr)
  assume j: "joined ls = Some (Inr ())" and l: "l \<in> set ls" "l \<noteq> Fulfilled"
  have "Waiting \<notin> set ls" using joined_Some_no_waiting [OF j] by blast
  moreover obtain k ks where k: "filter (\<lambda>l. l \<noteq> Fulfilled) ls = k # ks"
    using l by (cases "filter (\<lambda>l. l \<noteq> Fulfilled) ls") (auto simp: filter_empty_conv)
  moreover have "k \<in> set (filter (\<lambda>l. l \<noteq> Fulfilled) ls)" unfolding k by simp
  then have "k \<in> set ls" "k \<noteq> Fulfilled" by simp_all
  ultimately show False using j by (cases k) (auto simp: joined_def)
qed

lemma joined_nil [simp]: "joined [] = Some (Inr ())"
  by (simp add: joined_def)


section \<open>The invariant\<close>



definition failures :: "'v output_gate \<Rightarrow> js_exn set" where
  "failures s = {e. LockFailed e \<in> set (og_links s)}"


definition og_broken_ok :: "'v output_gate \<Rightarrow> bool" where
  "og_broken_ok s \<longleftrightarrow>
     (case og_broken s of
        NoBroken \<Rightarrow> failures s = {} \<and> og_promise s = None
      | Fulfiller \<Rightarrow> failures s = {} \<and> og_promise s = Some None
      | Exception e \<Rightarrow> e \<in> failures s \<and> (\<forall>p. og_promise s = Some p \<longrightarrow> (\<exists>f. p = Some f \<and> f \<in> failures s)))"



lemma og_links_upd: "og_links (upd_lock i f s) = (og_links s)[i := ol_link (f (og_locks s ! i))]"
  by (simp add: upd_lock_def map_update)











lemma upd_lock_length [simp]: "length (og_locks (upd_lock i f s)) = length (og_locks s)"
  by (simp add: upd_lock_def)







section \<open>Jobs end\<close>

lemma og_jobs_trans: "og_jobs s t \<Longrightarrow> og_jobs t u \<Longrightarrow> og_jobs s u"
  by (induction rule: og_jobs.induct) (auto intro: og_jobs.intros)





lemma filter_update_less:
  "i < length xs \<Longrightarrow> P (xs ! i) \<Longrightarrow> \<not> P x \<Longrightarrow> Suc (length (filter P (xs[i := x]))) = length (filter P xs)"
  by (induction xs arbitrary: i) (auto split: nat.split simp: less_Suc_eq_0_disj)

lemma join_results_None [simp]: "join_results a b = None \<longleftrightarrow> a = None \<or> b = None"
  by (cases "(a, b)" rule: join_results.cases) auto

lemma link_result_None [simp]: "link_result l = None \<longleftrightarrow> l = Waiting"
  by (cases l) (simp_all add: link_result_def)






section \<open>Hooks and the broken gate\<close>

text \<open>A lock that settles stops waiting, and the gate is told once.\<close>

definition waiting_locks :: "'v output_gate \<Rightarrow> nat" where
  "waiting_locks s = length (filter (\<lambda>l. ol_link l = Waiting) (og_locks s))"

definition waiting_waits :: "'v output_gate \<Rightarrow> nat" where
  "waiting_waits s = length (filter (\<lambda>w. ow_result w = None) (og_waiters s))"

definition og_books :: "'v output_gate \<Rightarrow> bool" where
  "og_books s \<longleftrightarrow>
     count_list (og_hooks s) OutputLocked = count_list (og_hooks s) OutputReleased + waiting_locks s \<and>
     count_list (og_hooks s) OutputWaiterAdded = count_list (og_hooks s) OutputWaiterRemoved + waiting_waits s"

lemma filter_update_same:
  "P x = P (xs ! i) \<Longrightarrow> length (filter P (xs[i := x])) = length (filter P xs)"
  by (induction xs arbitrary: i) (auto split: nat.split)

lemma waiting_upd:
  assumes "i < length (og_locks s)" "is_waiting i s" "ol_link (f (og_locks s ! i)) \<noteq> Waiting"
  shows "Suc (waiting_locks (upd_lock i f s)) = waiting_locks s"
  using assms filter_update_less [of i "og_locks s" "\<lambda>l. ol_link l = Waiting" "f (og_locks s ! i)"]
  by (simp add: waiting_locks_def upd_lock_def is_waiting_def)

lemma waiting_same:
  "ol_link (f (og_locks s ! i)) = ol_link (og_locks s ! i) \<Longrightarrow> waiting_locks (upd_lock i f s) = waiting_locks s"
  unfolding waiting_locks_def upd_lock_def by (simp add: filter_update_same)

lemma upd_fields [simp]:
  "og_hooks (upd_lock i f s) = og_hooks s" "waiting_waits (upd_lock i f s) = waiting_waits s"
  "waiting_locks (output_hook h s) = waiting_locks s" "waiting_waits (output_hook h s) = waiting_waits s"
  "og_hooks (output_hook h s) = og_hooks s @ [h]" "og_locks (output_hook h s) = og_locks s"
  "og_locks (output_set_broken e s) = og_locks s" "og_hooks (output_set_broken e s) = og_hooks s"
  "waiting_locks (output_set_broken e s) = waiting_locks s" "waiting_waits (output_set_broken e s) = waiting_waits s"
  "is_waiting i (output_set_broken e s) = is_waiting i s" "is_waiting i (output_hook h s) = is_waiting i s"
  by (simp_all add: upd_lock_def output_hook_def output_set_broken_def waiting_locks_def waiting_waits_def is_waiting_def)

lemma is_waiting_upd [simp]:
  "i < length (og_locks s) \<Longrightarrow> is_waiting i (upd_lock i f s) \<longleftrightarrow> ol_link (f (og_locks s ! i)) = Waiting"
  by (simp add: is_waiting_def upd_lock_def)

lemma books_canceled:
  assumes "og_books s" "i < length (og_locks s)"
  shows "og_books (lock_canceled i s)"
  using assms waiting_upd [of i "output_set_broken UNFULFILLED (output_hook OutputReleased s)"
      "\<lambda>l. l\<lparr>ol_link := LockFailed UNFULFILLED, ol_result := Some (Inl UNFULFILLED)\<rparr>"]
  by (auto simp: lock_canceled_def og_books_def)

lemma books_listening: "og_books s \<Longrightarrow> og_books (upd_lock i (\<lambda>l. l\<lparr>ol_listening := b\<rparr>) s)"
  by (simp add: og_books_def waiting_same)

lemma books_settled:
  assumes "og_books s" "i < length (og_locks s)"
  shows "og_books (lock_settled i r s)"
proof -
  let ?t = "upd_lock i (\<lambda>l. l\<lparr>ol_listening := False\<rparr>) s"
  have t: "og_books ?t" "i < length (og_locks ?t)" using books_listening [OF assms(1)] assms(2) by simp_all
  show ?thesis
  proof (cases "is_waiting i ?t")
    case True
    show ?thesis
      using t True waiting_upd [of i ?t "\<lambda>l. l\<lparr>ol_link := Fulfilled\<rparr>"]
        waiting_upd [of i "output_set_broken e ?t" "\<lambda>l. l\<lparr>ol_link := LockFailed e\<rparr>" for e]
      by (cases r) (auto simp: lock_settled_def Let_def og_books_def waiting_same)
  qed (use t in \<open>simp add: lock_settled_def Let_def\<close>)
qed

lemma books_step:
  assumes "og_step s t" "og_books s"
  shows "og_books t"
  using assms
proof (induction rule: og_step.induct)
  case (step_lock s signal)
  let ?u = "output_hook OutputLocked (snd (take_link s))"
  have u: "og_books ?u" using step_lock
    by (simp add: og_books_def take_link_def output_hook_def waiting_locks_def waiting_waits_def)
  have i: "length (og_locks s) < length (og_locks ?u)" by (simp add: take_link_def)
  show ?case using u books_canceled [OF u i] books_listening [OF u]
    by (cases signal) (auto simp: lock_while_def take_link_def Let_def split: bool.split)
next
  case (step_abort i s)
  then show ?case using books_canceled [OF books_listening [of s i False]] by (simp add: lock_abort_def)
next
  case (step_wait s)
  then show ?case by (simp add: og_books_def output_wait_def output_hook_def waiting_locks_def waiting_waits_def)
next
  case (step_on_broken s)
  then show ?case
    by (auto simp: og_books_def output_on_broken_def waiting_locks_def waiting_waits_def split: broken_state.split)
next
  case (step_job s t)
  from step_job(1,2) show ?case
  proof (induction rule: og_job.induct)
    case (chain_job i s)
    then show ?case by (simp add: og_books_def chain_react_def waiting_locks_def waiting_waits_def)
  next
    case (wait_job w s)
    let ?w = "(og_waiters s ! w)\<lparr>ow_result := og_chain s ! ow_chain (og_waiters s ! w)\<rparr>"
    show ?case using filter_update_less [of w "og_waiters s" "\<lambda>w. ow_result w = None" ?w] wait_job
      by (simp add: og_books_def wait_react_def output_hook_def waiting_locks_def waiting_waits_def)
  qed
qed (simp add: books_settled)

lemma books_reach: "og_reach s \<Longrightarrow> og_books s"
proof (induction rule: og_reach.induct)
  case reach_new
  then show ?case by (simp add: og_books_def new_output_gate_def waiting_locks_def waiting_waits_def)
qed (rule books_step)


lemma failures_upd:
  assumes "i < length (og_locks s)" "is_waiting i s"
  shows "failures (upd_lock i f s) =
    (case ol_link (f (og_locks s ! i)) of LockFailed e \<Rightarrow> insert e (failures s) | _ \<Rightarrow> failures s)"
proof -
  have w: "og_links s ! i = Waiting" "i < length (og_links s)" using assms by (simp_all add: is_waiting_def)
  have in_upd: "LockFailed e \<in> set ((og_links s)[i := x]) \<longleftrightarrow> x = LockFailed e \<or> LockFailed e \<in> set (og_links s)" for e x
  proof
    show "LockFailed e \<in> set ((og_links s)[i := x]) \<Longrightarrow> x = LockFailed e \<or> LockFailed e \<in> set (og_links s)"
      using set_update_subset_insert [of "og_links s" i x] by blast
    assume "x = LockFailed e \<or> LockFailed e \<in> set (og_links s)"
    then show "LockFailed e \<in> set ((og_links s)[i := x])"
    proof
      assume "LockFailed e \<in> set (og_links s)"
      then obtain j where j: "j < length (og_links s)" "og_links s ! j = LockFailed e" by (auto simp only: in_set_conv_nth)
      then have "(og_links s)[i := x] ! j = LockFailed e" using w(1) by (cases "j = i") simp_all
      then show ?thesis using j(1) by (metis length_list_update nth_mem)
    qed (use w(2) in \<open>simp add: set_update_memI\<close>)
  qed
  show ?thesis unfolding failures_def og_links_upd in_upd by (auto split: link.split)
qed

lemma failures_same:
  "ol_link (f (og_locks s ! i)) = ol_link (og_locks s ! i) \<Longrightarrow> failures (upd_lock i f s) = failures s"
  unfolding failures_def og_links_upd by (metis list_update_id map_update)

lemma upd_broken [simp]:
  "og_broken (upd_lock i f s) = og_broken s" "og_promise (upd_lock i f s) = og_promise s"
  "og_broken (output_hook h s) = og_broken s" "og_promise (output_hook h s) = og_promise s"
  "failures (output_hook h s) = failures s" "failures (output_set_broken e s) = failures s"
  "og_broken (output_set_broken e s) = Exception e"
  by (simp_all add: upd_lock_def output_hook_def output_set_broken_def failures_def)

text \<open>The gate is told of a failure as the lock fails.\<close>

lemma broken_failing:
  assumes "og_broken_ok s" "failures t = insert e (failures s)" "og_broken t = Exception e"
    "og_promise t = og_promise (output_set_broken e s)"
  shows "og_broken_ok t"
  using assms by (auto simp: og_broken_ok_def output_set_broken_def split: broken_state.splits if_splits)

lemma broken_canceled:
  assumes "og_broken_ok s" "i < length (og_locks s)"
  shows "og_broken_ok (lock_canceled i s)"
proof (cases "is_waiting i s")
  case True
  show ?thesis
    by (rule broken_failing [OF assms(1), of _ UNFULFILLED])
      (use True assms(2) in \<open>simp_all add: lock_canceled_def failures_upd\<close>,
       simp add: output_set_broken_def output_hook_def)
qed (use assms in \<open>simp add: lock_canceled_def\<close>)

lemma broken_same: "og_broken_ok s \<Longrightarrow> failures t = failures s \<Longrightarrow> og_broken t = og_broken s \<Longrightarrow>
    og_promise t = og_promise s \<Longrightarrow> og_broken_ok t"
  by (cases "og_broken s") (simp_all add: og_broken_ok_def)

lemma broken_settled:
  assumes "og_broken_ok s" "i < length (og_locks s)"
  shows "og_broken_ok (lock_settled i r s)"
proof -
  let ?t = "upd_lock i (\<lambda>l. l\<lparr>ol_listening := False\<rparr>) s"
  have t: "og_broken_ok ?t" "i < length (og_locks ?t)"
    using broken_same [OF assms(1), of ?t] assms(2) by (simp_all add: failures_same)
  show ?thesis
  proof (cases "is_waiting i ?t")
    case True
    show ?thesis
    proof (cases r)
      case (Inl e)
      show ?thesis
        by (rule broken_failing [OF t(1), of _ e])
          (use True t(2) Inl in \<open>simp_all add: lock_settled_def Let_def failures_upd failures_same\<close>)
    next
      case (Inr v)
      show ?thesis
        by (rule broken_same [OF t(1)])
          (use True t(2) Inr in \<open>simp_all add: lock_settled_def Let_def failures_upd failures_same\<close>)
    qed
  qed (use t in \<open>simp add: lock_settled_def Let_def\<close>)
qed

lemma broken_step:
  assumes "og_step s t" "og_broken_ok s"
  shows "og_broken_ok t"
  using assms
proof (induction rule: og_step.induct)
  case (step_lock s signal)
  let ?u = "output_hook OutputLocked (snd (take_link s))"
  have u: "og_broken_ok ?u" by (rule broken_same [OF step_lock]) (simp_all add: take_link_def failures_def)
  have i: "length (og_locks s) < length (og_locks ?u)" by (simp add: take_link_def)
  have l: "og_broken_ok (upd_lock (length (og_locks s)) (\<lambda>l. l\<lparr>ol_listening := True\<rparr>) ?u)"
    by (rule broken_same [OF u]) (simp_all add: failures_same)
  show ?case using u l broken_canceled [OF u i]
    by (cases signal) (auto simp: lock_while_def take_link_def Let_def split: bool.split)
next
  case (step_abort i s)
  have "og_broken_ok (upd_lock i (\<lambda>l. l\<lparr>ol_listening := False\<rparr>) s)"
    by (rule broken_same [OF step_abort(2)]) (simp_all add: failures_same)
  from broken_canceled [OF this, of i] show ?case using step_abort by (simp add: lock_abort_def)
next
  case (step_wait s)
  show ?case by (rule broken_same [OF step_wait]) (simp_all add: output_wait_def failures_def output_hook_def)
next
  case (step_on_broken s)
  then show ?case by (auto simp: og_broken_ok_def output_on_broken_def failures_def split: broken_state.splits)
next
  case (step_job s t)
  from step_job(1,2) show ?case
  proof (induction rule: og_job.induct)
    case (chain_job i s)
    show ?case by (rule broken_same [OF chain_job(5)]) (simp_all add: chain_react_def failures_def)
  next
    case (wait_job w s)
    show ?case by (rule broken_same [OF wait_job(4)]) (simp_all add: wait_react_def output_hook_def failures_def)
  qed
qed (rule broken_settled)

lemma broken_reach: "og_reach s \<Longrightarrow> og_broken_ok s"
proof (induction rule: og_reach.induct)
  case reach_new
  then show ?case by (simp add: og_broken_ok_def new_output_gate_def failures_def)
qed (rule broken_step)

section \<open>Properties\<close>





text \<open>
  The books of the gate. In every reachable state each lock that was reported to the hooks is
  reported released exactly when it has settled, each wait likewise; the gate is broken exactly when some
  lock failed, with the exception of a lock that failed; and the promise of \<open>onBroken\<close> is rejected, with
  such an exception, exactly when the gate is broken.
\<close>

theorem output_gate_books:
  assumes "og_reach s"
  shows "count_list (og_hooks s) OutputLocked = count_list (og_hooks s) OutputReleased + waiting_locks s \<and>
    count_list (og_hooks s) OutputWaiterAdded = count_list (og_hooks s) OutputWaiterRemoved + waiting_waits s \<and>
    (output_is_broken s \<longleftrightarrow> failures s \<noteq> {}) \<and>
    (\<forall>e. og_broken s = Exception e \<longrightarrow> e \<in> failures s) \<and>
    (\<forall>p. og_promise s = Some p \<longrightarrow> (p = None \<longleftrightarrow> \<not> output_is_broken s) \<and> (\<forall>e. p = Some e \<longrightarrow> e \<in> failures s))"
  using books_reach [OF assms] broken_reach [OF assms]
  by (auto simp: og_books_def og_broken_ok_def output_is_broken_def split: broken_state.splits)

end
