(* ===== verification/Actor_Grows.thy ===== *)
theory Actor_Grows
  imports Actor_Reach
begin

text \<open>
  What an actor never takes back: the locks it put on the output gate, the kind of a commit, and that a
  commit has finished. \<open>grows m m'\<close> relates an earlier memory to a later one; every step of an actor is
  such a growth. The walk over the operations is the one of the locale \<open>memory_property\<close>.
\<close>

definition grows :: "actor_mem \<Rightarrow> actor_mem \<Rightarrow> bool" where
  "grows m m' \<longleftrightarrow> (\<exists>ls. am_locks m' = am_locks m @ ls) \<and> length (am_commits m) \<le> length (am_commits m') \<and>
     (\<forall>c < length (am_commits m). cm_kind (comm m' c) = cm_kind (comm m c) \<and>
        (cm_phase (comm m c) = Finished \<longrightarrow> cm_phase (comm m' c) = Finished))"

lemma grows_refl [simp]: "grows m m"
  by (simp add: grows_def)

lemma grows_trans: "grows m n \<Longrightarrow> grows n q \<Longrightarrow> grows m q"
  by (fastforce simp: grows_def)

interpretation grows: memory_property "grows m" E for m E
  by unfold_locales (auto simp: grows_def fresh_implicit_def add_commit_def add_lock_def set_implicit_def
      nth_append dest!: view_fields)

section \<open>Statements\<close>

context memory_property begin

lemma change_any:
  assumes "hk_callback h = store_callback"
  shows "outer (apply_change (h :: ('u tables sql_file, rollback_callback, actor_mem) hooks) c)"
proof -
  have "outside (sq_mem (snd (apply_change h c s))) = outside (sq_mem s)" for s :: "'u actor"
  proof (cases c)
    case (BeginTxn n)
    then show ?thesis by (cases n) (auto simp: apply_change_def apply_begin_def js_assert_def op_simps)
  next
    case (CommitTxn n)
    then show ?thesis
      by (cases n) (auto simp: apply_change_def apply_commit_def drop_callbacks_def js_assert_def op_simps split: option.split)
  next
    case (RollbackTxn n)
    then show ?thesis using assms
      by (cases n) (auto simp: apply_change_def apply_rollback_def run_callbacks_down_to_def js_assert_def op_simps
          split: option.split prod.split if_splits dest: arg_cong [of _ _ "\<lambda>p. outside (snd p)"])
  qed (simp add: apply_change_def op_return_def)
  then show ?thesis using seen [OF view_outside] by (simp add: outer_def)
qed

lemma run_any:
  assumes h: "hk_callback h = store_callback" "hk_on_critical h = on_critical_error"
    "\<And>au s. P (sq_mem s) \<Longrightarrow> P (sq_mem (snd (hk_on_write h au s)))"
  shows "outer (db_run1 (h :: ('u tables sql_file, rollback_callback, actor_mem) hooks) be st b au)"
proof -
  have "outer (op_bind (op_modify (\<lambda>s. s\<lparr>sq_in_txn := False, sq_savepoints := [], sq_callbacks := [],
      sq_critical := Some CRITICAL_MESSAGE\<rparr>)) (\<lambda>_. op_bind (hk_on_critical h CRITICAL_MESSAGE) (\<lambda>_. op_throw CRITICAL_MESSAGE) :: ('u, unit) aop))"
    by (intro outer_bind outer_pure) (simp_all add: outer_def op_modify_def h(2) critical_kept)
  then have crit: "outer (check_for_auto_rollback h be)" by (simp add: outer_def check_for_auto_rollback_def)
  have "outer (\<lambda>s. (case st_execute st b (sq_file s) of
      (Inl e, f) \<Rightarrow> op_bind (check_for_auto_rollback h be) (\<lambda>_. op_throw e) (s\<lparr>sq_file := f\<rparr>)
    | (Inr r, f) \<Rightarrow> op_bind (apply_change h c) (\<lambda>_. op_return r) (s\<lparr>sq_file := f\<rparr>)))" for c
    unfolding outer_def
  proof (intro allI impI)
    fix s :: "'u actor" assume p: "P (sq_mem s)"
    obtain r f where rf: "st_execute st b (sq_file s) = (r, f)" by fastforce
    have "outer (op_bind (check_for_auto_rollback h be) (\<lambda>_. op_throw e :: ('u, sql_result) aop))"
      "outer (op_bind (apply_change h c) (\<lambda>_. op_return v))" for e and v :: sql_result
      by (intro outer_bind crit change_any h outer_pure)+
    then show "P (sq_mem (snd (case st_execute st b (sq_file s) of
        (Inl e, f) \<Rightarrow> op_bind (check_for_auto_rollback h be) (\<lambda>_. op_throw e) (s\<lparr>sq_file := f\<rparr>)
      | (Inr r, f) \<Rightarrow> op_bind (apply_change h c) (\<lambda>_. op_return r) (s\<lparr>sq_file := f\<rparr>))))"
      using rf p by (cases r) (simp_all add: outer_def)
  qed
  moreover have "outer (notify_write h au)" by (simp add: outer_def notify_write_def h(3))
  ultimately show ?thesis unfolding db_run1_def exec_statement_def
    by (auto intro!: outer_bind outer_asserted split: sum.split)
qed

lemma actor_run_any: "outer (actor_run E st)" and control_any: "outer (run_control E st)"
  unfolding run_control_def
  by (intro outer_bind run_any outer_pure; simp add: actor_hooks_def control_hooks_def write_kept op_return_def)+

section \<open>The operations that touch no commit\<close>

text \<open>A change of the memory that keeps the property whatever the transactions look like.\<close>

lemma upd_any: "(\<And>m. P m \<Longrightarrow> P (f m)) \<Longrightarrow> outer (upd f)"
  by (auto simp: outer_def op_modify_def mem_def)

lemma not_broken_kept: "outer require_not_broken"
  by (simp add: outer_def require_not_broken_def split: option.split)

lemma outer_let: "(\<And>d. outer (f d)) \<Longrightarrow> outer (\<lambda>s. let d = g (sq_mem s) in f d s)"
  by (simp add: outer_def)

lemma access_kept:
  "outer (actor_get E k)" "outer (actor_get_alarm E)" "outer (actor_put E k v au)" "outer (actor_delete E k au)"
  "outer (get_each E ks)" "outer (delete_each E au n ks)"
proof -
  show "outer (actor_get E k)" "outer (actor_put E k v au)" "outer (actor_delete E k au)"
    unfolding actor_get_def actor_put_def actor_delete_def
    by (intro outer_bind not_broken_kept outer_get outer_put outer_delete)+
  show "outer (actor_get_alarm E)" unfolding actor_get_alarm_def Let_def
    by (intro outer_bind not_broken_kept outer_if outer_pure outer_get_alarm)
  show "outer (get_each E ks)" by (induction ks) (auto intro!: outer_bind outer_get)
  show "outer (delete_each E au n ks)" by (induction ks arbitrary: n) (auto intro!: outer_bind outer_delete)
qed

lemma lists_kept: "outer (actor_list E b e n)" "outer (actor_list_reverse E b e n)"
  unfolding actor_list_def actor_list_reverse_def
  by (intro outer_bind not_broken_kept outer_list outer_pure; auto split: prod.split)+

lemma multiple_kept:
  "outer (actor_get_multiple E ks)" "outer (actor_delete_multiple E ks au)" "outer (actor_put_multiple E ps au)"
proof -
  show "outer (actor_get_multiple E ks)" "outer (actor_delete_multiple E ks au)"
    unfolding actor_get_multiple_def actor_delete_multiple_def
    by (intro outer_bind not_broken_kept access_kept outer_pure)+
  have "outer (start_implicit_txn E)" by (simp add: outer_def start_kept)
  then show "outer (actor_put_multiple E ps au)" unfolding actor_put_multiple_def
    by (intro outer_bind not_broken_kept outer_if outer_pure outer_put_multiple)
qed

lemma change_alarm_kept: "outer (change_alarm E a au)"
proof -
  have "outer (if changed then upd (\<lambda>m. m\<lparr>am_version := Suc (am_version m)\<rparr>) else op_return ())" for changed
    by (cases changed) (auto intro!: upd_kept simp: txn_view_def)
  then show ?thesis unfolding change_alarm_def by (intro outer_bind outer_set_alarm)
qed

lemma set_alarm_kept: "outer (actor_set_alarm E a au)"
  unfolding actor_set_alarm_def
  by (intro outer_bind not_broken_kept change_alarm_kept upd_kept)
     (auto simp: txn_view_def set_explicit_def split: current_txn.split)

lemma bookmark_kept: "outer (get_current_bookmark E)"
  unfolding get_current_bookmark_def Let_def
  by (intro outer_bind not_broken_kept outer_bookmark outer_pure)

lemma sync_kept:
  assumes "outer callback"
  shows "outer (transaction_sync E callback)"
proof -
  have w: "outer (on_write E au)" for au by (simp add: outer_def write_kept)
  have rb: "outer (sync_rollback E d)" for d
    unfolding sync_rollback_def by (intro outer_if outer_bind actor_run_any outer_pure)
  have "outer (op_bind (upd (\<lambda>m. m\<lparr>am_sync_depth := Suc d\<rparr>)) (\<lambda>_. op_finally
         (op_bind (actor_run E (STMT_SAVEPOINT (sync_savepoint d))) (\<lambda>_. op_catch
            (op_bind callback (\<lambda>(result, thenable). op_bind
              (\<lambda>s. (if thenable then (Inl (Failure ''transactionSync() callback returned a promise.''), s)
                  else if sq_critical s \<noteq> None
                  then (Inl (Failure ''Cannot commit transaction due to an earlier SQL critical error''), s)
                  else (Inr (), s)))
              (\<lambda>_. op_bind (actor_run E (STMT_RELEASE (sync_savepoint d))) (\<lambda>_. op_return result))))
            (\<lambda>e. op_bind (sync_rollback E d) (\<lambda>_. op_throw e))))
         (upd (\<lambda>m. m\<lparr>am_sync_depth := am_sync_depth m - 1\<rparr>))))" for d
    by (intro outer_bind outer_finally outer_catch actor_run_any rb outer_pure assms upd_kept)
       (auto simp: txn_view_def split: prod.split intro!: outer_bind outer_if outer_pure actor_run_any)
  from outer_bind [OF w outer_let [OF this]] show ?thesis unfolding transaction_sync_def .
qed

end

section \<open>Every operation is a growth\<close>

abbreviation growing :: "actor_mem \<Rightarrow> ('u, 'a) aop \<Rightarrow> bool" where
  "growing m \<equiv> grows.outer m"

text \<open>Changes of the memory. A commit may be marked while it has not finished in \<open>m\<close>.\<close>

lemma grows_changes:
  "grows m n \<Longrightarrow> grows m (set_implicit i f n)" "grows m n \<Longrightarrow> grows m (set_explicit j g n)"
  "grows m n \<Longrightarrow> grows m (add_lock l n)" "grows m n \<Longrightarrow> grows m (add_commit k n)"
  "grows m n \<Longrightarrow> txn_view n' = txn_view n \<Longrightarrow> grows m n'"
  "grows m n \<Longrightarrow> am_locks n' = am_locks n \<Longrightarrow> am_commits n' = am_commits n \<Longrightarrow> grows m n'"
  by (auto simp: grows_def set_implicit_def set_explicit_def add_lock_def add_commit_def nth_append txn_view_def)

lemma grows_marked:
  "grows m n \<Longrightarrow> c < length (am_commits m) \<Longrightarrow> cm_phase (comm m c) \<noteq> Finished \<Longrightarrow> (\<And>k. cm_kind (f k) = cm_kind k) \<Longrightarrow>
    grows m (set_commit c f n)"
  by (auto simp: grows_def set_commit_def nth_list_update)

lemma grows_new_mark:
  "grows m n \<Longrightarrow> length (am_commits m) \<le> c \<Longrightarrow> grows m (set_commit c f n)"
  by (auto simp: grows_def set_commit_def)

lemma upd_grows: "(\<And>n. grows m n \<Longrightarrow> grows m (f n)) \<Longrightarrow> growing m (upd f)"
  by (rule grows.upd_any)

lemma set_txn_growing: "growing m (upd (set_implicit i f))" "growing m (upd (set_explicit j g))"
  by (rule upd_grows, erule grows_changes)+

definition unfinished :: "actor_mem \<Rightarrow> nat \<Rightarrow> bool" where
  "unfinished m c \<longleftrightarrow> (c < length (am_commits m) \<longrightarrow> cm_phase (comm m c) \<noteq> Finished)"

lemma grows_set_commit:
  "grows m n \<Longrightarrow> unfinished m c \<Longrightarrow> (\<And>k. cm_kind (f k) = cm_kind k) \<Longrightarrow> grows m (set_commit c f n)"
  by (cases "c < length (am_commits m)") (simp_all add: unfinished_def grows_marked grows_new_mark)

lemma set_commit_growing:
  "unfinished m c \<Longrightarrow> (\<And>k. cm_kind (f k) = cm_kind k) \<Longrightarrow> growing m (upd (set_commit c f))"
  by (rule upd_grows) (rule grows_set_commit)

lemma growing_at: "growing m p \<Longrightarrow> grows m (sq_mem s) \<Longrightarrow> grows m (sq_mem (snd (p s)))"
  by (simp add: grows.outer_def)

lemma enter_growing: "unfinished m c \<Longrightarrow> growing m (enter c p)"
  and failed_growing: "unfinished m c \<Longrightarrow> growing m (commit_failed c e)"
  unfolding enter_def commit_failed_def by (rule set_commit_growing; simp)+

lemma commit_impl_growing: "unfinished m c \<Longrightarrow> growing m (commit_impl E c pre)"
  by (rule grows.impl_kept) (simp_all add: enter_growing failed_growing)

lemma implicit_growing:
  "growing m (implicit_commit E i)" "growing m (implicit_rollback E i)" "growing m (implicit_drop E i)"
proof -
  show "growing m (implicit_commit E i)" "growing m (implicit_rollback E i)"
    unfolding implicit_commit_def implicit_rollback_def
    by (intro grows.outer_if grows.outer_pure grows.outer_bind grows.control_any set_txn_growing)+
  have "grows m ((set_implicit i f n)\<lparr>am_current := x\<rparr>)" if "grows m n" for f n x
    using grows_changes(1) [OF that] by (rule grows_changes(6)) simp_all
  then show "growing m (implicit_drop E i)" unfolding implicit_drop_def
    by (intro grows.outer_if grows.outer_pure grows.outer_bind grows.control_any upd_grows)
qed

lemma delete_all_growing: "growing m (actor_delete_all E da)"
proof -
  have sched: "grows m (schedule_delete_all_commit n)" if "grows m n" for n
  proof -
    have "grows m ((add_lock l (add_commit k n))\<lparr>am_delete_all_scheduled := True\<rparr>)" for l k
      using grows_changes(3) [OF grows_changes(4) [OF that]] by (rule grows_changes(6)) simp_all
    then show ?thesis using that by (simp add: schedule_delete_all_commit_def)
  qed
  have roll: "growing m (\<lambda>s. (case am_current (sq_mem s) of
         NoTxn \<Rightarrow> (Inr (), s)
       | ImplicitTxn i \<Rightarrow> op_bind (implicit_rollback E i) (\<lambda>_. upd (\<lambda>m. m\<lparr>am_current := NoTxn\<rparr>)) s
       | ExplicitTxn _ \<Rightarrow> (Inl (Failure ''Cannot call deleteAll() within a transaction''), s)))"
  proof -
    have "growing m (op_bind (implicit_rollback E i) (\<lambda>_. upd (\<lambda>m. m\<lparr>am_current := NoTxn\<rparr>)))" for i
      by (intro grows.outer_bind implicit_growing upd_grows) (erule grows_changes(6), simp_all)
    then show ?thesis by (auto simp: grows.outer_def split: current_txn.split)
  qed
  have last: "growing m (if local = None then op_return ()
       else if da then upd (\<lambda>m. m\<lparr>am_version := Suc (am_version m), am_deferred_delete := False\<rparr>)
       else change_alarm E local False)" for local
    by (auto intro!: grows.upd_kept grows.change_alarm_kept simp: txn_view_def)
  show ?thesis unfolding actor_delete_all_def
    by (intro grows.outer_bind grows.not_broken_kept grows.outer_get_alarm roll upd_grows sched
        grows.outer_delete_all last grows.outer_pure)
qed

lemmas growing_intros = grows.outer_bind grows.outer_if grows.outer_pure grows.outer_catch grows.outer_finally
  grows.not_broken_kept grows.actor_run_any grows.control_any grows.outer_get_alarm set_txn_growing implicit_growing

lemma growing_state: "(\<And>s. growing m (f s)) \<Longrightarrow> growing m (\<lambda>s. f s s)"
  by (rule grows.outer_state)

lemma upd_fields_growing:
  assumes "\<And>n. am_locks (f n) = am_locks n" "\<And>n. am_commits (f n) = am_commits n"
  shows "growing m (upd f)"
  by (rule upd_grows, erule grows_changes(6)) (rule assms)+

lemma explicit_rollback_impl_growing: "growing m (explicit_rollback_impl E j)"
proof -
  have "growing m (op_bind (actor_run E (STMT_ROLLBACK_TO n)) (\<lambda>_. op_bind (actor_run E (STMT_RELEASE n))
        (\<lambda>_. upd (\<lambda>m. (case et_parent (am_explicit m ! j) of
           Some p \<Rightarrow> set_explicit j (\<lambda>t. t\<lparr>et_dirty := et_dirty (am_explicit m ! p), et_confirmed := et_confirmed (am_explicit m ! p)\<rparr>) m
         | None \<Rightarrow> set_explicit j (\<lambda>t. t\<lparr>et_dirty := False, et_confirmed := False\<rparr>) m)))))" for n
    by (intro growing_intros upd_fields_growing) (auto simp: set_explicit_def split: option.split)
  then show ?thesis by (simp add: grows.outer_def explicit_rollback_impl_def Let_def)
qed

lemma explicit_growing:
  "growing m (start_transaction E)" "growing m (explicit_rollback E j)" "growing m (explicit_drop E j)"
proof -
  have o: "growing m (op_bind (implicit_commit E i) (\<lambda>_. op_return t))" for i and t :: explicit_txn
    by (intro growing_intros)
  have set: "grows m n \<Longrightarrow> grows m (set_explicit p f n)" for n p f by (rule grows_changes(2))
  have "growing m (explicit_open E)"
    using o set unfolding grows.outer_def
    by (auto simp: explicit_open_def Let_def mem_def split: current_txn.split)
  moreover have "growing m (op_bind (upd (\<lambda>m. m\<lparr>am_explicit := am_explicit m @ [t], am_current := ExplicitTxn j\<rparr>))
       (\<lambda>_. op_bind (actor_run E (STMT_SAVEPOINT (txn_savepoint (et_depth t)))) (\<lambda>_. op_return j)))" for t j
    by (intro growing_intros upd_fields_growing) simp_all
  then have "growing m (\<lambda>s. (let j = length (am_explicit (sq_mem s)) in
     op_bind (upd (\<lambda>m. m\<lparr>am_explicit := am_explicit m @ [t], am_current := ExplicitTxn j\<rparr>))
       (\<lambda>_. op_bind (actor_run E (STMT_SAVEPOINT (txn_savepoint (et_depth t)))) (\<lambda>_. op_return j)) s))" for t
    by (rule grows.outer_let)
  ultimately show "growing m (start_transaction E)" unfolding start_transaction_def explicit_new_def
    by (intro growing_intros)
  show "growing m (explicit_rollback E j)" unfolding explicit_rollback_def
    by (intro growing_intros explicit_rollback_impl_growing)
  have leave: "growing m (explicit_leave j)"
  proof -
    have "grows m n \<Longrightarrow> grows m (n\<lparr>am_current := x\<rparr>)" for n x by (erule grows_changes(6)) simp_all
    then show ?thesis using set unfolding grows.outer_def
      by (auto simp: explicit_leave_def Let_def mem_def split: option.split)
  qed
  have "growing m (op_finally (if c then explicit_rollback_impl E j else op_return ()) (explicit_leave j))" for c
    by (cases c) (auto intro!: growing_intros explicit_rollback_impl_growing leave)
  then have "growing m (\<lambda>s. op_finally (if \<not> et_committed (am_explicit (sq_mem s) ! j) \<and> am_broken (sq_mem s) = None
      then explicit_rollback_impl E j else op_return ()) (explicit_leave j) s)"
    by (rule growing_state)
  then show "growing m (explicit_drop E j)" unfolding explicit_drop_def by (intro growing_intros)
qed

lemma sync_code_growing:
  assumes "sync_code E m"
  shows "growing n m"
  using assms
proof (induction m rule: sync_code.induct)
  case (sql sql f bs k)
  have "growing n (db_run1 (actor_hooks E) (ae_backend E) (data_stmt sql k f) bs False)"
    by (rule grows.run_any) (simp_all add: actor_hooks_def grows.write_kept)
  then show ?case by (intro growing_intros)
next
  case (nested m thenable)
  show ?case by (intro grows.sync_kept growing_intros nested.IH)
next
  case (choose f)
  show ?case by (rule growing_state [OF choose.IH])
next
  case (catches m g)
  show ?case by (intro growing_intros catches.IH)
qed (intro growing_intros grows.access_kept grows.lists_kept grows.multiple_kept grows.set_alarm_kept delete_all_growing
    grows.bookmark_kept explicit_growing | assumption)+

section \<open>Every step is a growth\<close>

lemma precommit_growing: "growing m (start_precommit_alarm_scheduling E)"
  by (rule grows.precommit_kept)

lemma flush_growing:
  assumes "unfinished m c"
  shows "growing m (flush_implicit E c i)" "growing m (flush_delete_all E c)"
proof -
  note steps = enter_growing [OF assms] commit_impl_growing [OF assms] precommit_growing
  show "growing m (flush_implicit E c i)" unfolding flush_implicit_def by (intro growing_intros steps)
  have "growing m (\<lambda>s. (case am_current (sq_mem s) of
        ImplicitTxn _ \<Rightarrow> enter c Finished s
      | _ \<Rightarrow> op_bind (start_precommit_alarm_scheduling E) (commit_impl E c) s))"
    unfolding grows.outer_def
    by (auto split: current_txn.split intro!: growing_at [OF steps(1)] growing_at [OF grows.outer_bind [OF steps(3) steps(2)]])
  then show "growing m (flush_delete_all E c)" unfolding flush_delete_all_def
    by (intro growing_intros steps upd_fields_growing) simp_all
qed

lemma commit_start_grows: "grows (sq_mem s) (sq_mem (snd (commit_start E c s)))"
proof (cases "cm_phase (comm (sq_mem s) c) = Scheduled")
  case True
  then have "unfinished (sq_mem s) c" by (simp add: unfinished_def)
  then show ?thesis using True
    by (auto simp: commit_start_def intro!: growing_at [OF flush_growing(1)] growing_at [OF flush_growing(2)] split: commit_kind.split)
next
  case False
  then show ?thesis by (simp add: commit_start_def split: phase.split commit_kind.split)
qed

lemma commit_loop_growing: "unfinished m c \<Longrightarrow> growing m (commit_loop E c)"
  by (rule grows.loop_kept) (rule enter_growing)

lemma commit_resume_grows: "grows (sq_mem s) (sq_mem (snd (commit_resume E c s)))"
proof (cases "cm_phase (comm (sq_mem s) c) = Finished")
  case False
  then have u: "unfinished (sq_mem s) c" by (simp add: unfinished_def)
  have "growing (sq_mem s) (op_catch (commit_loop E c) (commit_failed c))"
    by (intro growing_intros commit_loop_growing failed_growing u)
  then show ?thesis
    by (auto simp: commit_resume_def split: phase.split option.split sum.split
        intro!: growing_at [OF enter_growing [OF u]] growing_at [OF failed_growing [OF u]] growing_at)
qed (simp add: commit_resume_def)

lemma schedule_later_growing: "growing m (schedule_later_alarm E t)"
proof -
  have "growing m (op_bind (upd (\<lambda>m. m\<lparr>am_later_is_in_flight := True\<rparr>))
        (\<lambda>_. op_bind (request_scheduled_alarm E t p)
        (\<lambda>k. upd (\<lambda>m. m\<lparr>am_later_in_flight := RequestOf k, am_later_handler := Some k\<rparr>))))" for p
    by (intro growing_intros grows.request_kept upd_fields_growing) simp_all
  moreover have "grows m n \<Longrightarrow> grows m (n\<lparr>am_pending_later := x\<rparr>)" for n x by (erule grows_changes(6)) simp_all
  ultimately show ?thesis by (auto simp: grows.outer_def schedule_later_alarm_def mem_def)
qed

lemma commit_persisted_grows: "grows (sq_mem s) (sq_mem (snd (commit_persisted E c res s)))"
proof (cases "cm_phase (comm (sq_mem s) c) = Finished")
  case False
  then have u: "unfinished (sq_mem s) c" by (simp add: unfinished_def)
  have "grows (sq_mem s) n \<Longrightarrow> grows (sq_mem s) (set_commit c (\<lambda>k. k\<lparr>cm_shared := x\<rparr>) (n\<lparr>am_confirmed := a\<rparr>))" for n a x
    by (rule grows_set_commit [OF grows_changes(6) u]) simp_all
  then have "growing (sq_mem s) (op_bind (upd (\<lambda>m. set_commit c (\<lambda>k. k\<lparr>cm_shared := Some (Inr ())\<rparr>) (m\<lparr>am_confirmed := a\<rparr>)))
               (\<lambda>_. op_bind (\<lambda>s. (if am_version (sq_mem s) = v \<and> will_fire_earlier (am_no_later (sq_mem s)) a
                                then schedule_later_alarm E a s else (Inr (), s)))
               (\<lambda>_. enter c Finished)))" for a v
    by (intro growing_intros enter_growing u schedule_later_growing upd_grows)
  then have "growing (sq_mem s) (op_catch (op_bind (upd (\<lambda>m. set_commit c (\<lambda>k. k\<lparr>cm_shared := Some (Inr ())\<rparr>) (m\<lparr>am_confirmed := a\<rparr>)))
               (\<lambda>_. op_bind (\<lambda>s. (if am_version (sq_mem s) = v \<and> will_fire_earlier (am_no_later (sq_mem s)) a
                                then schedule_later_alarm E a s else (Inr (), s)))
               (\<lambda>_. enter c Finished))) (commit_failed c))" for a v
    by (rule grows.outer_catch [OF _ failed_growing [OF u]])
  then show ?thesis
    by (auto simp: commit_persisted_def split: phase.split sum.split intro!: growing_at [OF failed_growing [OF u]] growing_at)
qed (simp add: commit_persisted_def)

lemma commit_ends_grows: "grows m (commit_caught c m)" "grows m (commit_task_failed c m)"
proof -
  have mark: "grows m (set_commit c f n)" if "grows m n" "cm_phase (comm m c) \<noteq> Finished" "\<And>k. cm_kind (f k) = cm_kind k" for f n
    by (rule grows_set_commit [OF that(1) _ that(3)]) (use that(2) in \<open>simp add: unfinished_def\<close>)
  show "grows m (commit_caught c m)"
    by (auto simp: commit_caught_def intro!: mark grows_changes(3) split: phase.split)
  have "grows m (m\<lparr>am_broken := x\<rparr>)" for x by (rule grows_changes(6)) simp_all
  then show "grows m (commit_task_failed c m)"
    by (auto simp: commit_task_failed_def intro!: mark split: phase.split)
qed

lemma explicit_commit_grows: "growing m (explicit_commit E j)"
proof -
  have root: "growing m (explicit_commit_root E j pre)" for pre
    unfolding grows.outer_def
  proof (intro allI impI)
    fix s :: "'a actor" assume g: "grows m (sq_mem s)"
    let ?c = "length (am_commits (sq_mem s))"
    have u: "unfinished m ?c" using g by (auto simp: grows_def unfinished_def)
    have "grows m n \<Longrightarrow> grows m ((add_commit CommitExplicit n)\<lparr>am_deferred_delete := d\<rparr>)" for n d
      by (rule grows_changes(6) [OF grows_changes(4)]) simp_all
    moreover have "grows m n \<Longrightarrow> grows m ((if b then add_lock l n else n)\<lparr>am_last_commit := p\<rparr>)" for n b l p
      by (cases b) (auto intro: grows_changes(6) [OF grows_changes(3)] grows_changes(6))
    ultimately have "growing m (op_bind (upd (\<lambda>m. (add_commit CommitExplicit m)\<lparr>am_deferred_delete :=
          (if d then False else am_deferred_delete m)\<rparr>))
        (\<lambda>_. op_bind (commit_impl E ?c pre)
        (\<lambda>_. upd (\<lambda>m. (if b then add_lock (LockOn (CommitOf ?c)) m else m)\<lparr>am_last_commit := CommitOf ?c\<rparr>))))" for d b
      by (intro growing_intros commit_impl_growing u upd_grows) blast+
    then show "grows m (sq_mem (snd (explicit_commit_root E j pre s)))"
      using g by (simp add: explicit_commit_root_def Let_def grows.outer_def)
  qed
  have "growing m (op_bind (if b then start_precommit_alarm_scheduling E else op_return None)
        (\<lambda>pre. op_bind (actor_run E (STMT_RELEASE n))
        (\<lambda>_. op_bind (upd (set_explicit j f))
        (\<lambda>_. case q of Some p \<Rightarrow> upd (set_explicit p g) | None \<Rightarrow> explicit_commit_root E j pre))))" for b n f g q
    by (cases b; cases q) (auto intro!: growing_intros precommit_growing root)
  then show ?thesis
    unfolding explicit_commit_def
    by (intro growing_intros) (auto simp: grows.outer_def Let_def)
qed

lemma alarm_growing:
  "growing m (later_done E)" "growing m (arm_alarm_handler E scheduled now)" "growing m (deleter_drop E d)"
  "growing m (abandon_alarm E scheduled)"
proof -
  note steps = growing_intros upd_fields_growing grows.request_kept grows.change_alarm_kept grows.set_alarm_kept
    schedule_later_growing
  have "growing m (op_bind (upd (\<lambda>m. m\<lparr>am_pending_later := None\<rparr>)) (\<lambda>_. op_bind (stored_alarm E)
          (\<lambda>a. if \<not> will_fire_earlier a t then schedule_later_alarm E t else op_return ())))" for t
    by (intro grows.outer_bind upd_fields_growing grows.outer_get_alarm) (auto intro: schedule_later_growing)
  then have "growing m (\<lambda>s. (case am_pending_later (sq_mem s) of
        None \<Rightarrow> (Inr (), s)
      | Some t \<Rightarrow> op_bind (upd (\<lambda>m. m\<lparr>am_pending_later := None\<rparr>)) (\<lambda>_. op_bind (stored_alarm E)
          (\<lambda>a. if \<not> will_fire_earlier a t then schedule_later_alarm E t else op_return ())) s))"
    by (auto simp: grows.outer_def split: option.split)
  then show "growing m (later_done E)" unfolding later_done_def by (intro steps) simp_all
  have "grows m n \<Longrightarrow> grows m (n\<lparr>am_deleters := x\<rparr>)" for n x by (erule grows_changes(6)) simp_all
  then have new: "growing m new_deferred_alarm_deleter" by (auto simp: grows.outer_def new_deferred_alarm_deleter_def mem_def)
  have run: "growing m (op_bind (upd (\<lambda>m. m\<lparr>am_deferred_delete := deferred, am_in_handler := True\<rparr>))
      (\<lambda>_. new_deferred_alarm_deleter))" for deferred
    by (intro steps new) simp_all
  have req: "growing m (op_bind (request_scheduled_alarm E a p) (\<lambda>k. op_bind (upd (\<lambda>m. m\<lparr>am_pending_later := None,
      am_later_in_flight := RequestOf k\<rparr>)) (\<lambda>_. op_return (CancelRun k))))"
    "growing m (op_bind (request_scheduled_alarm E a p) (\<lambda>k. op_return (CancelRun k)))" for a p
    by (intro steps; simp)+
  have "growing m (\<lambda>s. (let clean = (local = am_confirmed (sq_mem s));
             run = (\<lambda>deferred. op_bind (upd (\<lambda>m. m\<lparr>am_deferred_delete := deferred, am_in_handler := True\<rparr>))
                     (\<lambda>_. new_deferred_alarm_deleter))
         in if local = Some scheduled then run True s
            else if \<not> clean then run False s
            else if will_fire_earlier local (Some now) then run True s
            else if will_fire_earlier (Some scheduled) local then
              op_bind (request_scheduled_alarm E local (am_later_in_flight (sq_mem s)))
                (\<lambda>k. op_bind (upd (\<lambda>m. m\<lparr>am_pending_later := None, am_later_in_flight := RequestOf k\<rparr>))
                (\<lambda>_. op_return (CancelRun k))) s
            else op_bind (request_scheduled_alarm E local Ready) (\<lambda>k. op_return (CancelRun k)) s))" for "local"
    unfolding grows.outer_def Let_def
    by (auto intro: growing_at [OF run] growing_at [OF req(1)] growing_at [OF req(2)])
  then show "growing m (arm_alarm_handler E scheduled now)" unfolding arm_alarm_handler_def
    by (intro steps)
  have "growing m (op_bind (if b then change_alarm E None False else op_return ())
      (\<lambda>_. upd (\<lambda>m. m\<lparr>am_deferred_delete := False\<rparr>)))" for b
    by (cases b) (auto intro!: steps)
  then have "growing m (\<lambda>s. (if am_deferred_delete (sq_mem s) then
        op_bind (if am_broken (sq_mem s) = None then change_alarm E None False else op_return ())
          (\<lambda>_. upd (\<lambda>m. m\<lparr>am_deferred_delete := False\<rparr>)) s
      else (Inr (), s)))"
    by (auto simp: grows.outer_def)
  then have "growing m (maybe_delete_deferred_alarm E)" unfolding maybe_delete_deferred_alarm_def
    by (intro grows.outer_bind [OF upd_fields_growing]) simp_all
  then show "growing m (deleter_drop E d)" unfolding deleter_drop_def by (intro steps) simp_all
  have "growing m (case stored of None \<Rightarrow> op_return None
        | Some t \<Rightarrow> (if t = scheduled then op_bind (actor_set_alarm E None False) (\<lambda>_. op_return None)
                   else op_return (Some t)))" for stored
    by (cases stored) (auto intro!: steps)
  then show "growing m (abandon_alarm E scheduled)" unfolding abandon_alarm_def by (intro steps)
qed

lemma actor_step_grows:
  assumes "actor_step E s t"
  shows "grows (sq_mem s) (sq_mem t)"
  using assms
proof cases
  case (code m)
  show ?thesis unfolding code(1) by (rule growing_at [OF sync_code_growing [OF code(2)] grows_refl])
next
  case (commits j)
  show ?thesis unfolding commits(1) by (rule growing_at [OF explicit_commit_grows grows_refl])
next
  case (caught c)
  then show ?thesis using commit_ends_grows by (simp add: mem_def)
next
  case (task_fails c)
  then show ?thesis using commit_ends_grows by (simp add: mem_def)
next
  case (settles k res)
  show ?thesis unfolding settles by (rule grows_changes(6) [OF grows_refl]) (simp_all add: mem_def request_settled_def Let_def)
next
  case (later k)
  show ?thesis unfolding later(1) by (rule growing_at [OF alarm_growing(1) grows_refl])
next
  case (arms scheduled now)
  show ?thesis unfolding arms by (rule growing_at [OF alarm_growing(2) grows_refl])
next
  case (handled d)
  show ?thesis unfolding handled by (rule growing_at [OF alarm_growing(3) grows_refl])
next
  case cancels
  show ?thesis unfolding cancels
    by (rule grows_changes(6) [OF grows_refl]) (simp_all add: mem_def cancel_deferred_alarm_deletion_def)
next
  case (abandons scheduled)
  show ?thesis unfolding abandons by (rule growing_at [OF alarm_growing(4) grows_refl])
next
  case (shuts_down e)
  show ?thesis unfolding shuts_down
    by (rule grows_changes(6) [OF grows_refl]) (simp_all add: mem_def actor_shutdown_def split: option.split)
qed (simp_all add: commit_start_grows commit_resume_grows commit_persisted_grows)

end
