(* ===== verification/Gated_Actor.thy ===== *)
theory Gated_Actor
  imports Output_Gate Actor_Grows Actor_Demo
begin

text \<open>
  An actor and its output gate together. The locks an \<open>ActorSqlite\<close> puts on the gate (\<open>am_locks\<close>) are the
  calls of \<open>lockWhile\<close> in their order; lock \<open>i\<close> of the gate settles as the promise it was given does. What
  leaves the actor waits on the gate (\<open>output_wait\<close>) and leaves when that wait is fulfilled.
\<close>

section \<open>The joint system\<close>








section \<open>The invariant\<close>






lemma links_nth: "i < length (og_locks g) \<Longrightarrow> ol_link (og_locks g ! i) = og_links g ! i"
  by simp





section \<open>What is sent is durable\<close>















end
