(* ===== verification/Sql_Regulator.thy ===== *)
theory Sql_Regulator
  imports Sql_Text
begin

text \<open>
  The regulator of application SQL, \<open>src/src/api/sql.ts\<close>: which statements the public \<open>sql\<close> object
  refuses, from their text alone. A check is \<open>Inr ()\<close> or the error it throws. The patterns are terms of
  \<open>rx\<close>; \<open>replace_all\<close> and \<open>match_all\<close> are \<open>s.replace(/r/g, x)\<close> and \<open>s.matchAll(/r/g)\<close> for patterns that
  match no empty text, which are all the source uses them with.
\<close>

section \<open>Searching\<close>

text \<open>\<open>/^r/.test(s)\<close> and \<open>/r/.test(s)\<close>.\<close>

definition rx_test :: "rx \<Rightarrow> js_string \<Rightarrow> bool" where
  "rx_test r s \<longleftrightarrow> rx_run r s \<noteq> []"

fun rx_search :: "rx \<Rightarrow> js_string \<Rightarrow> bool" where
  "rx_search r [] = rx_test r []"
| "rx_search r (c # s) = (rx_test r (c # s) \<or> rx_search r s)"

text \<open>What the first match at the start of a text takes, if it takes something.\<close>

definition rx_first :: "rx \<Rightarrow> js_string \<Rightarrow> (js_string \<times> js_string) option" where
  "rx_first r s = (case rx_run r s of [] \<Rightarrow> None | (u, g, t) # _ \<Rightarrow> if length t < length s then Some (u, t) else None)"

function replace_all :: "rx \<Rightarrow> 16 word \<Rightarrow> js_string \<Rightarrow> js_string" where
  "replace_all r x [] = []"
| "replace_all r x (c # s) =
     (case rx_first r (c # s) of Some (u, t) \<Rightarrow> x # replace_all r x t | None \<Rightarrow> c # replace_all r x s)"
  by pat_completeness auto
termination
  by (relation "measure (\<lambda>(r, x, s). length s)") (auto simp: rx_first_def split: list.splits if_splits)

function match_all :: "rx \<Rightarrow> js_string \<Rightarrow> js_string list" where
  "match_all r [] = []"
| "match_all r (c # s) =
     (case rx_first r (c # s) of Some (u, t) \<Rightarrow> u # match_all r t | None \<Rightarrow> match_all r s)"
  by pat_completeness auto
termination
  by (relation "measure (\<lambda>(r, s). length s)") (auto simp: rx_first_def split: list.splits if_splits)

declare replace_all.simps(2) [simp del] match_all.simps(2) [simp del] rx_run.simps(9) [simp del]

abbreviation BLANK :: "16 word" where "BLANK \<equiv> 0x20"
abbreviation alts :: "rx \<Rightarrow> rx list \<Rightarrow> rx" where "alts \<equiv> foldl Alt"
abbreviation seqs :: "rx \<Rightarrow> rx list \<Rightarrow> rx" where "seqs \<equiv> foldl Seq"
abbreviation any :: "16 word \<Rightarrow> bool" where "any \<equiv> \<lambda>_. True"
abbreviation lit :: "char \<Rightarrow> rx" where "lit c \<equiv> One (\<lambda>x. x = ch c)"

text \<open>\<open>^[\s;]*\<close>, which all patterns for a leading keyword begin with.\<close>

definition LEAD :: rx where "LEAD = Many0 (\<lambda>c. js_space c \<or> c = ch CHR '';'')"

section \<open>Code, literals and comments\<close>

definition TRANSACTION_CONTROL :: rx where
  "TRANSACTION_CONTROL = seqs LEAD [alts (kw ''BEGIN'') (map kw [''COMMIT'', ''END'', ''ROLLBACK'', ''SAVEPOINT'', ''RELEASE'']), Boundary]"

definition RESERVED_PREFIX_HINT :: rx where "RESERVED_PREFIX_HINT = kw ''_cf_''"

definition ident_start :: "16 word \<Rightarrow> bool" where "ident_start c \<longleftrightarrow> letter c \<or> c = ch CHR ''_''"
definition ident_char :: "16 word \<Rightarrow> bool" where "ident_char c \<longleftrightarrow> word_char c \<or> c = ch CHR ''$''"

definition IDENTIFIER :: rx where "IDENTIFIER = Seq (One ident_start) (Many0 ident_char)"

definition RX_LITERAL :: rx where
  "RX_LITERAL = seqs (lit CHR 0x27) [Star (Alt (One (\<lambda>c. c \<noteq> ch CHR 0x27)) (Word (of_chars [CHR 0x27, CHR 0x27]))), lit CHR 0x27]"

definition RX_LINE_COMMENT :: rx where
  "RX_LINE_COMMENT = Seq (kw ''--'') (Many0 (\<lambda>c. c \<noteq> 0x0A))"

definition RX_BLOCK_COMMENT :: rx where
  "RX_BLOCK_COMMENT = seqs (kw ''/*'') [Lazy0 any, kw ''*/'']"

definition NOT_CODE :: rx where "NOT_CODE = alts RX_LITERAL [RX_LINE_COMMENT, RX_BLOCK_COMMENT]"
definition NOT_COMMENT :: rx where "NOT_COMMENT = alts RX_LINE_COMMENT [RX_BLOCK_COMMENT]"

section \<open>The regulator's names\<close>

text \<open>
  \<open>toLowerCase\<close> is \<open>to_lower\<close> on every letter here: no character outside ASCII has a lower case that is one
  of the letters of a text it is compared with.
\<close>

abbreviation lower :: "js_string \<Rightarrow> js_string" where "lower \<equiv> map to_lower"

definition is_allowed_name :: "js_string \<Rightarrow> bool" where
  "is_allowed_name name \<longleftrightarrow> length name < 4 \<or> lower (take 4 name) \<noteq> of_chars ''_cf_''"

definition is_allowed_trigger :: "js_string \<Rightarrow> bool" where "is_allowed_trigger name = True"

definition SQL_TRANSACTION_REFUSED_MESSAGE :: js_exn where
  "SQL_TRANSACTION_REFUSED_MESSAGE = Failure ''To execute a transaction, please use the state.storage.transaction() or state.storage.transactionSync() APIs instead of the SQL BEGIN TRANSACTION or SAVEPOINT statements. The JavaScript API is safer because it will automatically roll back on exceptions, and because it interacts correctly with Durable Objects' automatic atomic write coalescing.''"

definition SQL_RESERVED_PREFIX_MESSAGE :: js_exn where
  "SQL_RESERVED_PREFIX_MESSAGE = Failure ''not authorized: a SQL statement may not name the reserved _cf_ prefix, which is where this Durable Object keeps its own KV and metadata tables.''"

definition SQL_NOT_AUTHORIZED_MESSAGE :: js_exn where
  "SQL_NOT_AUTHORIZED_MESSAGE = Failure ''not authorized: SQLITE_AUTH''"

definition SQL_VACUUM_REFUSED_MESSAGE :: js_exn where
  "SQL_VACUUM_REFUSED_MESSAGE = Failure ''cannot VACUUM from within a transaction: SQLITE_ERROR''"

definition allow_transactions :: "js_exn + unit" where
  "allow_transactions = Inl SQL_TRANSACTION_REFUSED_MESSAGE"

definition require_allowed_names :: "js_string \<Rightarrow> js_exn + unit" where
  "require_allowed_names query =
     (if \<not> rx_search RESERVED_PREFIX_HINT query then Inr ()
      else if list_all is_allowed_name (match_all IDENTIFIER (replace_all NOT_CODE BLANK query)) then Inr ()
      else Inl SQL_RESERVED_PREFIX_MESSAGE)"

definition refuse_transaction_control :: "js_string \<Rightarrow> js_exn + unit" where
  "refuse_transaction_control statement =
     (if rx_test TRANSACTION_CONTROL (replace_all NOT_CODE BLANK statement) then allow_transactions else Inr ())"

section \<open>Forms only the authorizer sees\<close>

definition DATABASE_ATTACHMENT :: rx where
  "DATABASE_ATTACHMENT = seqs LEAD [alts (kw ''ATTACH'') [kw ''DETACH''], Boundary]"

definition TEMP_SCHEMA :: rx where
  "TEMP_SCHEMA = seqs LEAD [kw ''CREATE'', sp, alts (kw ''TEMP'') [kw ''TEMPORARY''], Boundary]"

abbreviation sp0 :: rx where "sp0 \<equiv> Many0 js_space"

definition RX_IF_NOT_EXISTS :: rx where
  "RX_IF_NOT_EXISTS = Opt (seqs (kw ''IF'') [sp, kw ''NOT'', sp, kw ''EXISTS'', sp0])"

definition TEMP_QUALIFIED :: rx where
  "TEMP_QUALIFIED = seqs LEAD [kw ''CREATE'', sp, Opt (alts (Seq (kw ''UNIQUE'') sp) [Seq (kw ''VIRTUAL'') sp]),
     alts (kw ''TABLE'') [kw ''VIEW'', kw ''TRIGGER'', kw ''INDEX''], sp0, RX_IF_NOT_EXISTS,
     alts (Word (of_chars (CHR 0x22 # ''temp'' @ [CHR 0x22]))) [Word (of_chars (CHR 0x27 # ''temp'' @ [CHR 0x27])),
       Word (of_chars (CHR 0x60 # ''temp'' @ [CHR 0x60])), kw ''[temp]'', kw ''temp''],
     sp0, lit CHR ''.'']"

definition doubled :: "char \<Rightarrow> rx" where
  "doubled q = seqs (lit q) [Star (Alt (One (\<lambda>c. c \<noteq> ch q)) (Word (of_chars [q, q]))), lit q]"

definition SQL_IDENTIFIER_SOURCE :: rx where
  "SQL_IDENTIFIER_SOURCE = alts (doubled CHR 0x22) [doubled CHR 0x27, doubled CHR 0x60,
     seqs (lit CHR ''['') [Many0 (\<lambda>c. c \<noteq> ch CHR '']''), lit CHR '']''],
     Seq (One (\<lambda>c. letter c \<or> c = ch CHR ''_'' \<or> 0x80 \<le> c)) (Many0 (\<lambda>c. ident_char c \<or> 0x80 \<le> c))]"

definition RX_CREATE_VIRTUAL_TABLE :: rx where
  "RX_CREATE_VIRTUAL_TABLE = seqs LEAD [kw ''CREATE'', sp, kw ''VIRTUAL'', sp, kw ''TABLE'']"

definition VIRTUAL_TABLE :: rx where "VIRTUAL_TABLE = Seq RX_CREATE_VIRTUAL_TABLE Boundary"

definition VIRTUAL_TABLE_MODULE :: rx where
  "VIRTUAL_TABLE_MODULE = seqs RX_CREATE_VIRTUAL_TABLE [sp0, RX_IF_NOT_EXISTS, SQL_IDENTIFIER_SOURCE, sp0,
     Opt (seqs (lit CHR ''.'') [sp0, SQL_IDENTIFIER_SOURCE, sp0]), kw ''USING'', sp0, Grp 1 SQL_IDENTIFIER_SOURCE]"

definition ALLOWED_VIRTUAL_TABLE_MODULES :: "js_string list" where
  "ALLOWED_VIRTUAL_TABLE_MODULES = map of_chars [''fts5'', ''fts5vocab'', ''rtree'', ''rtree_i32'']"

definition VACUUM_STATEMENT :: rx where "VACUUM_STATEMENT = seqs LEAD [kw ''VACUUM'', Boundary]"

text \<open>\<open>unquoted\<close>: one layer of any of the four quotings.\<close>

definition unquoted :: "js_string \<Rightarrow> js_string" where
  "unquoted s =
     (if length s \<ge> 2 \<and> (wrapped s CHR 0x27 CHR 0x27 \<or> wrapped s CHR 0x22 CHR 0x22 \<or> wrapped s CHR 0x60 CHR 0x60 \<or>
        wrapped s CHR ''['' CHR '']'') then butlast (tl s) else s)"

text \<open>The first group of the first match, of \<open>/^r/.exec(s)\<close>.\<close>

definition rx_group1 :: "rx \<Rightarrow> js_string \<Rightarrow> js_string option" where
  "rx_group1 r s = (case rx_run r s of [] \<Rightarrow> None | (u, g, t) # _ \<Rightarrow> map_of g 1)"

definition refuse_unauthorized_forms :: "js_string \<Rightarrow> js_exn + unit" where
  "refuse_unauthorized_forms statement =
     (let code = replace_all NOT_COMMENT BLANK statement in
      if rx_test VACUUM_STATEMENT code then Inl SQL_VACUUM_REFUSED_MESSAGE
      else if rx_test DATABASE_ATTACHMENT code \<or> rx_test TEMP_SCHEMA code \<or> rx_test TEMP_QUALIFIED code
      then Inl SQL_NOT_AUTHORIZED_MESSAGE
      else if rx_test VIRTUAL_TABLE code \<and>
        (case rx_group1 VIRTUAL_TABLE_MODULE code of None \<Rightarrow> True
         | Some m \<Rightarrow> lower (unquoted m) \<notin> set ALLOWED_VIRTUAL_TABLE_MODULES)
      then Inl SQL_NOT_AUTHORIZED_MESSAGE else Inr ())"

section \<open>Pragmas\<close>

definition PRAGMA_HINT :: rx where "PRAGMA_HINT = kw ''pragma''"

text \<open>\<open>PRAGMA [schema.]name\<close> with \<open>= value\<close>, \<open>(argument)\<close>, or nothing; the \<open>$\<close> at its end is in \<open>rx_exec\<close>.\<close>

definition PRAGMA_STATEMENT :: rx where
  "PRAGMA_STATEMENT = seqs LEAD [kw ''PRAGMA'', sp, Opt (seqs IDENTIFIER [sp0, lit CHR ''.'', sp0]), Grp 1 IDENTIFIER,
     Opt (alts (seqs sp0 [lit CHR ''='', sp0, Grp 2 (Seq (One any) (Lazy0 any))])
       [seqs sp0 [lit CHR ''('', sp0, Grp 3 (Lazy0 any), sp0, lit CHR '')'']]),
     sp0, Opt (lit CHR '';''), sp0]"

definition RX_PRAGMA_KEYWORD :: rx where "RX_PRAGMA_KEYWORD = seqs LEAD [kw ''PRAGMA'', Boundary]"

datatype pragma_signature = NO_ARG | BOOLEAN | OBJECT_NAME | OPTIONAL_OBJECT_NAME | NULL_OR_NUMBER
  | NULL_NUMBER_OR_OBJECT_NAME

definition ALLOWED_PRAGMAS :: "(js_string \<times> pragma_signature) list" where
  "ALLOWED_PRAGMAS = map (\<lambda>(n, g). (of_chars n, g))
    [(''data_version'', NO_ARG), (''page_size'', NO_ARG), (''case_sensitive_like'', BOOLEAN),
     (''foreign_keys'', BOOLEAN), (''defer_foreign_keys'', BOOLEAN), (''ignore_check_constraints'', BOOLEAN),
     (''legacy_alter_table'', BOOLEAN), (''recursive_triggers'', BOOLEAN), (''reverse_unordered_selects'', BOOLEAN),
     (''foreign_key_check'', OPTIONAL_OBJECT_NAME), (''foreign_key_list'', OBJECT_NAME), (''index_info'', OBJECT_NAME),
     (''index_list'', OBJECT_NAME), (''index_xinfo'', OBJECT_NAME), (''quick_check'', NULL_NUMBER_OR_OBJECT_NAME),
     (''optimize'', NULL_OR_NUMBER)]"

definition BOOLEAN_PRAGMA_VALUE :: rx where
  "BOOLEAN_PRAGMA_VALUE = alts (kw ''true'') (map kw [''false'', ''yes'', ''no'', ''on'', ''off'', ''1'', ''0''])"

definition SQLITE_PRAGMA_NAMES :: "js_string list" where
  "SQLITE_PRAGMA_NAMES = map of_chars
    [''analysis_limit'', ''application_id'', ''auto_vacuum'', ''automatic_index'', ''busy_timeout'', ''cache_size'',
     ''cache_spill'', ''case_sensitive_like'', ''cell_size_check'', ''checkpoint_fullfsync'', ''collation_list'',
     ''compile_options'', ''data_version'', ''database_list'', ''defer_foreign_keys'', ''encoding'',
     ''foreign_key_check'', ''foreign_key_list'', ''foreign_keys'', ''freelist_count'', ''full_column_names'',
     ''fullfsync'', ''function_list'', ''hard_heap_limit'', ''ignore_check_constraints'', ''incremental_vacuum'',
     ''index_info'', ''index_list'', ''index_xinfo'', ''integrity_check'', ''journal_mode'', ''journal_size_limit'',
     ''legacy_alter_table'', ''legacy_file_format'', ''locking_mode'', ''max_page_count'', ''mmap_size'',
     ''module_list'', ''optimize'', ''page_count'', ''page_size'', ''pragma_list'', ''query_only'', ''quick_check'',
     ''read_uncommitted'', ''recursive_triggers'', ''reverse_unordered_selects'', ''schema_version'',
     ''secure_delete'', ''short_column_names'', ''shrink_memory'', ''soft_heap_limit'', ''synchronous'',
     ''table_info'', ''table_list'', ''table_xinfo'', ''temp_store'', ''threads'', ''trusted_schema'',
     ''user_version'', ''wal_autocheckpoint'', ''wal_checkpoint'', ''writable_schema'']"

text \<open>\<open>/^[+-]?\d+$/\<close>.\<close>

definition DECIMAL :: rx where
  "DECIMAL = Seq (Opt (One (\<lambda>c. c = ch CHR ''+'' \<or> c = ch CHR ''-''))) (Many1 js_digit)"

definition is_decimal :: "js_string \<Rightarrow> bool" where "is_decimal s \<longleftrightarrow> rx_exec DECIMAL s \<noteq> None"

definition is_allowed_pragma :: "js_string \<Rightarrow> js_string option \<Rightarrow> bool" where
  "is_allowed_pragma name argument =
     (let pragma = lower name in
      if pragma = of_chars ''table_list'' then True
      else if pragma = of_chars ''table_info'' \<or> pragma = of_chars ''table_xinfo''
      then (case argument of None \<Rightarrow> False | Some a \<Rightarrow> is_allowed_name (unquoted a))
      else (case map_of ALLOWED_PRAGMAS pragma of
              None \<Rightarrow> False
            | Some NO_ARG \<Rightarrow> argument = None
            | Some BOOLEAN \<Rightarrow> (case argument of None \<Rightarrow> True | Some a \<Rightarrow> rx_test BOOLEAN_PRAGMA_VALUE (unquoted a))
            | Some OBJECT_NAME \<Rightarrow> (case argument of None \<Rightarrow> False | Some a \<Rightarrow> is_allowed_name (unquoted a))
            | Some OPTIONAL_OBJECT_NAME \<Rightarrow> (case argument of None \<Rightarrow> True | Some a \<Rightarrow> is_allowed_name (unquoted a))
            | Some NULL_OR_NUMBER \<Rightarrow> (case argument of None \<Rightarrow> True | Some a \<Rightarrow> is_decimal a)
            | Some NULL_NUMBER_OR_OBJECT_NAME \<Rightarrow> (case argument of None \<Rightarrow> True
                | Some a \<Rightarrow> is_decimal a \<or> is_allowed_name (unquoted a))))"

text \<open>A \<open>pragma_X\<close> function, where \<open>X\<close> is a pragma of SQLite, follows the list by its name.\<close>

definition is_allowed_pragma_function :: "js_string \<Rightarrow> bool" where
  "is_allowed_pragma_function token =
     (if length token \<le> 7 \<or> lower (take 7 token) \<noteq> of_chars ''pragma_'' then True
      else (let name = lower (drop 7 token) in
        name \<notin> set SQLITE_PRAGMA_NAMES \<or>
        name \<in> of_chars ` {''table_list'', ''table_info'', ''table_xinfo''} \<or>
        map_of ALLOWED_PRAGMAS name \<noteq> None))"

definition require_allowed_pragmas :: "js_string \<Rightarrow> js_exn + unit" where
  "require_allowed_pragmas statement =
     (if \<not> rx_search PRAGMA_HINT statement then Inr ()
      else (let code = replace_all NOT_COMMENT BLANK statement in
        case rx_exec PRAGMA_STATEMENT code of
          Some g \<Rightarrow>
            (let argument = map_option trim (case map_of g 2 of Some a \<Rightarrow> Some a | None \<Rightarrow> map_of g 3)
             in if is_allowed_pragma (case map_of g 1 of Some n \<Rightarrow> n | None \<Rightarrow> []) (if argument = Some [] then None else argument)
                then Inr () else Inl SQL_NOT_AUTHORIZED_MESSAGE)
        | None \<Rightarrow>
            (if rx_test RX_PRAGMA_KEYWORD code then Inl SQL_NOT_AUTHORIZED_MESSAGE
             else if list_all is_allowed_pragma_function (match_all IDENTIFIER (replace_all NOT_CODE BLANK code))
             then Inr () else Inl SQL_NOT_AUTHORIZED_MESSAGE)))"

text \<open>Everything the untrusted path refuses at one statement boundary.\<close>

definition regulate_untrusted_statement :: "js_string \<Rightarrow> js_exn + unit" where
  "regulate_untrusted_statement statement =
     (case refuse_transaction_control statement of Inl e \<Rightarrow> Inl e | Inr _ \<Rightarrow>
     (case refuse_unauthorized_forms statement of Inl e \<Rightarrow> Inl e | Inr _ \<Rightarrow>
        require_allowed_pragmas statement))"

end
