(* ===== verification/Sql_Lexer.thy ===== *)
theory Sql_Lexer
  imports Sql_Regulator
begin

text \<open>
  What the patterns \<open>NOT_CODE\<close> and \<open>IDENTIFIER\<close> do on a text, step by step, and the tokens SQLite reads in
  it (its documented lexical rules), to compare the two.
\<close>

section \<open>Replacing what is not code\<close>

definition starter :: "16 word \<Rightarrow> bool" where
  "starter c \<longleftrightarrow> c = ch CHR 0x27 \<or> c = ch CHR ''-'' \<or> c = ch CHR ''/''"

abbreviation code_of :: "js_string \<Rightarrow> js_string" where "code_of s \<equiv> replace_all NOT_CODE BLANK s"

lemma upper_eq_punct: "to_upper c = d \<Longrightarrow> \<not> letter d \<Longrightarrow> c = d"
  by (auto simp: to_upper_def letter_def upper_letter_def lower_letter_def word_le_nat_alt unat_sub_if_size split: if_splits)

lemma punct_letters [simp]: "\<not> letter 0x27" "\<not> letter 0x2D" "\<not> letter 0x2F" "\<not> letter 0x2A" "\<not> letter 0x22" "\<not> letter 0x60"
  by (simp_all add: letter_def lower_letter_def upper_letter_def)

lemma to_upper_punct [simp]: "to_upper 0x27 = 0x27" "to_upper 0x2D = 0x2D" "to_upper 0x2F = 0x2F" "to_upper 0x2A = 0x2A"
  by (simp_all add: to_upper_def lower_letter_def)

lemma to_upper_punct_iff:
  "to_upper c = 0x27 \<longleftrightarrow> c = 0x27" "to_upper c = 0x2D \<longleftrightarrow> c = 0x2D" "to_upper c = 0x2F \<longleftrightarrow> c = 0x2F" "to_upper c = 0x2A \<longleftrightarrow> c = 0x2A"
  using upper_eq_punct [of c] by auto

lemma seq_none: "rx_run r s = [] \<Longrightarrow> rx_run (Seq r q) s = []"
  by (simp add: rx_run.simps(5))

lemma NOT_CODE_run: "rx_run NOT_CODE s = rx_run RX_LITERAL s @ rx_run RX_LINE_COMMENT s @ rx_run RX_BLOCK_COMMENT s"
  by (simp add: NOT_CODE_def)

lemma literal_none: "hd s \<noteq> 0x27 \<Longrightarrow> rx_run RX_LITERAL s = []"
  by (cases s) (simp_all add: RX_LITERAL_def seq_none)

lemma line_none: "take 2 s \<noteq> [0x2D, 0x2D] \<Longrightarrow> rx_run RX_LINE_COMMENT s = []"
  unfolding RX_LINE_COMMENT_def
  by (rule seq_none) (cases s; cases "tl s"; auto simp: of_chars_def to_upper_punct_iff)

lemma block_none: "take 2 s \<noteq> [0x2F, 0x2A] \<Longrightarrow> rx_run RX_BLOCK_COMMENT s = []"
  unfolding RX_BLOCK_COMMENT_def
  by (simp, rule seq_none, rule seq_none) (cases s; cases "tl s"; auto simp: of_chars_def to_upper_punct_iff)

lemma no_starter_first:
  assumes "hd s \<noteq> 0x27" "take 2 s \<noteq> [0x2D, 0x2D]" "take 2 s \<noteq> [0x2F, 0x2A]"
  shows "rx_first NOT_CODE s = None"
  using assms by (simp add: rx_first_def NOT_CODE_run literal_none line_none block_none)

lemma code_copied: "\<not> starter c \<Longrightarrow> code_of (c # s) = c # code_of s"
  using no_starter_first [of "c # s"] by (simp add: starter_def replace_all.simps(2))

lemma code_run: "\<forall>c \<in> set u. \<not> starter c \<Longrightarrow> code_of (u @ s) = u @ code_of s"
  by (induction u) (simp_all add: code_copied)

text \<open>A line comment.\<close>

lemma line_comment:
  "rx_first NOT_CODE (0x2D # 0x2D # s) = Some (0x2D # 0x2D # takeWhile (\<lambda>c. c \<noteq> 0x0A) s, dropWhile (\<lambda>c. c \<noteq> 0x0A) s)"
proof -
  let ?n = "length (takeWhile (\<lambda>c. c \<noteq> 0x0A) s)"
  have "take ?n s = takeWhile (\<lambda>c. c \<noteq> 0x0A) s" "drop ?n s = dropWhile (\<lambda>c. c \<noteq> 0x0A) s"
    by (simp_all add: takeWhile_eq_take [symmetric] dropWhile_eq_drop [symmetric])
  moreover have "length (dropWhile (\<lambda>c. c \<noteq> 0x0A) s) < Suc (Suc (length s))"
    using length_dropWhile_le [of "\<lambda>c. c \<noteq> 0x0A" s] by simp
  ultimately show ?thesis
    by (simp add: rx_first_def NOT_CODE_run literal_none RX_LINE_COMMENT_def rx_run.simps(5) of_chars_def prefixes_down_def)
qed

text \<open>A string literal, and quoted names alike: up to the quote that is not doubled.\<close>

fun close_quote :: "16 word \<Rightarrow> js_string \<Rightarrow> (js_string \<times> js_string) option" where
  "close_quote q [] = None"
| "close_quote q (c # t) =
     (if c \<noteq> q then map_option (\<lambda>(b, r). (c # b, r)) (close_quote q t)
      else (case t of [] \<Rightarrow> Some ([], []) | d # t' \<Rightarrow>
        if d = q then map_option (\<lambda>(b, r). (q # q # b, r)) (close_quote q t') else Some ([], t)))"

lemma close_quote_split: "close_quote q t = Some (b, r) \<Longrightarrow> t = b @ q # r"
  by (induction q t arbitrary: b r rule: close_quote.induct) (auto split: if_splits list.splits)

lemma star_first:
  assumes "rx_run r s = (u, [], t) # ms" "length t < length s" "rx_run (Star r) t = (v, [], t') # ms'"
  shows "\<exists>ns. rx_run (Star r) s = (u @ v, [], t') # ns"
  unfolding rx_run.simps(9) [of r s] using assms by simp

lemma literal_star:
  assumes "close_quote 0x27 t = Some (b, r)"
  shows "\<exists>ms. rx_run (Star (Alt (One (\<lambda>c. c \<noteq> ch CHR 0x27)) (Word (of_chars [CHR 0x27, CHR 0x27])))) t = (b, [], 0x27 # r) # ms"
  using assms
proof (induction "0x27 :: 16 word" t arbitrary: b r rule: close_quote.induct)
  case (2 c t)
  let ?R = "Alt (One (\<lambda>c. c \<noteq> ch CHR 0x27)) (Word (of_chars [CHR 0x27, CHR 0x27]))"
  show ?case
  proof (cases "c = 0x27")
    case False
    then obtain b' where b: "close_quote 0x27 t = Some (b', r)" "b = c # b'" using 2 by auto
    have "rx_run ?R (c # t) = [([c], [], t)]" using False by (cases t) (simp_all add: of_chars_def to_upper_punct_iff)
    from star_first [OF this] 2(1) [OF False b(1)] show ?thesis using b(2) by fastforce
  next
    case True
    show ?thesis
    proof (cases "\<exists>t'. t = 0x27 # t'")
      case True': True
      then obtain t' where t: "t = 0x27 # t'" by blast
      then obtain b' where b: "close_quote 0x27 t' = Some (b', r)" "b = 0x27 # 0x27 # b'" using 2(3) True by auto
      have "rx_run ?R (c # t) = [([0x27, 0x27], [], t')]" using t True by (simp add: of_chars_def)
      moreover have "\<exists>ms. rx_run (Star ?R) t' = (b', [], 0x27 # r) # ms"
        by (rule 2(2) [OF _ t refl b(1)]) (use True in simp)
      ultimately show ?thesis using star_first [of ?R "c # t" "[0x27, 0x27]" t' "[]" b' "0x27 # r"] t b(2) by auto
    next
      case False
      then have b: "b = []" "r = t" using 2(3) True by (auto split: list.splits if_splits)
      have "rx_run ?R (c # t) = []" using False True by (cases t) (auto simp: of_chars_def to_upper_punct_iff)
      then show ?thesis using b True unfolding rx_run.simps(9) [of _ "c # t"] by simp
    qed
  qed
qed simp

lemma literal:
  assumes "close_quote 0x27 t = Some (b, r)"
  shows "rx_first NOT_CODE (0x27 # t) = Some (0x27 # b @ [0x27], r)"
proof -
  obtain ms where "rx_run (Star (Alt (One (\<lambda>c. c \<noteq> ch CHR 0x27)) (Word (of_chars [CHR 0x27, CHR 0x27])))) t = (b, [], 0x27 # r) # ms"
    using literal_star [OF assms] by blast
  then have "\<exists>ms. rx_run RX_LITERAL (0x27 # t) = (0x27 # b @ [0x27], [], r) # ms"
    by (simp add: RX_LITERAL_def rx_run.simps(5))
  moreover have "length r < Suc (length t)" using close_quote_split [OF assms] by simp
  ultimately show ?thesis by (auto simp: rx_first_def NOT_CODE_run)
qed

text \<open>A block comment, up to the first end of one after its start.\<close>

lemma concat_map_concat: "concat (map f (concat (map g xs))) = concat (map (\<lambda>x. concat (map f (g x))) xs)"
  by (induction xs) simp_all

lemma concat_concat_map: "concat (concat (map f xs)) = concat (map (\<lambda>x. concat (f x)) xs)"
  by (induction xs) simp_all

lemma seq_assoc: "rx_run (Seq (Seq a b) c) s = rx_run (Seq a (Seq b c)) s"
  by (simp add: rx_run.simps(5) concat_map_concat concat_concat_map map_concat split_def comp_def)

lemma lazy_first:
  assumes "n \<le> length s" "rx_run q (drop n s) = (v, [], t) # ms" "\<And>k. k < n \<Longrightarrow> rx_run q (drop k s) = []"
  shows "\<exists>ns. rx_run (Seq (Lazy0 any) q) s = (take n s @ v, [], t) # ns"
proof -
  let ?f = "\<lambda>k. map (\<lambda>(v, h, t'). (take k s @ v, h, t')) (rx_run q (drop k s))"
  have "rx_run (Seq (Lazy0 any) q) s = concat (map ?f [0..<Suc (length s)])"
    by (simp add: rx_run.simps(5) prefixes_down_def comp_def rev_map takeWhile_eq_all_conv [THEN iffD2] del: upt_Suc)
  also have "[0..<Suc (length s)] = [0..<n] @ n # [Suc n..<Suc (length s)]"
    using assms(1) upt_add_eq_append [of 0 n "Suc (length s) - n"] upt_conv_Cons [of n "Suc (length s)"] by simp
  also have "concat (map ?f ([0..<n] @ n # [Suc n..<Suc (length s)])) = concat (map ?f (n # [Suc n..<Suc (length s)]))"
    using assms(3) by simp
  finally show ?thesis using assms(2) by simp
qed

lemma index_of_Some:
  assumes "index_of pat s from = Some n"
  shows "from \<le> n" "n \<le> length s" "take (length pat) (drop n s) = pat"
    "\<And>k. from \<le> k \<Longrightarrow> k < n \<Longrightarrow> take (length pat) (drop k s) \<noteq> pat"
proof -
  let ?P = "\<lambda>i. take (length pat) (drop i s) = pat"
  have f: "List.find ?P [from..<Suc (length s)] = Some n" using assms by (simp add: index_of_def)
  then obtain i where i: "i < length [from..<Suc (length s)]" "?P ([from..<Suc (length s)] ! i)" "n = [from..<Suc (length s)] ! i"
    "\<And>j. j < i \<Longrightarrow> \<not> ?P ([from..<Suc (length s)] ! j)"
    by (auto simp: find_Some_iff simp del: upt_Suc)
  then have n: "n = from + i" "from + i \<le> length s" by (auto simp del: upt_Suc)
  show "from \<le> n" "n \<le> length s" "?P n" using i n by auto
  show "take (length pat) (drop k s) \<noteq> pat" if "from \<le> k" "k < n" for k
    using i(4) [of "k - from"] that n by (auto simp del: upt_Suc)
qed

lemma block_comment:
  assumes "index_of (of_chars ''*/'') s 0 = Some n"
  shows "rx_first NOT_CODE (0x2F # 0x2A # s) = Some (0x2F # 0x2A # take n s @ [0x2A, 0x2F], drop (n + 2) s)"
proof -
  note i = index_of_Some [OF assms]
  have pat: "of_chars ''*/'' = [0x2A, 0x2F]" by (simp add: of_chars_def)
  have e: "rx_run (kw ''*/'') (drop k s) = (if take 2 (drop k s) = [0x2A, 0x2F] then [([0x2A, 0x2F], [], drop (k + 2) s)] else [])" for k
  proof -
    have "map to_upper (take 2 x) = [0x2A, 0x2F] \<longleftrightarrow> take 2 x = [0x2A, 0x2F]" for x
      by (cases x; cases "tl x") (auto simp: to_upper_punct_iff)
    then show ?thesis by (simp add: pat numeral_2_eq_2 add.commute)
  qed
  have at: "rx_run (kw ''*/'') (drop n s) = [([0x2A, 0x2F], [], drop (n + 2) s)]"
    unfolding e using i(3) pat by (simp add: numeral_2_eq_2)
  have "\<exists>ns. rx_run (Seq (Lazy0 any) (kw ''*/'')) s = (take n s @ [0x2A, 0x2F], [], drop (n + 2) s) # ns"
    by (rule lazy_first [OF i(2) at]) (use i(4) pat in \<open>unfold e, simp add: numeral_2_eq_2\<close>)
  then obtain ns where "rx_run (Seq (Lazy0 any) (kw ''*/'')) s = (take n s @ [0x2A, 0x2F], [], drop (n + 2) s) # ns" by blast
  moreover have "rx_run (Seq (Seq (kw ''/*'') (Lazy0 any)) (kw ''*/'')) (0x2F # 0x2A # s) =
      rx_run (Seq (kw ''/*'') (Seq (Lazy0 any) (kw ''*/''))) (0x2F # 0x2A # s)"
    by (rule seq_assoc)
  ultimately have "\<exists>ms. rx_run RX_BLOCK_COMMENT (0x2F # 0x2A # s) = (0x2F # 0x2A # take n s @ [0x2A, 0x2F], [], drop (n + 2) s) # ms"
    by (simp add: RX_BLOCK_COMMENT_def rx_run.simps(5) [of "Word _"] of_chars_def)
  then show ?thesis by (auto simp: rx_first_def NOT_CODE_run literal_none line_none)
qed

section \<open>The tokens SQLite reads\<close>

text \<open>
  The tokens of a SQL text that can name something, by SQLite's rules: a bare word, a quoted name, with its
  doubled quotes left doubled, and a string, which SQLite also takes for a name where only a name can
  stand. Nothing is read from a literal, name or comment that is not closed.
\<close>

datatype sql_token = Bare js_string | Quoted js_string | Text js_string

definition name_start :: "16 word \<Rightarrow> bool" where "name_start c \<longleftrightarrow> ident_start c \<or> 0x80 \<le> c"
definition name_char :: "16 word \<Rightarrow> bool" where "name_char c \<longleftrightarrow> ident_char c \<or> 0x80 \<le> c"

lemma close_quote_less: "close_quote q t = Some (b, r) \<Longrightarrow> length r < length t"
  using close_quote_split by fastforce

function sql_tokens :: "js_string \<Rightarrow> sql_token list" where
  "sql_tokens [] = []"
| "sql_tokens (c # t) =
     (if c = 0x27 then (case close_quote c t of None \<Rightarrow> [] | Some (b, r) \<Rightarrow> Text b # sql_tokens r)
      else if c = 0x22 \<or> c = 0x60 then (case close_quote c t of None \<Rightarrow> [] | Some (b, r) \<Rightarrow> Quoted b # sql_tokens r)
      else if c = 0x5B then
        (if 0x5D \<in> set t then Quoted (takeWhile (\<lambda>x. x \<noteq> 0x5D) t) # sql_tokens (tl (dropWhile (\<lambda>x. x \<noteq> 0x5D) t)) else [])
      else if c = 0x2D \<and> t \<noteq> [] \<and> hd t = 0x2D then sql_tokens (dropWhile (\<lambda>x. x \<noteq> 0x0A) (tl t))
      else if c = 0x2F \<and> t \<noteq> [] \<and> hd t = 0x2A then
        (case index_of (of_chars ''*/'') (tl t) 0 of None \<Rightarrow> [] | Some n \<Rightarrow> sql_tokens (drop (n + 2) (tl t)))
      else if name_start c then Bare (c # takeWhile name_char t) # sql_tokens (dropWhile name_char t)
      else sql_tokens t)"
  by pat_completeness auto
termination
proof (relation "measure length", goal_cases)
  case (4 c t)
  have "length (tl (dropWhile (\<lambda>x. x \<noteq> 0x5D) t)) \<le> length (dropWhile (\<lambda>x. x \<noteq> 0x5D) t)" by simp
  then show ?case using length_dropWhile_le [of "\<lambda>x. x \<noteq> 0x5D" t] by simp
next
  case (5 c t)
  then show ?case using length_dropWhile_le [of "\<lambda>x. x \<noteq> 0x0A" "tl t"] by (cases t) auto
next
  case (6 c t n)
  then show ?case by (cases t) auto
next
  case (7 c t)
  then show ?case using length_dropWhile_le [of name_char t] by simp
qed (auto dest: close_quote_less)

declare sql_tokens.simps(2) [simp del]

definition reserved :: "js_string \<Rightarrow> bool" where
  "reserved n \<longleftrightarrow> (\<exists>r. lower n = of_chars ''_cf_'' @ r)"

text \<open>A quoted name in which nothing looks like the start of a literal or a comment.\<close>

definition plain :: "js_string \<Rightarrow> bool" where "plain b \<longleftrightarrow> (\<forall>c \<in> set b. \<not> starter c)"

definition names :: "sql_token list \<Rightarrow> js_string set" where
  "names ts = {n. Bare n \<in> set ts \<or> Quoted n \<in> set ts}"

lemma names_simps [simp]:
  "names [] = {}" "names (Bare n # ts) = insert n (names ts)" "names (Quoted n # ts) = insert n (names ts)"
  "names (Text n # ts) = names ts"
  by (auto simp: names_def)

section \<open>The identifiers the regulator looks at\<close>

abbreviation idents :: "js_string \<Rightarrow> js_string list" where "idents s \<equiv> match_all IDENTIFIER s"

lemma starter_words: "ident_char c \<Longrightarrow> \<not> starter c" "ident_start c \<Longrightarrow> ident_char c"
  by (auto simp: ident_char_def ident_start_def starter_def word_char_def letter_def lower_letter_def
      upper_letter_def js_digit_def)

lemma not_ident [simp]: "\<not> ident_char 0x20" "\<not> ident_char 0x22" "\<not> ident_char 0x60" "\<not> ident_char 0x5B"
  "\<not> ident_char 0x5D" "\<not> ident_char 0x27" "\<not> ident_char 0x2D" "\<not> ident_char 0x2F"
  by (simp_all add: ident_char_def word_char_def letter_def lower_letter_def upper_letter_def js_digit_def)

lemma not_ident_start: "\<not> ident_char c \<Longrightarrow> \<not> ident_start c"
  using starter_words(2) by blast

lemma not_name_start [simp]: "\<not> name_start 0x2D" "\<not> name_start 0x2F"
  by (simp_all add: name_start_def not_ident_start)

lemma idents_skip: "\<not> ident_start c \<Longrightarrow> idents (c # s) = idents s"
  by (simp add: match_all.simps(2) rx_first_def IDENTIFIER_def rx_run.simps(5))

lemma idents_word:
  assumes "ident_start c"
  shows "idents (c # s) = (c # takeWhile ident_char s) # idents (dropWhile ident_char s)"
proof -
  let ?n = "length (takeWhile ident_char s)"
  have "take ?n s = takeWhile ident_char s" "drop ?n s = dropWhile ident_char s"
    by (simp_all add: takeWhile_eq_take [symmetric] dropWhile_eq_drop [symmetric])
  then have "rx_first IDENTIFIER (c # s) = Some (c # takeWhile ident_char s, dropWhile ident_char s)"
    using assms length_dropWhile_le [of ident_char s]
    by (simp add: rx_first_def IDENTIFIER_def rx_run.simps(5) prefixes_down_def less_Suc_eq_le)
  then show ?thesis by (simp add: match_all.simps(2))
qed

text \<open>Words do not run across a character that is none of theirs.\<close>

lemma idents_append:
  assumes "s = [] \<or> \<not> ident_char (hd s)"
  shows "idents (u @ s) = idents u @ idents s"
proof (induction "length u" arbitrary: u rule: less_induct)
  case less
  show ?case
  proof (cases u)
    case (Cons c v)
    show ?thesis
    proof (cases "ident_start c")
      case True
      have s: "takeWhile ident_char s = []" "dropWhile ident_char s = s" using assms by (cases s; auto)+
      then have "takeWhile ident_char (v @ s) = takeWhile ident_char v" "dropWhile ident_char (v @ s) = dropWhile ident_char v @ s"
        by (cases "\<forall>x \<in> set v. ident_char x";
            simp add: takeWhile_append dropWhile_append takeWhile_eq_all_conv [THEN iffD2] dropWhile_eq_Nil_conv [THEN iffD2])+
      moreover have "length (dropWhile ident_char v) < length u" using Cons length_dropWhile_le [of ident_char v] by simp
      ultimately show ?thesis using less [of "dropWhile ident_char v"] idents_word [OF True] Cons by simp
    next
      case False
      then show ?thesis using less [of v] Cons by (simp add: idents_skip)
    qed
  qed simp
qed

lemma reserved_word:
  assumes "reserved n"
  shows "\<exists>t \<in> set (idents n). \<not> is_allowed_name t"
proof -
  obtain r where r: "lower n = 0x5F # 0x63 # 0x66 # 0x5F # r" using assms by (auto simp: reserved_def of_chars_def)
  then obtain a b c d m where n: "n = a # b # c # d # m" and l: "to_lower a = 0x5F" "to_lower b = 0x63" "to_lower c = 0x66" "to_lower d = 0x5F"
    by (auto simp: map_eq_Cons_conv)
  have e: "to_lower x = y \<Longrightarrow> x = y \<or> letter x" for x y by (auto simp: to_lower_def letter_def split: if_splits)
  have w: "ident_char 0x5F" "ident_char 0x63" "ident_char 0x66" "ident_start 0x5F" "\<And>x. letter x \<Longrightarrow> ident_char x \<and> ident_start x"
    by (simp_all add: ident_char_def ident_start_def word_char_def letter_def lower_letter_def)
  have i: "ident_start a" "ident_char b" "ident_char c" "ident_char d"
    using e [OF l(1)] e [OF l(2)] e [OF l(3)] e [OF l(4)] w by metis+
  then have "idents n = (a # b # c # d # takeWhile ident_char m) # idents (dropWhile ident_char m)"
    unfolding n by (simp add: idents_word)
  moreover have "\<not> is_allowed_name (a # b # c # d # x)" for x using l by (simp add: is_allowed_name_def of_chars_def)
  ultimately show ?thesis by simp
qed

text \<open>What the replaced text begins with is no part of a word, when the text itself does not.\<close>

lemma code_of_hd:
  assumes "s = [] \<or> \<not> ident_char (hd s)"
  shows "code_of s = [] \<or> \<not> ident_char (hd (code_of s))"
  using assms by (cases s) (auto simp: replace_all.simps(2) split: option.split)

lemma code_of_skip: "rx_first NOT_CODE (c # s) = Some (u, t) \<Longrightarrow> idents (code_of (c # s)) = idents (code_of t)"
  by (simp add: replace_all.simps(2)) (rule idents_skip, simp add: ident_start_def letter_def lower_letter_def upper_letter_def)

lemma code_of_quoted:
  assumes "\<not> starter q" "\<not> ident_char q" "\<not> starter c" "\<not> ident_char c" "plain b"
  shows "idents (code_of (c # b @ q # r)) = idents b @ idents (code_of r)"
proof -
  have "code_of (c # b @ q # r) = c # b @ q # code_of r"
    using assms code_run [of "c # b @ [q]" r] by (auto simp: plain_def)
  then show ?thesis using assms idents_append [of "q # code_of r" b] by (simp add: idents_skip not_ident_start)
qed

lemma reserved_found:
  assumes "n \<in> names (sql_tokens s)" "reserved n" "\<And>b. Quoted b \<in> set (sql_tokens s) \<Longrightarrow> plain b"
  shows "\<exists>t \<in> set (idents (code_of s)). \<not> is_allowed_name t"
  using assms(1,3)
proof (induction s rule: sql_tokens.induct)
  case (2 c t)
  have q: "\<not> starter 0x22" "\<not> starter 0x60" "\<not> starter 0x5B" "\<not> starter 0x5D" by (simp_all add: starter_def)
  consider (lit) "c = 0x27" | (name) "c = 0x22 \<or> c = 0x60" | (brack) "c = 0x5B"
    | (line) "c = 0x2D" "t \<noteq> []" "hd t = 0x2D" | (block) "c = 0x2F" "t \<noteq> []" "hd t = 0x2A"
    | (word) "name_start c" "c \<notin> {0x27, 0x22, 0x60, 0x5B}"
    | (other) "\<not> name_start c" "c \<notin> {0x27, 0x22, 0x60, 0x5B}" "\<not> (c = 0x2D \<and> t \<noteq> [] \<and> hd t = 0x2D)"
        "\<not> (c = 0x2F \<and> t \<noteq> [] \<and> hd t = 0x2A)"
    by blast
  then show ?case
  proof cases
    case lit
    then obtain b r where r: "close_quote 0x27 t = Some (b, r)" "sql_tokens (c # t) = Text b # sql_tokens r"
      using 2(8) by (auto simp: sql_tokens.simps(2) split: option.splits)
    have "\<exists>t \<in> set (idents (code_of r)). \<not> is_allowed_name t"
      by (rule 2(1) [OF lit]) (use 2(8,9) r lit in auto)
    then show ?thesis using code_of_skip [OF literal [OF r(1)]] lit by simp
  next
    case name
    then obtain b r where r: "close_quote c t = Some (b, r)" "sql_tokens (c # t) = Quoted b # sql_tokens r"
      using 2(8) by (auto simp: sql_tokens.simps(2) split: option.splits)
    have eq: "idents (code_of (c # t)) = idents b @ idents (code_of r)"
      unfolding close_quote_split [OF r(1)] by (rule code_of_quoted) (use name q 2(9) r(2) in auto)
    show ?thesis
    proof (cases "n = b")
      case True
      then show ?thesis using reserved_word [OF assms(2)] eq by auto
    next
      case False
      have "\<exists>t \<in> set (idents (code_of r)). \<not> is_allowed_name t"
        by (rule 2(2) [OF _ name r(1) refl]) (use 2(8,9) r name False in auto)
      then show ?thesis using eq by auto
    qed
  next
    case brack
    then have in_t: "0x5D \<in> set t" using 2(8) by (auto simp: sql_tokens.simps(2) split: if_splits)
    define b r where br: "b = takeWhile (\<lambda>x. x \<noteq> 0x5D) t" "r = tl (dropWhile (\<lambda>x. x \<noteq> 0x5D) t)"
    have tok: "sql_tokens (c # t) = Quoted b # sql_tokens r" using in_t brack by (simp add: sql_tokens.simps(2) br)
    have "dropWhile (\<lambda>x. x \<noteq> 0x5D) t = 0x5D # r"
      using in_t hd_dropWhile [of "\<lambda>x. x \<noteq> 0x5D" t] unfolding br
      by (cases "dropWhile (\<lambda>x. x \<noteq> 0x5D) t") (auto simp: dropWhile_eq_Nil_conv)
    then have t: "t = b @ 0x5D # r" unfolding br by (metis takeWhile_dropWhile_id)
    have eq: "idents (code_of (c # t)) = idents b @ idents (code_of r)"
      unfolding t by (rule code_of_quoted) (use brack q 2(9) tok in auto)
    show ?thesis
    proof (cases "n = b")
      case True
      then show ?thesis using reserved_word [OF assms(2)] eq by auto
    next
      case False
      have "\<exists>t \<in> set (idents (code_of r)). \<not> is_allowed_name t" unfolding br(2)
        by (rule 2(3) [OF _ _ brack in_t]) (use 2(8,9) tok brack False in \<open>auto simp: br\<close>)
      then show ?thesis using eq by auto
    qed
  next
    case line
    then obtain t' where t: "t = 0x2D # t'" by (cases t) auto
    have "\<exists>t \<in> set (idents (code_of (dropWhile (\<lambda>x. x \<noteq> 0x0A) (tl t)))). \<not> is_allowed_name t"
      by (rule 2(4)) (use 2(8,9) line in \<open>auto simp: sql_tokens.simps(2)\<close>)
    then show ?thesis using code_of_skip [OF line_comment] line t by simp
  next
    case block
    then obtain t' where t: "t = 0x2A # t'" by (cases t) auto
    obtain k where k: "index_of (of_chars ''*/'') t' 0 = Some k" using 2(8) block t
      by (auto simp: sql_tokens.simps(2) split: option.splits)
    have "\<exists>t \<in> set (idents (code_of (drop (k + 2) (tl t)))). \<not> is_allowed_name t"
      by (rule 2(5)) (use 2(8,9) block t k in \<open>auto simp: sql_tokens.simps(2)\<close>)
    then show ?thesis using code_of_skip [OF block_comment [OF k]] block t by simp
  next
    case word
    define w r where wr: "w = c # takeWhile name_char t" "r = dropWhile name_char t"
    have c: "c \<noteq> 0x2D" "c \<noteq> 0x2F" using word(1) by auto
    have tok: "sql_tokens (c # t) = Bare w # sql_tokens r" using word c by (simp add: sql_tokens.simps(2) wr)
    have "c # t = w @ r" by (simp add: wr)
    moreover have "\<forall>x \<in> set w. name_char x" using word(1) starter_words(2) set_takeWhileD
      by (fastforce simp: wr name_char_def name_start_def)
    then have "\<forall>x \<in> set w. \<not> starter x" using starter_words(1) by (auto simp: name_char_def starter_def)
    moreover have "r = [] \<or> \<not> ident_char (hd r)" using hd_dropWhile [of name_char t] unfolding wr(2) name_char_def by blast
    ultimately have eq: "idents (code_of (c # t)) = idents w @ idents (code_of r)"
      using code_run [of w r] idents_append [OF code_of_hd] by metis
    show ?thesis
    proof (cases "n = w")
      case True
      then show ?thesis using reserved_word [OF assms(2)] eq by auto
    next
      case False
      have "\<exists>t \<in> set (idents (code_of r)). \<not> is_allowed_name t" unfolding wr(2)
        by (rule 2(6)) (use 2(8,9) tok word c False in \<open>auto simp: wr\<close>)
      then show ?thesis using eq by auto
    qed
  next
    case other
    have tok: "sql_tokens (c # t) = sql_tokens t" using other by (auto simp: sql_tokens.simps(2))
    have "\<exists>t \<in> set (idents (code_of t)). \<not> is_allowed_name t"
      by (rule 2(7)) (use 2(8,9) tok other in auto)
    moreover have "code_of (c # t) = c # code_of t"
      using no_starter_first [of "c # t"] other by (cases t) (auto simp: replace_all.simps(2))
    ultimately show ?thesis using other(1) by (simp add: idents_skip name_start_def)
  qed
qed simp

section \<open>Reserved names are refused\<close>

lemma rx_search_at: "rx_test r z \<Longrightarrow> rx_search r (u @ z)"
  by (induction u) (cases z; simp)+

lemma reserved_hint:
  assumes "reserved n"
  shows "rx_search RESERVED_PREFIX_HINT (u @ n @ v)"
proof (rule rx_search_at)
  obtain r where r: "lower n = 0x5F # 0x63 # 0x66 # 0x5F # r" using assms by (auto simp: reserved_def of_chars_def)
  then obtain a b c d m where n: "n = a # b # c # d # m" and l: "to_lower a = 0x5F" "to_lower b = 0x63" "to_lower c = 0x66" "to_lower d = 0x5F"
    by (auto simp: map_eq_Cons_conv)
  have "to_upper x = to_upper (to_lower x)" for x
    by (auto simp: to_upper_def to_lower_def lower_letter_def upper_letter_def word_le_nat_alt unat_word_ariths)
  then have "to_upper a = to_upper 0x5F" "to_upper b = to_upper 0x63" "to_upper c = to_upper 0x66" "to_upper d = to_upper 0x5F"
    using l by metis+
  then show "rx_test RESERVED_PREFIX_HINT (n @ v)" by (simp add: rx_test_def RESERVED_PREFIX_HINT_def n of_chars_def)
qed

lemma token_step:
  "sql_tokens (c # t) = [] \<or> (\<exists>w r ts. c # t = w @ r \<and> w \<noteq> [] \<and> sql_tokens (c # t) = ts @ sql_tokens r \<and>
     (\<forall>n \<in> names ts. \<exists>u v. w = u @ n @ v))"
proof -
  let ?G = "\<lambda>w r ts. c # t = w @ r \<and> w \<noteq> [] \<and> sql_tokens (c # t) = ts @ sql_tokens r \<and> (\<forall>n \<in> names ts. \<exists>u v. w = u @ n @ v)"
  have no: "\<exists>w r ts. ?G w r ts" if "sql_tokens (c # t) = sql_tokens r" "t = w @ r" for w r
    by (rule exI [of _ "c # w"], rule exI [of _ r], rule exI [of _ "[]"]) (use that in simp)
  consider (str) "c = 0x27" | (name) "c = 0x22 \<or> c = 0x60" | (brack) "c = 0x5B"
    | (line) "c = 0x2D" "t \<noteq> []" "hd t = 0x2D" | (block) "c = 0x2F" "t \<noteq> []" "hd t = 0x2A"
    | (word) "name_start c" "c \<notin> {0x27, 0x22, 0x60, 0x5B, 0x2D, 0x2F}"
    | (other) "\<not> name_start c" "c \<notin> {0x27, 0x22, 0x60, 0x5B}" "\<not> (c = 0x2D \<and> t \<noteq> [] \<and> hd t = 0x2D)"
        "\<not> (c = 0x2F \<and> t \<noteq> [] \<and> hd t = 0x2A)"
    by fastforce
  then show ?thesis
  proof cases
    case str
    show ?thesis
    proof (cases "close_quote c t")
      case (Some x)
      then obtain b r where x: "close_quote c t = Some (b, r)" by (cases x) auto
      have "?G (c # b @ [c]) r [Text b]" using close_quote_split [OF x] x str by (simp add: sql_tokens.simps(2))
      then show ?thesis by blast
    qed (use str in \<open>simp add: sql_tokens.simps(2)\<close>)
  next
    case name
    show ?thesis
    proof (cases "close_quote c t")
      case (Some x)
      then obtain b r where x: "close_quote c t = Some (b, r)" by (cases x) auto
      have "?G (c # b @ [c]) r [Quoted b]" using close_quote_split [OF x] x name
        by (auto simp: sql_tokens.simps(2)) (metis append_Cons append_Nil)+
      then show ?thesis by blast
    qed (use name in \<open>auto simp: sql_tokens.simps(2)\<close>)
  next
    case brack
    show ?thesis
    proof (cases "0x5D \<in> set t")
      case True
      define b r where br: "b = takeWhile (\<lambda>x. x \<noteq> 0x5D) t" "r = tl (dropWhile (\<lambda>x. x \<noteq> 0x5D) t)"
      have "dropWhile (\<lambda>x. x \<noteq> 0x5D) t = 0x5D # r"
        using True hd_dropWhile [of "\<lambda>x. x \<noteq> 0x5D" t] unfolding br
        by (cases "dropWhile (\<lambda>x. x \<noteq> 0x5D) t") (auto simp: dropWhile_eq_Nil_conv)
      then have t: "t = b @ 0x5D # r" unfolding br by (metis takeWhile_dropWhile_id)
      have "sql_tokens (c # t) = Quoted b # sql_tokens r" using True brack by (simp add: sql_tokens.simps(2) br)
      moreover have "\<exists>u v. c # b @ [0x5D] = u @ b @ v" by (metis append_Cons append_Nil)
      ultimately have "?G (c # b @ [0x5D]) r [Quoted b]" using t by simp
      then show ?thesis by blast
    qed (use brack in \<open>simp add: sql_tokens.simps(2)\<close>)
  next
    case line
    then obtain t' where t: "t = 0x2D # t'" by (cases t) auto
    show ?thesis
      by (rule disjI2, rule no [of "dropWhile (\<lambda>x. x \<noteq> 0x0A) t'" "0x2D # takeWhile (\<lambda>x. x \<noteq> 0x0A) t'"])
        (use line t in \<open>simp_all add: sql_tokens.simps(2)\<close>)
  next
    case block
    then obtain t' where t: "t = 0x2A # t'" by (cases t) auto
    show ?thesis
    proof (cases "index_of (of_chars ''*/'') t' 0")
      case (Some k)
      show ?thesis
        by (rule disjI2, rule no [of "drop (k + 2) t'" "0x2A # take (k + 2) t'"])
          (use block t Some in \<open>simp_all add: sql_tokens.simps(2)\<close>)
    qed (use block t in \<open>simp add: sql_tokens.simps(2)\<close>)
  next
    case word
    have "?G (c # takeWhile name_char t) (dropWhile name_char t) [Bare (c # takeWhile name_char t)]"
      using word by (auto simp: sql_tokens.simps(2)) (metis append_Cons append_Nil append_Nil2)+
    then show ?thesis by blast
  next
    case other
    show ?thesis
      by (rule disjI2, rule no [of t "[]"]) (use other in \<open>auto simp: sql_tokens.simps(2)\<close>)
  qed
qed

lemma names_append [simp]: "names (ts @ us) = names ts \<union> names us"
  by (auto simp: names_def)

lemma infix_names: "n \<in> names (sql_tokens s) \<Longrightarrow> \<exists>u v. s = u @ n @ v"
proof (induction "length s" arbitrary: s rule: less_induct)
  case less
  obtain c t where s: "s = c # t" using less(2) by (cases s) auto
  obtain w r ts where w: "s = w @ r" "w \<noteq> []" "sql_tokens s = ts @ sql_tokens r" "\<forall>n \<in> names ts. \<exists>u v. w = u @ n @ v"
    using token_step [of c t] less(2) unfolding s by auto
  show ?case
  proof (cases "n \<in> names ts")
    case True
    then show ?thesis using w(1,4) by fastforce
  next
    case False
    then have "\<exists>u v. r = u @ n @ v" using less w by simp
    then show ?thesis using w(1) by (metis append.assoc)
  qed
qed

lemma refused_names:
  assumes "n \<in> names (sql_tokens query)" "reserved n" "\<And>b. Quoted b \<in> set (sql_tokens query) \<Longrightarrow> plain b"
  shows "require_allowed_names query = Inl SQL_RESERVED_PREFIX_MESSAGE"
proof -
  obtain u v where "query = u @ n @ v" using infix_names [OF assms(1)] by blast
  then have "rx_search RESERVED_PREFIX_HINT query" using reserved_hint [OF assms(2)] by simp
  moreover have "\<exists>t \<in> set (idents (code_of query)). \<not> is_allowed_name t" by (rule reserved_found [OF assms])
  ultimately show ?thesis by (auto simp: require_allowed_names_def list_all_iff)
qed

end
