(* ===== verification/Sql_Refusals.thy ===== *)
theory Sql_Refusals
  imports Sql_Lexer
begin

text \<open>
  What the regulator of application SQL guarantees to the rest of the storage: the two classifiers of a
  statement's text, \<open>refuseTransactionControl\<close> of \<open>src/src/api/sql.ts\<close> and \<open>classifyStateChange\<close> of
  \<open>src/src/util/sqlite.ts\<close>, strip comments in different ways, and are compared here.
\<close>

section \<open>A text that starts with a transaction keyword\<close>

definition controls :: "js_string \<Rightarrow> bool" where
  "controls s \<longleftrightarrow> (\<exists>u t. s = u @ t \<and> map to_upper u \<in> CONTROL_KEYWORDS \<and> (t = [] \<or> \<not> word_char (hd t)))"

lemma controlsI:
  assumes "(u, g, t) \<in> set (rx_run (Word w) s)" "w \<in> CONTROL_KEYWORDS" "t = [] \<or> \<not> word_char (hd t)"
  shows "controls s"
proof -
  have "s = u @ t" "map to_upper u = w"
    using assms(1) to_upper_id [OF control_upper [OF assms(2)]] by (auto split: if_splits)
  then show ?thesis using assms(2,3) unfolding controls_def by blast
qed

lemma controls_exec:
  assumes "rx_exec (Seq (Word w) q) s \<noteq> None" "w \<in> CONTROL_KEYWORDS" "needs_space q"
  shows "controls s"
proof -
  obtain v h t w' h' where m: "(v, h, t) \<in> set (rx_run (Word w) s)" "(w', h', []) \<in> set (rx_run q t)"
    using assms(1) unfolding rx_exec_iff rx_run_Seq by blast
  then have "t = [] \<or> space_start t" using assms(3) unfolding needs_space_def by metis
  then show ?thesis using controlsI [OF m(1) assms(2)] space_not_word by (auto simp: space_start_def)
qed

lemma control_keywords [simp]: "of_chars ''BEGIN'' \<in> CONTROL_KEYWORDS" "of_chars ''COMMIT'' \<in> CONTROL_KEYWORDS"
  "of_chars ''END'' \<in> CONTROL_KEYWORDS" "of_chars ''ROLLBACK'' \<in> CONTROL_KEYWORDS"
  "of_chars ''SAVEPOINT'' \<in> CONTROL_KEYWORDS" "of_chars ''RELEASE'' \<in> CONTROL_KEYWORDS"
  by (simp_all add: CONTROL_KEYWORDS_def)

lemma controls_boundary:
  assumes "rx_test_boundary RX_TRANSACTION_KEYWORD s"
  shows "controls s"
proof -
  obtain u g t where m: "(u, g, t) \<in> set (rx_run RX_TRANSACTION_KEYWORD s)" "t = [] \<or> \<not> word_char (hd t)"
    using assms unfolding rx_test_boundary_def list_ex_iff by (fastforce split: list.splits)
  then obtain w where "w \<in> CONTROL_KEYWORDS" "(u, g, t) \<in> set (rx_run (Word w) s)"
    unfolding RX_TRANSACTION_KEYWORD_def rx_run.simps(6) set_append CONTROL_KEYWORDS_def by blast
  then show ?thesis using controlsI m(2) by blast
qed

lemma classify_controls:
  assumes "classify s \<noteq> Inr NoChange"
  shows "controls (control_text s)"
proof (rule ccontr)
  assume no: "\<not> controls (control_text s)"
  have k: "rx_exec (Seq (Word w) q) (control_text s) = None" if "w \<in> CONTROL_KEYWORDS" "needs_space q" for w q
    using controls_exec [OF _ that] no by blast
  have "rx_exec RX_ROLLBACK_TO (control_text s) = None" "rx_exec RX_ROLLBACK (control_text s) = None"
    "rx_exec RX_SAVEPOINT (control_text s) = None" "rx_exec RX_BEGIN (control_text s) = None"
    "rx_exec RX_RELEASE (control_text s) = None"
    unfolding RX_ROLLBACK_TO_def RX_ROLLBACK_def RX_SAVEPOINT_def RX_BEGIN_def RX_RELEASE_def
    by (intro k control_keywords needs_space_intros)+
  moreover have "rx_exec RX_COMMIT (control_text s) = None"
    using rx_exec_keywords k [OF _ needs_space_Opt [OF needs_space_sp]] control_keywords
    unfolding RX_COMMIT_def by blast
  moreover have "\<not> rx_test_boundary RX_TRANSACTION_KEYWORD (control_text s)" using no controls_boundary by blast
  ultimately have "classify s = Inr NoChange" by (simp add: classify_def Let_def)
  then show False using assms by contradiction
qed

section \<open>The trivia before a statement\<close>

lemma js_space_code [simp]: "js_space c \<Longrightarrow> \<not> starter c"
  by (auto simp: starter_def js_space_def word_le_nat_alt)

lemma index_of_drop:
  assumes "index_of pat s k = Some n"
  shows "index_of pat (drop k s) 0 = Some (n - k)"
proof -
  note i = index_of_Some [OF assms]
  have "n - k \<le> length (drop k s)" using i(2) by simp
  moreover have "take (length pat) (drop (n - k) (drop k s)) = pat" using i(1,3) by simp
  moreover have "take (length pat) (drop j (drop k s)) \<noteq> pat" if "j < n - k" for j
    using i(4) [of "k + j"] that by (simp add: add.commute)
  ultimately have "\<exists>j. List.find (\<lambda>i. take (length pat) (drop i (drop k s)) = pat) [0..<Suc (length (drop k s))] = Some j \<and> j = n - k"
    unfolding find_Some_iff by (intro exI [of _ "n - k"] conjI exI [of _ "n - k"] refl) (auto simp del: upt_Suc)
  then show ?thesis unfolding index_of_def by blast
qed

lemma newline:
  assumes "index_of [c] s i = Some n"
  shows "drop n s = c # drop (n + 1) s" "dropWhile (\<lambda>x. x \<noteq> c) (drop i s) = drop n s"
proof -
  note f = index_of_Some [OF assms]
  have one: "take 1 (drop k s) = [s ! k]" if "k < length s" for k
    using that by (simp add: take_Suc hd_drop_conv_nth)
  have n: "n < length s" using f(3) by (cases "n < length s") auto
  then show d: "drop n s = c # drop (n + 1) s" using f(3) one [of n] by (simp add: Cons_nth_drop_Suc [symmetric])
  have "\<forall>x \<in> set (take (n - i) (drop i s)). x \<noteq> c"
  proof
    fix x assume "x \<in> set (take (n - i) (drop i s))"
    then obtain j where j: "j < n - i" "x = s ! (i + j)" by (auto simp: in_set_conv_nth)
    then show "x \<noteq> c" using f(4) [of "i + j"] one [of "i + j"] n by auto
  qed
  moreover have "drop i s = take (n - i) (drop i s) @ drop n s"
    using f(1) append_take_drop_id [of "n - i" "drop i s"] by simp
  ultimately show "dropWhile (\<lambda>x. x \<noteq> c) (drop i s) = drop n s"
    using d dropWhile_append2 [of "take (n - i) (drop i s)" "\<lambda>x. x \<noteq> c" "drop n s"] by simp
qed

lemma char_at_two:
  assumes "char_at s i a" "char_at s (i + 1) b"
  shows "drop i s = ch a # ch b # drop (i + 2) s"
  using assms by (simp add: char_at_def Cons_nth_drop_Suc [symmetric])

lemma code_cons: "rx_first NOT_CODE (c # s) = Some (u, t) \<Longrightarrow> code_of (c # s) = BLANK # code_of t"
  by (simp add: replace_all.simps(2))

definition blank :: "js_string \<Rightarrow> bool" where "blank w \<longleftrightarrow> (\<forall>c \<in> set w. js_space c)"

lemma trivia_code:
  assumes "strip_from s i \<noteq> []"
  shows "\<exists>w. blank w \<and> code_of (drop i s) = w @ code_of (strip_from s i)"
  using assms
proof (induction s i rule: strip_from.induct)
  case (1 s i0)
  define i where "i = skip_space s i0"
  define w where "w = takeWhile js_space (drop i0 s)"
  have w: "drop i0 s = w @ drop i s" "blank w"
    unfolding w_def i_def skip_space_def blank_def
    by (metis append_take_drop_id drop_drop takeWhile_eq_take add.commute) (auto dest: set_takeWhileD)
  have run: "code_of (drop i0 s) = w @ code_of (drop i s)" unfolding w(1) using w(2) by (intro code_run) (auto simp: blank_def)
  have ends: "strip_from s n = []" if "length s \<le> n" for n
    using that by (subst strip_from.simps) (simp add: skip_space_def char_at_def)
  have glue: ?case if g: "code_of (drop i s) = x' @ code_of (drop m s)" "blank x'"
      "strip_from s i0 = strip_from s m" "strip_from s m \<noteq> [] \<Longrightarrow> \<exists>w. blank w \<and> code_of (drop m s) = w @ code_of (strip_from s m)" for x' m
  proof -
    obtain w' where "blank w'" "code_of (drop m s) = w' @ code_of (strip_from s m)" using g(3,4) 1(3) by auto
    then have "blank (w @ x' @ w') \<and> code_of (drop i0 s) = (w @ x' @ w') @ code_of (strip_from s i0)"
      using g w(2) run by (auto simp: blank_def)
    then show ?thesis by blast
  qed
  consider (line) "char_at s i CHR ''-''" "char_at s (i + 1) CHR ''-''"
    | (block) "char_at s i CHR ''/''" "char_at s (i + 1) CHR ''*''"
    | (code) "\<not> (char_at s i CHR ''-'' \<and> char_at s (i + 1) CHR ''-'')" "\<not> (char_at s i CHR ''/'' \<and> char_at s (i + 1) CHR ''*'')"
    by blast
  then show ?case
  proof cases
    case line
    have d: "drop i s = 0x2D # 0x2D # drop (i + 2) s" using char_at_two [OF line] by simp
    have u: "strip_from s i0 = strip_from s (case index_of [0x0A] s i of None \<Rightarrow> length s | Some n \<Rightarrow> n + 1)"
      using line by (subst strip_from.simps) (simp add: Let_def i_def)
    obtain n where n: "index_of [0x0A] s i = Some n"
      using 1(3) u ends [of "length s"] by (cases "index_of [0x0A] s i") auto
    have "dropWhile (\<lambda>x. x \<noteq> 0x0A) (drop (i + 2) s) = drop n s" using newline(2) [OF n] d by simp
    then have "code_of (drop i s) = 0x20 # code_of (0x0A # drop (n + 1) s)"
      using code_cons [OF line_comment] d newline(1) [OF n] by simp
    also have "\<dots> = [0x20, 0x0A] @ code_of (drop (n + 1) s)" by (simp add: code_copied js_space_def)
    finally show ?thesis
      by (rule glue) (use 1(1) line n u in \<open>auto simp: blank_def js_space_def i_def\<close>)
  next
    case block
    have d: "drop i s = 0x2F # 0x2A # drop (i + 2) s" using char_at_two [OF block] by simp
    have u: "strip_from s i0 = strip_from s (case index_of (of_chars ''*/'') s (i + 2) of None \<Rightarrow> length s | Some n \<Rightarrow> n + 2)"
      using block by (subst strip_from.simps) (auto simp: Let_def i_def char_at_def)
    obtain n where n: "index_of (of_chars ''*/'') s (i + 2) = Some n"
      using 1(3) u ends [of "length s"] by (cases "index_of (of_chars ''*/'') s (i + 2)") auto
    have "drop (n - (i + 2) + 2) (drop (i + 2) s) = drop (n + 2) s"
      using index_of_ge [OF n] by (simp add: drop_drop del: add_2_eq_Suc add_2_eq_Suc')
    then have "code_of (drop i s) = [0x20] @ code_of (drop (n + 2) s)"
      using code_cons [OF block_comment [OF index_of_drop [OF n]]] d by simp
    then show ?thesis
      by (rule glue) (use 1(2) block n u in \<open>auto simp: blank_def js_space_def i_def char_at_def\<close>)
  next
    case code
    then have "strip_from s i0 = drop i s" unfolding i_def by (subst strip_from.simps) (auto simp: Let_def)
    then show ?thesis using w(2) run by auto
  qed
qed

section \<open>No transaction control gets past the regulator\<close>

lemma code_of_word:
  assumes "t = [] \<or> \<not> word_char (hd t)"
  shows "code_of t = [] \<or> \<not> word_char (hd (code_of t))"
proof -
  have "\<not> word_char 0x20" using space_not_word js_space_20(1) by blast
  then show ?thesis using assms by (cases t) (auto simp: replace_all.simps(2) split: option.split)
qed

lemma keyword_not_starter: "map to_upper u \<in> CONTROL_KEYWORDS \<Longrightarrow> c \<in> set u \<Longrightarrow> \<not> starter c"
proof -
  assume "map to_upper u \<in> CONTROL_KEYWORDS" "c \<in> set u"
  then have "letter c" using control_upper to_upper_upper by (fastforce simp: upper_text_def)
  then show ?thesis using letter_word starter_words(1) by (simp add: ident_char_def)
qed

lemma transaction_control_test:
  assumes "blank w" "map to_upper u \<in> CONTROL_KEYWORDS" "t = [] \<or> \<not> word_char (hd t)"
  shows "rx_test TRANSACTION_CONTROL (w @ u @ t)"
proof -
  let ?L = "\<lambda>c. js_space c \<or> c = ch CHR '';''"
  have "length w \<le> length (takeWhile ?L (w @ u @ t))"
    using assms(1) by (simp add: blank_def)
  then have "(w, [], u @ t) \<in> set (rx_run LEAD (w @ u @ t))"
    unfolding LEAD_def rx_run.simps(3) prefixes_down_mem by (intro exI [of _ "length w"]) simp
  note L = this
  have A: "(u, [], t) \<in> set (rx_run (alts (kw ''BEGIN'') (map kw [''COMMIT'', ''END'', ''ROLLBACK'', ''SAVEPOINT'', ''RELEASE''])) (u @ t))"
  proof -
    have "(u, [], t) \<in> set (rx_run (Word v) (u @ t))" if "map to_upper u = v" "upper_text v" for v
    proof -
      have "length v = length u" using that(1) by auto
      then show ?thesis using that to_upper_id [OF that(2)] by simp
    qed
    then have "(u, [], t) \<in> set (rx_run (Word (map to_upper u)) (u @ t))" using control_upper [OF assms(2)] by blast
    then show ?thesis using assms(2) unfolding CONTROL_KEYWORDS_def
      by (auto simp del: rx_run.simps(1) simp add: rx_run.simps(6))
  qed
  have B: "([], [], t) \<in> set (rx_run Boundary t)" using assms(3) by (cases t) auto
  have seq: "(v @ v', h @ h', z') \<in> set (rx_run (Seq r q) y)"
    if "(v, h, z) \<in> set (rx_run r y)" "(v', h', z') \<in> set (rx_run q z)" for v v' h h' z z' r q y
    using that unfolding rx_run_Seq by blast
  have "((w @ u) @ [], ([] @ []) @ [], t) \<in> set (rx_run TRANSACTION_CONTROL (w @ u @ t))"
    unfolding TRANSACTION_CONTROL_def foldl.simps(2) [of _ _ "alts _ _"] foldl.simps(2) [of _ _ Boundary] foldl.simps(1)
    by (rule seq [OF seq [OF L A] B])
  then show ?thesis unfolding rx_test_def by (metis empty_iff list.set(1))
qed

text \<open>
  C36. Application SQL cannot move the transaction stack behind the runtime's back: whatever statement the
  regulator lets through, however its keyword is hidden in comments, white space or letter case,
  \<open>classifyStateChange\<close> takes it for one that changes no transaction. So only \<open>transaction()\<close>,
  \<open>transactionSync()\<close> and the automatic transactions of the storage begin, commit or roll back.
\<close>

theorem regulated_sql_moves_no_transaction:
  assumes "regulate_untrusted_statement s = Inr ()"
  shows "classify s = Inr NoChange"
proof (rule ccontr)
  assume "classify s \<noteq> Inr NoChange"
  then obtain u t where ct: "control_text s = u @ t" "map to_upper u \<in> CONTROL_KEYWORDS" "t = [] \<or> \<not> word_char (hd t)"
    using classify_controls unfolding controls_def by blast
  obtain r where r: "strip_leading_trivia s = control_text s @ r" "\<forall>c \<in> set r. \<not> word_char c"
    using control_text_split by blast
  have tr: "t @ r = [] \<or> \<not> word_char (hd (t @ r))" using ct(3) r(2) by (cases t; cases r) auto
  have "u \<noteq> []" using ct(2) by (auto simp: CONTROL_KEYWORDS_def of_chars_def)
  then have "strip_from s 0 \<noteq> []" using r(1) ct(1) by (simp add: strip_leading_trivia_def)
  then obtain w where w: "blank w" "code_of s = w @ code_of (strip_from s 0)"
    using trivia_code [of s 0] by auto
  have "code_of (strip_from s 0) = u @ code_of (t @ r)"
    using r(1) ct(1) code_run [of u "t @ r"] keyword_not_starter [OF ct(2)] by (simp add: strip_leading_trivia_def)
  then have "rx_test TRANSACTION_CONTROL (code_of s)"
    using transaction_control_test [OF w(1) ct(2) code_of_word [OF tr]] w(2) by simp
  then show False
    using assms by (simp add: regulate_untrusted_statement_def refuse_transaction_control_def allow_transactions_def)
qed

lemma regulated_sql_moves_no_transaction_witness: "classify (of_chars ''/*END*/SELECT 1'') = Inr NoChange"
proof -
  have "regulate_untrusted_statement (of_chars ''/*END*/SELECT 1'') = Inr ()" by code_simp
  from regulated_sql_moves_no_transaction [OF this] show ?thesis .
qed

end
