(* ===== verification/Sql_Storage.thy ===== *)
theory Sql_Storage
  imports Sql_Refusals Sqlite_Inv
begin

text \<open>
  The public \<open>sql\<close> object of a Durable Object, classes \<open>SqlStorage\<close> and \<open>Cursor\<close> of
  \<open>src/src/api/sql.ts\<close>, over \<open>SqliteDatabase\<close>. A JavaScript number is an integer here; Number(n) of a
  64-bit integer is the nearest of those a double can hold.
\<close>

section \<open>Values\<close>

text \<open>What \<open>exec\<close> may be given; \<open>JOther\<close> is any other object, with its string tag.\<close>

datatype js_value = JUndefined | JNull | JString js_string | JNumber int | JBoolean bool | JBigInt int | JBytes bytes
  | JOther string

definition to_sql_binding_value :: "js_value \<Rightarrow> js_exn + sql_value" where
  "to_sql_binding_value v =
     (case v of
        JNull \<Rightarrow> Inr SNull
      | JUndefined \<Rightarrow> Inr SNull
      | JString s \<Rightarrow> Inr (SText s)
      | JNumber n \<Rightarrow> Inr (SNum n)
      | JBoolean b \<Rightarrow> Inr (SText (of_chars (if b then ''true'' else ''false'')))
      | JBigInt _ \<Rightarrow> Inl (Failure ''Cannot convert a BigInt value to a number'')
      | JBytes b \<Rightarrow> Inr (SBlob b)
      | JOther tag \<Rightarrow> Inl (Failure (''Cannot convert '' @ tag @ '' to a SQL value'')))"

fun map_or_throw :: "('a \<Rightarrow> js_exn + 'b) \<Rightarrow> 'a list \<Rightarrow> js_exn + 'b list" where
  "map_or_throw f [] = Inr []"
| "map_or_throw f (x # xs) =
     (case f x of Inl e \<Rightarrow> Inl e | Inr y \<Rightarrow> map_sum id (\<lambda>ys. y # ys) (map_or_throw f xs))"

function bit_size :: "int \<Rightarrow> nat" where
  "bit_size n = (if n \<le> 0 then 0 else Suc (bit_size (n div 2)))"
  by auto
termination by (relation "measure nat") auto

declare bit_size.simps [simp del]

text \<open>\<open>Number(n)\<close>: 53 significant bits, rounding to nearest, ties to even.\<close>

definition number_of :: "int \<Rightarrow> int" where
  "number_of n =
     (let m = \<bar>n\<bar>; k = bit_size m - 53; q = m div 2 ^ k; r = 2 * (m mod 2 ^ k)
      in sgn n * (2 ^ k * (if r > 2 ^ k \<or> r = 2 ^ k \<and> odd q then q + 1 else q)))"

definition to_sql_storage_value :: "sql_value \<Rightarrow> sql_value" where
  "to_sql_storage_value v = (case v of SNum n \<Rightarrow> SNum (number_of n) | _ \<Rightarrow> v)"

section \<open>Cursors\<close>

record cursor =
  cu_columns :: "js_string list"
  cu_rows :: "sql_value list list"
  cu_written :: nat
  cu_position :: nat

definition new_sql_cursor :: "sql_result \<Rightarrow> cursor" where
  "new_sql_cursor r = \<lparr>cu_columns = rs_columns r, cu_rows = map (map to_sql_storage_value) (rs_rows r),
     cu_written = rs_written r, cu_position = 0\<rparr>"

definition next_raw :: "cursor \<Rightarrow> sql_value list option \<times> cursor" where
  "next_raw c = (if cu_position c < length (cu_rows c)
     then (Some (cu_rows c ! cu_position c), c\<lparr>cu_position := cu_position c + 1\<rparr>) else (None, c))"

text \<open>
  A row object: a property for each column name, the last column winning; assigning to \<open>__proto__\<close>
  makes no property.
\<close>

type_synonym row_object = "js_string \<Rightarrow> sql_value option"

definition set_property :: "js_string \<Rightarrow> sql_value \<Rightarrow> row_object \<Rightarrow> row_object" where
  "set_property name v row = (if name = of_chars ''__proto__'' then row else row(name \<mapsto> v))"

fun row_from :: "js_string list \<Rightarrow> sql_value list \<Rightarrow> nat \<Rightarrow> row_object \<Rightarrow> row_object" where
  "row_from [] raw i row = row"
| "row_from (name # rest) raw i row =
     row_from rest raw (Suc i) (set_property name (case column raw i of None \<Rightarrow> SNull | Some v \<Rightarrow> v) row)"

definition next_row :: "cursor \<Rightarrow> row_object option \<times> cursor" where
  "next_row c = (case next_raw c of
     (None, c') \<Rightarrow> (None, c')
   | (Some raw, c') \<Rightarrow> (Some (row_from (cu_columns c') raw 0 Map.empty), c'))"

text \<open>
  \<open>next\<close> of the cursor, of its \<open>raw()\<close> iterator and of its row iterator; \<open>None\<close> is \<open>done\<close>. The
  iterators keep nothing but the cursor.
\<close>

definition cursor_next_row :: "cursor \<Rightarrow> row_object option \<times> cursor" where "cursor_next_row c = next_row c"
definition raw_iterator_next :: "cursor \<Rightarrow> sql_value list option \<times> cursor" where "raw_iterator_next c = next_raw c"
definition row_iterator_next :: "cursor \<Rightarrow> row_object option \<times> cursor" where "row_iterator_next c = next_row c"

lemma next_row_moves: "next_row c = (Some row, c') \<Longrightarrow> length (cu_rows c') - cu_position c' < length (cu_rows c) - cu_position c"
  by (auto simp: next_row_def next_raw_def split: if_splits)

function to_array :: "cursor \<Rightarrow> row_object list \<times> cursor" where
  "to_array c = (case next_row c of
     (None, c') \<Rightarrow> ([], c')
   | (Some row, c') \<Rightarrow> (case to_array c' of (rows, c'') \<Rightarrow> (row # rows, c'')))"
  by pat_completeness auto
termination
  by (relation "measure (\<lambda>c. length (cu_rows c) - cu_position c)") (auto dest: next_row_moves [OF sym])

declare to_array.simps [simp del]

definition NO_RESULTS :: js_exn where
  "NO_RESULTS = Failure ''Expected exactly one result from SQL query, but got no results.''"
definition MULTIPLE_RESULTS :: js_exn where
  "MULTIPLE_RESULTS = Failure ''Expected exactly one result from SQL query, but got multiple results.''"

definition cursor_one :: "cursor \<Rightarrow> (js_exn + row_object) \<times> cursor" where
  "cursor_one c = (case next_row c of
     (None, c') \<Rightarrow> (Inl NO_RESULTS, c')
   | (Some row, c') \<Rightarrow> (if cu_position c' < length (cu_rows c')
                      then (Inl MULTIPLE_RESULTS, c'\<lparr>cu_position := length (cu_rows c')\<rparr>) else (Inr row, c')))"

definition rows_read :: "cursor \<Rightarrow> nat" where "rows_read c = cu_position c"

section \<open>The object\<close>

text \<open>
  What the object is built on: whether an invocation holds the input lock, with the text that tells how it
  was lost, and whether \<open>getSqliteDb\<close> answers. Its one field of state is the memoized page size.
\<close>

record sql_context =
  sc_current :: bool
  sc_lost_lock :: string
  sc_owner :: "js_exn + unit"

definition require_input_lock :: "sql_context \<Rightarrow> string \<Rightarrow> js_exn + unit" where
  "require_input_lock x what =
     (if sc_current x then Inr ()
      else Inl (Failure (what @ '': no input lock available in this context'' @ sc_lost_lock x)))"

definition sql_exec :: "sql_context \<Rightarrow> ('f, 'c, 'm) hooks \<Rightarrow> 'f sql_backend \<Rightarrow> js_string \<Rightarrow> js_value list \<Rightarrow>
    ('f, 'c, 'm) sqlite \<Rightarrow> ((js_exn + cursor) \<times> ('f, 'c, 'm) sqlite) option" where
  "sql_exec x h be query bindings s =
     (case require_input_lock x ''sql.exec()'' of Inl e \<Rightarrow> Some (Inl e, s) | Inr _ \<Rightarrow>
     (case sc_owner x of Inl e \<Rightarrow> Some (Inl e, s) | Inr _ \<Rightarrow>
     (case map_or_throw to_sql_binding_value bindings of Inl e \<Rightarrow> Some (Inl e, s) | Inr sql_bindings \<Rightarrow>
     (case require_allowed_names query of Inl e \<Rightarrow> Some (Inl e, s) | Inr _ \<Rightarrow>
       map_option (\<lambda>(r, t). (map_sum id new_sql_cursor r, t))
         (db_exec h be regulate_untrusted_statement query sql_bindings False s)))))"

definition sql_ingest :: "sql_context \<Rightarrow> ('f, 'c, 'm) hooks \<Rightarrow> 'f sql_backend \<Rightarrow> (js_exn \<Rightarrow> bool) \<Rightarrow> js_string \<Rightarrow>
    ('f, 'c, 'm) sqlite \<Rightarrow> ((js_exn + js_string \<times> nat \<times> nat \<times> nat) \<times> ('f, 'c, 'm) sqlite) option" where
  "sql_ingest x h be incomplete query s =
     (case require_input_lock x ''sql.ingest()'' of Inl e \<Rightarrow> Some (Inl e, s) | Inr _ \<Rightarrow>
     (case require_allowed_names query of Inl e \<Rightarrow> Some (Inl e, s) | Inr _ \<Rightarrow>
     (case sc_owner x of Inl e \<Rightarrow> Some (Inl e, s) | Inr _ \<Rightarrow>
       db_ingest h be incomplete regulate_untrusted_statement query s)))"

text \<open>\<open>prepare\<close> gives a function that calls \<open>exec\<close>, in the context of its own call.\<close>

definition sql_prepare :: "sql_context \<Rightarrow> js_string \<Rightarrow> js_exn + js_string" where
  "sql_prepare x query = map_sum id (\<lambda>_. query) (require_input_lock x ''sql.prepare()'')"

definition run_prepared :: "sql_context \<Rightarrow> ('f, 'c, 'm) hooks \<Rightarrow> 'f sql_backend \<Rightarrow> js_string \<Rightarrow> js_value list \<Rightarrow>
    ('f, 'c, 'm) sqlite \<Rightarrow> ((js_exn + cursor) \<times> ('f, 'c, 'm) sqlite) option" where
  "run_prepared x h be prepared bindings s = sql_exec x h be prepared bindings s"

text \<open>Queries of the runtime's own, which no regulator sees.\<close>

definition trusted_run :: "('f, 'c, 'm) hooks \<Rightarrow> 'f sql_backend \<Rightarrow> js_string \<Rightarrow> ('f, 'c, 'm) sqlite \<Rightarrow>
    ((js_exn + sql_result) \<times> ('f, 'c, 'm) sqlite) option" where
  "trusted_run h be sql s = db_exec h be (\<lambda>_. Inr ()) sql [] False s"

definition read_sql_number :: "sql_result \<Rightarrow> string \<Rightarrow> js_exn + int" where
  "read_sql_number r what =
     (case rs_rows r of
        (SNum n # _) # _ \<Rightarrow> Inr (number_of n)
      | _ \<Rightarrow> Inl (Failure (''Expected a number for the database's '' @ what @ ''.'')))"

definition get_page_size :: "('f, 'c, 'm) hooks \<Rightarrow> 'f sql_backend \<Rightarrow> int option \<Rightarrow> ('f, 'c, 'm) sqlite \<Rightarrow>
    ((js_exn + int) \<times> int option \<times> ('f, 'c, 'm) sqlite) option" where
  "get_page_size h be cached s =
     (case cached of
        Some n \<Rightarrow> Some (Inr n, cached, s)
      | None \<Rightarrow> map_option (\<lambda>(r, t). (case r of
            Inl e \<Rightarrow> (Inl e, None, t)
          | Inr v \<Rightarrow> (case read_sql_number v ''page size'' of Inl e \<Rightarrow> (Inl e, None, t) | Inr n \<Rightarrow> (Inr n, Some n, t))))
          (trusted_run h be (of_chars ''select * from pragma_page_size;'') s))"

definition database_size :: "sql_context \<Rightarrow> ('f, 'c, 'm) hooks \<Rightarrow> 'f sql_backend \<Rightarrow> int option \<Rightarrow> ('f, 'c, 'm) sqlite \<Rightarrow>
    ((js_exn + int) \<times> int option \<times> ('f, 'c, 'm) sqlite) option" where
  "database_size x h be cached s =
     (case require_input_lock x ''sql.databaseSize'' of Inl e \<Rightarrow> Some (Inl e, cached, s) | Inr _ \<Rightarrow>
     (case sc_owner x of Inl e \<Rightarrow> Some (Inl e, cached, s) | Inr _ \<Rightarrow>
     (case trusted_run h be (of_chars ''select (select * from pragma_page_count) - (select * from pragma_freelist_count);'') s of
        None \<Rightarrow> None
      | Some (Inl e, t) \<Rightarrow> Some (Inl e, cached, t)
      | Some (Inr r, t) \<Rightarrow>
          (case read_sql_number r ''page count'' of
             Inl e \<Rightarrow> Some (Inl e, cached, t)
           | Inr pages \<Rightarrow> map_option (\<lambda>(q, c, t). (map_sum id (\<lambda>size. number_of (pages * size)) q, c, t))
               (get_page_size h be cached t)))))"

definition set_max_page_count_for_test :: "sql_context \<Rightarrow> ('f, 'c, 'm) hooks \<Rightarrow> 'f sql_backend \<Rightarrow> nat \<Rightarrow>
    ('f, 'c, 'm) sqlite \<Rightarrow> ((js_exn + unit) \<times> ('f, 'c, 'm) sqlite) option" where
  "set_max_page_count_for_test x h be count s =
     (case require_input_lock x ''sql.setMaxPageCountForTest()'' of Inl e \<Rightarrow> Some (Inl e, s) | Inr _ \<Rightarrow>
     (case sc_owner x of Inl e \<Rightarrow> Some (Inl e, s) | Inr _ \<Rightarrow>
       map_option (\<lambda>(r, t). (map_sum id (\<lambda>_. ()) r, t))
         (trusted_run h be (of_chars ''PRAGMA max_page_count = '' @ js_decimal count) s)))"

section \<open>What a cursor yields\<close>

lemma bit_size_le: "m < 2 ^ k \<Longrightarrow> bit_size m \<le> k"
proof (induction k arbitrary: m)
  case (Suc k)
  then have "m div 2 < 2 ^ k" by simp
  then show ?case using Suc(1) [of "m div 2"] by (simp add: bit_size.simps [of m])
qed (simp add: bit_size.simps)

lemma number_of_safe: "\<bar>n\<bar> \<le> MAX_SAFE \<Longrightarrow> number_of n = n"
proof -
  assume "\<bar>n\<bar> \<le> MAX_SAFE"
  then have "\<bar>n\<bar> < 2 ^ 53" by (simp add: MAX_SAFE_def)
  then have "bit_size \<bar>n\<bar> - 53 = 0" using bit_size_le by simp
  then show ?thesis by (simp add: number_of_def Let_def sgn_if)
qed

abbreviation row_of :: "cursor \<Rightarrow> sql_value list \<Rightarrow> row_object" where
  "row_of c raw \<equiv> row_from (cu_columns c) raw 0 Map.empty"

text \<open>
  The cursor and its iterators share one position: whatever reads a row takes the next one, and
  \<open>toArray\<close> takes all that are left.
\<close>

lemma next_row_eq:
  "next_row c = (if cu_position c < length (cu_rows c)
     then (Some (row_of c (cu_rows c ! cu_position c)), c\<lparr>cu_position := cu_position c + 1\<rparr>) else (None, c))"
  by (simp add: next_row_def next_raw_def)

lemma to_array_rest:
  assumes "cu_position c \<le> length (cu_rows c)"
  shows "to_array c = (map (row_of c) (drop (cu_position c) (cu_rows c)), c\<lparr>cu_position := length (cu_rows c)\<rparr>)"
  using assms
proof (induction c rule: to_array.induct)
  case (1 c)
  show ?case
  proof (cases "cu_position c < length (cu_rows c)")
    case True
    let ?d = "c\<lparr>cu_position := cu_position c + 1\<rparr>"
    have "to_array ?d = (map (row_of c) (drop (cu_position c + 1) (cu_rows c)), c\<lparr>cu_position := length (cu_rows c)\<rparr>)"
      using 1(1) [OF _ refl, of "row_of c (cu_rows c ! cu_position c)" ?d] True by (simp add: next_row_eq)
    then show ?thesis using True Cons_nth_drop_Suc [OF True] by (simp add: to_array.simps [of c] next_row_eq flip: Cons_nth_drop_Suc)
  next
    case False
    then show ?thesis using 1(2) by (simp add: to_array.simps [of c] next_row_eq)
  qed
qed

lemma one_exact:
  assumes "cu_position c \<le> length (cu_rows c)"
  shows "(\<exists>row. fst (cursor_one c) = Inr row) \<longleftrightarrow> length (drop (cu_position c) (cu_rows c)) = 1"
  using assms by (auto simp: cursor_one_def next_row_eq)

text \<open>A column is read by its name when the names differ, unless it is called \<open>__proto__\<close>.\<close>

lemma row_from_other: "n \<notin> set cols \<Longrightarrow> row_from cols raw i row n = row n"
  by (induction cols raw i row rule: row_from.induct) (auto simp: set_property_def)

lemma row_from_column:
  assumes "distinct cols" "j < length cols" "cols ! j \<noteq> of_chars ''__proto__''"
  shows "row_from cols raw i row (cols ! j) = Some (case column raw (i + j) of None \<Rightarrow> SNull | Some v \<Rightarrow> v)"
  using assms
proof (induction cols raw i row arbitrary: j rule: row_from.induct)
  case (2 name rest raw i row)
  show ?case
  proof (cases j)
    case 0
    then show ?thesis using 2(2,4) row_from_other [of name rest] by (simp add: set_property_def)
  next
    case (Suc k)
    then show ?thesis using 2(1) [of k] 2(2-4) by simp
  qed
qed simp

end
