(* ===== verification/Sql_Actor.thy ===== *)
theory Sql_Actor
  imports Sql_Storage Atomic_Props
begin

text \<open>
  Application SQL in an actor: what the regulator keeps it from, whatever text it runs, and where the
  regulator can be evaded.
\<close>

section \<open>Loops over regulated statements\<close>


section \<open>The transactions of an actor\<close>






text \<open>A backend that takes the whole text for one statement, on the actor inside \<open>transactionSync\<close>.\<close>

definition one_statement :: "js_string \<Rightarrow> unit tables sql_file \<Rightarrow> js_exn + unit stmt" where
  "one_statement text f = Inr (data_stmt text 0 (\<lambda>b d. (Inr (no_rows 0), d)))"



definition any_context :: sql_context where "any_context = \<lparr>sc_current = True, sc_lost_lock = [], sc_owner = Inr ()\<rparr>"



section \<open>Reserved names\<close>

text \<open>
  C38. The regulator never lets application SQL name the runtime's own tables by a name it can see: when
  the tokens SQLite reads in a text hold a bare or quoted name that begins with \<open>_cf_\<close>, in whatever case and
  quoting, \<open>sql.exec\<close> and \<open>sql.ingest\<close> throw and nothing of the text runs, provided only that no quoted name
  of the text has a quote, hyphen or slash in it.
\<close>

theorem reserved_names_refused:
  assumes "n \<in> names (sql_tokens query)" "reserved n" "\<And>b. Quoted b \<in> set (sql_tokens query) \<Longrightarrow> plain b"
  shows "(\<exists>e. sql_exec x h be query bindings s = Some (Inl e, s)) \<and>
    (\<exists>e. sql_ingest x h be incomplete query s = Some (Inl e, s))"
  using refused_names [OF assms] by (auto simp: sql_exec_def sql_ingest_def split: sum.splits)

lemma reserved_names_refused_witness:
  "\<forall>h s. \<exists>e. sql_exec any_context h (file_backend one_statement (empty_tables ())) (of_chars ''SELECT [_Cf_KV]'') [] s = Some (Inl e, s)"
proof -
  let ?q = "of_chars ''SELECT [_Cf_KV]''"
  have t: "sql_tokens ?q = [Bare (of_chars ''SELECT''), Quoted (of_chars ''_Cf_KV'')]" by code_simp
  have "of_chars ''_Cf_KV'' \<in> names (sql_tokens ?q)" unfolding t by simp
  moreover have "reserved (of_chars ''_Cf_KV'')"
    unfolding reserved_def by (rule exI [of _ "of_chars ''kv''"]) code_simp
  moreover have "plain b" if "Quoted b \<in> set (sql_tokens ?q)" for b
  proof -
    have "b = of_chars ''_Cf_KV''" using that unfolding t by simp
    then show ?thesis by (simp add: plain_def starter_def of_chars_def)
  qed
  ultimately show ?thesis using reserved_names_refused [of "of_chars ''_Cf_KV''" ?q] by blast
qed





end
