(* ===== verification/Alarm_Coordinator.thy ===== *)
theory Alarm_Coordinator
  imports Alarm_Scheduler
begin

text \<open>
  \<open>BrowserAlarmCoordinator\<close> of \<open>src/src/browser/alarm-coordinator.ts\<close>: it keeps the one alarm a browser
  gives an extension in step with a journal, though the process may be stopped at any await.

  Each of its operations loads the journal, decides at once what to write, and awaits the writes one by
  one; so an operation is its decision, a function of the journal, and the list of writes that are left.
  Operations run one after the other on the promise \<open>#tail\<close>, here a queue of calls. What else the host
  stores in a projection, a delivery or the journal is left out.
\<close>

section \<open>The journal\<close>

record alarm_projection =
  pj_generation :: nat
  pj_when :: "int option"

record alarm_delivery =
  dv_generation :: nat
  dv_retry :: nat
  dv_wake :: int

record alarm_journal =
  jn_delivery :: "alarm_delivery option"
  jn_projection :: alarm_projection

text \<open>The writes: \<open>store.save\<close>, and \<open>physical.create\<close> or \<open>physical.clear\<close>.\<close>

datatype alarm_write = Save alarm_journal | Arm int | Disarm

definition apply_when :: "int option \<Rightarrow> alarm_write" where
  "apply_when w = (case w of None \<Rightarrow> Disarm | Some t \<Rightarrow> Arm t)"

section \<open>What an operation decides\<close>

definition project_writes :: "alarm_projection \<Rightarrow> alarm_journal option \<Rightarrow> alarm_write list" where
  "project_writes parsed stored =
     (case stored of
        Some current \<Rightarrow>
          (if pj_generation parsed < pj_generation (jn_projection current) then []
           else (case jn_delivery current of
               Some d \<Rightarrow>
                 (if pj_generation parsed \<noteq> pj_generation (jn_projection current) \<or> pj_when parsed \<noteq> pj_when (jn_projection current)
                  then [Save \<lparr>jn_delivery = Some d, jn_projection = parsed\<rparr>] else [])
             | None \<Rightarrow> [Save \<lparr>jn_delivery = None, jn_projection = parsed\<rparr>, apply_when (pj_when parsed)]))
      | None \<Rightarrow> [Save \<lparr>jn_delivery = None, jn_projection = parsed\<rparr>, apply_when (pj_when parsed)])"

definition reconcile_writes :: "int \<Rightarrow> alarm_journal option \<Rightarrow> alarm_write list" where
  "reconcile_writes now stored =
     (case stored of
        None \<Rightarrow> []
      | Some current \<Rightarrow> (case jn_delivery current of
            Some d \<Rightarrow> [Arm (max (dv_wake d) now)]
          | None \<Rightarrow> [apply_when (pj_when (jn_projection current))]))"

text \<open>
  The first half of \<open>fire\<close>: the writes, and the delivery that is attempted after them, if any. It may
  throw where the delay is computed.
\<close>

definition wake_of :: "alarm_journal \<Rightarrow> int option" where
  "wake_of j = (case jn_delivery j of Some d \<Rightarrow> Some (dv_wake d) | None \<Rightarrow> pj_when (jn_projection j))"

definition fire_attempt :: "int \<Rightarrow> int \<Rightarrow> alarm_journal option \<Rightarrow> js_exn + alarm_write list \<times> alarm_delivery option" where
  "fire_attempt now scheduled_time stored =
     (let current = (case stored of Some j \<Rightarrow> j
        | None \<Rightarrow> \<lparr>jn_delivery = None, jn_projection = \<lparr>pj_generation = 0, pj_when = Some scheduled_time\<rparr>\<rparr>)
      in case wake_of current of
           None \<Rightarrow> Inr ([], None)
         | Some expected_wake \<Rightarrow>
             (if scheduled_time < expected_wake then Inr ([Arm expected_wake], None)
              else (let retry_count = (case jn_delivery current of
                        Some d \<Rightarrow> if dv_generation d = pj_generation (jn_projection current) then dv_retry d else 0
                      | None \<Rightarrow> 0)
                in case alarm_retry_delay_ms (min (int retry_count) (ALARM_RETRY_MAX_TRIES - 1)) of
                     Inl e \<Rightarrow> Inl e
                   | Inr delay \<Rightarrow>
                       (let delivery = \<lparr>dv_generation = pj_generation (jn_projection current),
                              dv_retry = nat (min (int retry_count + 1) ALARM_RETRY_MAX_TRIES), dv_wake = now + delay\<rparr>
                        in Inr ([Arm (dv_wake delivery), Save (current\<lparr>jn_delivery := Some delivery\<rparr>)], Some delivery)))))"

text \<open>The second half, on the projection the delivery answered with.\<close>

definition acknowledge_writes :: "alarm_projection \<Rightarrow> alarm_journal option \<Rightarrow> alarm_write list" where
  "acknowledge_writes projection stored =
     (case stored of
        Some current \<Rightarrow>
          (if pj_generation projection < pj_generation (jn_projection current) then []
           else [Save \<lparr>jn_delivery = None, jn_projection = projection\<rparr>, apply_when (pj_when projection)])
      | None \<Rightarrow> [Save \<lparr>jn_delivery = None, jn_projection = projection\<rparr>, apply_when (pj_when projection)])"

section \<open>The process\<close>

text \<open>
  A call that waits for its turn on \<open>#tail\<close>; \<open>Finish\<close> is the second half of a \<open>fire\<close>, for the delivery of a
  generation. What follows the writes of a call: nothing, the attempt to deliver, or the end of a \<open>fire\<close>.
\<close>

datatype alarm_call = Project alarm_projection | Reconcile | Fire int | Finish nat alarm_projection

datatype alarm_ending = Nothing_more | Attempt int nat | Delivered nat

text \<open>
  The browser keeps the journal and the alarm; the process has the queue, the call whose writes are
  being awaited, \<open>#activeDeliveries\<close> and the calls of \<open>deliver\<close> that are out, with their scheduled time and
  generation. \<open>co_up\<close> says whether the process runs, \<open>co_failed\<close> whether one of the host's operations has
  been rejected since it started.
\<close>

record coordinator =
  co_journal :: "alarm_journal option"
  co_alarm :: "int option"
  co_now :: int
  co_up :: bool
  co_queue :: "alarm_call list"
  co_current :: "(alarm_write list \<times> alarm_ending) option"
  co_active :: "nat set"
  co_delivering :: "(int \<times> nat) list"
  co_failed :: bool

definition enqueue_call :: "alarm_call \<Rightarrow> coordinator \<Rightarrow> coordinator" where
  "enqueue_call c s = s\<lparr>co_queue := co_queue s @ [c]\<rparr>"

text \<open>A call has its turn: \<open>store.load\<close> answers. \<open>Inl\<close> is an operation that throws.\<close>

definition decide :: "alarm_call \<Rightarrow> coordinator \<Rightarrow> js_exn + alarm_write list \<times> alarm_ending" where
  "decide c s =
     (case c of
        Project p \<Rightarrow> Inr (project_writes p (co_journal s), Nothing_more)
      | Reconcile \<Rightarrow> Inr (reconcile_writes (co_now s) (co_journal s), Nothing_more)
      | Fire t \<Rightarrow> (case fire_attempt (co_now s) t (co_journal s) of
            Inl e \<Rightarrow> Inl e
          | Inr (ws, None) \<Rightarrow> Inr (ws, Nothing_more)
          | Inr (ws, Some d) \<Rightarrow> Inr (ws, Attempt t (dv_generation d)))
      | Finish g p \<Rightarrow> Inr (acknowledge_writes p (co_journal s), Delivered g))"

text \<open>The \<open>finally\<close> of \<open>fire\<close>.\<close>

definition forget_active :: "nat \<Rightarrow> coordinator \<Rightarrow> coordinator" where
  "forget_active g s = s\<lparr>co_active := co_active s - {g}\<rparr>"

text \<open>A call that is rejected before its writes are done.\<close>

definition reject_ending :: "alarm_ending \<Rightarrow> coordinator \<Rightarrow> coordinator" where
  "reject_ending e s = (case e of Delivered g \<Rightarrow> forget_active g s | _ \<Rightarrow> s)"

definition take_turn :: "coordinator \<Rightarrow> coordinator" where
  "take_turn s = (case co_queue s of
     [] \<Rightarrow> s
   | c # q \<Rightarrow> (case decide c s of
        Inl e \<Rightarrow> s\<lparr>co_queue := q\<rparr>
      | Inr x \<Rightarrow> s\<lparr>co_queue := q, co_current := Some x\<rparr>))"

definition load_fails :: "coordinator \<Rightarrow> coordinator" where
  "load_fails s = (case co_queue s of
     [] \<Rightarrow> s
   | c # q \<Rightarrow> (case c of Finish g p \<Rightarrow> forget_active g | _ \<Rightarrow> id) (s\<lparr>co_queue := q, co_failed := True\<rparr>))"

definition write_alarm :: "alarm_write \<Rightarrow> coordinator \<Rightarrow> coordinator" where
  "write_alarm w s = (case w of
     Save j \<Rightarrow> s\<lparr>co_journal := Some j\<rparr>
   | Arm t \<Rightarrow> s\<lparr>co_alarm := Some t\<rparr>
   | Disarm \<Rightarrow> s\<lparr>co_alarm := None\<rparr>)"

definition write_next :: "coordinator \<Rightarrow> coordinator" where
  "write_next s = (case co_current s of
     Some (w # ws, e) \<Rightarrow> (write_alarm w s)\<lparr>co_current := Some (ws, e)\<rparr>
   | _ \<Rightarrow> s)"

definition write_fails :: "coordinator \<Rightarrow> coordinator" where
  "write_fails s = (case co_current s of
     Some (w # ws, e) \<Rightarrow> reject_ending e (s\<lparr>co_current := None, co_failed := True\<rparr>)
   | _ \<Rightarrow> s)"

text \<open>The writes are done.\<close>

definition end_call :: "coordinator \<Rightarrow> coordinator" where
  "end_call s = (case co_current s of
     Some ([], e) \<Rightarrow> (let t = s\<lparr>co_current := None\<rparr> in
       case e of
         Nothing_more \<Rightarrow> t
       | Delivered g \<Rightarrow> forget_active g t
       | Attempt at g \<Rightarrow> (if g \<in> co_active s then t
           else t\<lparr>co_active := insert g (co_active s), co_delivering := co_delivering s @ [(at, g)]\<rparr>))
   | _ \<Rightarrow> s)"

text \<open>\<open>deliver\<close> answers with a projection, or rejects (or answers with something else).\<close>

definition deliver_answers :: "nat \<Rightarrow> alarm_projection \<Rightarrow> coordinator \<Rightarrow> coordinator" where
  "deliver_answers i p s = (if i < length (co_delivering s)
     then enqueue_call (Finish (snd (co_delivering s ! i)) p)
       (s\<lparr>co_delivering := take i (co_delivering s) @ drop (Suc i) (co_delivering s)\<rparr>) else s)"

definition deliver_fails :: "nat \<Rightarrow> coordinator \<Rightarrow> coordinator" where
  "deliver_fails i s = (if i < length (co_delivering s)
     then forget_active (snd (co_delivering s ! i))
       (s\<lparr>co_delivering := take i (co_delivering s) @ drop (Suc i) (co_delivering s)\<rparr>) else s)"

text \<open>
  The process is stopped and all it has is lost; the process starts, and the host calls \<open>reconcile\<close>, as
  \<open>examples/extension/src/background.ts\<close> does.
\<close>

definition stop_process :: "coordinator \<Rightarrow> coordinator" where
  "stop_process s = s\<lparr>co_up := False, co_queue := [], co_current := None, co_active := {}, co_delivering := []\<rparr>"

definition start_process :: "coordinator \<Rightarrow> coordinator" where
  "start_process s = s\<lparr>co_up := True, co_queue := [Reconcile], co_current := None, co_active := {}, co_delivering := [],
     co_failed := False\<rparr>"

definition first_run :: "int \<Rightarrow> coordinator" where
  "first_run now = \<lparr>co_journal = None, co_alarm = None, co_now = now, co_up = False, co_queue = [], co_current = None,
     co_active = {}, co_delivering = [], co_failed = False\<rparr>"

text \<open>
  The alarm fires once, not before its time, and the browser calls \<open>fire\<close>; any caller may call \<open>fire\<close> with a
  time of its own, \<open>project\<close> and \<open>reconcile\<close>.
\<close>

inductive co_step :: "coordinator \<Rightarrow> coordinator \<Rightarrow> bool" where
  calls: "co_up s \<Longrightarrow> c = Reconcile \<or> c = Project p \<or> c = Fire at \<Longrightarrow> co_step s (enqueue_call c s)"
| alarm_fires: "co_up s \<Longrightarrow> co_alarm s = Some at \<Longrightarrow> at \<le> co_now s \<Longrightarrow> co_step s (enqueue_call (Fire at) (s\<lparr>co_alarm := None\<rparr>))"
| takes_turn: "co_up s \<Longrightarrow> co_current s = None \<Longrightarrow> co_step s (take_turn s)"
| load_rejects: "co_up s \<Longrightarrow> co_current s = None \<Longrightarrow> co_step s (load_fails s)"
| writes: "co_up s \<Longrightarrow> co_step s (write_next s)"
| write_rejects: "co_up s \<Longrightarrow> co_step s (write_fails s)"
| ends_call: "co_up s \<Longrightarrow> co_step s (end_call s)"
| answers: "co_up s \<Longrightarrow> co_step s (deliver_answers i p s)"
| rejects: "co_up s \<Longrightarrow> co_step s (deliver_fails i s)"
| time_passes: "co_now s \<le> t \<Longrightarrow> co_step s (s\<lparr>co_now := t\<rparr>)"
| stops: "co_up s \<Longrightarrow> co_step s (stop_process s)"
| starts: "\<not> co_up s \<Longrightarrow> co_step s (start_process s)"

inductive co_reach :: "coordinator \<Rightarrow> bool" where
  first: "co_reach (first_run now)"
| more: "co_reach s \<Longrightarrow> co_step s t \<Longrightarrow> co_reach t"

section \<open>The alarm follows the journal\<close>



definition left_to_write :: "coordinator \<Rightarrow> alarm_write list" where
  "left_to_write s = (case co_current s of None \<Rightarrow> [] | Some (ws, _) \<Rightarrow> ws)"



lemma retry_delay_ms: "alarm_retry_delay_ms (min (int k) (ALARM_RETRY_MAX_TRIES - 1)) = Inr (2000 * 2 ^ min k 5)"
proof -
  have "nat (min (int k) 5) = min k 5" by simp
  then show ?thesis
    by (simp add: alarm_retry_delay_ms_def ALARM_RETRY_MAX_TRIES_def RETRY_BACKOFF_MAX_def ALARM_RETRY_START_SECONDS_def push_bit_eq_mult)
qed


text \<open>\<open>fire\<close> never throws before its first write.\<close>

lemma fire_attempt_eq:
  "fire_attempt now t stored =
     (let current = (case stored of Some j \<Rightarrow> j
        | None \<Rightarrow> \<lparr>jn_delivery = None, jn_projection = \<lparr>pj_generation = 0, pj_when = Some t\<rparr>\<rparr>)
      in Inr (case wake_of current of
           None \<Rightarrow> ([], None)
         | Some w \<Rightarrow> (if t < w then ([Arm w], None)
              else (let k = (case jn_delivery current of
                        Some d \<Rightarrow> if dv_generation d = pj_generation (jn_projection current) then dv_retry d else 0
                      | None \<Rightarrow> 0);
                  d = \<lparr>dv_generation = pj_generation (jn_projection current),
                       dv_retry = nat (min (int k + 1) ALARM_RETRY_MAX_TRIES), dv_wake = now + 2000 * 2 ^ min k 5\<rparr>
                in ([Arm (dv_wake d), Save (current\<lparr>jn_delivery := Some d\<rparr>)], Some d)))))"
  by (simp add: fire_attempt_def retry_delay_ms Let_def split: option.split)

lemma decide_total: "\<exists>x. decide c s = Inr x"
  by (cases c) (simp_all add: decide_def fire_attempt_eq Let_def split: option.split prod.split)





lemma left_simps [simp]: "co_current s = None \<Longrightarrow> left_to_write s = []" "co_current s = Some (ws, e) \<Longrightarrow> left_to_write s = ws"
  by (simp_all add: left_to_write_def)










section \<open>One delivery of a generation at a time\<close>

definition finishing :: "alarm_call list \<Rightarrow> nat list" where
  "finishing q = concat (map (\<lambda>c. case c of Finish g p \<Rightarrow> [g] | _ \<Rightarrow> []) q)"

definition ending_of :: "coordinator \<Rightarrow> nat list" where
  "ending_of s = (case co_current s of Some (ws, Delivered g) \<Rightarrow> [g] | _ \<Rightarrow> [])"

definition one_each :: "coordinator \<Rightarrow> bool" where
  "one_each s \<longleftrightarrow> distinct (ending_of s @ finishing (co_queue s) @ map snd (co_delivering s)) \<and>
     co_active s = set (ending_of s @ finishing (co_queue s) @ map snd (co_delivering s))"

lemma finishing_simps [simp]: "finishing [] = []" "finishing (q @ q') = finishing q @ finishing q'"
  "finishing (c # q) = (case c of Finish g p \<Rightarrow> [g] | _ \<Rightarrow> []) @ finishing q"
  by (simp_all add: finishing_def)

lemma take_one:
  assumes "i < length xs" "distinct (A @ map snd xs)" "B = set (A @ map snd xs)"
  shows "distinct ((A @ [snd (xs ! i)]) @ map snd (take i xs @ drop (Suc i) xs))"
    "B = set ((A @ [snd (xs ! i)]) @ map snd (take i xs @ drop (Suc i) xs))"
    "distinct (A @ map snd (take i xs @ drop (Suc i) xs))"
    "B - {snd (xs ! i)} = set (A @ map snd (take i xs @ drop (Suc i) xs))"
proof -
  have x: "xs = take i xs @ xs ! i # drop (Suc i) xs" using assms(1) by (simp add: id_take_nth_drop)
  obtain P Q y where xs: "xs = P @ y # Q" "take i xs = P" "drop (Suc i) xs = Q" "xs ! i = y" using x by blast
  show "distinct ((A @ [snd (xs ! i)]) @ map snd (take i xs @ drop (Suc i) xs))"
    "B = set ((A @ [snd (xs ! i)]) @ map snd (take i xs @ drop (Suc i) xs))"
    "distinct (A @ map snd (take i xs @ drop (Suc i) xs))"
    "B - {snd (xs ! i)} = set (A @ map snd (take i xs @ drop (Suc i) xs))"
    using assms(2,3) unfolding xs(2-4) unfolding xs(1) by auto
qed

lemma delivery_left:
  assumes "one_each s" "i < length (co_delivering s)"
  shows "one_each (deliver_answers i p s)" "one_each (deliver_fails i s)"
proof -
  note o = take_one [OF assms(2), of "ending_of s @ finishing (co_queue s)" "co_active s"] assms(1) [unfolded one_each_def]
  have e: "ending_of (s\<lparr>co_delivering := D, co_queue := Q\<rparr>) = ending_of s" "ending_of (s\<lparr>co_delivering := D, co_active := Q'\<rparr>) = ending_of s"
    for D Q Q' by (simp_all add: ending_of_def)
  show "one_each (deliver_answers i p s)" using o(1,2,5) assms(2)
    unfolding one_each_def deliver_answers_def enqueue_call_def by (auto simp: ending_of_def split: option.splits)
  show "one_each (deliver_fails i s)" using o(3,4,5) assms(2)
    unfolding one_each_def deliver_fails_def forget_active_def by (auto simp: ending_of_def split: option.splits)
qed

lemma decide_ending: "decide c s = Inr (ws, Delivered g) \<Longrightarrow> \<exists>p. c = Finish g p"
  "decide (Finish g p) s = Inr (ws, e) \<Longrightarrow> e = Delivered g"
  by (cases c; auto simp: decide_def split: sum.splits option.splits) (auto simp: decide_def)

lemma turn_one:
  assumes "one_each s" "co_current s = None"
  shows "one_each (take_turn s)"
proof (cases "co_queue s")
  case (Cons c q)
  obtain ws e where d: "decide c s = Inr (ws, e)" using decide_total [of c s] by auto
  have "ending_of (take_turn s) @ finishing q = finishing (co_queue s)"
    using decide_ending(1) [of c s ws] decide_ending(2) [of _ _ s ws e] d Cons
    by (cases c; cases e) (auto simp: take_turn_def ending_of_def)
  moreover have "co_queue (take_turn s) = q" "co_active (take_turn s) = co_active s" "co_delivering (take_turn s) = co_delivering s"
    using d Cons by (simp_all add: take_turn_def)
  ultimately show ?thesis using assms by (simp add: one_each_def ending_of_def flip: append_assoc)
qed (use assms in \<open>simp add: take_turn_def\<close>)

lemma forget_ended:
  assumes "co_current s = Some (ws, Delivered g)" "one_each s"
  shows "one_each (forget_active g (s\<lparr>co_current := None\<rparr>))" "one_each (forget_active g (s\<lparr>co_current := None, co_failed := True\<rparr>))"
  using assms by (simp_all add: one_each_def ending_of_def forget_active_def)

lemma forget_unloaded:
  assumes "co_queue s = Finish g p # q" "co_current s = None" "one_each s"
  shows "one_each (forget_active g (s\<lparr>co_queue := q, co_failed := True\<rparr>))"
  using assms by (simp add: one_each_def ending_of_def forget_active_def)

lemma co_step_one:
  assumes "co_step s t" "one_each s"
  shows "one_each t"
  using assms
proof (induction rule: co_step.induct)
  case (calls s c p at)
  then show ?case by (auto simp: enqueue_call_def one_each_def ending_of_def)
next
  case (alarm_fires s at)
  then show ?case by (simp add: enqueue_call_def one_each_def ending_of_def)
next
  case (takes_turn s)
  then show ?case by (simp add: turn_one)
next
  case (load_rejects s)
  show ?case
  proof (cases "co_queue s")
    case (Cons c q)
    show ?thesis
    proof (cases "\<exists>g p. c = Finish g p")
      case True
      then show ?thesis using load_rejects Cons forget_unloaded by (auto simp: load_fails_def)
    next
      case False
      then show ?thesis using load_rejects Cons
        by (cases c) (simp_all add: load_fails_def one_each_def ending_of_def)
    qed
  qed (use load_rejects in \<open>simp add: load_fails_def\<close>)
next
  case (writes s)
  have "ending_of (write_next s) = ending_of s" "co_queue (write_next s) = co_queue s" "co_active (write_next s) = co_active s"
    "co_delivering (write_next s) = co_delivering s"
    by (simp_all add: write_next_def write_alarm_def ending_of_def split: option.split list.split alarm_write.split alarm_ending.split)
  then show ?case using writes by (simp add: one_each_def)
next
  case (write_rejects s)
  show ?case
  proof (cases "\<exists>w ws e. co_current s = Some (w # ws, e)")
    case True
    then obtain w ws e where c: "co_current s = Some (w # ws, e)" by blast
    then show ?thesis using write_rejects forget_ended(2) [of s "w # ws"]
      by (cases e) (simp_all add: write_fails_def reject_ending_def one_each_def ending_of_def)
  next
    case False
    then have "write_fails s = s" unfolding write_fails_def by (auto split: option.split list.split)
    then show ?thesis using write_rejects by simp
  qed
next
  case (ends_call s)
  show ?case
  proof (cases "\<exists>e. co_current s = Some ([], e)")
    case True
    then obtain e where c: "co_current s = Some ([], e)" by blast
    then show ?thesis using ends_call forget_ended(1) [of s "[]"]
      by (cases e) (auto simp: end_call_def Let_def one_each_def ending_of_def)
  next
    case False
    then have "end_call s = s" unfolding end_call_def by (auto split: option.split list.split)
    then show ?thesis using ends_call by simp
  qed
next
  case (answers s i p)
  then show ?case using delivery_left(1) by (cases "i < length (co_delivering s)") (auto simp: deliver_answers_def)
next
  case (rejects s i)
  then show ?case using delivery_left(2) by (cases "i < length (co_delivering s)") (auto simp: deliver_fails_def)
next
  case (time_passes s t)
  then show ?case by (simp add: one_each_def ending_of_def)
next
  case (stops s)
  then show ?case by (simp add: stop_process_def one_each_def ending_of_def)
next
  case (starts s)
  then show ?case by (simp add: start_process_def one_each_def ending_of_def)
qed

text \<open>
  A generation is delivered once at a time: the calls of \<open>deliver\<close> that are out, and the answers still being
  recorded, are for different generations, and \<open>#activeDeliveries\<close> holds just these.
\<close>

theorem deliveries_exclusive:
  assumes "co_reach s"
  shows "distinct (ending_of s @ finishing (co_queue s) @ map snd (co_delivering s)) \<and>
     co_active s = set (ending_of s @ finishing (co_queue s) @ map snd (co_delivering s))"
proof -
  have "one_each s" using assms
  proof (induction rule: co_reach.induct)
    case (more s t)
    then show ?case using co_step_one by blast
  qed (simp add: first_run_def one_each_def ending_of_def)
  then show ?thesis by (simp add: one_each_def)
qed

end
