(* ===== verification/Alarm_Projector.thy ===== *)
theory Alarm_Projector
  imports Alarm_Coordinator
begin

text \<open>
  \<open>createBrowserAlarmProjector\<close> of \<open>src/src/browser/alarm-coordinator.ts\<close>, the half of the browser alarm
  protocol that runs beside the \<open>AlarmScheduler\<close>: projections leave one at a time, and a delivery is
  acknowledged with the latest of them.
\<close>

section \<open>Projections and waiters\<close>

text \<open>
  A call of \<open>projectWake\<close>: waiting for \<open>tail\<close>, for \<open>nextGeneration\<close>, for \<open>project\<close>; its promise settled; and the
  result recorded by the reaction to it.
\<close>

datatype sent_phase = Queued | Numbering | Projecting nat | Settled "js_exn + alarm_projection"
  | Recorded "js_exn + alarm_projection"

record sent =
  st_when :: "int option"
  st_active :: nat
  st_phase :: sent_phase

text \<open>
  A waiter is its number and the time its wake must be later than. \<open>pr_answers\<close> lists the waiters that were
  answered, each with the answer and the number of the projection it was answered from.
\<close>

record answer =
  an_waiter :: nat
  an_after :: int
  an_result :: "js_exn + alarm_projection"
  an_sent :: nat

record projector =
  pr_sents :: "sent list"
  pr_waiters :: "(nat \<times> int) list"
  pr_next :: nat
  pr_answers :: "answer list"
  pr_generation :: nat

definition new_projector :: "nat \<Rightarrow> projector" where
  "new_projector g = \<lparr>pr_sents = [], pr_waiters = [], pr_next = 0, pr_answers = [], pr_generation = g\<rparr>"

definition answer_of :: "nat \<Rightarrow> js_exn + alarm_projection \<Rightarrow> nat \<times> int \<Rightarrow> answer" where
  "answer_of k r w = \<lparr>an_waiter = fst w, an_after = snd w, an_result = r, an_sent = k\<rparr>"

definition still_waits :: "int option \<Rightarrow> nat \<times> int \<Rightarrow> bool" where
  "still_waits wake w \<longleftrightarrow> (case wake of None \<Rightarrow> False | Some t \<Rightarrow> t \<le> snd w)"

definition settle_waiters :: "projector \<Rightarrow> projector" where
  "settle_waiters s =
     (if pr_sents s = [] then s
      else (let latest = last (pr_sents s); k = length (pr_sents s) - 1 in
        case st_phase latest of
          Recorded (Inl e) \<Rightarrow>
            s\<lparr>pr_waiters := [], pr_answers := pr_answers s @ map (answer_of k (Inl e)) (pr_waiters s)\<rparr>
        | Recorded (Inr p) \<Rightarrow>
            (if st_active latest \<noteq> 0 then s
             else s\<lparr>pr_waiters := filter (still_waits (pj_when p)) (pr_waiters s),
                    pr_answers := pr_answers s @ map (answer_of k (Inr p)) (filter (\<lambda>w. \<not> still_waits (pj_when p) w) (pr_waiters s))\<rparr>)
        | _ \<Rightarrow> s))"

definition project_wake :: "int option \<Rightarrow> nat \<Rightarrow> projector \<Rightarrow> projector" where
  "project_wake w n s = s\<lparr>pr_sents := pr_sents s @ [\<lparr>st_when = w, st_active = n, st_phase = Queued\<rparr>]\<rparr>"

definition acknowledge :: "int \<Rightarrow> projector \<Rightarrow> projector" where
  "acknowledge scheduled_time s =
     (let t = s\<lparr>pr_waiters := pr_waiters s @ [(pr_next s, scheduled_time)], pr_next := Suc (pr_next s)\<rparr>
      in if pr_sents s = [] then settle_waiters t
         else (case st_phase (last (pr_sents s)) of
             Recorded (Inl _) \<Rightarrow> project_wake (st_when (last (pr_sents s))) (st_active (last (pr_sents s))) t
           | _ \<Rightarrow> settle_waiters t))"

section \<open>Steps\<close>

definition mark_sent :: "nat \<Rightarrow> sent_phase \<Rightarrow> projector \<Rightarrow> projector" where
  "mark_sent i ph s = s\<lparr>pr_sents := (pr_sents s)[i := (pr_sents s ! i)\<lparr>st_phase := ph\<rparr>]\<rparr>"

definition is_settled :: "sent_phase \<Rightarrow> bool" where
  "is_settled ph \<longleftrightarrow> (case ph of Settled _ \<Rightarrow> True | Recorded _ \<Rightarrow> True | _ \<Rightarrow> False)"

definition phase_at :: "projector \<Rightarrow> nat \<Rightarrow> sent_phase" where
  "phase_at s i = st_phase (pr_sents s ! i)"

definition record_result :: "nat \<Rightarrow> projector \<Rightarrow> projector" where
  "record_result i s = (case phase_at s i of Settled r \<Rightarrow> settle_waiters (mark_sent i (Recorded r) s) | _ \<Rightarrow> s)"

text \<open>
  The scheduler projects, the host acknowledges, and the promises settle. A projection starts when those
  before it have settled; \<open>nextGeneration\<close> gives numbers that rise strictly.
\<close>

inductive pr_step :: "projector \<Rightarrow> projector \<Rightarrow> bool" where
  wakes: "pr_step s (project_wake w n s)"
| acknowledges: "pr_step s (acknowledge t s)"
| begins: "i < length (pr_sents s) \<Longrightarrow> phase_at s i = Queued \<Longrightarrow> (\<forall>j < i. is_settled (phase_at s j)) \<Longrightarrow>
    pr_step s (mark_sent i Numbering s)"
| numbers: "i < length (pr_sents s) \<Longrightarrow> phase_at s i = Numbering \<Longrightarrow> pr_generation s < g \<Longrightarrow>
    pr_step s (mark_sent i (Projecting g) (s\<lparr>pr_generation := g\<rparr>))"
| projects: "i < length (pr_sents s) \<Longrightarrow> phase_at s i = Projecting g \<Longrightarrow>
    pr_step s (mark_sent i (Settled (Inr \<lparr>pj_generation = g, pj_when = st_when (pr_sents s ! i)\<rparr>)) s)"
| fails: "i < length (pr_sents s) \<Longrightarrow> phase_at s i = Numbering \<or> phase_at s i = Projecting g \<Longrightarrow>
    pr_step s (mark_sent i (Settled (Inl e)) s)"
| records: "i < length (pr_sents s) \<Longrightarrow> phase_at s i = Settled r \<Longrightarrow> pr_step s (record_result i s)"

inductive pr_reach :: "projector \<Rightarrow> bool" where
  pr_first: "pr_reach (new_projector g)"
| pr_more: "pr_reach s \<Longrightarrow> pr_step s t \<Longrightarrow> pr_reach t"

section \<open>The invariant\<close>

definition number_of_phase :: "sent_phase \<Rightarrow> nat option" where
  "number_of_phase ph = (case ph of Projecting g \<Rightarrow> Some g | Settled (Inr p) \<Rightarrow> Some (pj_generation p)
     | Recorded (Inr p) \<Rightarrow> Some (pj_generation p) | _ \<Rightarrow> None)"

text \<open>Settled ones first, then at most one under way, then the queued ones.\<close>

definition in_turn :: "projector \<Rightarrow> bool" where
  "in_turn s \<longleftrightarrow> (\<forall>i j. i < j \<longrightarrow> j < length (pr_sents s) \<longrightarrow> phase_at s j \<noteq> Queued \<longrightarrow> is_settled (phase_at s i))"

definition rising :: "projector \<Rightarrow> bool" where
  "rising s \<longleftrightarrow> (\<forall>i < length (pr_sents s). \<forall>g. number_of_phase (phase_at s i) = Some g \<longrightarrow> g \<le> pr_generation s \<and>
     (\<forall>j < i. \<forall>h. number_of_phase (phase_at s j) = Some h \<longrightarrow> h < g))"

definition own_wake :: "projector \<Rightarrow> bool" where
  "own_wake s \<longleftrightarrow> (\<forall>i < length (pr_sents s). \<forall>p. phase_at s i = Settled (Inr p) \<or> phase_at s i = Recorded (Inr p) \<longrightarrow>
     pj_when p = st_when (pr_sents s ! i))"

definition answered_right :: "projector \<Rightarrow> bool" where
  "answered_right s \<longleftrightarrow> (\<forall>a \<in> set (pr_answers s). an_sent a < length (pr_sents s) \<and>
     phase_at s (an_sent a) = Recorded (an_result a) \<and>
     (\<forall>p. an_result a = Inr p \<longrightarrow> st_active (pr_sents s ! an_sent a) = 0 \<and> (\<forall>t. pj_when p = Some t \<longrightarrow> an_after a < t)))"

text \<open>Nobody waits who could be answered.\<close>

definition none_stuck :: "projector \<Rightarrow> bool" where
  "none_stuck s \<longleftrightarrow> pr_sents s \<noteq> [] \<longrightarrow>
     (\<forall>e. phase_at s (length (pr_sents s) - 1) = Recorded (Inl e) \<longrightarrow> pr_waiters s = []) \<and>
     (\<forall>p. phase_at s (length (pr_sents s) - 1) = Recorded (Inr p) \<longrightarrow> st_active (pr_sents s ! (length (pr_sents s) - 1)) = 0 \<longrightarrow>
       (\<forall>w \<in> set (pr_waiters s). still_waits (pj_when p) w))"

lemma settle_keeps [simp]: "pr_sents (settle_waiters s) = pr_sents s" "pr_generation (settle_waiters s) = pr_generation s"
  "phase_at (settle_waiters s) i = phase_at s i"
  by (simp_all add: settle_waiters_def phase_at_def Let_def split: sent_phase.split sum.split)

lemma mark_sent_simps [simp]: "length (pr_sents (mark_sent i ph s)) = length (pr_sents s)"
  "pr_generation (mark_sent i ph s) = pr_generation s" "pr_waiters (mark_sent i ph s) = pr_waiters s"
  "pr_answers (mark_sent i ph s) = pr_answers s" "pr_sents (mark_sent i ph s) = [] \<longleftrightarrow> pr_sents s = []"
  by (simp_all add: mark_sent_def)

lemma phase_at_mark: "i < length (pr_sents s) \<Longrightarrow> phase_at (mark_sent i ph s) j = (if j = i then ph else phase_at s j)"
  by (simp add: mark_sent_def phase_at_def nth_list_update)

lemma sent_at_set: "i < length (pr_sents s) \<Longrightarrow> st_when (pr_sents (mark_sent i ph s) ! j) = st_when (pr_sents s ! j)"
  "i < length (pr_sents s) \<Longrightarrow> st_active (pr_sents (mark_sent i ph s) ! j) = st_active (pr_sents s ! j)"
  by (simp_all add: mark_sent_def nth_list_update)

lemma last_phase: "pr_sents s \<noteq> [] \<Longrightarrow> st_phase (last (pr_sents s)) = phase_at s (length (pr_sents s) - 1)"
  by (simp add: phase_at_def last_conv_nth)

lemma last_active: "pr_sents s \<noteq> [] \<Longrightarrow> st_active (last (pr_sents s)) = st_active (pr_sents s ! (length (pr_sents s) - 1))"
  by (simp add: last_conv_nth)

lemma settle_none_stuck: "none_stuck (settle_waiters s)"
proof (cases "pr_sents s = []")
  case False
  then show ?thesis unfolding none_stuck_def settle_keeps
    by (auto simp: settle_waiters_def Let_def last_phase last_active)
qed (simp add: none_stuck_def)

lemma settle_right:
  assumes "answered_right s"
  shows "answered_right (settle_waiters s)"
proof (cases "pr_sents s = []")
  case False
  let ?k = "length (pr_sents s) - 1"
  have k: "?k < length (pr_sents s)" using False by simp
  show ?thesis using assms False k unfolding answered_right_def
    by (auto simp: settle_waiters_def Let_def answer_of_def last_phase [OF False] last_active [OF False] still_waits_def phase_at_def
        split: sent_phase.split sum.split option.splits)
qed (use assms in \<open>simp add: settle_waiters_def\<close>)

text \<open>A phase that changes, other than to or from a recorded result.\<close>

definition recorded :: "sent_phase \<Rightarrow> bool" where "recorded ph \<longleftrightarrow> (\<exists>r. ph = Recorded r)"

lemma mark_sent_right:
  assumes "i < length (pr_sents s)" "\<not> recorded (phase_at s i)" "answered_right s"
  shows "answered_right (mark_sent i ph s)"
  using assms(2,3) unfolding answered_right_def recorded_def
  by (auto simp: phase_at_mark [OF assms(1)] sent_at_set [OF assms(1)])

lemma mark_sent_stuck:
  assumes "i < length (pr_sents s)" "\<not> recorded (phase_at s i)" "\<not> recorded ph" "none_stuck s"
  shows "none_stuck (mark_sent i ph s)"
proof -
  have "pr_sents s \<noteq> []" using assms(1) by auto
  then show ?thesis using assms unfolding none_stuck_def recorded_def
    by (auto simp: phase_at_mark sent_at_set)
qed

definition pr_inv :: "projector \<Rightarrow> bool" where
  "pr_inv s \<longleftrightarrow> in_turn s \<and> rising s \<and> own_wake s \<and> answered_right s \<and> none_stuck s"

lemma settle_order: "in_turn (settle_waiters s) = in_turn s" "rising (settle_waiters s) = rising s" "own_wake (settle_waiters s) = own_wake s"
  by (simp_all add: in_turn_def rising_def own_wake_def)

lemma project_wake_inv:
  assumes "in_turn s" "rising s" "own_wake s" "answered_right s"
  shows "pr_inv (project_wake w n s)"
proof -
  let ?t = "project_wake w n s"
  have l: "length (pr_sents ?t) = Suc (length (pr_sents s))" "pr_generation ?t = pr_generation s" "pr_answers ?t = pr_answers s"
    by (simp_all add: project_wake_def)
  have ph: "phase_at ?t i = (if i = length (pr_sents s) then Queued else phase_at s i)" if "i < Suc (length (pr_sents s))" for i
    using that by (simp add: project_wake_def phase_at_def nth_append)
  have at: "pr_sents ?t ! i = pr_sents s ! i" if "i < length (pr_sents s)" for i
    using that by (simp add: project_wake_def nth_append)
  have "in_turn ?t" using assms(1) by (auto simp: in_turn_def l ph less_Suc_eq)
  moreover have "rising ?t" using assms(2) by (auto simp: rising_def l ph less_Suc_eq number_of_phase_def)
  moreover have "own_wake ?t" using assms(3) by (auto simp: own_wake_def l ph at less_Suc_eq)
  moreover have "answered_right ?t" using assms(4) by (auto simp: answered_right_def l ph at)
  moreover have "none_stuck ?t" by (simp add: none_stuck_def project_wake_def phase_at_def)
  ultimately show ?thesis by (simp add: pr_inv_def)
qed

lemma waiter_irrelevant:
  "in_turn (s\<lparr>pr_waiters := x, pr_next := y\<rparr>) = in_turn s" "rising (s\<lparr>pr_waiters := x, pr_next := y\<rparr>) = rising s"
  "own_wake (s\<lparr>pr_waiters := x, pr_next := y\<rparr>) = own_wake s" "answered_right (s\<lparr>pr_waiters := x, pr_next := y\<rparr>) = answered_right s"
  by (simp_all add: in_turn_def rising_def own_wake_def answered_right_def phase_at_def)

lemma acknowledge_inv:
  assumes "pr_inv s"
  shows "pr_inv (acknowledge t s)"
proof -
  let ?t = "s\<lparr>pr_waiters := pr_waiters s @ [(pr_next s, t)], pr_next := Suc (pr_next s)\<rparr>"
  have i: "in_turn ?t" "rising ?t" "own_wake ?t" "answered_right ?t" using assms by (simp_all add: pr_inv_def waiter_irrelevant)
  have "pr_inv (settle_waiters ?t)" using i by (simp add: pr_inv_def settle_order settle_right settle_none_stuck)
  moreover have "pr_inv (project_wake w n ?t)" for w n by (rule project_wake_inv [OF i])
  ultimately show ?thesis unfolding acknowledge_def Let_def
    by (auto split: sent_phase.split sum.split)
qed

lemma unnumbered_later:
  assumes "in_turn s" "\<not> is_settled (phase_at s i)" "i < j" "j < length (pr_sents s)"
  shows "phase_at s j = Queued"
  using assms unfolding in_turn_def by blast

lemma rising_keep:
  assumes "i < length (pr_sents s)" "rising s" "number_of_phase ph = None \<or> number_of_phase ph = number_of_phase (phase_at s i)"
  shows "rising (mark_sent i ph s)"
  using assms unfolding rising_def by (auto simp: phase_at_mark [OF assms(1)] split: if_splits)

lemma in_turn_keep:
  assumes "i < length (pr_sents s)" "in_turn s" "phase_at s i = Queued \<longrightarrow> (\<forall>j < i. is_settled (phase_at s j))"
    "is_settled (phase_at s i) \<longrightarrow> is_settled ph"
  shows "in_turn (mark_sent i ph s)"
  using assms unfolding in_turn_def by (auto simp: phase_at_mark [OF assms(1)])

lemma pr_step_inv:
  assumes "pr_step s t" "pr_inv s"
  shows "pr_inv t"
  using assms
proof (induction rule: pr_step.induct)
  case (wakes s w n)
  then show ?case by (simp add: pr_inv_def project_wake_inv [unfolded pr_inv_def])
next
  case (acknowledges s t)
  then show ?case by (simp add: acknowledge_inv)
next
  case (begins i s)
  then have "in_turn (mark_sent i Numbering s)" "rising (mark_sent i Numbering s)" "own_wake (mark_sent i Numbering s)"
    by (auto simp: pr_inv_def own_wake_def phase_at_mark sent_at_set number_of_phase_def is_settled_def [of Queued]
        intro!: in_turn_keep rising_keep)
  then show ?case using begins mark_sent_right [of i s Numbering] mark_sent_stuck [of i s Numbering]
    by (simp add: pr_inv_def recorded_def)
next
  case (numbers i s g)
  let ?u = "s\<lparr>pr_generation := g\<rparr>" and ?t = "mark_sent i (Projecting g) (s\<lparr>pr_generation := g\<rparr>)"
  have u: "pr_sents ?u = pr_sents s" "phase_at ?u = phase_at s" by (simp_all add: phase_at_def fun_eq_iff)
  have ui: "in_turn ?u" "own_wake ?u" "answered_right ?u" "none_stuck ?u"
    using numbers(4) by (simp_all add: pr_inv_def in_turn_def own_wake_def answered_right_def none_stuck_def u)
  have later: "number_of_phase (phase_at s j) = None" if "i < j" "j < length (pr_sents s)" for j
    using unnumbered_later [of s i j] numbers that by (simp add: pr_inv_def is_settled_def number_of_phase_def)
  have ris: "rising s" using numbers by (simp add: pr_inv_def)
  then have old: "number_of_phase (phase_at s j) = Some h \<Longrightarrow> j < length (pr_sents s) \<Longrightarrow> h < g" for j h
    using numbers(3) unfolding rising_def by fastforce
  have "rising ?t" unfolding rising_def
  proof (intro allI impI)
    fix j h assume j: "j < length (pr_sents ?t)" "number_of_phase (phase_at ?t j) = Some h"
    have pt: "phase_at ?t k = (if k = i then Projecting g else phase_at s k)" for k
      using numbers(1) by (simp add: phase_at_mark u)
    show "h \<le> pr_generation ?t \<and> (\<forall>k<j. \<forall>h'. number_of_phase (phase_at ?t k) = Some h' \<longrightarrow> h' < h)"
    proof (cases "j = i")
      case True
      then have "h = g" using j(2) by (simp add: pt number_of_phase_def)
      then show ?thesis using old True j(1) by (auto simp: pt u)
    next
      case False
      then have h: "number_of_phase (phase_at s j) = Some h" "j < length (pr_sents s)" using j by (simp_all add: pt u)
      then have "\<not> i < j" using later by fastforce
      then show ?thesis using h old [OF h] ris False by (auto simp: pt rising_def)
    qed
  qed
  moreover have "in_turn ?t" using numbers ui by (intro in_turn_keep) (simp_all add: u is_settled_def)
  moreover have "own_wake ?t" using ui numbers by (auto simp: own_wake_def phase_at_mark u sent_at_set)
  ultimately show ?case using numbers ui mark_sent_right [of i ?u "Projecting g"] mark_sent_stuck [of i ?u "Projecting g"]
    by (simp add: pr_inv_def recorded_def u)
next
  case (projects i s g)
  let ?ph = "Settled (Inr \<lparr>pj_generation = g, pj_when = st_when (pr_sents s ! i)\<rparr>)"
  have "in_turn (mark_sent i ?ph s)" "rising (mark_sent i ?ph s)" "own_wake (mark_sent i ?ph s)"
    using projects by (auto simp: pr_inv_def own_wake_def phase_at_mark sent_at_set number_of_phase_def is_settled_def
        intro!: in_turn_keep rising_keep)
  then show ?case using projects mark_sent_right [of i s ?ph] mark_sent_stuck [of i s ?ph]
    by (simp add: pr_inv_def recorded_def)
next
  case (fails i s g e)
  have "in_turn (mark_sent i (Settled (Inl e)) s)" "rising (mark_sent i (Settled (Inl e)) s)" "own_wake (mark_sent i (Settled (Inl e)) s)"
    using fails by (auto simp: pr_inv_def own_wake_def phase_at_mark sent_at_set number_of_phase_def is_settled_def
        intro!: in_turn_keep rising_keep)
  then show ?case using fails mark_sent_right [of i s "Settled (Inl e)"] mark_sent_stuck [of i s "Settled (Inl e)"]
    by (auto simp: pr_inv_def recorded_def)
next
  case (records i s r)
  have "in_turn (mark_sent i (Recorded r) s)" "rising (mark_sent i (Recorded r) s)" "own_wake (mark_sent i (Recorded r) s)"
    using records by (auto simp: pr_inv_def own_wake_def phase_at_mark sent_at_set number_of_phase_def is_settled_def
        split: sum.splits intro!: in_turn_keep rising_keep)
  then show ?case using records mark_sent_right [of i s "Recorded r"]
    by (simp add: pr_inv_def recorded_def record_result_def settle_order settle_right settle_none_stuck)
qed

text \<open>
  A delivery is acknowledged with the latest projection, and never left waiting. Whatever is projected and
  acknowledged, and however the promises settle: the projections are numbered in the order they were
  sent; a waiter that was answered with a projection got the recorded result of a \<open>projectWake\<close> with no
  delivery active, whose wake is the one asked for and absent or later than the delivery; and once the
  latest projection is recorded, nobody waits whom its result can answer.
\<close>

theorem projector_acknowledges:
  assumes "pr_reach s"
  shows "(\<forall>i j g h. i < j \<longrightarrow> j < length (pr_sents s) \<longrightarrow> number_of_phase (phase_at s i) = Some g \<longrightarrow>
       number_of_phase (phase_at s j) = Some h \<longrightarrow> g < h) \<and>
    (\<forall>a \<in> set (pr_answers s). \<forall>p. an_result a = Inr p \<longrightarrow> an_sent a < length (pr_sents s) \<and>
       phase_at s (an_sent a) = Recorded (Inr p) \<and> st_active (pr_sents s ! an_sent a) = 0 \<and>
       pj_when p = st_when (pr_sents s ! an_sent a) \<and> (\<forall>t. pj_when p = Some t \<longrightarrow> an_after a < t)) \<and>
    (\<forall>p. pr_sents s \<noteq> [] \<longrightarrow> st_phase (last (pr_sents s)) = Recorded (Inr p) \<longrightarrow> st_active (last (pr_sents s)) = 0 \<longrightarrow>
       (\<forall>w \<in> set (pr_waiters s). \<exists>t. pj_when p = Some t \<and> t \<le> snd w)) \<and>
    (\<forall>e. pr_sents s \<noteq> [] \<longrightarrow> st_phase (last (pr_sents s)) = Recorded (Inl e) \<longrightarrow> pr_waiters s = [])"
proof -
  have inv: "pr_inv s" using assms
  proof (induction rule: pr_reach.induct)
    case (pr_first g)
    show ?case by (simp add: pr_inv_def in_turn_def rising_def own_wake_def answered_right_def none_stuck_def new_projector_def)
  next
    case (pr_more s t)
    then show ?case using pr_step_inv by blast
  qed
  show ?thesis
  proof (intro conjI)
    show "\<forall>i j g h. i < j \<longrightarrow> j < length (pr_sents s) \<longrightarrow> number_of_phase (phase_at s i) = Some g \<longrightarrow>
       number_of_phase (phase_at s j) = Some h \<longrightarrow> g < h"
      using inv unfolding pr_inv_def rising_def by blast
    show "\<forall>a \<in> set (pr_answers s). \<forall>p. an_result a = Inr p \<longrightarrow> an_sent a < length (pr_sents s) \<and>
       phase_at s (an_sent a) = Recorded (Inr p) \<and> st_active (pr_sents s ! an_sent a) = 0 \<and>
       pj_when p = st_when (pr_sents s ! an_sent a) \<and> (\<forall>t. pj_when p = Some t \<longrightarrow> an_after a < t)"
      using inv unfolding pr_inv_def answered_right_def own_wake_def by fastforce
    show "\<forall>p. pr_sents s \<noteq> [] \<longrightarrow> st_phase (last (pr_sents s)) = Recorded (Inr p) \<longrightarrow> st_active (last (pr_sents s)) = 0 \<longrightarrow>
       (\<forall>w \<in> set (pr_waiters s). \<exists>t. pj_when p = Some t \<and> t \<le> snd w)"
      using inv unfolding pr_inv_def none_stuck_def still_waits_def by (fastforce simp: last_phase last_active split: option.splits)
    show "\<forall>e. pr_sents s \<noteq> [] \<longrightarrow> st_phase (last (pr_sents s)) = Recorded (Inl e) \<longrightarrow> pr_waiters s = []"
      using inv unfolding pr_inv_def none_stuck_def by (auto simp: last_phase)
  qed
qed

end
